(* ===== verification/Prelude.thy ===== *)
theory Prelude
  imports Main "HOL-Library.Word" "HOL-Library.AList"
begin

text \<open>
  Shared base of the development: Go's fixed-width integers, maps, contexts and instants.

  \<^item> Go's \<^verbatim>\<open>int64\<close>, \<^verbatim>\<open>int\<close> (64 bits on the supported platforms) and
    \<^verbatim>\<open>time.Duration\<close> are HOL integers; every addition, subtraction and
    multiplication of the code that can leave the 64-bit range is written with
    \<open>add64\<close>, \<open>sub64\<close> and \<open>mul64\<close>, which wrap around as two's complement does.
  \<^item> \<^verbatim>\<open>uint64\<close>, \<^verbatim>\<open>uint32\<close>, \<^verbatim>\<open>uint16\<close> and bytes are words.
  \<^item> A Go map is an association list with distinct keys.  The order of the list is the order
    in which one \<^verbatim>\<open>range\<close> over the map visits the entries; Go leaves that order
    open, and every lemma below is about every list, hence about every order.
  \<^item> A \<^verbatim>\<open>context.Context\<close> is what its \<^verbatim>\<open>Err\<close> method returns
    at its first, second, \dots consultation inside one call: a context may be cancelled while
    the call runs.
  \<^item> A \<^verbatim>\<open>time.Time\<close> is the number of nanoseconds since the zero instant, so that
    \<^verbatim>\<open>IsZero\<close> is \<open>t = 0\<close> and \<^verbatim>\<open>After\<close> is \<open><\<close>.
\<close>

named_theorems go_arith \<open>facts that remove wrap-around in range\<close>

type_synonym u8 = "8 word"
type_synonym u16 = "16 word"
type_synonym u32 = "32 word"
type_synonym u64 = "64 word"
type_synonym bytes = "u8 list"
type_synonym instant = int
type_synonym duration = int

section \<open>64-bit signed integers\<close>

definition max_int64 :: int where
  "max_int64 = 9223372036854775807"

definition min_int64 :: int where
  "min_int64 = - 9223372036854775808"

definition int64_ok :: "int \<Rightarrow> bool" where
  "int64_ok x \<longleftrightarrow> min_int64 \<le> x \<and> x \<le> max_int64"

definition wrap64 :: "int \<Rightarrow> int" where
  "wrap64 x = (x + 9223372036854775808) mod 18446744073709551616 - 9223372036854775808"

definition add64 :: "int \<Rightarrow> int \<Rightarrow> int" where
  "add64 a b = wrap64 (a + b)"

definition sub64 :: "int \<Rightarrow> int \<Rightarrow> int" where
  "sub64 a b = wrap64 (a - b)"

definition mul64 :: "int \<Rightarrow> int \<Rightarrow> int" where
  "mul64 a b = wrap64 (a * b)"

lemmas int64_defs = int64_ok_def max_int64_def min_int64_def

lemma wrap64_id [go_arith]: "int64_ok x \<Longrightarrow> wrap64 x = x"
  by (simp add: int64_defs wrap64_def)

lemma wrap64_ok [simp]: "int64_ok (wrap64 x)"
  by (simp add: int64_defs wrap64_def)

lemma add64_id [go_arith]: "int64_ok (a + b) \<Longrightarrow> add64 a b = a + b"
  by (simp add: add64_def wrap64_id)

lemma sub64_id [go_arith]: "int64_ok (a - b) \<Longrightarrow> sub64 a b = a - b"
  by (simp add: sub64_def wrap64_id)

lemma mul64_id [go_arith]: "int64_ok (a * b) \<Longrightarrow> mul64 a b = a * b"
  by (simp add: mul64_def wrap64_id)

lemma int64_ok_between:
  "int64_ok a \<Longrightarrow> int64_ok c \<Longrightarrow> a \<le> b \<Longrightarrow> b \<le> c \<Longrightarrow> int64_ok b"
  by (simp add: int64_defs)

lemma int64_ok_nonneg [simp]: "0 \<le> x \<Longrightarrow> int64_ok x \<longleftrightarrow> x \<le> max_int64"
  by (simp add: int64_defs)

lemma wrap64_overflow:
  "max_int64 < x \<Longrightarrow> x \<le> 2 * max_int64 + 1 \<Longrightarrow> wrap64 x = x - 18446744073709551616"
proof -
  assume "max_int64 < x" "x \<le> 2 * max_int64 + 1"
  then have "(x - 9223372036854775808) mod 18446744073709551616 = x - 9223372036854775808"
    by (simp add: max_int64_def)
  moreover have "(x + 9223372036854775808) mod 18446744073709551616
      = ((x - 9223372036854775808) + 18446744073709551616) mod 18446744073709551616"
    by (rule arg_cong [where f = "\<lambda>y. y mod 18446744073709551616"]) simp
  ultimately have "(x + 9223372036854775808) mod 18446744073709551616 = x - 9223372036854775808"
    by (simp only: mod_add_self2)
  then show ?thesis
    by (simp add: wrap64_def)
qed

text \<open>The overflow test the code uses: \<^verbatim>\<open>end := a + b; end < a\<close>.\<close>

lemma add64_no_overflow:
  assumes "int64_ok a" "int64_ok b" "0 \<le> b"
  shows "add64 a b < a \<longleftrightarrow> max_int64 < a + b"
proof (cases "max_int64 < a + b")
  case True
  have "a + b \<le> 2 * max_int64 + 1"
    using assms by (simp add: int64_defs)
  with True have "add64 a b = a + b - 18446744073709551616"
    by (simp add: add64_def wrap64_overflow)
  with True assms show ?thesis
    by (simp add: int64_defs)
next
  case False
  then have "int64_ok (a + b)"
    using assms by (simp add: int64_defs)
  with False assms show ?thesis
    by (simp add: add64_id)
qed

lemma add64_checked:
  assumes "int64_ok a" "int64_ok b" "0 \<le> b" "\<not> add64 a b < a"
  shows "add64 a b = a + b"
proof -
  have "int64_ok (a + b)"
    using add64_no_overflow [OF assms(1-3)] assms by (simp add: int64_defs)
  then show ?thesis by (rule add64_id)
qed

section \<open>Contexts\<close>

datatype ctx_error = Canceled | DeadlineExceeded

type_synonym ctx = "nat \<Rightarrow> ctx_error option"

definition Background :: ctx where
  "Background k = None"

text \<open>Once a context reports an error it keeps reporting it.\<close>

definition ctx_sticky :: "ctx \<Rightarrow> bool" where
  "ctx_sticky c \<longleftrightarrow> (\<forall>k e. c k = Some e \<longrightarrow> c (Suc k) = Some e)"

definition ctx_shift :: "nat \<Rightarrow> ctx \<Rightarrow> ctx" where
  "ctx_shift n c k = c (n + k)"

lemma Background_simps [simp]: "Background k = None" "ctx_shift n Background = Background"
  by (auto simp: Background_def ctx_shift_def)

lemma ctx_sticky_Background [simp]: "ctx_sticky Background"
  by (simp add: ctx_sticky_def)

section \<open>Maps as association lists\<close>

definition map_ok :: "('k \<times> 'v) list \<Rightarrow> bool" where
  "map_ok m \<longleftrightarrow> distinct (map fst m)"

lemma map_ok_Nil [simp]: "map_ok []"
  by (simp add: map_ok_def)

lemma map_ok_update [simp]: "map_ok m \<Longrightarrow> map_ok (AList.update k v m)"
  by (simp add: map_ok_def distinct_update)

lemma map_ok_delete [simp]: "map_ok m \<Longrightarrow> map_ok (AList.delete k m)"
  by (simp add: map_ok_def distinct_delete)

lemma map_of_update: "map_of (AList.update k v m) = (map_of m)(k \<mapsto> v)"
  by (rule update_conv')

lemma map_of_delete: "map_of (AList.delete k m) = (map_of m)(k := None)"
  by (rule delete_conv')

lemma map_of_update_iff:
  "map_of (AList.update k v m) x = (if x = k then Some v else map_of m x)"
  by (simp add: map_of_update)

lemma map_of_delete_iff:
  "map_of (AList.delete k m) x = (if x = k then None else map_of m x)"
  by (simp add: map_of_delete)

lemma update_fresh: "k \<notin> fst ` set m \<Longrightarrow> AList.update k v m = m @ [(k, v)]"
  by (induction m) auto

lemma delete_fresh: "k \<notin> fst ` set m \<Longrightarrow> AList.delete k m = m"
  by (induction m) (auto simp: AList.delete_eq)

lemma delete_append: "AList.delete k (a @ b) = AList.delete k a @ AList.delete k b"
  by (simp add: AList.delete_eq)

lemma mem_iff_map_of: "map_ok m \<Longrightarrow> (k, v) \<in> set m \<longleftrightarrow> map_of m k = Some v"
  by (simp add: map_ok_def)

lemma map_of_eq_None_iff': "map_of m k = None \<longleftrightarrow> k \<notin> fst ` set m"
  by (simp add: map_of_eq_None_iff)

lemma map_of_keyD: "map_of m k = Some v \<Longrightarrow> k \<in> fst ` set m"
  by (force dest: map_of_SomeD)

lemma set_delete_iff: "x \<in> set (AList.delete k m) \<longleftrightarrow> x \<in> set m \<and> fst x \<noteq> k"
  by (auto simp: AList.delete_eq)

lemma delete_split:
  assumes "map_ok m" "map_of m k = Some v"
  shows "\<exists>a b. m = a @ (k, v) # b \<and> AList.delete k m = a @ b \<and>
    k \<notin> fst ` set a \<and> k \<notin> fst ` set b"
proof -
  from assms(2) have "(k, v) \<in> set m" by (rule map_of_SomeD)
  then obtain a b where m: "m = a @ (k, v) # b" by (auto dest: split_list)
  with assms(1) have "k \<notin> fst ` set a" "k \<notin> fst ` set b"
    by (auto simp: map_ok_def)
  with m show ?thesis
    by (auto simp: delete_append delete_fresh)
qed

text \<open>Updating an existing key keeps the other entries and the order.\<close>

lemma update_existing:
  assumes "map_ok m" "map_of m k = Some v0"
  shows "\<exists>a b. m = a @ (k, v0) # b \<and> AList.update k v m = a @ (k, v) # b \<and>
    k \<notin> fst ` set a \<and> k \<notin> fst ` set b"
  using assms
proof (induction m)
  case Nil
  then show ?case by simp
next
  case (Cons x m)
  show ?case
  proof (cases "fst x = k")
    case True
    with Cons.prems have "x = (k, v0)" "k \<notin> fst ` set m"
      by (auto simp: map_ok_def)
    then show ?thesis
      by (intro exI [of _ "[]"] exI [of _ m]) auto
  next
    case False
    with Cons obtain a b where "m = a @ (k, v0) # b" "AList.update k v m = a @ (k, v) # b"
      "k \<notin> fst ` set a" "k \<notin> fst ` set b"
      by (auto simp: map_ok_def)
    with False show ?thesis
      by (intro exI [of _ "x # a"] exI [of _ b]) (cases x, auto)
  qed
qed

section \<open>Results\<close>

text \<open>\<^verbatim>\<open>errors.Join\<close>: the non-nil errors, in order; no error at all when every one is nil.\<close>

fun errors_Join :: "'e option list \<Rightarrow> 'e list" where
  "errors_Join [] = []"
| "errors_Join (None # es) = errors_Join es"
| "errors_Join (Some e # es) = e # errors_Join es"

text \<open>The first-error idiom: \<^verbatim>\<open>if err != nil && first == nil\<close>.\<close>

definition first_error :: "'e option \<Rightarrow> 'e option \<Rightarrow> 'e option" where
  "first_error first err = (case first of None \<Rightarrow> err | Some e \<Rightarrow> Some e)"

lemma first_error_None [simp]: "first_error first err = None \<longleftrightarrow> first = None \<and> err = None"
  by (auto simp: first_error_def split: option.splits)

lemma errors_Join_Nil [simp]: "errors_Join es = [] \<longleftrightarrow> (\<forall>e \<in> set es. e = None)"
  by (induction es rule: errors_Join.induct) auto

section \<open>Counting in an updated list\<close>

lemma filter_length_update:
  "i < length ts \<Longrightarrow>
   length (filter P (ts[i := p])) + of_bool (P (ts ! i)) = length (filter P ts) + of_bool (P p)"
proof (induction ts arbitrary: i)
  case (Cons a ts)
  then show ?case by (cases i) auto
qed simp

end
