(* ===== verification/Slab.thy ===== *)
theory Slab
  imports GoStrings
begin

text \<open>
  The shared-memory slab allocator, \<^verbatim>\<open>src/internal/allocator/slab.go\<close>.

  State: the record \<open>slab\<close> (the mutex is left out: every method takes it for its whole body, so a
  method is one atomic step).  Operations: \<open>NewSlab\<close>, \<open>Alloc\<close>, \<open>Free\<close> with its helpers
  \<open>insertFree\<close> and \<open>coalesceFree\<close>, \<open>slab_Stats\<close>, \<open>slab_Close\<close> and the readers.  The outcomes of the
  operating-system calls (create, truncate, map, unlink, unmap, close) are parameters.

  Lemmas: the in-place coalescing loop equals a functional merge; the invariant \<open>slab_inv\<close> (every
  byte of the slab is in exactly one free range or one lease, and free ranges are maximal) is kept
  by every operation; the free list is the canonical representation of the set of free bytes, so
  allocation is complete and a free undoes an allocation.  The contract the rest of the daemon
  relies on is the locale \<open>byte_allocator\<close>, interpreted here on the slab.
\<close>

section \<open>Data\<close>

record lease =
  lease_ID :: u64
  lease_Offset :: int
  lease_Length :: int

record slab_stats =
  stats_Size :: int
  stats_Used :: int
  stats_Free :: int
  stats_Leases :: nat
  stats_FreeRanges :: nat

record span =
  sp_off :: int
  sp_n :: int

datatype slab_error =
    NewSlabSize int
  | NewSlabOverflow int
  | CreateFile string
  | TruncateFile string
  | MmapFile string
  | UnlinkFile string
  | AllocSize int
  | SlabClosed
  | NoMemory
  | LeaseNotFound
  | CloseMunmap string
  | CloseFile string
  | CloseRemove string

record slab =
  sl_file :: bool
  sl_path :: string
  sl_data :: "bytes option"
  sl_size :: int
  sl_nextID :: u64
  sl_free :: "span list"
  sl_leases :: "(u64 \<times> span) list"
  sl_closed :: bool

text \<open>Outcomes of the system calls of \<open>NewSlab\<close> and \<open>Close\<close>: \<open>None\<close> is success.\<close>

record slab_os =
  os_createTemp :: "string + string"
  os_truncate :: "string option"
  os_mmap :: "string option"
  os_unlink :: "string option"
  os_munmap :: "string option"
  os_close :: "string option"
  os_remove :: "string option"

section \<open>Operations\<close>

definition NewSlab :: "slab_os \<Rightarrow> int \<Rightarrow> slab_error + slab" where
  "NewSlab os sz =
     (if sz \<le> 0 then Inl (NewSlabSize sz)
      else if wrap64 sz \<noteq> sz then Inl (NewSlabOverflow sz)
      else case os_createTemp os of
        Inl e \<Rightarrow> Inl (CreateFile e)
      | Inr name \<Rightarrow>
          (case os_truncate os of
            Some e \<Rightarrow> Inl (TruncateFile e)
          | None \<Rightarrow>
              (case os_mmap os of
                Some e \<Rightarrow> Inl (MmapFile e)
              | None \<Rightarrow>
                  (case os_unlink os of
                    Some e \<Rightarrow> Inl (UnlinkFile e)
                  | None \<Rightarrow> Inr
                      \<lparr> sl_file = True, sl_path = name, sl_data = Some (replicate (nat sz) 0),
                        sl_size = sz, sl_nextID = 0, sl_free = [\<lparr> sp_off = 0, sp_n = sz \<rparr>],
                        sl_leases = [], sl_closed = False \<rparr>))))"

definition slab_next :: "slab \<Rightarrow> u64 \<times> slab" where
  "slab_next s = (let i = sl_nextID s + 1 in (i, s\<lparr>sl_nextID := i\<rparr>))"

text \<open>
  The scan of \<open>Alloc\<close>: the first range that is long enough, and the free list with that range
  removed (exact fit) or shortened from its start.
\<close>

fun first_fit :: "int \<Rightarrow> span list \<Rightarrow> (int \<times> span list) option" where
  "first_fit n [] = None"
| "first_fit n (r # rs) =
     (if sp_n r < n then map_option (\<lambda>(off, rs'). (off, r # rs')) (first_fit n rs)
      else if sp_n r = n then Some (sp_off r, rs)
      else Some (sp_off r, r\<lparr>sp_off := add64 (sp_off r) n, sp_n := sub64 (sp_n r) n\<rparr> # rs))"

definition Alloc :: "int \<Rightarrow> slab \<Rightarrow> (slab_error + lease) \<times> slab" where
  "Alloc n s =
     (if n \<le> 0 then (Inl (AllocSize n), s)
      else if sl_closed s then (Inl SlabClosed, s)
      else case first_fit n (sl_free s) of
        None \<Rightarrow> (Inl NoMemory, s)
      | Some (off, free') \<Rightarrow>
          let (i, s1) = slab_next s in
          (Inr \<lparr> lease_ID = i, lease_Offset = off, lease_Length = n \<rparr>,
           s1\<lparr>sl_leases := AList.update i \<lparr> sp_off = off, sp_n = n \<rparr> (sl_leases s1),
              sl_free := free'\<rparr>))"

text \<open>
  The compaction loop of \<open>coalesceFree\<close> works in place: \<^verbatim>\<open>out\<close> is the first \<open>w\<close>
  elements of the same array the loop reads at index \<open>i\<close>.
\<close>

function coalesce_loop :: "span list \<Rightarrow> nat \<Rightarrow> nat \<Rightarrow> span list" where
  "coalesce_loop arr w i =
     (if i < length arr then
        (let last = arr ! (w - 1); r = arr ! i in
         if add64 (sp_off last) (sp_n last) = sp_off r
         then coalesce_loop (arr[w - 1 := last\<lparr>sp_n := add64 (sp_n last) (sp_n r)\<rparr>]) w (Suc i)
         else coalesce_loop (arr[w := r]) (Suc w) (Suc i))
      else take w arr)"
  by pat_completeness auto
termination
  by (relation "measure (\<lambda>(arr, w, i). length arr - i)") auto

declare coalesce_loop.simps [simp del]

definition coalesceFree :: "span list \<Rightarrow> span list" where
  "coalesceFree free = (if length free < 2 then free else coalesce_loop free 1 1)"

fun insert_pos :: "span \<Rightarrow> span list \<Rightarrow> nat" where
  "insert_pos r [] = 0"
| "insert_pos r (y # ys) = (if sp_off y < sp_off r then Suc (insert_pos r ys) else 0)"

definition insertFree :: "span list \<Rightarrow> span \<Rightarrow> span list" where
  "insertFree free r =
     (let i = insert_pos r free in coalesceFree (take i free @ r # drop i free))"

definition Free :: "u64 \<Rightarrow> slab \<Rightarrow> slab_error option \<times> slab" where
  "Free i s =
     (if sl_closed s then (Some SlabClosed, s)
      else case map_of (sl_leases s) i of
        None \<Rightarrow> (Some LeaseNotFound, s)
      | Some r \<Rightarrow>
          (None, s\<lparr>sl_leases := AList.delete i (sl_leases s),
                   sl_free := insertFree (sl_free s) r\<rparr>))"

definition slab_Bytes :: "slab option \<Rightarrow> bytes option" where
  "slab_Bytes s = (case s of None \<Rightarrow> None | Some s \<Rightarrow> sl_data s)"

definition slab_Size :: "slab option \<Rightarrow> int" where
  "slab_Size s = (case s of None \<Rightarrow> 0 | Some s \<Rightarrow> sl_size s)"

text \<open>\<open>FD\<close>: the descriptor number is the operating system's; here it is the parameter \<open>fd\<close>.\<close>

definition slab_FD :: "int \<Rightarrow> slab \<Rightarrow> slab_error + int" where
  "slab_FD fd s = (if sl_closed s then Inl SlabClosed else Inr fd)"

definition slab_Stats :: "slab \<Rightarrow> slab_stats" where
  "slab_Stats s =
     (let free = foldl (\<lambda>a r. add64 a (sp_n r)) 0 (sl_free s) in
      \<lparr> stats_Size = sl_size s, stats_Used = sub64 (sl_size s) free, stats_Free = free,
        stats_Leases = length (sl_leases s), stats_FreeRanges = length (sl_free s) \<rparr>)"

text \<open>\<open>Close\<close>; \<open>os_remove\<close> is the error of the unlink unless it is \<^verbatim>\<open>ErrNotExist\<close>.\<close>

definition slab_Close :: "slab_os \<Rightarrow> slab option \<Rightarrow> slab_error option \<times> slab option" where
  "slab_Close os so =
     (case so of None \<Rightarrow> (None, None)
      | Some s \<Rightarrow>
          if sl_closed s then (None, Some s)
          else
            let e1 = (if sl_data s = None then None else map_option CloseMunmap (os_munmap os));
                e2 = (if sl_file s then first_error e1 (map_option CloseFile (os_close os)) else e1);
                e3 = (if sl_path s \<noteq> '''' then first_error e2 (map_option CloseRemove (os_remove os))
                      else e2)
            in (e3, Some (s\<lparr>sl_data := None, sl_file := False, sl_closed := True\<rparr>)))"


section \<open>Coalescing\<close>

definition span_set :: "span \<Rightarrow> int set" where
  "span_set r = {sp_off r ..< sp_off r + sp_n r}"

definition span_ok :: "span \<Rightarrow> bool" where
  "span_ok r \<longleftrightarrow> 0 \<le> sp_off r \<and> 0 < sp_n r \<and> sp_off r + sp_n r \<le> max_int64"

text \<open>Reference: merge each range into its predecessor when they touch.\<close>

fun merge_adj :: "span \<Rightarrow> span list \<Rightarrow> span list" where
  "merge_adj l [] = [l]"
| "merge_adj l (r # rs) =
     (if sp_off l + sp_n l = sp_off r then merge_adj (l\<lparr>sp_n := sp_n l + sp_n r\<rparr>) rs
      else l # merge_adj r rs)"

lemma span_ok_add64: "span_ok l \<Longrightarrow> add64 (sp_off l) (sp_n l) = sp_off l + sp_n l"
  by (rule add64_id) (simp add: span_ok_def int64_defs)

lemma span_ok_merge:
  assumes "span_ok l" "span_ok r" "sp_off l + sp_n l = sp_off r"
  shows "add64 (sp_n l) (sp_n r) = sp_n l + sp_n r" "span_ok (l\<lparr>sp_n := sp_n l + sp_n r\<rparr>)"
  using assms by (auto simp: span_ok_def int64_defs intro!: add64_id)

text \<open>The in-place loop computes the merge: the read index never falls behind the write index.\<close>

lemma coalesce_loop_merge:
  assumes "\<forall>r \<in> set arr. span_ok r" "0 < w" "w \<le> i" "i \<le> length arr"
  shows "coalesce_loop arr w i = take (w - 1) arr @ merge_adj (arr ! (w - 1)) (drop i arr)"
  using assms
proof (induction arr w i rule: coalesce_loop.induct)
  case (1 arr w i)
  show ?case
  proof (cases "i < length arr")
    case False
    with "1.prems" have "i = length arr" "w - 1 < length arr" by auto
    then show ?thesis
      using "1.prems" take_Suc_conv_app_nth [of "w - 1" arr]
      by (simp add: coalesce_loop.simps [of arr w "length arr"])
  next
    case True
    let ?l = "arr ! (w - 1)" and ?r = "arr ! i"
    have ok: "span_ok ?l" "span_ok ?r"
      using "1.prems" True by auto
    have dr: "drop i arr = ?r # drop (Suc i) arr"
      using True by (simp add: Cons_nth_drop_Suc)
    show ?thesis
    proof (cases "sp_off ?l + sp_n ?l = sp_off ?r")
      case eq: True
      let ?l' = "?l\<lparr>sp_n := sp_n ?l + sp_n ?r\<rparr>"
      have upd: "\<forall>r \<in> set (arr[w - 1 := ?l']). span_ok r"
        using "1.prems" span_ok_merge(2) [OF ok eq]
        by (metis insertE set_update_subset_insert subsetD)
      have "coalesce_loop arr w i = coalesce_loop (arr[w - 1 := ?l']) w (Suc i)"
        using True eq ok span_ok_merge(1) [OF ok eq]
        by (simp add: coalesce_loop.simps [of arr w i] Let_def span_ok_add64)
      also have "\<dots> = take (w - 1) arr @ merge_adj ?l' (drop (Suc i) arr)"
        using "1.IH"(1) [OF True refl refl] upd "1.prems" True eq ok span_ok_merge(1) [OF ok eq]
        by (simp add: span_ok_add64)
      finally show ?thesis using eq dr by simp
    next
      case ne: False
      have upd: "\<forall>r \<in> set (arr[w := ?r]). span_ok r"
        using "1.prems" ok by (metis insertE set_update_subset_insert subsetD)
      have tk: "take w arr = take (w - 1) arr @ [?l]"
        using "1.prems" True take_Suc_conv_app_nth [of "w - 1" arr] by simp
      have "coalesce_loop arr w i = coalesce_loop (arr[w := ?r]) (Suc w) (Suc i)"
        using True ne ok by (simp add: coalesce_loop.simps [of arr w i] Let_def span_ok_add64)
      also have "\<dots> = take w arr @ merge_adj ?r (drop (Suc i) arr)"
        using "1.IH"(2) [OF True refl refl] upd "1.prems" True ne ok
        by (simp add: span_ok_add64)
      finally show ?thesis using ne dr tk by simp
    qed
  qed
qed

lemma coalesceFree_merge:
  assumes "\<forall>r \<in> set (l # rs). span_ok r"
  shows "coalesceFree (l # rs) = merge_adj l rs"
proof (cases rs)
  case Nil
  then show ?thesis by (simp add: coalesceFree_def)
next
  case (Cons r rs')
  then show ?thesis
    using coalesce_loop_merge [of "l # rs" 1 1] assms by (simp add: coalesceFree_def)
qed

text \<open>The insertion of \<open>insertFree\<close>, without the index.\<close>

fun ins_span :: "span \<Rightarrow> span list \<Rightarrow> span list" where
  "ins_span r [] = [r]"
| "ins_span r (y # ys) = (if sp_off y < sp_off r then y # ins_span r ys else r # y # ys)"

lemma insert_pos_ins: "take (insert_pos r xs) xs @ r # drop (insert_pos r xs) xs = ins_span r xs"
  by (induction xs) auto

lemma set_ins_span [simp]: "set (ins_span r xs) = insert r (set xs)"
  by (induction xs) auto

lemma ins_span_Cons: "\<exists>l rs. ins_span r xs = l # rs"
  by (cases xs) auto

section \<open>Coverage\<close>

text \<open>How many of the given ranges contain byte \<open>x\<close>.\<close>

fun cover :: "int \<Rightarrow> span list \<Rightarrow> nat" where
  "cover x [] = 0"
| "cover x (r # rs) = of_bool (x \<in> span_set r) + cover x rs"

lemma cover_append [simp]: "cover x (a @ b) = cover x a + cover x b"
  by (induction a) auto

lemma cover_ins_span [simp]: "cover x (ins_span r xs) = of_bool (x \<in> span_set r) + cover x xs"
  by (induction xs) auto

lemma cover_pos_iff: "0 < cover x rs \<longleftrightarrow> (\<exists>r \<in> set rs. x \<in> span_set r)"
  by (induction rs) auto

lemma cover_mem: "r \<in> set rs \<Longrightarrow> x \<in> span_set r \<Longrightarrow> 0 < cover x rs"
  by (auto simp: cover_pos_iff)

lemma cover_merge_adj:
  assumes "\<forall>r \<in> set (l # rs). span_ok r"
  shows "cover x (merge_adj l rs) = cover x (l # rs)"
  using assms
proof (induction l rs rule: merge_adj.induct)
  case (2 l r rs)
  then show ?case
    using span_ok_merge(2) [of l r]
    by (auto simp: span_set_def span_ok_def)
qed simp

section \<open>Maximal free ranges\<close>

text \<open>
  \<open>gaps lo rs\<close>: the ranges are non-empty, in address order, the first starts after \<open>lo\<close> and
  between any two there is at least one byte that belongs to neither.
\<close>

fun gaps :: "int \<Rightarrow> span list \<Rightarrow> bool" where
  "gaps lo [] = True"
| "gaps lo (r # rs) = (lo < sp_off r \<and> 0 < sp_n r \<and> gaps (sp_off r + sp_n r) rs)"

text \<open>The same, but neighbours may touch.\<close>

fun ordered :: "int \<Rightarrow> span list \<Rightarrow> bool" where
  "ordered lo [] = True"
| "ordered lo (r # rs) = (lo \<le> sp_off r \<and> 0 < sp_n r \<and> ordered (sp_off r + sp_n r) rs)"

lemma gaps_ordered: "gaps lo rs \<Longrightarrow> ordered lo rs"
  by (induction lo rs rule: gaps.induct) auto

lemma gaps_lower: "gaps lo rs \<Longrightarrow> r \<in> set rs \<Longrightarrow> lo < sp_off r \<and> 0 < sp_n r"
  by (induction lo rs rule: gaps.induct) force+

lemma gaps_mono: "gaps lo rs \<Longrightarrow> lo' \<le> lo \<Longrightarrow> gaps lo' rs"
  by (cases rs) auto

lemma gaps_merge_adj:
  "lo < sp_off l \<Longrightarrow> 0 < sp_n l \<Longrightarrow> ordered (sp_off l + sp_n l) rs \<Longrightarrow> gaps lo (merge_adj l rs)"
proof (induction l rs arbitrary: lo rule: merge_adj.induct)
  case (2 l r rs)
  show ?case
  proof (cases "sp_off l + sp_n l = sp_off r")
    case True
    then have "sp_off l + (sp_n l + sp_n r) = sp_off r + sp_n r" by simp
    with 2 True show ?thesis by simp
  qed (use 2 in auto)
qed simp

lemma ordered_ins_span:
  assumes "gaps lo xs" "lo \<le> sp_off r" "0 < sp_n r" "\<forall>y \<in> set xs. span_set y \<inter> span_set r = {}"
  shows "ordered lo (ins_span r xs)"
  using assms
proof (induction lo xs rule: gaps.induct)
  case (2 lo y ys)
  have "\<not> (sp_off y \<le> sp_off r \<and> sp_off r < sp_off y + sp_n y)"
    using "2.prems" by (auto simp: span_set_def)
  moreover have "\<not> (sp_off r \<le> sp_off y \<and> sp_off y < sp_off r + sp_n r)"
    using "2.prems" by (auto simp: span_set_def)
  ultimately show ?case
    using 2 gaps_ordered by fastforce
qed simp

text \<open>A contiguous run of free bytes lies inside one free range.\<close>

lemma gaps_contiguous:
  assumes "gaps lo rs" "0 < n" "\<forall>x \<in> {off ..< off + n}. 0 < cover x rs"
  shows "\<exists>r \<in> set rs. sp_off r \<le> off \<and> off + n \<le> sp_off r + sp_n r"
  using assms
proof (induction lo rs rule: gaps.induct)
  case (1 lo)
  then have "0 < cover off []" by (metis atLeastLessThan_iff less_add_same_cancel1 order_refl)
  then show ?case by simp
next
  case (2 lo r rs)
  let ?e = "sp_off r + sp_n r"
  have above: "?e < sp_off q" if "q \<in> set rs" for q
    using gaps_lower [OF _ that] "2.prems"(1) by auto
  show ?case
  proof (cases "off < ?e")
    case True
    have "0 < cover off (r # rs)" using 2 by simp
    with above True have "sp_off r \<le> off"
      by (auto simp: cover_pos_iff span_set_def) (use above in fastforce)
    moreover have "off + n \<le> ?e"
    proof (rule ccontr)
      assume "\<not> off + n \<le> ?e"
      with True have "?e \<in> {off ..< off + n}" by simp
      with 2 have "0 < cover ?e (r # rs)" by blast
      with above show False
        by (auto simp: cover_pos_iff span_set_def) (use above in fastforce)
    qed
    ultimately show ?thesis by simp
  next
    case False
    have "\<forall>x \<in> {off ..< off + n}. 0 < cover x rs"
      using 2 False by (auto simp: span_set_def)
    with 2 show ?thesis by auto
  qed
qed

text \<open>A free list with gaps is determined by the set of bytes it covers.\<close>

lemma gaps_canonical:
  assumes "gaps lo xs" "gaps lo' ys" "\<And>x. 0 < cover x xs \<longleftrightarrow> 0 < cover x ys"
  shows "xs = ys"
  using assms
proof (induction xs arbitrary: lo lo' ys)
  case Nil
  show ?case
  proof (cases ys)
    case (Cons y ys')
    with Nil have "0 < cover (sp_off y) ys" by (auto simp: span_set_def)
    with Nil show ?thesis by simp
  qed simp
next
  case (Cons a as)
  from Cons.prems have a0: "0 < cover (sp_off a) ys"
    by (metis cover_mem gaps.simps(2) list.set_intros(1) span_set_def atLeastLessThan_iff
        less_add_same_cancel1 order_refl)
  then obtain b bs where ys: "ys = b # bs" by (cases ys) auto
  have a: "sp_off a + sp_n a < sp_off q" if "q \<in> set as" for q
    using gaps_lower [OF _ that] Cons.prems(1) by auto
  have b: "sp_off b + sp_n b < sp_off q" if "q \<in> set bs" for q
    using gaps_lower [OF _ that] Cons.prems(2) ys by auto
  have pos: "0 < sp_n a" "0 < sp_n b" using Cons.prems ys by auto
  have hitA: "0 < cover x (a # as) \<Longrightarrow> sp_off a \<le> x \<and> (x < sp_off a + sp_n a \<or> sp_off a + sp_n a < x)" for x
    using a pos by (fastforce simp: cover_pos_iff span_set_def)
  have hitB: "0 < cover x (b # bs) \<Longrightarrow> sp_off b \<le> x \<and> (x < sp_off b + sp_n b \<or> sp_off b + sp_n b < x)" for x
    using b pos by (fastforce simp: cover_pos_iff span_set_def)
  have inA: "x \<in> span_set a \<Longrightarrow> 0 < cover x (b # bs)" and inB: "x \<in> span_set b \<Longrightarrow> 0 < cover x (a # as)" for x
    using Cons.prems(3) [of x] ys by auto
  have off: "sp_off a = sp_off b"
    using hitA [OF inB, of "sp_off b"] hitB [OF inA, of "sp_off a"] pos by (simp add: span_set_def)
  have "\<not> sp_n a < sp_n b"
    using hitA [OF inB, of "sp_off a + sp_n a"] pos off by (auto simp: span_set_def)
  moreover have "\<not> sp_n b < sp_n a"
    using hitB [OF inA, of "sp_off b + sp_n b"] pos off by (auto simp: span_set_def)
  ultimately have ab: "a = b" using off by simp
  have "0 < cover x as \<longleftrightarrow> 0 < cover x bs" for x
    using Cons.prems(3) [of x] ys ab a b pos
    by (auto simp: cover_pos_iff span_set_def split: if_splits) fastforce+
  then show ?case
    using Cons.IH [of _ _ bs] Cons.prems ys ab by auto
qed

section \<open>Invariant\<close>

definition slab_inv :: "slab \<Rightarrow> bool" where
  "slab_inv s \<longleftrightarrow>
     0 < sl_size s \<and> sl_size s \<le> max_int64 \<and> gaps (- 1) (sl_free s) \<and> map_ok (sl_leases s) \<and>
     (\<forall>(i, r) \<in> set (sl_leases s). 0 < sp_n r \<and> 0 < i \<and> i \<le> sl_nextID s) \<and>
     (\<forall>x. cover x (sl_free s) + cover x (map snd (sl_leases s)) =
        of_bool (0 \<le> x \<and> x < sl_size s)) \<and>
     (if sl_closed s then sl_data s = None
      else \<exists>d. sl_data s = Some d \<and> int (length d) = sl_size s)"

text \<open>Lease identifiers are 64-bit and never reused before the counter wraps.\<close>

definition id_room :: "slab \<Rightarrow> bool" where
  "id_room s \<longleftrightarrow> unat (sl_nextID s) < 2 ^ 64 - 1"

definition held :: "slab \<Rightarrow> u64 \<Rightarrow> span option" where
  "held s = map_of (sl_leases s)"

definition lease_span :: "lease \<Rightarrow> span" where
  "lease_span l = \<lparr> sp_off = lease_Offset l, sp_n = lease_Length l \<rparr>"

lemma slab_invD:
  assumes "slab_inv s"
  shows "0 < sl_size s" "sl_size s \<le> max_int64" "gaps (- 1) (sl_free s)" "map_ok (sl_leases s)"
    "(i, r) \<in> set (sl_leases s) \<Longrightarrow> 0 < sp_n r \<and> 0 < i \<and> i \<le> sl_nextID s"
    "cover x (sl_free s) + cover x (map snd (sl_leases s)) = of_bool (0 \<le> x \<and> x < sl_size s)"
  using assms by (auto simp: slab_inv_def)

lemma range_in_slab:
  assumes "0 < sp_n r" "\<And>x. x \<in> span_set r \<Longrightarrow> 0 \<le> x \<and> x < sl_size s" "sl_size s \<le> max_int64"
  shows "0 \<le> sp_off r" "sp_off r + sp_n r \<le> sl_size s" "span_ok r"
  using assms(1,3) assms(2) [of "sp_off r"] assms(2) [of "sp_off r + sp_n r - 1"]
  by (auto simp: span_set_def span_ok_def)

lemma slab_free_range:
  assumes "slab_inv s" "r \<in> set (sl_free s)"
  shows "0 \<le> sp_off r" "sp_off r + sp_n r \<le> sl_size s" "span_ok r"
proof -
  have "0 \<le> x \<and> x < sl_size s" if "x \<in> span_set r" for x
    using cover_mem [OF assms(2) that] slab_invD(6) [OF assms(1), of x]
    by (auto simp: of_bool_def split: if_splits)
  then show "0 \<le> sp_off r" "sp_off r + sp_n r \<le> sl_size s" "span_ok r"
    using range_in_slab [of r s] gaps_lower [OF slab_invD(3) [OF assms(1)] assms(2)]
      slab_invD(2) [OF assms(1)] by blast+
qed

lemma slab_lease_range:
  assumes "slab_inv s" "held s i = Some r"
  shows "0 \<le> sp_off r" "sp_off r + sp_n r \<le> sl_size s" "span_ok r"
proof -
  have mem: "(i, r) \<in> set (sl_leases s)"
    using assms(2) by (simp add: held_def map_of_SomeD)
  then have "r \<in> set (map snd (sl_leases s))" by force
  then have "0 \<le> x \<and> x < sl_size s" if "x \<in> span_set r" for x
    using cover_mem [OF _ that] slab_invD(6) [OF assms(1), of x]
    by (fastforce simp: of_bool_def split: if_splits)
  then show "0 \<le> sp_off r" "sp_off r + sp_n r \<le> sl_size s" "span_ok r"
    using range_in_slab [of r s] slab_invD(5) [OF assms(1) mem] slab_invD(2) [OF assms(1)]
    by blast+
qed

lemma slab_lease_not_free:
  assumes "slab_inv s" "held s i = Some r" "x \<in> span_set r"
  shows "cover x (sl_free s) = 0"
proof -
  have "r \<in> set (map snd (sl_leases s))"
    using assms(2) by (force simp: held_def dest: map_of_SomeD)
  then have "0 < cover x (map snd (sl_leases s))"
    using assms(3) by (rule cover_mem)
  then show ?thesis
    using slab_invD(6) [OF assms(1), of x] by (auto simp: of_bool_def split: if_splits)
qed

text \<open>Two leases never share a byte.\<close>

lemma slab_leases_disjoint:
  assumes "slab_inv s" "held s i = Some a" "held s j = Some b" "i \<noteq> j"
  shows "span_set a \<inter> span_set b = {}"
proof (rule ccontr)
  assume "span_set a \<inter> span_set b \<noteq> {}"
  then obtain x where x: "x \<in> span_set a" "x \<in> span_set b" by blast
  obtain p q where pq: "sl_leases s = p @ (i, a) # q" "i \<notin> fst ` set p" "i \<notin> fst ` set q"
    using delete_split [OF slab_invD(4) [OF assms(1)]] assms(2) unfolding held_def by metis
  have "(j, b) \<in> set (p @ q)"
    using assms(3,4) pq by (auto simp: held_def dest: map_of_SomeD)
  then have "0 < cover x (map snd (p @ q))"
    using x(2) by (intro cover_mem [of b]) force+
  then have "1 < cover x (map snd (sl_leases s))"
    using x(1) pq(1) by simp
  then show False
    using slab_invD(6) [OF assms(1), of x] by (auto simp: of_bool_def split: if_splits)
qed

section \<open>Allocation\<close>

lemma first_fit_None: "first_fit n rs = None \<longleftrightarrow> (\<forall>r \<in> set rs. sp_n r < n)"
  by (induction n rs rule: first_fit.induct) auto

lemma first_fit_Some:
  assumes "first_fit n rs = Some (off, rs')" "gaps lo rs" "0 < n" "\<forall>r \<in> set rs. span_ok r"
  shows "gaps lo rs'" "lo < off"
    "cover x rs = of_bool (off \<le> x \<and> x < off + n) + cover x rs'"
    "\<And>r. r \<in> set rs \<Longrightarrow> n \<le> sp_n r \<Longrightarrow> off \<le> sp_off r"
proof -
  have "gaps lo rs' \<and> lo < off \<and>
     cover x rs = of_bool (off \<le> x \<and> x < off + n) + cover x rs' \<and>
     (\<forall>r \<in> set rs. n \<le> sp_n r \<longrightarrow> off \<le> sp_off r)"
    using assms
  proof (induction n rs arbitrary: rs' lo rule: first_fit.induct)
    case (2 n r rs)
    have ok: "span_ok r" using "2.prems" by simp
    consider (small) "sp_n r < n" | (exact) "sp_n r = n" | (large) "n < sp_n r" by linarith
    then show ?case
    proof cases
      case small
      with "2.prems" obtain rs'' where "first_fit n rs = Some (off, rs'')" "rs' = r # rs''" by auto
      moreover from this have "gaps (sp_off r + sp_n r) rs'' \<and> sp_off r + sp_n r < off \<and>
          cover x rs = of_bool (off \<le> x \<and> x < off + n) + cover x rs'' \<and>
          (\<forall>q \<in> set rs. n \<le> sp_n q \<longrightarrow> off \<le> sp_off q)"
        using "2.IH" [OF small, of rs'' "sp_off r + sp_n r"] "2.prems" by simp
      ultimately show ?thesis using "2.prems" small by auto
    next
      case exact
      with "2.prems" have "off = sp_off r" "rs' = rs" by auto
      then show ?thesis
        using "2.prems" exact gaps_lower [of "sp_off r + sp_n r" rs]
        by (auto simp: span_set_def intro: gaps_mono) force
    next
      case large
      with ok "2.prems"(3) have ar: "add64 (sp_off r) n = sp_off r + n" "sub64 (sp_n r) n = sp_n r - n"
        by (auto simp: span_ok_def int64_defs intro!: add64_id sub64_id)
      with large "2.prems" have "off = sp_off r"
        "rs' = r\<lparr>sp_off := sp_off r + n, sp_n := sp_n r - n\<rparr> # rs" by auto
      then show ?thesis
        using "2.prems" large gaps_lower [of "sp_off r + sp_n r" rs]
        by (auto simp: span_set_def) force
    qed
  qed simp
  then show "gaps lo rs'" "lo < off"
    "cover x rs = of_bool (off \<le> x \<and> x < off + n) + cover x rs'"
    "\<And>r. r \<in> set rs \<Longrightarrow> n \<le> sp_n r \<Longrightarrow> off \<le> sp_off r" by blast+
qed

lemma id_room_next:
  assumes "id_room s"
  shows "unat (sl_nextID s + 1) = Suc (unat (sl_nextID s))" "sl_nextID s < sl_nextID s + 1"
    "0 < sl_nextID s + 1"
proof -
  show u: "unat (sl_nextID s + 1) = Suc (unat (sl_nextID s))"
    using assms by (simp add: id_room_def unat_word_ariths)
  then show "sl_nextID s < sl_nextID s + 1" "0 < sl_nextID s + 1"
    by (simp_all add: word_less_nat_alt)
qed

lemma fresh_id:
  assumes "slab_inv s" "id_room s"
  shows "sl_nextID s + 1 \<notin> fst ` set (sl_leases s)"
  using slab_invD(5) [OF assms(1)] id_room_next(2) [OF assms(2)]
  by (metis (no_types, lifting) imageE linorder_not_less prod.collapse)

lemma Alloc_cases:
  assumes "Alloc n s = (Inr l, s')"
  obtains free' where "0 < n" "\<not> sl_closed s" "first_fit n (sl_free s) = Some (lease_Offset l, free')"
    "lease_ID l = sl_nextID s + 1" "lease_Length l = n"
    "s' = s\<lparr>sl_nextID := sl_nextID s + 1,
            sl_leases := AList.update (sl_nextID s + 1) (lease_span l) (sl_leases s),
            sl_free := free'\<rparr>"
  using assms
  by (auto simp: Alloc_def slab_next_def Let_def lease_span_def split: if_splits option.splits)

lemma Alloc_inv:
  assumes "slab_inv s" "id_room s" "Alloc n s = (Inr l, s')"
  shows "slab_inv s'"
proof -
  from assms(3) obtain free' where A: "0 < n" "\<not> sl_closed s"
    "first_fit n (sl_free s) = Some (lease_Offset l, free')" "lease_Length l = n"
    "s' = s\<lparr>sl_nextID := sl_nextID s + 1,
            sl_leases := AList.update (sl_nextID s + 1) (lease_span l) (sl_leases s),
            sl_free := free'\<rparr>"
    by (rule Alloc_cases)
  have ok: "\<forall>r \<in> set (sl_free s). span_ok r"
    using slab_free_range(3) [OF assms(1)] by blast
  note ff = first_fit_Some [OF A(3) slab_invD(3) [OF assms(1)] A(1) ok]
  have L: "sl_leases s' = sl_leases s @ [(sl_nextID s + 1, lease_span l)]"
    using A(5) fresh_id [OF assms(1,2)] by (simp add: update_fresh)
  have "cover x free' + cover x (map snd (sl_leases s')) = of_bool (0 \<le> x \<and> x < sl_size s)" for x
    using slab_invD(6) [OF assms(1), of x] ff(3) [of x] A(4) L
    by (simp add: span_set_def lease_span_def)
  moreover have "map_ok (sl_leases s')"
    using slab_invD(4) [OF assms(1)] A(5) by simp
  moreover have "\<forall>(i, r) \<in> set (sl_leases s'). 0 < sp_n r \<and> 0 < i \<and> i \<le> sl_nextID s'"
    using slab_invD(5) [OF assms(1)] L A id_room_next [OF assms(2)]
    by (fastforce simp: lease_span_def)
  ultimately show ?thesis
    using assms(1) ff(1) A(2,5) by (simp add: slab_inv_def)
qed

lemma Alloc_error: "Alloc n s = (Inl e, s') \<Longrightarrow> s' = s"
  by (auto simp: Alloc_def Let_def slab_next_def split: if_splits option.splits prod.splits)

lemma Alloc_closed [simp]: "sl_closed (snd (Alloc n s)) = sl_closed s"
  by (auto simp: Alloc_def Let_def slab_next_def split: option.splits prod.splits)

lemma Alloc_held:
  assumes "slab_inv s" "id_room s" "Alloc n s = (Inr l, s')"
  shows "held s (lease_ID l) = None" "held s' = (held s)(lease_ID l \<mapsto> lease_span l)"
    "lease_Length l = n" "0 < n" "\<not> sl_closed s'"
proof -
  from assms(3) obtain free' where A: "0 < n" "\<not> sl_closed s" "lease_ID l = sl_nextID s + 1"
    "lease_Length l = n"
    "s' = s\<lparr>sl_nextID := sl_nextID s + 1,
            sl_leases := AList.update (sl_nextID s + 1) (lease_span l) (sl_leases s),
            sl_free := free'\<rparr>"
    by (rule Alloc_cases)
  then show "held s (lease_ID l) = None" "held s' = (held s)(lease_ID l \<mapsto> lease_span l)"
    "lease_Length l = n" "0 < n" "\<not> sl_closed s'"
    using fresh_id [OF assms(1,2)]
    by (auto simp: held_def map_of_update map_of_eq_None_iff fun_eq_iff)
qed

section \<open>Release\<close>

lemma insertFree_spec:
  assumes "gaps (- 1) free" "span_ok r" "\<forall>y \<in> set free. span_ok y \<and> span_set y \<inter> span_set r = {}"
  shows "gaps (- 1) (insertFree free r)"
    "cover x (insertFree free r) = of_bool (x \<in> span_set r) + cover x free"
proof -
  obtain l rs where lrs: "ins_span r free = l # rs" using ins_span_Cons by blast
  have ok: "\<forall>y \<in> set (l # rs). span_ok y"
    using assms lrs by (metis insertE set_ins_span)
  then have eq: "insertFree free r = merge_adj l rs"
    using lrs by (simp add: insertFree_def Let_def insert_pos_ins coalesceFree_merge)
  have "ordered 0 (ins_span r (free))"
  proof -
    have "gaps 0 free \<or> (\<exists>y ys. free = y # ys \<and> sp_off y = 0)"
      using assms(1) by (cases free) auto
    then show ?thesis
    proof
      assume "gaps 0 free"
      then show ?thesis
        using assms by (intro ordered_ins_span) (auto simp: span_ok_def)
    next
      assume "\<exists>y ys. free = y # ys \<and> sp_off y = 0"
      then obtain y ys where f: "free = y # ys" "sp_off y = 0" by blast
      have d: "span_set y \<inter> span_set r = {}" and yp: "0 < sp_n y"
        using assms f by auto
      have "sp_off y + sp_n y \<le> sp_off r"
      proof (rule ccontr)
        assume "\<not> sp_off y + sp_n y \<le> sp_off r"
        then have "sp_off r \<in> span_set y \<inter> span_set r"
          using assms(2) f(2) by (auto simp: span_set_def span_ok_def)
        with d show False by blast
      qed
      then show ?thesis
        using assms f yp ordered_ins_span [of "sp_off y + sp_n y" ys r]
        by (auto simp: span_ok_def)
    qed
  qed
  then have "- 1 < sp_off l" "0 < sp_n l" "ordered (sp_off l + sp_n l) rs"
    using lrs by auto
  then show "gaps (- 1) (insertFree free r)"
    unfolding eq by (rule gaps_merge_adj)
  show "cover x (insertFree free r) = of_bool (x \<in> span_set r) + cover x free"
    unfolding eq using cover_merge_adj [OF ok, of x] lrs cover_ins_span [of x r free] by simp
qed

lemma slab_insertFree:
  assumes "slab_inv s" "held s i = Some r"
  shows "gaps (- 1) (insertFree (sl_free s) r)"
    "cover x (insertFree (sl_free s) r) = of_bool (x \<in> span_set r) + cover x (sl_free s)"
proof -
  have "\<forall>y \<in> set (sl_free s). span_ok y \<and> span_set y \<inter> span_set r = {}"
  proof
    fix y assume y: "y \<in> set (sl_free s)"
    have "x \<notin> span_set y \<inter> span_set r" for x
      using cover_mem [OF y, of x] slab_lease_not_free [OF assms, of x] by auto
    then show "span_ok y \<and> span_set y \<inter> span_set r = {}"
      using slab_free_range(3) [OF assms(1) y] by blast
  qed
  then show "gaps (- 1) (insertFree (sl_free s) r)"
    "cover x (insertFree (sl_free s) r) = of_bool (x \<in> span_set r) + cover x (sl_free s)"
    using insertFree_spec [OF slab_invD(3) [OF assms(1)] slab_lease_range(3) [OF assms]] by blast+
qed

lemma Free_held:
  assumes "\<not> sl_closed s" "held s i = Some r"
  shows "Free i s = (None, s\<lparr>sl_leases := AList.delete i (sl_leases s),
                             sl_free := insertFree (sl_free s) r\<rparr>)"
  using assms by (simp add: Free_def held_def)

lemma Free_inv:
  assumes "slab_inv s"
  shows "slab_inv (snd (Free i s))"
proof (cases "sl_closed s \<or> held s i = None")
  case True
  then show ?thesis using assms by (auto simp: Free_def held_def)
next
  case False
  then obtain r where r: "\<not> sl_closed s" "held s i = Some r" by auto
  let ?s = "snd (Free i s)"
  have s': "?s = s\<lparr>sl_leases := AList.delete i (sl_leases s), sl_free := insertFree (sl_free s) r\<rparr>"
    by (simp add: Free_held [OF r])
  obtain p q where pq: "sl_leases s = p @ (i, r) # q" "AList.delete i (sl_leases s) = p @ q"
    using delete_split [OF slab_invD(4) [OF assms]] r(2) unfolding held_def by metis
  have "cover x (sl_free ?s) + cover x (map snd (sl_leases ?s)) =
      of_bool (0 \<le> x \<and> x < sl_size ?s)" for x
    using slab_invD(6) [OF assms, of x] slab_insertFree(2) [OF assms r(2), of x] pq s' by simp
  moreover have "\<forall>(j, b) \<in> set (sl_leases ?s). 0 < sp_n b \<and> 0 < j \<and> j \<le> sl_nextID ?s"
    using slab_invD(5) [OF assms] s' by (auto simp: set_delete_iff)
  ultimately show ?thesis
    using assms s' slab_insertFree(1) [OF assms r(2)] r(1) by (simp add: slab_inv_def)
qed

lemma Free_missing: "held s i = None \<Longrightarrow> \<exists>e. Free i s = (Some e, s)"
  by (auto simp: Free_def held_def)

lemma Free_error: "Free i s = (Some e, s') \<Longrightarrow> s' = s"
  by (auto simp: Free_def split: if_splits option.splits)

lemma held_Free:
  assumes "\<not> sl_closed s" "held s i = Some r"
  shows "held (snd (Free i s)) = (held s)(i := None)" "fst (Free i s) = None"
    "\<not> sl_closed (snd (Free i s))"
  using assms by (simp_all add: Free_held) (simp_all add: held_def map_of_delete)

lemma Free_nextID [simp]: "sl_nextID (snd (Free i s)) = sl_nextID s"
  by (simp add: Free_def split: option.splits)

lemma Free_closed [simp]: "sl_closed (snd (Free i s)) = sl_closed s"
  by (simp add: Free_def split: option.splits)

section \<open>Creation, statistics, closing\<close>

lemma NewSlab_ok:
  assumes "NewSlab os sz = Inr s"
  shows "slab_inv s" "sl_size s = sz" "\<not> sl_closed s" "sl_nextID s = 0" "held s = Map.empty"
proof -
  have S: "0 < sz" "wrap64 sz = sz"
    "\<exists>name. s = \<lparr> sl_file = True, sl_path = name, sl_data = Some (replicate (nat sz) 0),
        sl_size = sz, sl_nextID = 0, sl_free = [\<lparr> sp_off = 0, sp_n = sz \<rparr>],
        sl_leases = [], sl_closed = False \<rparr>"
    using assms by (auto simp: NewSlab_def split: if_splits sum.splits option.splits)
  moreover have "sz \<le> max_int64"
    using S(2) wrap64_ok [of sz] by (simp add: int64_ok_def)
  ultimately show "slab_inv s" "sl_size s = sz" "\<not> sl_closed s" "sl_nextID s = 0" "held s = Map.empty"
    by (auto simp: slab_inv_def span_set_def held_def)
qed

lemma slab_Close_inv: "slab_inv s \<Longrightarrow> \<exists>s'. snd (slab_Close os (Some s)) = Some s' \<and> slab_inv s'"
  by (auto simp: slab_Close_def Let_def slab_inv_def)

lemma cover_sum:
  assumes "\<forall>r \<in> set rs. 0 \<le> sp_off r \<and> 0 \<le> sp_n r \<and> sp_off r + sp_n r \<le> n"
  shows "(\<Sum>x \<in> {0..<n}. int (cover x rs)) = sum_list (map sp_n rs)"
  using assms
proof (induction rs)
  case (Cons r rs)
  have "{0..<n} \<inter> span_set r = span_set r"
    using Cons.prems by (auto simp: span_set_def)
  then have "(\<Sum>x \<in> {0..<n}. of_bool (x \<in> span_set r)) = int (card (span_set r))"
    by (simp add: of_bool_def sum.If_cases Collect_mem_eq)
  also have "\<dots> = sp_n r"
    using Cons.prems by (simp add: span_set_def)
  finally show ?case
    using Cons by (simp add: sum.distrib of_bool_def if_distrib [of int] cong: if_cong)
qed simp

lemma foldl_add64:
  assumes "\<forall>r \<in> set rs. 0 \<le> sp_n r" "0 \<le> a" "a + sum_list (map sp_n rs) \<le> max_int64"
  shows "foldl (\<lambda>a r. add64 a (sp_n r)) a rs = a + sum_list (map sp_n rs)"
  using assms
proof (induction rs arbitrary: a)
  case (Cons r rs)
  have "0 \<le> sum_list (map sp_n rs)"
    using Cons.prems by (auto intro!: sum_list_nonneg)
  then have "add64 a (sp_n r) = a + sp_n r"
    using Cons.prems by (intro add64_id) auto
  then show ?case
    using Cons by simp
qed simp

lemma slab_sums:
  assumes "slab_inv s"
  shows "sum_list (map sp_n (sl_free s)) + sum_list (map (sp_n \<circ> snd) (sl_leases s)) = sl_size s"
proof -
  let ?L = "map snd (sl_leases s)"
  have "\<forall>r \<in> set (sl_free s). 0 \<le> sp_off r \<and> 0 \<le> sp_n r \<and> sp_off r + sp_n r \<le> sl_size s"
    using slab_free_range [OF assms] gaps_lower [OF slab_invD(3) [OF assms]] by force
  moreover have "\<forall>r \<in> set ?L. 0 \<le> sp_off r \<and> 0 \<le> sp_n r \<and> sp_off r + sp_n r \<le> sl_size s"
  proof
    fix r assume "r \<in> set ?L"
    then obtain i where i: "(i, r) \<in> set (sl_leases s)" by auto
    then have "held s i = Some r"
      using slab_invD(4) [OF assms] by (simp add: held_def mem_iff_map_of)
    then show "0 \<le> sp_off r \<and> 0 \<le> sp_n r \<and> sp_off r + sp_n r \<le> sl_size s"
      using slab_lease_range [OF assms] slab_invD(5) [OF assms i] by force
  qed
  ultimately have "sum_list (map sp_n (sl_free s)) + sum_list (map sp_n ?L) =
      (\<Sum>x \<in> {0..<sl_size s}. int (cover x (sl_free s)) + int (cover x ?L))"
    by (simp add: cover_sum sum.distrib)
  also have "\<dots> = (\<Sum>x \<in> {0..<sl_size s}. 1)"
  proof (rule sum.cong [OF refl])
    fix x assume "x \<in> {0..<sl_size s}"
    then have "cover x (sl_free s) + cover x ?L = 1"
      using slab_invD(6) [OF assms, of x] by simp
    then show "int (cover x (sl_free s)) + int (cover x ?L) = 1" by linarith
  qed
  also have "\<dots> = sl_size s" using slab_invD(1) [OF assms] by simp
  finally show ?thesis by (simp add: comp_def)
qed

section \<open>The allocator contract\<close>

text \<open>
  What the resource store, the IPC server and the daemon transport rely on: \<open>held\<close> says which
  range an identifier leases, \<open>room\<close> that the identifier counter has not run out, \<open>live\<close> that the
  allocator is not closed.
\<close>

locale byte_allocator =
  fixes inv :: "'s \<Rightarrow> bool" and holds :: "'s \<Rightarrow> u64 \<Rightarrow> span option"
    and room :: "'s \<Rightarrow> bool" and live :: "'s \<Rightarrow> bool"
    and alloc :: "int \<Rightarrow> 's \<Rightarrow> ('e + lease) \<times> 's"
    and release :: "u64 \<Rightarrow> 's \<Rightarrow> 'e option \<times> 's"
  assumes alloc_ok: "inv s \<Longrightarrow> room s \<Longrightarrow> alloc n s = (Inr l, s') \<Longrightarrow>
      inv s' \<and> live s' \<and> holds s (lease_ID l) = None \<and> lease_Length l = n \<and> 0 < n \<and>
      holds s' = (holds s)(lease_ID l \<mapsto> lease_span l)"
    and alloc_err: "alloc n s = (Inl e, s') \<Longrightarrow> s' = s"
    and release_ok: "inv s \<Longrightarrow> live s \<Longrightarrow> holds s i = Some r \<Longrightarrow>
      \<exists>s'. release i s = (None, s') \<and> inv s' \<and> live s' \<and> holds s' = (holds s)(i := None) \<and>
        room s' = room s"
    and release_err: "inv s \<Longrightarrow> holds s i = None \<Longrightarrow> \<exists>e. release i s = (Some e, s)"
    and disjoint: "inv s \<Longrightarrow> holds s i = Some a \<Longrightarrow> holds s j = Some b \<Longrightarrow> i \<noteq> j \<Longrightarrow>
      span_set a \<inter> span_set b = {}"

text \<open>The loop that releases a list of identifiers and ignores the errors.\<close>

fun free_each :: "(u64 \<Rightarrow> 's \<Rightarrow> 'e option \<times> 's) \<Rightarrow> u64 list \<Rightarrow> 's \<Rightarrow> 's" where
  "free_each fr [] s = s"
| "free_each fr (i # is) s = free_each fr is (snd (fr i s))"

context byte_allocator
begin

lemma release_step:
  assumes "inv s" "live s"
  shows "inv (snd (release i s))" "live (snd (release i s))"
    "holds (snd (release i s)) = (holds s)(i := None)" "room (snd (release i s)) = room s"
proof -
  have "inv (snd (release i s)) \<and> live (snd (release i s)) \<and>
      holds (snd (release i s)) = (holds s)(i := None) \<and> room (snd (release i s)) = room s"
  proof (cases "holds s i")
    case None
    with release_err [OF assms(1) None] assms show ?thesis
      by (metis fun_upd_triv snd_conv)
  next
    case (Some r)
    with release_ok [OF assms Some] show ?thesis by auto
  qed
  then show "inv (snd (release i s))" "live (snd (release i s))"
    "holds (snd (release i s)) = (holds s)(i := None)" "room (snd (release i s)) = room s"
    by blast+
qed

lemma free_each_spec:
  "inv s \<Longrightarrow> live s \<Longrightarrow>
   inv (free_each release is s) \<and> live (free_each release is s) \<and>
   holds (free_each release is s) = holds s |` (- set is) \<and>
   room (free_each release is s) = room s"
proof (induction "is" arbitrary: s)
  case Nil
  then show ?case by (auto simp: restrict_map_def)
next
  case (Cons i "is")
  note st = release_step [OF Cons.prems, of i]
  have "holds s |` (- set (i # is)) = (holds s)(i := None) |` (- set is)"
    by (auto simp: restrict_map_def fun_eq_iff)
  then show ?case
    using Cons.IH [OF st(1,2)] st(3,4) by (simp add: fun_upd_def del: restrict_fun_upd)
qed

lemma alloc_release:
  assumes "inv s" "room s" "alloc n s = (Inr l, s')"
  shows "\<exists>s''. release (lease_ID l) s' = (None, s'') \<and> inv s'' \<and> live s'' \<and> holds s'' = holds s"
proof -
  note a = alloc_ok [OF assms]
  then have "holds s' (lease_ID l) = Some (lease_span l)" by simp
  with a obtain s'' where "release (lease_ID l) s' = (None, s'')" "inv s''" "live s''"
    "holds s'' = (holds s')(lease_ID l := None)"
    using release_ok by blast
  with a show ?thesis by (auto simp: fun_eq_iff)
qed

lemma alloc_disjoint:
  assumes "inv s" "room s" "alloc n s = (Inr l, s')" "holds s j = Some b"
  shows "span_set (lease_span l) \<inter> span_set b = {}"
proof -
  note a = alloc_ok [OF assms(1-3)]
  then have "j \<noteq> lease_ID l" using assms(4) by auto
  with a assms(4) show ?thesis
    using disjoint [of s' "lease_ID l" "lease_span l" j b] by simp
qed

end

interpretation slab_alloc: byte_allocator slab_inv held id_room "\<lambda>s. \<not> sl_closed s" Alloc Free
proof unfold_locales
  fix s s' n l assume "slab_inv s" "id_room s" "Alloc n s = (Inr l, s')"
  then show "slab_inv s' \<and> \<not> sl_closed s' \<and> held s (lease_ID l) = None \<and> lease_Length l = n \<and>
      0 < n \<and> held s' = (held s)(lease_ID l \<mapsto> lease_span l)"
    by (simp add: Alloc_inv Alloc_held)
next
  fix s i r assume "slab_inv s" "\<not> sl_closed s" "held s i = Some r"
  then show "\<exists>s'. Free i s = (None, s') \<and> slab_inv s' \<and> \<not> sl_closed s' \<and>
      held s' = (held s)(i := None) \<and> id_room s' = id_room s"
    using Free_inv [of s i] held_Free [of s i r] Free_nextID [of i s]
    by (cases "Free i s") (auto simp: id_room_def)
qed (auto simp: Alloc_error Free_missing slab_leases_disjoint)

section \<open>Properties\<close>

datatype slab_op = OpAlloc int | OpFree u64 | OpClose slab_os

fun slab_step :: "slab_op \<Rightarrow> slab \<Rightarrow> slab" where
  "slab_step (OpAlloc n) s = snd (Alloc n s)"
| "slab_step (OpFree i) s = snd (Free i s)"
| "slab_step (OpClose os) s = the (snd (slab_Close os (Some s)))"

fun slab_run :: "slab_op list \<Rightarrow> slab \<Rightarrow> slab" where
  "slab_run [] s = s"
| "slab_run (c # cs) s = slab_run cs (slab_step c s)"

definition os_fine :: slab_os where
  "os_fine = \<lparr> os_createTemp = Inr ''/tmp/jaccld-slab-1'', os_truncate = None, os_mmap = None,
     os_unlink = None, os_munmap = None, os_close = None, os_remove = None \<rparr>"

definition slab16 :: slab where
  "slab16 = \<lparr> sl_file = True, sl_path = ''/tmp/jaccld-slab-1'', sl_data = Some (replicate 16 0),
     sl_size = 16, sl_nextID = 0, sl_free = [\<lparr> sp_off = 0, sp_n = 16 \<rparr>], sl_leases = [],
     sl_closed = False \<rparr>"

lemma NewSlab_slab16: "NewSlab os_fine 16 = Inr slab16"
  by (simp add: NewSlab_def os_fine_def slab16_def wrap64_def)

lemma slab16_simps [simp]: "slab_inv slab16" "id_room slab16" "\<not> sl_closed slab16" "held slab16 = Map.empty"
  using NewSlab_ok [OF NewSlab_slab16] by (simp_all add: id_room_def)

lemma Alloc_nextID: "sl_nextID (snd (Alloc n s)) = sl_nextID s \<or> sl_nextID (snd (Alloc n s)) = sl_nextID s + 1"
  by (auto simp: Alloc_def slab_next_def Let_def split: option.splits)

lemma slab_step_inv:
  assumes "slab_inv s" "id_room s"
  shows "slab_inv (slab_step c s)" "unat (sl_nextID (slab_step c s)) \<le> Suc (unat (sl_nextID s))"
proof -
  show "slab_inv (slab_step c s)"
  proof (cases c)
    case (OpAlloc n)
    show ?thesis
    proof (cases "Alloc n s")
      case (Pair res s')
      then show ?thesis
        using OpAlloc assms Alloc_inv Alloc_error by (cases res) fastforce+
    qed
  next
    case (OpFree i)
    then show ?thesis using Free_inv [OF assms(1)] by simp
  next
    case (OpClose os)
    then show ?thesis using slab_Close_inv [OF assms(1), of os] by auto
  qed
  show "unat (sl_nextID (slab_step c s)) \<le> Suc (unat (sl_nextID s))"
  proof (cases c)
    case (OpAlloc n)
    then show ?thesis
      using Alloc_nextID [of n s] id_room_next(1) [OF assms(2)] by auto
  qed (simp_all add: slab_Close_def Let_def)
qed

text \<open>C1.  However the slab is used after its creation (any sequence of allocations, releases by any
identifier and closes, each succeeding or failing), every byte of it is in exactly one free range or
one lease, the free ranges are in order with a gap between any two, and lease identifiers are
distinct; as long as the 64-bit identifier counter has not wrapped.\<close>

theorem slab_run_inv:
  assumes "NewSlab os sz = Inr s" and "length ops < 2 ^ 64"
  shows "slab_inv (slab_run ops s)"
proof -
  have "slab_inv (slab_run ops s)"
    if "slab_inv s" "unat (sl_nextID s) + length ops < 2 ^ 64" for s
    using that
  proof (induction ops arbitrary: s)
    case (Cons c cs)
    then have "id_room s" by (simp add: id_room_def)
    with Cons slab_step_inv [of s c] show ?case by simp
  qed simp
  then show ?thesis
    using assms NewSlab_ok [OF assms(1)] by simp
qed

theorem slab_run_inv_witness:
  "slab_inv (slab_run [OpAlloc 4, OpAlloc 5, OpFree 1, OpAlloc 20, OpClose os_fine] slab16)"
  by (rule slab_run_inv [OF NewSlab_slab16]) simp

text \<open>C2.  A successful allocation of \<open>n\<close> bytes returns an identifier that is not in use, a range of
exactly \<open>n\<close> bytes inside the slab that no existing lease shares a byte with, at the lowest address
where \<open>n\<close> contiguous bytes are free; every other lease is untouched.\<close>

theorem Alloc_correct:
  assumes "slab_inv s" and "id_room s" and "Alloc n s = (Inr l, s')"
  shows "held s (lease_ID l) = None \<and> held s' = (held s)(lease_ID l \<mapsto> lease_span l) \<and>
    lease_Length l = n \<and> 0 \<le> lease_Offset l \<and> lease_Offset l + n \<le> sl_size s \<and>
    (\<forall>j b. held s j = Some b \<longrightarrow> span_set (lease_span l) \<inter> span_set b = {}) \<and>
    (\<forall>off. (\<forall>x \<in> {off ..< off + n}. 0 < cover x (sl_free s)) \<longrightarrow> lease_Offset l \<le> off)"
proof -
  have inv': "slab_inv s'" and h: "held s' (lease_ID l) = Some (lease_span l)"
    using Alloc_inv [OF assms] Alloc_held [OF assms] by auto
  from assms(3) obtain free' where ff: "0 < n" "first_fit n (sl_free s) = Some (lease_Offset l, free')"
    and sz: "sl_size s' = sl_size s"
    by (rule Alloc_cases) auto
  have low: "lease_Offset l \<le> off" if run: "\<forall>x \<in> {off ..< off + n}. 0 < cover x (sl_free s)" for off
  proof -
    obtain r where r: "r \<in> set (sl_free s)" "sp_off r \<le> off" "off + n \<le> sp_off r + sp_n r"
      using gaps_contiguous [OF slab_invD(3) [OF assms(1)] ff(1) run] by blast
    then have "lease_Offset l \<le> sp_off r"
      using first_fit_Some(4) [OF ff(2) slab_invD(3) [OF assms(1)] ff(1), of r]
        slab_free_range(3) [OF assms(1)] by force
    with r show ?thesis by simp
  qed
  show ?thesis
    using Alloc_held [OF assms] slab_lease_range [OF inv' h] sz low
      slab_alloc.alloc_disjoint [OF assms]
    by (auto simp: lease_span_def)
qed

theorem Alloc_correct_witness:
  "held slab16 1 = None \<and> (\<exists>s'. Alloc 6 slab16 = (Inr \<lparr> lease_ID = 1, lease_Offset = 0, lease_Length = 6 \<rparr>, s') \<and>
    held s' 1 = Some \<lparr> sp_off = 0, sp_n = 6 \<rparr>)"
proof -
  obtain s' where a: "Alloc 6 slab16 = (Inr \<lparr> lease_ID = 1, lease_Offset = 0, lease_Length = 6 \<rparr>, s')"
    by (simp add: Alloc_def slab_next_def slab16_def)
  show ?thesis
    using Alloc_correct [OF slab16_simps(1,2) a] a by (auto simp: lease_span_def)
qed

lemma free_byte_iff:
  assumes "slab_inv s"
  shows "0 < cover x (sl_free s) \<longleftrightarrow>
    0 \<le> x \<and> x < sl_size s \<and> (\<forall>i r. held s i = Some r \<longrightarrow> x \<notin> span_set r)"
proof -
  have "(\<exists>i r. held s i = Some r \<and> x \<in> span_set r) \<longleftrightarrow> 0 < cover x (map snd (sl_leases s))"
    using slab_invD(4) [OF assms]
    by (force simp: cover_pos_iff held_def mem_iff_map_of [symmetric])
  then show ?thesis
    using slab_invD(6) [OF assms, of x] by (auto simp: of_bool_def split: if_splits)
qed

lemma free_run_iff:
  assumes "slab_inv s" "0 < n"
  shows "(\<exists>off. \<forall>x \<in> {off ..< off + n}. 0 < cover x (sl_free s)) \<longleftrightarrow>
    (\<exists>r \<in> set (sl_free s). n \<le> sp_n r)"
proof
  assume "\<exists>off. \<forall>x \<in> {off ..< off + n}. 0 < cover x (sl_free s)"
  then obtain r off where "r \<in> set (sl_free s)" "sp_off r \<le> off" "off + n \<le> sp_off r + sp_n r"
    using gaps_contiguous [OF slab_invD(3) [OF assms(1)] assms(2)] by blast
  then show "\<exists>r \<in> set (sl_free s). n \<le> sp_n r" by force
next
  assume "\<exists>r \<in> set (sl_free s). n \<le> sp_n r"
  then obtain r where r: "r \<in> set (sl_free s)" "n \<le> sp_n r" by blast
  then have "\<forall>x \<in> {sp_off r ..< sp_off r + n}. 0 < cover x (sl_free s)"
    using cover_mem [OF r(1)] by (simp add: span_set_def)
  then show "\<exists>off. \<forall>x \<in> {off ..< off + n}. 0 < cover x (sl_free s)" by blast
qed

lemma Alloc_NoMemory_iff:
  assumes "slab_inv s" "\<not> sl_closed s" "0 < n"
  shows "fst (Alloc n s) = Inl NoMemory \<longleftrightarrow>
    \<not> (\<exists>off. 0 \<le> off \<and> off + n \<le> sl_size s \<and>
        (\<forall>i r. held s i = Some r \<longrightarrow> {off ..< off + n} \<inter> span_set r = {}))"
proof -
  have "fst (Alloc n s) = Inl NoMemory \<longleftrightarrow> (\<forall>r \<in> set (sl_free s). sp_n r < n)"
    using assms(2,3) by (auto simp: Alloc_def Let_def first_fit_None [symmetric]
        split: option.splits prod.splits)
  also have "\<dots> \<longleftrightarrow> \<not> (\<exists>off. \<forall>x \<in> {off ..< off + n}. 0 < cover x (sl_free s))"
    unfolding free_run_iff [OF assms(1,3)] by force
  also have "(\<exists>off. \<forall>x \<in> {off ..< off + n}. 0 < cover x (sl_free s)) \<longleftrightarrow>
      (\<exists>off. 0 \<le> off \<and> off + n \<le> sl_size s \<and>
        (\<forall>i r. held s i = Some r \<longrightarrow> {off ..< off + n} \<inter> span_set r = {}))"
  proof (rule ex_cong1)
    fix off
    have "(0 \<le> off \<and> off + n \<le> sl_size s) \<longleftrightarrow> (\<forall>x \<in> {off ..< off + n}. 0 \<le> x \<and> x < sl_size s)"
      using assms(3) by (auto dest: bspec [of _ _ off] bspec [of _ _ "off + n - 1"])
    then show "(\<forall>x \<in> {off ..< off + n}. 0 < cover x (sl_free s)) \<longleftrightarrow> (0 \<le> off \<and> off + n \<le> sl_size s \<and>
        (\<forall>i r. held s i = Some r \<longrightarrow> {off ..< off + n} \<inter> span_set r = {}))"
      unfolding free_byte_iff [OF assms(1)] by blast
  qed
  finally show ?thesis .
qed

text \<open>C3.  Allocation is complete: on an open slab a request for \<open>n > 0\<close> bytes is refused with
\<^verbatim>\<open>ErrNoMemory\<close> exactly when the slab has no \<open>n\<close> contiguous bytes outside all leases.  No
allocation fails because of how the free list happens to be split.\<close>

theorem Alloc_complete:
  assumes "slab_inv s" and "\<not> sl_closed s" and "0 < n"
  shows "fst (Alloc n s) = Inl NoMemory \<longleftrightarrow>
    \<not> (\<exists>off. 0 \<le> off \<and> off + n \<le> sl_size s \<and>
        (\<forall>i r. held s i = Some r \<longrightarrow> {off ..< off + n} \<inter> span_set r = {}))"
  using assms by (rule Alloc_NoMemory_iff)

theorem Alloc_complete_witness:
  "fst (Alloc 17 slab16) = Inl NoMemory \<and> fst (Alloc 16 slab16) \<noteq> Inl NoMemory"
proof
  show "fst (Alloc 17 slab16) = Inl NoMemory"
    using Alloc_complete [OF slab16_simps(1,3), of 17] by (auto simp: slab16_def)
  show "fst (Alloc 16 slab16) \<noteq> Inl NoMemory"
    using Alloc_complete [OF slab16_simps(1,3), of 16] by (auto simp: slab16_def held_def)
qed

text \<open>C4.  Releasing an allocation restores the allocator exactly: the lease map and the free list,
entry by entry, are those before the allocation; only the identifier counter has moved on.\<close>

theorem Free_undoes_Alloc:
  assumes "slab_inv s" and "id_room s" and "Alloc n s = (Inr l, s')"
  shows "Free (lease_ID l) s' = (None, s\<lparr>sl_nextID := sl_nextID s + 1\<rparr>)"
proof -
  from assms(3) obtain free' where A: "0 < n" "\<not> sl_closed s"
    "first_fit n (sl_free s) = Some (lease_Offset l, free')" "lease_ID l = sl_nextID s + 1"
    "lease_Length l = n"
    "s' = s\<lparr>sl_nextID := sl_nextID s + 1,
            sl_leases := AList.update (sl_nextID s + 1) (lease_span l) (sl_leases s),
            sl_free := free'\<rparr>"
    by (rule Alloc_cases)
  have inv': "slab_inv s'" and h: "held s' (lease_ID l) = Some (lease_span l)" and "\<not> sl_closed s'"
    using Alloc_inv [OF assms] Alloc_held [OF assms] by auto
  then have F: "Free (lease_ID l) s' = (None, s'\<lparr>sl_leases := AList.delete (lease_ID l) (sl_leases s'),
      sl_free := insertFree (sl_free s') (lease_span l)\<rparr>)"
    by (simp add: Free_held)
  have "AList.delete (lease_ID l) (sl_leases s') = sl_leases s"
    using fresh_id [OF assms(1,2)] A by (simp add: update_fresh delete_append delete_fresh)
  moreover have "insertFree (sl_free s') (lease_span l) = sl_free s"
  proof (rule gaps_canonical)
    show "gaps (- 1) (insertFree (sl_free s') (lease_span l))"
      by (rule slab_insertFree(1) [OF inv' h])
    show "gaps (- 1) (sl_free s)" by (rule slab_invD(3) [OF assms(1)])
    fix x
    have "cover x (sl_free s) = of_bool (x \<in> span_set (lease_span l)) + cover x (sl_free s')"
      using first_fit_Some(3) [OF A(3) slab_invD(3) [OF assms(1)] A(1), of x]
        slab_free_range(3) [OF assms(1)] A(5,6) by (simp add: span_set_def lease_span_def)
    then show "0 < cover x (insertFree (sl_free s') (lease_span l)) \<longleftrightarrow> 0 < cover x (sl_free s)"
      using slab_insertFree(2) [OF inv' h, of x] by simp
  qed
  ultimately show ?thesis
    using F A(6) by simp
qed

theorem Free_undoes_Alloc_witness:
  "\<exists>l s'. Alloc 6 slab16 = (Inr l, s') \<and> Free (lease_ID l) s' = (None, slab16\<lparr>sl_nextID := 1\<rparr>)"
proof -
  obtain l s' where a: "Alloc 6 slab16 = (Inr l, s')"
    by (simp add: Alloc_def slab_next_def slab16_def)
  then have "Free (lease_ID l) s' = (None, slab16\<lparr>sl_nextID := sl_nextID slab16 + 1\<rparr>)"
    by (rule Free_undoes_Alloc [OF slab16_simps(1,2)])
  with a show ?thesis by (auto simp: slab16_def)
qed

text \<open>The statistics are exact: used bytes are the sum of the leased lengths, used and free
bytes add up to the slab size without overflow, and the lease count is the number of held leases.\<close>

lemma slab_Stats_exact:
  assumes "slab_inv s"
  shows "stats_Used (slab_Stats s) = sum_list (map (sp_n \<circ> snd) (sl_leases s)) \<and>
    stats_Used (slab_Stats s) + stats_Free (slab_Stats s) = stats_Size (slab_Stats s) \<and>
    stats_Leases (slab_Stats s) = card (dom (held s))"
proof -
  let ?U = "sum_list (map (sp_n \<circ> snd) (sl_leases s))" and ?F = "sum_list (map sp_n (sl_free s))"
  have nn: "\<forall>r \<in> set (sl_free s). 0 \<le> sp_n r"
    using gaps_lower [OF slab_invD(3) [OF assms]] by force
  have "0 \<le> ?U"
    using slab_invD(5) [OF assms] by (intro sum_list_nonneg) force
  moreover have "0 \<le> ?F" using nn by (intro sum_list_nonneg) auto
  ultimately have "foldl (\<lambda>a r. add64 a (sp_n r)) 0 (sl_free s) = ?F" "sub64 (sl_size s) ?F = ?U"
    using slab_sums [OF assms] slab_invD(2) [OF assms] foldl_add64 [OF nn, of 0]
      sub64_id [of "sl_size s" ?F] by (auto simp: int64_defs)
  moreover have "length (sl_leases s) = card (dom (held s))"
    using slab_invD(4) [OF assms] unfolding held_def map_ok_def
    by (simp add: dom_map_of_conv_image_fst distinct_card flip: set_map)
  ultimately show ?thesis
    using slab_sums [OF assms] by (simp add: slab_Stats_def Let_def)
qed

lemma slab_Stats_exact_witness:
  "stats_Used (slab_Stats slab16) = 0 \<and> stats_Free (slab_Stats slab16) = 16"
  using slab_Stats_exact [OF slab16_simps(1)] by (simp add: slab16_def slab_Stats_def Let_def add64_def wrap64_def)

end
