(* ===== verification/Resource.thy ===== *)
theory Resource
  imports Slab
begin

text \<open>
  The data model of \<^verbatim>\<open>src/internal/jaccld/resource/types.go\<close>: admission states with
  their text form, peer, memory and session records, slot counters, and the checks on the RDMA
  heartbeat memory contract.  Lemmas: the text form of a state round-trips; the heartbeat contract is
  accepted exactly when every field is usable, and a lease hands it out only while it is live.
\<close>

section \<open>States\<close>

text \<open>\<^verbatim>\<open>State\<close> is a \<^verbatim>\<open>uint8\<close>: five named values, any other byte is invalid.\<close>

datatype state =
  StateBootstrapping | StateOpening | StateReady | StateDraining | StateTerminated

fun state_byte :: "state \<Rightarrow> u8" where
  "state_byte StateBootstrapping = 0"
| "state_byte StateOpening = 1"
| "state_byte StateReady = 2"
| "state_byte StateDraining = 3"
| "state_byte StateTerminated = 4"

instantiation state :: linorder
begin

definition less_eq_state :: "state \<Rightarrow> state \<Rightarrow> bool" where
  "less_eq_state a b \<longleftrightarrow> state_byte a \<le> state_byte b"

definition less_state :: "state \<Rightarrow> state \<Rightarrow> bool" where
  "less_state a b \<longleftrightarrow> state_byte a < state_byte b"

instance
proof
  fix a b :: state
  show "a \<le> b \<Longrightarrow> b \<le> a \<Longrightarrow> a = b"
    by (cases a; cases b) (simp_all add: less_eq_state_def word_le_nat_alt)
qed (auto simp: less_eq_state_def less_state_def)

end

definition state_of_byte :: "u8 \<Rightarrow> state option" where
  "state_of_byte w =
     (if w = 0 then Some StateBootstrapping else if w = 1 then Some StateOpening
      else if w = 2 then Some StateReady else if w = 3 then Some StateDraining
      else if w = 4 then Some StateTerminated else None)"

definition state_valid :: "u8 \<Rightarrow> bool" where
  "state_valid w \<longleftrightarrow> w \<le> state_byte StateTerminated"

definition state_String :: "u8 \<Rightarrow> string" where
  "state_String w =
     (case state_of_byte w of
        Some StateBootstrapping \<Rightarrow> ''bootstrapping''
      | Some StateOpening \<Rightarrow> ''opening''
      | Some StateReady \<Rightarrow> ''ready''
      | Some StateDraining \<Rightarrow> ''draining''
      | Some StateTerminated \<Rightarrow> ''terminated''
      | None \<Rightarrow> ''state('' @ decimal (unat w) @ '')'')"

definition state_MarshalText :: "u8 \<Rightarrow> string" where
  "state_MarshalText w = state_String w"

definition state_UnmarshalText :: "string \<Rightarrow> u8 option" where
  "state_UnmarshalText text =
     (if text = ''bootstrapping'' then Some 0 else if text = ''opening'' then Some 1
      else if text = ''ready'' then Some 2 else if text = ''draining'' then Some 3
      else if text = ''terminated'' then Some 4 else None)"

lemma state_of_byte_state_byte [simp]: "state_of_byte (state_byte s) = Some s"
  by (cases s) (simp_all add: state_of_byte_def)

lemma state_of_byte_eq: "state_of_byte w = Some s \<longleftrightarrow> w = state_byte s"
  by (cases s) (auto simp: state_of_byte_def)

lemma state_valid_iff: "state_valid w \<longleftrightarrow> (\<exists>s. state_of_byte w = Some s)"
proof
  assume "state_valid w"
  then have "unat w \<le> 4" by (simp add: state_valid_def word_le_nat_alt)
  then have "unat w = 0 \<or> unat w = 1 \<or> unat w = 2 \<or> unat w = 3 \<or> unat w = 4" by auto
  then have "w = 0 \<or> w = 1 \<or> w = 2 \<or> w = 3 \<or> w = 4"
    by (simp add: word_unat_eq_iff)
  then show "\<exists>s. state_of_byte w = Some s" by (auto simp: state_of_byte_def)
next
  assume "\<exists>s. state_of_byte w = Some s"
  then obtain s where "w = state_byte s" by (auto simp: state_of_byte_eq)
  then show "state_valid w" by (cases s) (simp_all add: state_valid_def)
qed

lemma state_text_roundtrip:
  "state_UnmarshalText (state_MarshalText w) = (if state_valid w then Some w else None)"
proof (cases "state_of_byte w")
  case None
  then have "\<not> state_valid w" by (simp add: state_valid_iff)
  moreover have "state_UnmarshalText (''state('' @ t) = None" for t
    by (simp add: state_UnmarshalText_def)
  ultimately show ?thesis
    using None by (simp add: state_MarshalText_def state_String_def)
next
  case (Some s)
  then have "w = state_byte s" "state_valid w" by (auto simp: state_of_byte_eq state_valid_iff)
  then show ?thesis
    by (cases s) (simp_all add: state_MarshalText_def state_String_def state_of_byte_def
        state_UnmarshalText_def)
qed

section \<open>Records\<close>

type_synonym LeaseID = u64
type_synonym QueuePairHandle = string
type_synonym CompletionQueueHandle = string

record remote_memory =
  rm_Addr :: u64
  rm_RKey :: u32

record heartbeat_mr =
  hb_Addr :: u64
  hb_RKey :: u32
  hb_Length :: int
  hb_Epoch :: u64

record peer_spec =
  peer_Rank :: int
  peer_QueuePairNumber :: u32
  peer_PacketSequenceNumber :: u32
  peer_LocalID :: u16
  peer_GlobalID :: string
  peer_MTU :: int
  peer_Memory :: remote_memory

record mr_window =
  mw_SlabID :: string
  mw_Offset :: int
  mw_Length :: int

record session_request =
  rq_ClientID :: string
  rq_Peer :: peer_spec
  rq_Size :: int
  rq_Deadline :: instant
  rq_HeartbeatMR :: heartbeat_mr
  rq_Heartbeat :: duration

record session_lease =
  se_ID :: LeaseID
  se_ClientID :: string
  se_Peer :: peer_spec
  se_Window :: mr_window
  se_HeartbeatMR :: heartbeat_mr
  se_QueuePair :: QueuePairHandle
  se_CompletionQueue :: CompletionQueueHandle
  se_CreatedAt :: instant
  se_ExpiresAt :: instant
  se_LastActivity :: instant
  se_Healthy :: bool

record pool_stats =
  ps_InUse :: nat
  ps_Available :: nat
  ps_BytesInUse :: int
  ps_BytesAvailable :: int

datatype slot_kind =
  SlotProtectionDomain | SlotMemoryRegion | SlotQueuePair | SlotCompletionQueue | SlotUnknown string

record slot_counter =
  sc_Opened :: u64
  sc_Closed :: u64
  sc_Failed :: u64
  sc_Outstanding :: u64
  sc_Live :: int

record slot_stats =
  ss_BootID :: string
  ss_Source :: string
  ss_StatePath :: string
  ss_ExternalUseUnknown :: bool
  ss_ProtectionDomains :: slot_counter
  ss_MemoryRegions :: slot_counter
  ss_QueuePairs :: slot_counter
  ss_CompletionQueues :: slot_counter

definition zero_counter :: slot_counter where
  "zero_counter = \<lparr> sc_Opened = 0, sc_Closed = 0, sc_Failed = 0, sc_Outstanding = 0, sc_Live = 0 \<rparr>"

definition zero_slots :: slot_stats where
  "zero_slots = \<lparr> ss_BootID = '''', ss_Source = '''', ss_StatePath = '''', ss_ExternalUseUnknown = False,
     ss_ProtectionDomains = zero_counter, ss_MemoryRegions = zero_counter,
     ss_QueuePairs = zero_counter, ss_CompletionQueues = zero_counter \<rparr>"

fun slot_stats_Counter :: "slot_stats \<Rightarrow> slot_kind \<Rightarrow> slot_counter" where
  "slot_stats_Counter s SlotProtectionDomain = ss_ProtectionDomains s"
| "slot_stats_Counter s SlotMemoryRegion = ss_MemoryRegions s"
| "slot_stats_Counter s SlotQueuePair = ss_QueuePairs s"
| "slot_stats_Counter s SlotCompletionQueue = ss_CompletionQueues s"
| "slot_stats_Counter s (SlotUnknown k) = zero_counter"

record resource_stats =
  rs_State :: state
  rs_Leases :: nat
  rs_MemoryRegions :: pool_stats
  rs_QueuePairs :: pool_stats
  rs_CompletionQueues :: pool_stats
  rs_Slots :: slot_stats

section \<open>Errors\<close>

datatype invalid_reason =
    HeartbeatAddrZero
  | HeartbeatRKeyZero
  | HeartbeatLength int
  | HeartbeatEpochZero
  | LeaseIDZero
  | LeaseDeadlineZero
  | ClientIDEmpty
  | PeerRankNegative int
  | SizeNotPositive int
  | DeadlineZero
  | HeartbeatNegative duration
  | WindowSlabID string
  | LivenessInterval duration
  | HeartbeatTTL duration
  | StaleEpoch u64 u64
  | HeartbeatDeadlineZero

datatype open_stage = AllocateWindow | AcquireCompletion | AcquireQueue

datatype res_error =
    ErrNotReady
  | ErrExhausted
  | ErrInvalidRequest invalid_reason
  | ErrInvalidState
  | ErrLeaseNotFound
  | ErrExpired
  | ErrCtx ctx_error
  | ErrSlab slab_error
  | ErrOpen open_stage res_error
  | ErrJoin "res_error list"

text \<open>\<^verbatim>\<open>errors.Join\<close> as an error value: nil when every argument is nil.\<close>

definition Join_errors :: "res_error option list \<Rightarrow> res_error option" where
  "Join_errors es = (case errors_Join es of [] \<Rightarrow> None | e # es' \<Rightarrow> Some (ErrJoin (e # es')))"

lemma Join_errors_None [simp]: "Join_errors es = None \<longleftrightarrow> (\<forall>e \<in> set es. e = None)"
  by (simp add: Join_errors_def split: list.splits flip: errors_Join_Nil)

section \<open>Heartbeat memory\<close>

definition zero_heartbeat :: heartbeat_mr where
  "zero_heartbeat = \<lparr> hb_Addr = 0, hb_RKey = 0, hb_Length = 0, hb_Epoch = 0 \<rparr>"

definition heartbeat_IsZero :: "heartbeat_mr \<Rightarrow> bool" where
  "heartbeat_IsZero h \<longleftrightarrow> h = zero_heartbeat"

definition ValidateForRDMA :: "heartbeat_mr \<Rightarrow> res_error option" where
  "ValidateForRDMA h =
     (if hb_Addr h = 0 then Some (ErrInvalidRequest HeartbeatAddrZero)
      else if hb_RKey h = 0 then Some (ErrInvalidRequest HeartbeatRKeyZero)
      else if hb_Length h \<le> 0 then Some (ErrInvalidRequest (HeartbeatLength (hb_Length h)))
      else if hb_Epoch h = 0 then Some (ErrInvalidRequest HeartbeatEpochZero)
      else None)"

definition RDMAHeartbeatMR :: "session_lease \<Rightarrow> instant \<Rightarrow> res_error + heartbeat_mr" where
  "RDMAHeartbeatMR l now =
     (if se_ID l = 0 then Inl (ErrInvalidRequest LeaseIDZero)
      else if se_ExpiresAt l = 0 then Inl (ErrInvalidRequest LeaseDeadlineZero)
      else if \<not> now < se_ExpiresAt l then Inl ErrExpired
      else case ValidateForRDMA (se_HeartbeatMR l) of
        Some e \<Rightarrow> Inl e
      | None \<Rightarrow> Inr (se_HeartbeatMR l))"

lemma ValidateForRDMA_None:
  "ValidateForRDMA h = None \<longleftrightarrow>
     hb_Addr h \<noteq> 0 \<and> hb_RKey h \<noteq> 0 \<and> 0 < hb_Length h \<and> hb_Epoch h \<noteq> 0"
  by (simp add: ValidateForRDMA_def)

lemma RDMAHeartbeatMR_Inr:
  "RDMAHeartbeatMR l now = Inr h \<longleftrightarrow>
     se_ID l \<noteq> 0 \<and> se_ExpiresAt l \<noteq> 0 \<and> now < se_ExpiresAt l \<and>
     ValidateForRDMA (se_HeartbeatMR l) = None \<and> h = se_HeartbeatMR l"
  by (auto simp: RDMAHeartbeatMR_def split: option.splits)

end
