(* ===== verification/Pools.thy ===== *)
theory Pools
  imports Resource
begin

text \<open>
  The bounded pools of \<^verbatim>\<open>src/internal/jaccld/resource\<close>: \<^verbatim>\<open>handle.go\<close> (queue-pair and
  completion-queue handles), \<^verbatim>\<open>slab.go\<close> (memory windows cut from an allocator slab) and the
  three interfaces of \<^verbatim>\<open>pool.go\<close>.

  Each method consults its context once, at its start: the argument \<open>ce\<close> is what
  \<^verbatim>\<open>ctx.Err()\<close> returns there.  A Go interface value is a record of functions over the pool's
  state (\<open>pool_ops\<close>); \<open>daemon_pools\<close> is the instance the daemon builds.

  The contract the session store relies on is the locale \<open>handle_pool\<close>: an acquired handle was not in
  use, a failing call changes nothing, a release of a handle in use under a live context succeeds, and
  a call under a cancelled context is refused.  It is interpreted on all three pools.
\<close>

section \<open>Queue-pair and completion-queue handles\<close>

record qp_pool =
  qp_available :: "QueuePairHandle list"
  qp_inUse :: "(QueuePairHandle \<times> peer_spec) list"

record cq_pool =
  cq_available :: "CompletionQueueHandle list"
  cq_inUse :: "(CompletionQueueHandle \<times> bool) list"

datatype pool_error = NoHandles | EmptyHandle | DuplicateHandle string | NilSlab

text \<open>The validation loop of both constructors; \<open>seen\<close> is the set of handles already met.\<close>

fun check_handles :: "string list \<Rightarrow> string list \<Rightarrow> pool_error option" where
  "check_handles seen [] = None"
| "check_handles seen (h # hs) =
     (if h = '''' then Some EmptyHandle
      else if h \<in> set seen then Some (DuplicateHandle h)
      else check_handles (h # seen) hs)"

definition NewStaticQueuePairPool :: "QueuePairHandle list \<Rightarrow> pool_error + qp_pool" where
  "NewStaticQueuePairPool handles =
     (if handles = [] then Inl NoHandles
      else case check_handles [] handles of
        Some e \<Rightarrow> Inl e
      | None \<Rightarrow> Inr \<lparr> qp_available = handles, qp_inUse = [] \<rparr>)"

definition AcquireQueuePair ::
  "ctx_error option \<Rightarrow> peer_spec \<Rightarrow> qp_pool \<Rightarrow> (res_error + QueuePairHandle) \<times> qp_pool" where
  "AcquireQueuePair ce peer p =
     (case ce of Some e \<Rightarrow> (Inl (ErrCtx e), p)
      | None \<Rightarrow>
          if length (qp_available p) = 0 then (Inl ErrExhausted, p)
          else
            let h = qp_available p ! (length (qp_available p) - 1) in
            (Inr h, p\<lparr>qp_available := take (length (qp_available p) - 1) (qp_available p),
                      qp_inUse := AList.update h peer (qp_inUse p)\<rparr>))"

definition ReleaseQueuePair ::
  "ctx_error option \<Rightarrow> QueuePairHandle \<Rightarrow> qp_pool \<Rightarrow> res_error option \<times> qp_pool" where
  "ReleaseQueuePair ce h p =
     (case ce of Some e \<Rightarrow> (Some (ErrCtx e), p)
      | None \<Rightarrow>
          (case map_of (qp_inUse p) h of
            None \<Rightarrow> (Some ErrLeaseNotFound, p)
          | Some _ \<Rightarrow>
              (None, p\<lparr>qp_inUse := AList.delete h (qp_inUse p),
                       qp_available := qp_available p @ [h]\<rparr>)))"

definition QueuePairStats :: "qp_pool \<Rightarrow> pool_stats" where
  "QueuePairStats p = \<lparr> ps_InUse = length (qp_inUse p), ps_Available = length (qp_available p),
     ps_BytesInUse = 0, ps_BytesAvailable = 0 \<rparr>"

definition NewStaticCompletionQueuePool :: "CompletionQueueHandle list \<Rightarrow> pool_error + cq_pool" where
  "NewStaticCompletionQueuePool handles =
     (if handles = [] then Inl NoHandles
      else case check_handles [] handles of
        Some e \<Rightarrow> Inl e
      | None \<Rightarrow> Inr \<lparr> cq_available = handles, cq_inUse = [] \<rparr>)"

definition AcquireCompletionQueue ::
  "ctx_error option \<Rightarrow> cq_pool \<Rightarrow> (res_error + CompletionQueueHandle) \<times> cq_pool" where
  "AcquireCompletionQueue ce p =
     (case ce of Some e \<Rightarrow> (Inl (ErrCtx e), p)
      | None \<Rightarrow>
          if length (cq_available p) = 0 then (Inl ErrExhausted, p)
          else
            let h = cq_available p ! (length (cq_available p) - 1) in
            (Inr h, p\<lparr>cq_available := take (length (cq_available p) - 1) (cq_available p),
                      cq_inUse := AList.update h True (cq_inUse p)\<rparr>))"

text \<open>\<^verbatim>\<open>p.inUse[h]\<close> on a missing key is the zero value, false.\<close>

definition ReleaseCompletionQueue ::
  "ctx_error option \<Rightarrow> CompletionQueueHandle \<Rightarrow> cq_pool \<Rightarrow> res_error option \<times> cq_pool" where
  "ReleaseCompletionQueue ce h p =
     (case ce of Some e \<Rightarrow> (Some (ErrCtx e), p)
      | None \<Rightarrow>
          if map_of (cq_inUse p) h \<noteq> Some True then (Some ErrLeaseNotFound, p)
          else (None, p\<lparr>cq_inUse := AList.delete h (cq_inUse p),
                        cq_available := cq_available p @ [h]\<rparr>))"

definition CompletionQueueStats :: "cq_pool \<Rightarrow> pool_stats" where
  "CompletionQueueStats p = \<lparr> ps_InUse = length (cq_inUse p), ps_Available = length (cq_available p),
     ps_BytesInUse = 0, ps_BytesAvailable = 0 \<rparr>"

section \<open>Memory windows\<close>

text \<open>\<^verbatim>\<open>SlabMRPool\<close> holds only a pointer to the slab: its state is the slab's.\<close>

type_synonym mr_pool = slab

definition NewSlabMRPool :: "slab option \<Rightarrow> pool_error + mr_pool" where
  "NewSlabMRPool slab = (case slab of None \<Rightarrow> Inl NilSlab | Some s \<Rightarrow> Inr s)"

definition AllocMR :: "ctx_error option \<Rightarrow> int \<Rightarrow> mr_pool \<Rightarrow> (res_error + mr_window) \<times> mr_pool" where
  "AllocMR ce n p =
     (case ce of Some e \<Rightarrow> (Inl (ErrCtx e), p)
      | None \<Rightarrow>
          (case Alloc n p of
            (Inl e, p') \<Rightarrow> (Inl (ErrSlab e), p')
          | (Inr l, p') \<Rightarrow>
              (Inr \<lparr> mw_SlabID = FormatUint (lease_ID l), mw_Offset = lease_Offset l,
                     mw_Length = lease_Length l \<rparr>, p')))"

definition FreeMR :: "ctx_error option \<Rightarrow> mr_window \<Rightarrow> mr_pool \<Rightarrow> res_error option \<times> mr_pool" where
  "FreeMR ce w p =
     (case ce of Some e \<Rightarrow> (Some (ErrCtx e), p)
      | None \<Rightarrow>
          (case ParseUint (mw_SlabID w) of
            None \<Rightarrow> (Some (ErrInvalidRequest (WindowSlabID (mw_SlabID w))), p)
          | Some i \<Rightarrow> (case Free i p of (e, p') \<Rightarrow> (map_option ErrSlab e, p'))))"

definition MRStats :: "mr_pool \<Rightarrow> pool_stats" where
  "MRStats p =
     (let st = slab_Stats p in
      \<lparr> ps_InUse = stats_Leases st, ps_Available = stats_FreeRanges st,
        ps_BytesInUse = stats_Used st, ps_BytesAvailable = stats_Free st \<rparr>)"

section \<open>The interfaces\<close>

record ('m, 'q, 'c) pool_ops =
  op_AllocMR :: "ctx_error option \<Rightarrow> int \<Rightarrow> 'm \<Rightarrow> (res_error + mr_window) \<times> 'm"
  op_FreeMR :: "ctx_error option \<Rightarrow> mr_window \<Rightarrow> 'm \<Rightarrow> res_error option \<times> 'm"
  op_MRStats :: "'m \<Rightarrow> pool_stats"
  op_AcquireQueuePair ::
    "ctx_error option \<Rightarrow> peer_spec \<Rightarrow> 'q \<Rightarrow> (res_error + QueuePairHandle) \<times> 'q"
  op_ReleaseQueuePair :: "ctx_error option \<Rightarrow> QueuePairHandle \<Rightarrow> 'q \<Rightarrow> res_error option \<times> 'q"
  op_QueuePairStats :: "'q \<Rightarrow> pool_stats"
  op_AcquireCompletionQueue ::
    "ctx_error option \<Rightarrow> 'c \<Rightarrow> (res_error + CompletionQueueHandle) \<times> 'c"
  op_ReleaseCompletionQueue ::
    "ctx_error option \<Rightarrow> CompletionQueueHandle \<Rightarrow> 'c \<Rightarrow> res_error option \<times> 'c"
  op_CompletionQueueStats :: "'c \<Rightarrow> pool_stats"

definition daemon_pools :: "(mr_pool, qp_pool, cq_pool) pool_ops" where
  "daemon_pools =
     \<lparr> op_AllocMR = AllocMR, op_FreeMR = FreeMR, op_MRStats = MRStats,
       op_AcquireQueuePair = AcquireQueuePair, op_ReleaseQueuePair = ReleaseQueuePair,
       op_QueuePairStats = QueuePairStats, op_AcquireCompletionQueue = AcquireCompletionQueue,
       op_ReleaseCompletionQueue = ReleaseCompletionQueue,
       op_CompletionQueueStats = CompletionQueueStats \<rparr>"

lemma daemon_pools_simps [simp]:
  "op_AllocMR daemon_pools = AllocMR" "op_FreeMR daemon_pools = FreeMR"
  "op_MRStats daemon_pools = MRStats" "op_AcquireQueuePair daemon_pools = AcquireQueuePair"
  "op_ReleaseQueuePair daemon_pools = ReleaseQueuePair"
  "op_QueuePairStats daemon_pools = QueuePairStats"
  "op_AcquireCompletionQueue daemon_pools = AcquireCompletionQueue"
  "op_ReleaseCompletionQueue daemon_pools = ReleaseCompletionQueue"
  "op_CompletionQueueStats daemon_pools = CompletionQueueStats"
  by (simp_all add: daemon_pools_def)

section \<open>The contract\<close>

locale handle_pool =
  fixes inv :: "'p \<Rightarrow> bool"
    and room :: "'p \<Rightarrow> bool"
    and used :: "'p \<Rightarrow> 'h set"
    and acquire :: "ctx_error option \<Rightarrow> 'a \<Rightarrow> 'p \<Rightarrow> (res_error + 'h) \<times> 'p"
    and release :: "ctx_error option \<Rightarrow> 'h \<Rightarrow> 'p \<Rightarrow> res_error option \<times> 'p"
  assumes acquire_ok: "inv p \<Longrightarrow> room p \<Longrightarrow> acquire ce a p = (Inr h, p') \<Longrightarrow>
      inv p' \<and> h \<notin> used p \<and> used p' = insert h (used p)"
    and acquire_err: "acquire ce a p = (Inl x, p') \<Longrightarrow> p' = p"
    and acquire_ctx: "acquire (Some e) a p = (Inl (ErrCtx e), p)"
    and release_ok: "inv p \<Longrightarrow> h \<in> used p \<Longrightarrow>
      \<exists>p'. release None h p = (None, p') \<and> inv p' \<and> used p' = used p - {h} \<and> (room p \<longrightarrow> room p')"
    and release_err: "release ce h p = (Some x, p') \<Longrightarrow> p' = p"
    and release_ctx: "release (Some e) h p = (Some (ErrCtx e), p)"
begin

lemma acquire_live: "acquire ce a p = (Inr h, p') \<Longrightarrow> ce = None"
  using acquire_ctx by (cases ce) auto

text \<open>A release of a handle in use frees exactly that handle or reports an error.\<close>

lemma release_used:
  assumes "inv p" "h \<in> used p" "release ce h p = (r, p')"
  shows "inv p'" "used p' = (if r = None then used p - {h} else used p)"
    "r = None \<longleftrightarrow> ce = None" "room p \<Longrightarrow> room p'"
proof -
  have "inv p' \<and> used p' = (if r = None then used p - {h} else used p) \<and>
    (r = None \<longleftrightarrow> ce = None) \<and> (room p \<longrightarrow> room p')"
  proof (cases ce)
    case None
    then show ?thesis using release_ok [OF assms(1,2)] assms(3) by auto
  next
    case (Some e)
    then show ?thesis using release_ctx [of e h p] assms by auto
  qed
  then show "inv p'" "used p' = (if r = None then used p - {h} else used p)"
    "r = None \<longleftrightarrow> ce = None" "room p \<Longrightarrow> room p'" by auto
qed

text \<open>An acquire undone under a live context leaves no handle behind.\<close>

lemma acquire_release:
  assumes "inv p" "room p" "acquire ce a p = (Inr h, p')"
  shows "\<exists>p''. release None h p' = (None, p'') \<and> inv p'' \<and> used p'' = used p"
  using acquire_ok [OF assms] release_ok [of p' h] by fastforce

end

section \<open>The handle pools meet it\<close>

definition qp_inv :: "string set \<Rightarrow> qp_pool \<Rightarrow> bool" where
  "qp_inv all p \<longleftrightarrow> distinct (qp_available p @ map fst (qp_inUse p)) \<and>
     set (qp_available p) \<union> fst ` set (qp_inUse p) = all"

definition cq_inv :: "string set \<Rightarrow> cq_pool \<Rightarrow> bool" where
  "cq_inv all p \<longleftrightarrow> distinct (cq_available p @ map fst (cq_inUse p)) \<and>
     set (cq_available p) \<union> fst ` set (cq_inUse p) = all \<and> (\<forall>(h, b) \<in> set (cq_inUse p). b)"

definition qp_used :: "qp_pool \<Rightarrow> string set" where
  "qp_used p = fst ` set (qp_inUse p)"

definition cq_used :: "cq_pool \<Rightarrow> string set" where
  "cq_used p = fst ` set (cq_inUse p)"

lemma snoc_of_nonempty: "xs \<noteq> [] \<Longrightarrow> \<exists>ys y. xs = ys @ [y]"
  by (metis append_butlast_last_id)

lemma check_handles_None:
  "check_handles seen hs = None \<longleftrightarrow> distinct hs \<and> '''' \<notin> set hs \<and> set hs \<inter> set seen = {}"
  by (induction seen hs rule: check_handles.induct) auto

lemma NewStaticQueuePairPool_ok:
  assumes "NewStaticQueuePairPool hs = Inr p"
  shows "qp_inv (set hs) p" "qp_used p = {}" "qp_available p = hs"
  using assms by (auto simp: NewStaticQueuePairPool_def qp_inv_def qp_used_def check_handles_None
      split: if_splits option.splits)

lemma NewStaticCompletionQueuePool_ok:
  assumes "NewStaticCompletionQueuePool hs = Inr p"
  shows "cq_inv (set hs) p" "cq_used p = {}" "cq_available p = hs"
  using assms by (auto simp: NewStaticCompletionQueuePool_def cq_inv_def cq_used_def
      check_handles_None split: if_splits option.splits)

lemma AcquireQueuePair_Inr:
  assumes "AcquireQueuePair ce peer p = (Inr h, p')"
  shows "ce = None" "\<exists>ys. qp_available p = ys @ [h] \<and>
    p' = p\<lparr>qp_available := ys, qp_inUse := AList.update h peer (qp_inUse p)\<rparr>"
proof -
  show ce: "ce = None" using assms by (cases ce) (auto simp: AcquireQueuePair_def)
  then have "qp_available p \<noteq> []"
    using assms by (auto simp: AcquireQueuePair_def)
  then obtain ys y where "qp_available p = ys @ [y]" using snoc_of_nonempty by blast
  with ce assms show "\<exists>ys. qp_available p = ys @ [h] \<and>
    p' = p\<lparr>qp_available := ys, qp_inUse := AList.update h peer (qp_inUse p)\<rparr>"
    by (auto simp: AcquireQueuePair_def)
qed

lemma AcquireCompletionQueue_Inr:
  assumes "AcquireCompletionQueue ce p = (Inr h, p')"
  shows "ce = None" "\<exists>ys. cq_available p = ys @ [h] \<and>
    p' = p\<lparr>cq_available := ys, cq_inUse := AList.update h True (cq_inUse p)\<rparr>"
proof -
  show ce: "ce = None" using assms by (cases ce) (auto simp: AcquireCompletionQueue_def)
  then have "cq_available p \<noteq> []"
    using assms by (auto simp: AcquireCompletionQueue_def)
  then obtain ys y where "cq_available p = ys @ [y]" using snoc_of_nonempty by blast
  with ce assms show "\<exists>ys. cq_available p = ys @ [h] \<and>
    p' = p\<lparr>cq_available := ys, cq_inUse := AList.update h True (cq_inUse p)\<rparr>"
    by (auto simp: AcquireCompletionQueue_def)
qed

interpretation qp: handle_pool "qp_inv all" "\<lambda>p. True" qp_used AcquireQueuePair ReleaseQueuePair
proof
  fix p ce a h p'
  assume p: "qp_inv all p" and "AcquireQueuePair ce a p = (Inr h, p')"
  then obtain ys where ys: "qp_available p = ys @ [h]"
    "p' = p\<lparr>qp_available := ys, qp_inUse := AList.update h a (qp_inUse p)\<rparr>"
    by (blast dest: AcquireQueuePair_Inr)
  then have "h \<notin> fst ` set (qp_inUse p)" using p by (auto simp: qp_inv_def)
  with p ys show "qp_inv all p' \<and> h \<notin> qp_used p \<and> qp_used p' = insert h (qp_used p)"
    by (auto simp: qp_inv_def qp_used_def update_fresh)
next
  fix ce a p x p'
  assume "AcquireQueuePair ce a p = (Inl x, p')"
  then show "p' = p"
    by (auto simp: AcquireQueuePair_def Let_def split: option.splits if_splits)
next
  fix p h
  assume p: "qp_inv all p" and "h \<in> qp_used p"
  then obtain v where v: "map_of (qp_inUse p) h = Some v"
    by (metis map_of_eq_None_iff option.exhaust qp_used_def)
  have "map_ok (qp_inUse p)" using p by (simp add: qp_inv_def map_ok_def)
  from delete_split [OF this v] obtain a b where ab: "qp_inUse p = a @ (h, v) # b"
    "AList.delete h (qp_inUse p) = a @ b" "h \<notin> fst ` set a" "h \<notin> fst ` set b" by blast
  then show "\<exists>p'. ReleaseQueuePair None h p = (None, p') \<and> qp_inv all p' \<and>
      qp_used p' = qp_used p - {h} \<and> (True \<longrightarrow> True)"
    using p v by (auto simp: ReleaseQueuePair_def qp_inv_def qp_used_def)
next
  fix ce h p x p'
  assume "ReleaseQueuePair ce h p = (Some x, p')"
  then show "p' = p" by (auto simp: ReleaseQueuePair_def split: option.splits)
qed (simp_all add: AcquireQueuePair_def ReleaseQueuePair_def)

interpretation cq: handle_pool "cq_inv all" "\<lambda>p. True" cq_used
  "\<lambda>ce (_ :: unit). AcquireCompletionQueue ce" ReleaseCompletionQueue
proof
  fix p ce h p'
  assume p: "cq_inv all p" and "AcquireCompletionQueue ce p = (Inr h, p')"
  then obtain ys where ys: "cq_available p = ys @ [h]"
    "p' = p\<lparr>cq_available := ys, cq_inUse := AList.update h True (cq_inUse p)\<rparr>"
    by (blast dest: AcquireCompletionQueue_Inr)
  then have "h \<notin> fst ` set (cq_inUse p)" using p by (auto simp: cq_inv_def)
  with p ys show "cq_inv all p' \<and> h \<notin> cq_used p \<and> cq_used p' = insert h (cq_used p)"
    by (auto simp: cq_inv_def cq_used_def update_fresh)
next
  fix ce p x p'
  assume "AcquireCompletionQueue ce p = (Inl x, p')"
  then show "p' = p"
    by (auto simp: AcquireCompletionQueue_def Let_def split: option.splits if_splits)
next
  fix p h
  assume p: "cq_inv all p" and h: "h \<in> cq_used p"
  have ok: "map_ok (cq_inUse p)" using p by (simp add: cq_inv_def map_ok_def)
  from h p have "(h, True) \<in> set (cq_inUse p)" by (auto simp: cq_used_def cq_inv_def)
  then have v: "map_of (cq_inUse p) h = Some True" using ok by (simp add: mem_iff_map_of)
  from delete_split [OF ok v] obtain a b where ab: "cq_inUse p = a @ (h, True) # b"
    "AList.delete h (cq_inUse p) = a @ b" "h \<notin> fst ` set a" "h \<notin> fst ` set b" by blast
  then show "\<exists>p'. ReleaseCompletionQueue None h p = (None, p') \<and> cq_inv all p' \<and>
      cq_used p' = cq_used p - {h} \<and> (True \<longrightarrow> True)"
    using p v by (auto simp: ReleaseCompletionQueue_def cq_inv_def cq_used_def)
next
  fix ce h p x p'
  assume "ReleaseCompletionQueue ce h p = (Some x, p')"
  then show "p' = p" by (auto simp: ReleaseCompletionQueue_def split: option.splits if_splits)
qed (simp_all add: AcquireCompletionQueue_def ReleaseCompletionQueue_def)

section \<open>So does the window pool\<close>

definition mr_inv :: "mr_pool \<Rightarrow> bool" where
  "mr_inv p \<longleftrightarrow> slab_inv p \<and> \<not> sl_closed p"

definition window_of :: "u64 \<Rightarrow> span \<Rightarrow> mr_window" where
  "window_of i r = \<lparr> mw_SlabID = FormatUint i, mw_Offset = sp_off r, mw_Length = sp_n r \<rparr>"

definition mr_used :: "mr_pool \<Rightarrow> mr_window set" where
  "mr_used p = {w. \<exists>i r. held p i = Some r \<and> w = window_of i r}"

lemma window_of_inj: "window_of i r = window_of j q \<longleftrightarrow> i = j \<and> sp_off r = sp_off q \<and> sp_n r = sp_n q"
  by (simp add: window_of_def)

lemma AllocMR_Inr:
  assumes "AllocMR ce n p = (Inr w, p')"
  shows "ce = None" "\<exists>l. Alloc n p = (Inr l, p') \<and> w = window_of (lease_ID l) (lease_span l)"
  using assms
  by (auto simp: AllocMR_def window_of_def lease_span_def split: option.splits prod.splits sum.splits)

interpretation mr: handle_pool mr_inv id_room mr_used AllocMR FreeMR
proof
  fix p ce n w p'
  assume p: "mr_inv p" "id_room p" and "AllocMR ce n p = (Inr w, p')"
  then obtain l where l: "Alloc n p = (Inr l, p')" "w = window_of (lease_ID l) (lease_span l)"
    by (blast dest: AllocMR_Inr)
  have inv: "slab_inv p" using p by (simp add: mr_inv_def)
  note h = Alloc_held [OF inv p(2) l(1)]
  have "w \<notin> mr_used p" using h(1) l(2) by (auto simp: mr_used_def window_of_inj)
  moreover have "mr_used p' = insert w (mr_used p)"
    using h(1,2) l(2) by (auto simp: mr_used_def split: if_splits) (metis option.distinct(1))
  ultimately show "mr_inv p' \<and> w \<notin> mr_used p \<and> mr_used p' = insert w (mr_used p)"
    using Alloc_inv [OF inv p(2) l(1)] h(5) by (simp add: mr_inv_def)
next
  fix ce n p x p'
  assume "AllocMR ce n p = (Inl x, p')"
  then show "p' = p"
    by (auto simp: AllocMR_def split: option.splits prod.splits sum.splits dest: Alloc_error)
next
  fix p w
  assume p: "mr_inv p" and "w \<in> mr_used p"
  then obtain i r where w: "held p i = Some r" "w = window_of i r" by (auto simp: mr_used_def)
  have c: "slab_inv p" "\<not> sl_closed p" using p by (simp_all add: mr_inv_def)
  have "FreeMR None w p = (None, snd (Free i p))"
    using w held_Free(2) [OF c(2) w(1)]
    by (auto simp: FreeMR_def window_of_def split: prod.splits)
  moreover have "mr_inv (snd (Free i p))"
    using Free_inv [OF c(1)] c(2) by (simp add: mr_inv_def)
  moreover have "mr_used (snd (Free i p)) = mr_used p - {w}"
    using held_Free(1) [OF c(2) w(1)] w
    by (auto simp: mr_used_def window_of_inj split: if_splits) (metis option.inject)+
  ultimately show "\<exists>p'. FreeMR None w p = (None, p') \<and> mr_inv p' \<and> mr_used p' = mr_used p - {w} \<and>
      (id_room p \<longrightarrow> id_room p')"
    by (auto simp: id_room_def)
next
  fix ce w p x p'
  assume "FreeMR ce w p = (Some x, p')"
  then show "p' = p"
    by (auto simp: FreeMR_def split: option.splits prod.splits dest: Free_error)
qed (simp_all add: AllocMR_def FreeMR_def)

end
