(* ===== verification/Store.thy ===== *)
theory Store
  imports Pools
begin

text \<open>
  The session store, \<^verbatim>\<open>src/internal/jaccld/resource/store.go\<close>: session leases, each made of
  a memory window, a completion queue and a queue pair, issued from three bounded pools.

  State: the record \<open>store\<close> over the states of the three pools.  The store's clock
  (\<^verbatim>\<open>s.now\<close>) is the argument \<open>now\<close> of the operations that read it; every method holds
  the store's mutex while it reads or writes the state, so each is one atomic step.  The context of a
  call is consulted once per pool call, in program order: \<open>c k\<close> is the answer to the \<open>k\<close>-th question.
  A nil context is \<open>None\<close>.

  Lemmas are proved once for every implementation of the pool interfaces (the locale
  \<open>session_pools\<close>) and used at the daemon's pools.
\<close>

section \<open>Data\<close>

record ('m, 'q, 'c) store =
  st_state :: state
  st_next :: LeaseID
  st_mr :: 'm
  st_qp :: 'q
  st_cq :: 'c
  st_slots :: slot_stats
  st_leases :: "(LeaseID \<times> session_lease) list"

type_synonym daemon_store = "(mr_pool, qp_pool, cq_pool) store"

datatype store_error = NilMRPool | NilQPPool | NilCQPool

definition ctx_or_background :: "ctx option \<Rightarrow> ctx" where
  "ctx_or_background c = (case c of None \<Rightarrow> Background | Some c \<Rightarrow> c)"

section \<open>Operations\<close>

definition NewStore :: "'m option \<Rightarrow> 'q option \<Rightarrow> 'c option \<Rightarrow> store_error + ('m, 'q, 'c) store" where
  "NewStore mr qp cq =
     (case mr of None \<Rightarrow> Inl NilMRPool
      | Some mr \<Rightarrow>
          (case qp of None \<Rightarrow> Inl NilQPPool
           | Some qp \<Rightarrow>
               (case cq of None \<Rightarrow> Inl NilCQPool
                | Some cq \<Rightarrow> Inr
                    \<lparr> st_state = StateBootstrapping, st_next = 0, st_mr = mr, st_qp = qp, st_cq = cq,
                      st_slots = zero_slots, st_leases = [] \<rparr>)))"

definition store_State :: "('m, 'q, 'c) store \<Rightarrow> state" where
  "store_State s = st_state s"

definition SetState :: "u8 \<Rightarrow> ('m, 'q, 'c) store \<Rightarrow> res_error option \<times> ('m, 'q, 'c) store" where
  "SetState w s =
     (case state_of_byte w of
        None \<Rightarrow> (Some ErrInvalidState, s)
      | Some new \<Rightarrow>
          if st_state s = StateTerminated \<and> new \<noteq> StateTerminated then (Some ErrInvalidState, s)
          else if new < st_state s then (Some ErrInvalidState, s)
          else (None, s\<lparr>st_state := new\<rparr>))"

definition SetSlotStats :: "slot_stats \<Rightarrow> ('m, 'q, 'c) store \<Rightarrow> ('m, 'q, 'c) store" where
  "SetSlotStats stats s = s\<lparr>st_slots := stats\<rparr>"

definition validateRequest :: "session_request \<Rightarrow> instant \<Rightarrow> res_error option" where
  "validateRequest req now =
     (if TrimSpace (rq_ClientID req) = '''' then Some (ErrInvalidRequest ClientIDEmpty)
      else if peer_Rank (rq_Peer req) < 0
        then Some (ErrInvalidRequest (PeerRankNegative (peer_Rank (rq_Peer req))))
      else if rq_Size req \<le> 0 then Some (ErrInvalidRequest (SizeNotPositive (rq_Size req)))
      else if rq_Deadline req = 0 then Some (ErrInvalidRequest DeadlineZero)
      else if \<not> now < rq_Deadline req then Some ErrExpired
      else if rq_Heartbeat req < 0 then Some (ErrInvalidRequest (HeartbeatNegative (rq_Heartbeat req)))
      else if \<not> heartbeat_IsZero (rq_HeartbeatMR req) then ValidateForRDMA (rq_HeartbeatMR req)
      else None)"

definition new_session ::
  "LeaseID \<Rightarrow> session_request \<Rightarrow> instant \<Rightarrow> mr_window \<Rightarrow> QueuePairHandle \<Rightarrow> CompletionQueueHandle \<Rightarrow>
   session_lease" where
  "new_session i req now w q c =
     \<lparr> se_ID = i, se_ClientID = rq_ClientID req, se_Peer = rq_Peer req, se_Window = w,
       se_HeartbeatMR = rq_HeartbeatMR req, se_QueuePair = q, se_CompletionQueue = c,
       se_CreatedAt = now, se_ExpiresAt = rq_Deadline req, se_LastActivity = now, se_Healthy = True \<rparr>"

definition store_Open ::
  "('m, 'q, 'c) pool_ops \<Rightarrow> ctx option \<Rightarrow> instant \<Rightarrow> session_request \<Rightarrow> ('m, 'q, 'c) store \<Rightarrow>
   (res_error + session_lease) \<times> ('m, 'q, 'c) store" where
  "store_Open P ctx now req s =
     (let c = ctx_or_background ctx in
      case validateRequest req now of Some e \<Rightarrow> (Inl e, s)
      | None \<Rightarrow>
      if st_state s \<noteq> StateReady then (Inl ErrNotReady, s) else
      case op_AllocMR P (c 0) (rq_Size req) (st_mr s) of
        (Inl e, mr) \<Rightarrow> (Inl (ErrOpen AllocateWindow e), s\<lparr>st_mr := mr\<rparr>)
      | (Inr window, mr) \<Rightarrow>
      (case op_AcquireCompletionQueue P (c 1) (st_cq s) of
        (Inl e, cq) \<Rightarrow>
          (case op_FreeMR P (c 2) window mr of
            (cleanup, mr') \<Rightarrow>
              (Inl (ErrJoin (errors_Join [Some (ErrOpen AcquireCompletion e), cleanup])),
               s\<lparr>st_mr := mr', st_cq := cq\<rparr>))
      | (Inr cqh, cq) \<Rightarrow>
      (case op_AcquireQueuePair P (c 2) (rq_Peer req) (st_qp s) of
        (Inl e, qp) \<Rightarrow>
          (case op_ReleaseCompletionQueue P (c 3) cqh cq of
            (e1, cq') \<Rightarrow>
          (case op_FreeMR P (c 4) window mr of
            (e2, mr') \<Rightarrow>
              (Inl (ErrJoin (errors_Join [Some (ErrOpen AcquireQueue e), Join_errors [e1, e2]])),
               s\<lparr>st_mr := mr', st_cq := cq', st_qp := qp\<rparr>)))
      | (Inr qph, qp) \<Rightarrow>
          (let i = st_next s + 1; lease = new_session i req now window qph cqh in
           (Inr lease,
            s\<lparr>st_next := i, st_mr := mr, st_cq := cq, st_qp := qp,
              st_leases := AList.update i lease (st_leases s)\<rparr>)))))"

definition Refresh ::
  "LeaseID \<Rightarrow> instant \<Rightarrow> instant \<Rightarrow> ('m, 'q, 'c) store \<Rightarrow> (res_error + session_lease) \<times> ('m, 'q, 'c) store" where
  "Refresh i deadline now s =
     (if i = 0 then (Inl (ErrInvalidRequest LeaseIDZero), s)
      else if deadline = 0 then (Inl (ErrInvalidRequest DeadlineZero), s)
      else if \<not> now < deadline then (Inl ErrExpired, s)
      else if st_state s \<noteq> StateReady then (Inl ErrNotReady, s)
      else case map_of (st_leases s) i of
        None \<Rightarrow> (Inl ErrLeaseNotFound, s)
      | Some lease \<Rightarrow>
          if \<not> now < se_ExpiresAt lease then (Inl ErrExpired, s)
          else
            let lease' = lease\<lparr>se_ExpiresAt := deadline, se_LastActivity := now, se_Healthy := True\<rparr> in
            (Inr lease', s\<lparr>st_leases := AList.update i lease' (st_leases s)\<rparr>))"

definition Touch ::
  "LeaseID \<Rightarrow> instant \<Rightarrow> ('m, 'q, 'c) store \<Rightarrow> (res_error + session_lease) \<times> ('m, 'q, 'c) store" where
  "Touch i now s =
     (if i = 0 then (Inl (ErrInvalidRequest LeaseIDZero), s)
      else if st_state s \<noteq> StateReady then (Inl ErrNotReady, s)
      else case map_of (st_leases s) i of
        None \<Rightarrow> (Inl ErrLeaseNotFound, s)
      | Some lease \<Rightarrow>
          if \<not> now < se_ExpiresAt lease then (Inl ErrExpired, s)
          else
            let lease' = lease\<lparr>se_LastActivity := now, se_Healthy := True\<rparr> in
            (Inr lease', s\<lparr>st_leases := AList.update i lease' (st_leases s)\<rparr>))"

text \<open>The loop of \<open>PulseControlPlane\<close> ranges over the map and overwrites live entries in place.\<close>

fun pulse_loop ::
  "instant \<Rightarrow> (LeaseID \<times> session_lease) list \<Rightarrow> nat \<Rightarrow> (LeaseID \<times> session_lease) list \<Rightarrow>
   nat \<times> (LeaseID \<times> session_lease) list" where
  "pulse_loop now [] n m = (n, m)"
| "pulse_loop now ((i, lease) # rest) n m =
     (if \<not> now < se_ExpiresAt lease then pulse_loop now rest n m
      else pulse_loop now rest (Suc n)
        (AList.update i (lease\<lparr>se_LastActivity := now, se_Healthy := True\<rparr>) m))"

definition PulseControlPlane :: "instant \<Rightarrow> ('m, 'q, 'c) store \<Rightarrow> nat \<times> ('m, 'q, 'c) store" where
  "PulseControlPlane now s =
     (case pulse_loop now (st_leases s) 0 (st_leases s) of (n, m) \<Rightarrow> (n, s\<lparr>st_leases := m\<rparr>))"

text \<open>
  \<open>RunControlPlaneLiveness\<close> waits for the context or the ticker; its event list gives what each
  \<^verbatim>\<open>select\<close> received.  When the list ends the call is still waiting (\<open>None\<close>).
\<close>

datatype liveness_event = CtxDone ctx_error | Tick instant

fun liveness_loop ::
  "liveness_event list \<Rightarrow> ('m, 'q, 'c) store \<Rightarrow> res_error option \<times> ('m, 'q, 'c) store" where
  "liveness_loop [] s = (None, s)"
| "liveness_loop (CtxDone e # evs) s = (Some (ErrCtx e), s)"
| "liveness_loop (Tick now # evs) s = liveness_loop evs (snd (PulseControlPlane now s))"

definition RunControlPlaneLiveness ::
  "liveness_event list \<Rightarrow> duration \<Rightarrow> ('m, 'q, 'c) store \<Rightarrow> res_error option \<times> ('m, 'q, 'c) store" where
  "RunControlPlaneLiveness evs interval s =
     (if interval \<le> 0 then (Some (ErrInvalidRequest (LivenessInterval interval)), s)
      else liveness_loop evs s)"

definition store_Lookup :: "LeaseID \<Rightarrow> ('m, 'q, 'c) store \<Rightarrow> session_lease option" where
  "store_Lookup i s = map_of (st_leases s) i"

definition LookupLive :: "LeaseID \<Rightarrow> instant \<Rightarrow> ('m, 'q, 'c) store \<Rightarrow> res_error + session_lease" where
  "LookupLive i now s =
     (if i = 0 then Inl (ErrInvalidRequest LeaseIDZero)
      else if st_state s \<noteq> StateReady then Inl ErrNotReady
      else case map_of (st_leases s) i of
        None \<Rightarrow> Inl ErrLeaseNotFound
      | Some lease \<Rightarrow>
          if \<not> now < se_ExpiresAt lease then Inl ErrExpired else Inr lease)"

text \<open>\<open>releaseLocked\<close>: the three releases in the order \<^verbatim>\<open>errors.Join\<close> evaluates its arguments.\<close>

definition releaseLocked ::
  "('m, 'q, 'c) pool_ops \<Rightarrow> ctx \<Rightarrow> session_lease \<Rightarrow> ('m, 'q, 'c) store \<Rightarrow>
   res_error option \<times> ('m, 'q, 'c) store" where
  "releaseLocked P c lease s =
     (case op_ReleaseQueuePair P (c 0) (se_QueuePair lease) (st_qp s) of (e1, qp) \<Rightarrow>
      case op_ReleaseCompletionQueue P (c 1) (se_CompletionQueue lease) (st_cq s) of (e2, cq) \<Rightarrow>
      case op_FreeMR P (c 2) (se_Window lease) (st_mr s) of (e3, mr) \<Rightarrow>
        (Join_errors [e1, e2, e3], s\<lparr>st_qp := qp, st_cq := cq, st_mr := mr\<rparr>))"

definition store_Close ::
  "('m, 'q, 'c) pool_ops \<Rightarrow> ctx option \<Rightarrow> LeaseID \<Rightarrow> ('m, 'q, 'c) store \<Rightarrow>
   res_error option \<times> ('m, 'q, 'c) store" where
  "store_Close P ctx i s =
     (let c = ctx_or_background ctx in
      case map_of (st_leases s) i of
        None \<Rightarrow> (Some ErrLeaseNotFound, s)
      | Some lease \<Rightarrow>
          releaseLocked P c lease (s\<lparr>st_leases := AList.delete i (st_leases s)\<rparr>))"

text \<open>The loop of \<open>ReapExpired\<close>: a range over the map that deletes the entry it visits.\<close>

fun reap_loop ::
  "('m, 'q, 'c) pool_ops \<Rightarrow> instant \<Rightarrow> (LeaseID \<times> session_lease) list \<Rightarrow> ctx \<Rightarrow>
   nat \<times> res_error option \<times> ('m, 'q, 'c) store \<Rightarrow> nat \<times> res_error option \<times> ('m, 'q, 'c) store" where
  "reap_loop P now [] c (n, err, s) = (n, err, s)"
| "reap_loop P now ((i, lease) # rest) c (n, err, s) =
     (if now < se_ExpiresAt lease then reap_loop P now rest c (n, err, s)
      else
        (case releaseLocked P c lease (s\<lparr>st_leases := AList.delete i (st_leases s)\<rparr>) of
          (e, s') \<Rightarrow> reap_loop P now rest (ctx_shift 3 c) (Suc n, Join_errors [err, e], s')))"

definition ReapExpired ::
  "('m, 'q, 'c) pool_ops \<Rightarrow> ctx option \<Rightarrow> instant \<Rightarrow> ('m, 'q, 'c) store \<Rightarrow>
   (nat \<times> res_error option) \<times> ('m, 'q, 'c) store" where
  "ReapExpired P ctx now s =
     (case reap_loop P now (st_leases s) (ctx_or_background ctx) (0, None, s) of
       (n, err, s') \<Rightarrow> ((n, err), s'))"

definition store_Stats :: "('m, 'q, 'c) pool_ops \<Rightarrow> ('m, 'q, 'c) store \<Rightarrow> resource_stats" where
  "store_Stats P s =
     \<lparr> rs_State = st_state s, rs_Leases = length (st_leases s),
       rs_MemoryRegions = op_MRStats P (st_mr s), rs_QueuePairs = op_QueuePairStats P (st_qp s),
       rs_CompletionQueues = op_CompletionQueueStats P (st_cq s), rs_Slots = st_slots s \<rparr>"

section \<open>Well-formed stores\<close>

definition windows :: "('m, 'q, 'c) store \<Rightarrow> mr_window list" where
  "windows s = map (se_Window \<circ> snd) (st_leases s)"

definition queue_pairs :: "('m, 'q, 'c) store \<Rightarrow> QueuePairHandle list" where
  "queue_pairs s = map (se_QueuePair \<circ> snd) (st_leases s)"

definition completion_queues :: "('m, 'q, 'c) store \<Rightarrow> CompletionQueueHandle list" where
  "completion_queues s = map (se_CompletionQueue \<circ> snd) (st_leases s)"

lemmas resource_lists = windows_def queue_pairs_def completion_queues_def

text \<open>Lease identifiers are distinct, were issued by this store, and no two sessions share a resource.\<close>

definition store_wf :: "('m, 'q, 'c) store \<Rightarrow> bool" where
  "store_wf s \<longleftrightarrow> map_ok (st_leases s) \<and>
     (\<forall>(i, l) \<in> set (st_leases s). se_ID l = i \<and> 0 < i \<and> i \<le> st_next s) \<and>
     distinct (windows s) \<and> distinct (queue_pairs s) \<and> distinct (completion_queues s)"

text \<open>The pools are consistent and every session's resources are marked as in use.\<close>

definition store_inv ::
  "('m \<Rightarrow> bool) \<Rightarrow> ('m \<Rightarrow> mr_window set) \<Rightarrow> ('q \<Rightarrow> bool) \<Rightarrow> ('q \<Rightarrow> string set) \<Rightarrow> ('c \<Rightarrow> bool) \<Rightarrow>
   ('c \<Rightarrow> string set) \<Rightarrow> ('m, 'q, 'c) store \<Rightarrow> bool" where
  "store_inv inv_m used_m inv_q used_q inv_c used_c s \<longleftrightarrow>
     store_wf s \<and> inv_m (st_mr s) \<and> inv_q (st_qp s) \<and> inv_c (st_cq s) \<and>
     set (windows s) \<subseteq> used_m (st_mr s) \<and> set (queue_pairs s) \<subseteq> used_q (st_qp s) \<and>
     set (completion_queues s) \<subseteq> used_c (st_cq s)"

text \<open>Room for one more identifier of the store's 64-bit counter.\<close>

definition lease_room :: "('m, 'q, 'c) store \<Rightarrow> bool" where
  "lease_room s \<longleftrightarrow> unat (st_next s) + 1 < 2 ^ 64"

definition ctx_live :: "ctx option \<Rightarrow> nat \<Rightarrow> bool" where
  "ctx_live c n \<longleftrightarrow> (\<forall>k < n. ctx_or_background c k = None)"

lemma ctx_live_None [simp]: "ctx_live None n"
  by (simp add: ctx_live_def ctx_or_background_def)

lemma word_next:
  fixes w :: u64
  assumes "unat w + 1 < 2 ^ 64"
  shows "unat (w + 1) = Suc (unat w)" "w < w + 1" "0 < w + 1"
proof -
  show u: "unat (w + 1) = Suc (unat w)"
    using assms by (simp add: unat_word_ariths)
  then show "w < w + 1" "0 < w + 1"
    by (simp_all add: word_less_nat_alt)
qed

lemma fresh_lease:
  assumes "store_wf s" "lease_room s"
  shows "st_next s + 1 \<notin> fst ` set (st_leases s)"
  using assms word_next(2) [of "st_next s"]
  by (force simp: store_wf_def lease_room_def)

text \<open>Adding a session whose resources are not yet attached to one.\<close>

lemma store_wf_add:
  assumes "store_wf s" "lease_room s" "se_ID l = st_next s + 1"
    "se_Window l \<notin> set (windows s)" "se_QueuePair l \<notin> set (queue_pairs s)"
    "se_CompletionQueue l \<notin> set (completion_queues s)"
    "st_leases s' = AList.update (st_next s + 1) l (st_leases s)" "st_next s' = st_next s + 1"
  shows "store_wf s'" "st_leases s' = st_leases s @ [(st_next s + 1, l)]"
proof -
  show L: "st_leases s' = st_leases s @ [(st_next s + 1, l)]"
    using assms(7) fresh_lease [OF assms(1,2)] by (simp add: update_fresh)
  have "\<forall>(i, l) \<in> set (st_leases s'). se_ID l = i \<and> 0 < i \<and> i \<le> st_next s'"
  proof -
    have n: "st_next s < st_next s + 1" "0 < st_next s + 1"
      using word_next [of "st_next s"] assms(2) by (simp_all add: lease_room_def)
    have "\<forall>(i, l) \<in> set (st_leases s). se_ID l = i \<and> 0 < i \<and> i \<le> st_next s"
      using assms(1) by (simp add: store_wf_def)
    then show ?thesis
      using n assms(3,8) L by (auto dest!: bspec)
  qed
  moreover have "map_ok (st_leases s')"
    using assms by (simp add: store_wf_def)
  ultimately show "store_wf s'"
    using assms(1,4-6) L by (simp add: store_wf_def resource_lists)
qed

text \<open>Removing one session.\<close>

lemma store_wf_remove:
  assumes "store_wf s" "map_of (st_leases s) i = Some l"
    "st_leases s' = AList.delete i (st_leases s)" "st_next s' = st_next s"
  shows "store_wf s'" "set (windows s') = set (windows s) - {se_Window l}"
    "set (queue_pairs s') = set (queue_pairs s) - {se_QueuePair l}"
    "set (completion_queues s') = set (completion_queues s) - {se_CompletionQueue l}"
proof -
  have "map_ok (st_leases s)" using assms(1) by (simp add: store_wf_def)
  from delete_split [OF this assms(2)] obtain a b where ab: "st_leases s = a @ (i, l) # b"
    "AList.delete i (st_leases s) = a @ b" by blast
  show "store_wf s'" "set (windows s') = set (windows s) - {se_Window l}"
    "set (queue_pairs s') = set (queue_pairs s) - {se_QueuePair l}"
    "set (completion_queues s') = set (completion_queues s) - {se_CompletionQueue l}"
    using assms ab by (auto simp: store_wf_def resource_lists map_ok_def)
qed

text \<open>Overwriting a session without touching its resources.\<close>

lemma store_wf_replace:
  assumes "store_wf s" "map_of (st_leases s) i = Some l"
    "st_leases s' = AList.update i l' (st_leases s)" "st_next s' = st_next s"
    "se_ID l' = se_ID l" "se_Window l' = se_Window l" "se_QueuePair l' = se_QueuePair l"
    "se_CompletionQueue l' = se_CompletionQueue l"
  shows "store_wf s'" "windows s' = windows s" "queue_pairs s' = queue_pairs s"
    "completion_queues s' = completion_queues s"
proof -
  have "map_ok (st_leases s)" using assms(1) by (simp add: store_wf_def)
  from update_existing [OF this assms(2)] obtain a b where ab: "st_leases s = a @ (i, l) # b"
    "AList.update i l' (st_leases s) = a @ (i, l') # b" by metis
  show "store_wf s'" "windows s' = windows s" "queue_pairs s' = queue_pairs s"
    "completion_queues s' = completion_queues s"
    using assms ab by (auto simp: store_wf_def resource_lists map_ok_def)
qed

text \<open>\<open>PulseControlPlane\<close> is a map over the live entries.\<close>

definition pulsed :: "instant \<Rightarrow> session_lease \<Rightarrow> session_lease" where
  "pulsed now l = (if now < se_ExpiresAt l then l\<lparr>se_LastActivity := now, se_Healthy := True\<rparr> else l)"

lemma pulsed_simps [simp]:
  "se_ID (pulsed now l) = se_ID l" "se_Window (pulsed now l) = se_Window l"
  "se_QueuePair (pulsed now l) = se_QueuePair l"
  "se_CompletionQueue (pulsed now l) = se_CompletionQueue l"
  "se_ExpiresAt (pulsed now l) = se_ExpiresAt l" "se_Peer (pulsed now l) = se_Peer l"
  "se_ClientID (pulsed now l) = se_ClientID l"
  by (simp_all add: pulsed_def)

lemma update_append_hit: "i \<notin> fst ` set a \<Longrightarrow> AList.update i v (a @ (i, u) # b) = a @ (i, v) # b"
  by (induction a) auto

lemma pulse_loop_map:
  assumes "map_ok (a @ rest)"
  shows "pulse_loop now rest n (a @ rest) =
    (n + length (filter (\<lambda>(i, l). now < se_ExpiresAt l) rest),
     a @ map (\<lambda>(i, l). (i, pulsed now l)) rest)"
  using assms
proof (induction rest arbitrary: n a)
  case (Cons x rest)
  obtain i l where x: "x = (i, l)" by (cases x)
  have fresh: "i \<notin> fst ` set a" using Cons.prems x by (auto simp: map_ok_def)
  have "map_ok ((a @ [(i, l')]) @ rest)" for l'
    using Cons.prems x by (simp add: map_ok_def)
  from Cons.IH [OF this] show ?case
    using x fresh by (simp add: update_append_hit pulsed_def)
qed simp

lemma PulseControlPlane_map:
  assumes "store_wf s"
  shows "PulseControlPlane now s =
    (length (filter (\<lambda>(i, l). now < se_ExpiresAt l) (st_leases s)),
     s\<lparr>st_leases := map (\<lambda>(i, l). (i, pulsed now l)) (st_leases s)\<rparr>)"
  using pulse_loop_map [of "[]" "st_leases s" now 0] assms
  by (simp add: PulseControlPlane_def store_wf_def)

lemma pulse_wf:
  assumes "store_wf s"
  shows "store_wf (snd (PulseControlPlane now s))"
    "windows (snd (PulseControlPlane now s)) = windows s"
    "queue_pairs (snd (PulseControlPlane now s)) = queue_pairs s"
    "completion_queues (snd (PulseControlPlane now s)) = completion_queues s"
proof -
  show w: "windows (snd (PulseControlPlane now s)) = windows s"
    "queue_pairs (snd (PulseControlPlane now s)) = queue_pairs s"
    "completion_queues (snd (PulseControlPlane now s)) = completion_queues s"
    by (simp_all add: PulseControlPlane_map [OF assms] resource_lists comp_def split_beta)
  have "map_ok (map (\<lambda>(i, l). (i, pulsed now l)) (st_leases s))"
    using assms by (simp add: store_wf_def map_ok_def comp_def split_beta)
  then show "store_wf (snd (PulseControlPlane now s))"
    using assms w by (auto simp: store_wf_def PulseControlPlane_map [OF assms] split_beta)
qed

section \<open>Sessions over any three pools that keep the contract\<close>

lemma store_Open_cases:
  assumes "store_Open P ctx now req s = (r, s')"
  obtains (refused) "s' = s" "\<exists>e. r = Inl e"
      "validateRequest req now \<noteq> None \<or> st_state s \<noteq> StateReady"
  | (window) e mr where "op_AllocMR P (ctx_or_background ctx 0) (rq_Size req) (st_mr s) = (Inl e, mr)"
      "r = Inl (ErrOpen AllocateWindow e)" "s' = s\<lparr>st_mr := mr\<rparr>"
      "validateRequest req now = None" "st_state s = StateReady"
  | (completion) w mr e cq x mr' where
      "op_AllocMR P (ctx_or_background ctx 0) (rq_Size req) (st_mr s) = (Inr w, mr)"
      "op_AcquireCompletionQueue P (ctx_or_background ctx 1) (st_cq s) = (Inl e, cq)"
      "op_FreeMR P (ctx_or_background ctx 2) w mr = (x, mr')"
      "r = Inl (ErrJoin (errors_Join [Some (ErrOpen AcquireCompletion e), x]))"
      "s' = s\<lparr>st_mr := mr', st_cq := cq\<rparr>"
      "validateRequest req now = None" "st_state s = StateReady"
  | (queue) w mr h cq e qp x cq' y mr' where
      "op_AllocMR P (ctx_or_background ctx 0) (rq_Size req) (st_mr s) = (Inr w, mr)"
      "op_AcquireCompletionQueue P (ctx_or_background ctx 1) (st_cq s) = (Inr h, cq)"
      "op_AcquireQueuePair P (ctx_or_background ctx 2) (rq_Peer req) (st_qp s) = (Inl e, qp)"
      "op_ReleaseCompletionQueue P (ctx_or_background ctx 3) h cq = (x, cq')"
      "op_FreeMR P (ctx_or_background ctx 4) w mr = (y, mr')"
      "r = Inl (ErrJoin (errors_Join [Some (ErrOpen AcquireQueue e), Join_errors [x, y]]))"
      "s' = s\<lparr>st_mr := mr', st_cq := cq', st_qp := qp\<rparr>"
      "validateRequest req now = None" "st_state s = StateReady"
  | (opened) w mr h cq q qp where
      "op_AllocMR P (ctx_or_background ctx 0) (rq_Size req) (st_mr s) = (Inr w, mr)"
      "op_AcquireCompletionQueue P (ctx_or_background ctx 1) (st_cq s) = (Inr h, cq)"
      "op_AcquireQueuePair P (ctx_or_background ctx 2) (rq_Peer req) (st_qp s) = (Inr q, qp)"
      "r = Inr (new_session (st_next s + 1) req now w q h)"
      "s' = s\<lparr>st_next := st_next s + 1, st_mr := mr, st_cq := cq, st_qp := qp,
         st_leases := AList.update (st_next s + 1) (new_session (st_next s + 1) req now w q h)
           (st_leases s)\<rparr>"
      "validateRequest req now = None" "st_state s = StateReady"
proof (cases "validateRequest req now \<noteq> None \<or> st_state s \<noteq> StateReady")
  case True
  with assms have "s' = s \<and> (\<exists>e. r = Inl e)"
    by (cases "validateRequest req now") (auto simp: store_Open_def Let_def)
  with True show ?thesis using refused by blast
next
  case False
  then have v: "validateRequest req now = None" "st_state s = StateReady" by auto
  show ?thesis
  proof (cases "op_AllocMR P (ctx_or_background ctx 0) (rq_Size req) (st_mr s)")
    case A: (Pair a mr)
    show ?thesis
    proof (cases a)
      case (Inl e)
      then show ?thesis using window A v assms by (simp add: store_Open_def Let_def)
    next
      case w: (Inr w)
      show ?thesis
      proof (cases "op_AcquireCompletionQueue P (ctx_or_background ctx 1) (st_cq s)")
        case C: (Pair b cq)
        show ?thesis
        proof (cases b)
          case (Inl e)
          then show ?thesis
            using completion [of w mr e cq] A C v w assms
            by (simp add: store_Open_def Let_def split: prod.splits)
        next
          case h: (Inr h)
          show ?thesis
          proof (cases "op_AcquireQueuePair P (ctx_or_background ctx 2) (rq_Peer req) (st_qp s)")
            case Q: (Pair d qp)
            show ?thesis
            proof (cases d)
              case (Inl e)
              then show ?thesis
                using queue [of w mr h cq e qp] A C Q v w h assms
                by (simp add: store_Open_def Let_def split: prod.splits)
            next
              case (Inr q)
              then show ?thesis
                using opened [of w mr h cq q qp] A C Q v w h assms
                by (simp add: store_Open_def Let_def)
            qed
          qed
        qed
      qed
    qed
  qed
qed

lemma new_session_simps [simp]:
  "se_ID (new_session i req now w q c) = i" "se_Window (new_session i req now w q c) = w"
  "se_QueuePair (new_session i req now w q c) = q"
  "se_CompletionQueue (new_session i req now w q c) = c"
  "se_ExpiresAt (new_session i req now w q c) = rq_Deadline req"
  "se_Peer (new_session i req now w q c) = rq_Peer req"
  "se_ClientID (new_session i req now w q c) = rq_ClientID req"
  by (simp_all add: new_session_def)

locale session_pools =
  mr: handle_pool inv_m room_m used_m "op_AllocMR P" "op_FreeMR P" +
  qp: handle_pool inv_q room_q used_q "op_AcquireQueuePair P" "op_ReleaseQueuePair P" +
  cq: handle_pool inv_c room_c used_c "\<lambda>ce (_ :: unit). op_AcquireCompletionQueue P ce"
    "op_ReleaseCompletionQueue P"
  for P :: "('m, 'q, 'c) pool_ops" and inv_m room_m used_m inv_q room_q used_q inv_c room_c used_c
begin

abbreviation sinv where
  "sinv \<equiv> store_inv inv_m used_m inv_q used_q inv_c used_c"

abbreviation rooms where
  "rooms s \<equiv> room_m (st_mr s) \<and> room_q (st_qp s) \<and> room_c (st_cq s)"

text \<open>A successful \<open>Open\<close>.\<close>

lemma open_success:
  assumes "sinv s" "rooms s" "lease_room s" "store_Open P ctx now req s = (Inr l, s')"
  shows "sinv s'" "st_leases s' = st_leases s @ [(st_next s + 1, l)]"
    "used_m (st_mr s') = insert (se_Window l) (used_m (st_mr s))" "se_Window l \<notin> used_m (st_mr s)"
    "used_q (st_qp s') = insert (se_QueuePair l) (used_q (st_qp s))"
    "se_QueuePair l \<notin> used_q (st_qp s)"
    "used_c (st_cq s') = insert (se_CompletionQueue l) (used_c (st_cq s))"
    "se_CompletionQueue l \<notin> used_c (st_cq s)"
    "\<exists>w q h. l = new_session (st_next s + 1) req now w q h"
    "validateRequest req now = None" "st_state s = StateReady" "st_state s' = st_state s"
    "st_next s' = st_next s + 1"
proof -
  note I = assms(1) [unfolded store_inv_def]
  from assms(4) show "validateRequest req now = None" "st_state s = StateReady" "st_state s' = st_state s"
      "st_next s' = st_next s + 1"
    by (cases rule: store_Open_cases; simp)+
  from assms(4) have "sinv s' \<and> st_leases s' = st_leases s @ [(st_next s + 1, l)] \<and>
    used_m (st_mr s') = insert (se_Window l) (used_m (st_mr s)) \<and> se_Window l \<notin> used_m (st_mr s) \<and>
    used_q (st_qp s') = insert (se_QueuePair l) (used_q (st_qp s)) \<and>
    se_QueuePair l \<notin> used_q (st_qp s) \<and>
    used_c (st_cq s') = insert (se_CompletionQueue l) (used_c (st_cq s)) \<and>
    se_CompletionQueue l \<notin> used_c (st_cq s) \<and>
    (\<exists>w q h. l = new_session (st_next s + 1) req now w q h)"
  proof (cases rule: store_Open_cases)
    case (opened w mr h cq q qp)
    have l: "l = new_session (st_next s + 1) req now w q h" using opened(4) by simp
    have M: "inv_m mr \<and> w \<notin> used_m (st_mr s) \<and> used_m mr = insert w (used_m (st_mr s))"
      using mr.acquire_ok [OF _ _ opened(1)] I assms(2) by blast
    have Q: "inv_q qp \<and> q \<notin> used_q (st_qp s) \<and> used_q qp = insert q (used_q (st_qp s))"
      using qp.acquire_ok [OF _ _ opened(3)] I assms(2) by blast
    have C: "inv_c cq \<and> h \<notin> used_c (st_cq s) \<and> used_c cq = insert h (used_c (st_cq s))"
      using cq.acquire_ok [OF _ _ opened(2)] I assms(2) by blast
    have fresh: "se_Window l \<notin> set (windows s)" "se_QueuePair l \<notin> set (queue_pairs s)"
      "se_CompletionQueue l \<notin> set (completion_queues s)"
      using M Q C I l by auto
    have wf: "store_wf s" using I by blast
    have L: "se_ID l = st_next s + 1" "st_leases s' = AList.update (st_next s + 1) l (st_leases s)"
      "st_next s' = st_next s + 1" using l opened(5) by simp_all
    note A = store_wf_add [OF wf assms(3) L(1) fresh L(2,3)]
    have P: "st_mr s' = mr" "st_qp s' = qp" "st_cq s' = cq" using opened(5) by simp_all
    show ?thesis
      unfolding store_inv_def resource_lists A(2) P using A(1) M Q C I l by (auto simp: resource_lists)
  qed auto
  then show "sinv s'" "st_leases s' = st_leases s @ [(st_next s + 1, l)]"
    "used_m (st_mr s') = insert (se_Window l) (used_m (st_mr s))" "se_Window l \<notin> used_m (st_mr s)"
    "used_q (st_qp s') = insert (se_QueuePair l) (used_q (st_qp s))"
    "se_QueuePair l \<notin> used_q (st_qp s)"
    "used_c (st_cq s') = insert (se_CompletionQueue l) (used_c (st_cq s))"
    "se_CompletionQueue l \<notin> used_c (st_cq s)"
    "\<exists>w q h. l = new_session (st_next s + 1) req now w q h"
    by blast+
qed

text \<open>A failing \<open>Open\<close> keeps every session; it also keeps the pools when the context stays live.\<close>

lemma open_failure:
  assumes "sinv s" "rooms s" "store_Open P ctx now req s = (Inl e, s')"
  shows "sinv s' \<and> st_leases s' = st_leases s \<and> st_next s' = st_next s \<and> st_state s' = st_state s \<and>
    used_m (st_mr s) \<subseteq> used_m (st_mr s') \<and> used_q (st_qp s') = used_q (st_qp s) \<and>
    used_c (st_cq s) \<subseteq> used_c (st_cq s') \<and>
    (ctx_live ctx 5 \<longrightarrow> used_m (st_mr s') = used_m (st_mr s) \<and> used_c (st_cq s') = used_c (st_cq s))"
    (is "?goal s'")
proof -
  note I = assms(1) [unfolded store_inv_def]
  have keep: "?goal s'"
    if "inv_m (st_mr s')" "inv_q (st_qp s')" "inv_c (st_cq s')"
      "used_m (st_mr s) \<subseteq> used_m (st_mr s')" "used_q (st_qp s') = used_q (st_qp s)"
      "used_c (st_cq s) \<subseteq> used_c (st_cq s')" "st_leases s' = st_leases s"
      "st_next s' = st_next s" "st_state s' = st_state s"
      "ctx_live ctx 5 \<longrightarrow> used_m (st_mr s') = used_m (st_mr s) \<and> used_c (st_cq s') = used_c (st_cq s)"
    using that I by (auto simp: store_inv_def store_wf_def resource_lists)
  from assms(3) show ?thesis
  proof (cases rule: store_Open_cases)
    case refused
    then show ?thesis using assms(1) by simp
  next
    case (window e mr)
    then show ?thesis using mr.acquire_err [OF window(1)] assms(1) by simp
  next
    case (completion w mr e cq x mr')
    have M: "inv_m mr \<and> w \<notin> used_m (st_mr s) \<and> used_m mr = insert w (used_m (st_mr s))"
      using mr.acquire_ok [OF _ _ completion(1)] I assms(2) by blast
    have c: "cq = st_cq s" using cq.acquire_err [OF completion(2)] .
    note R = mr.release_used [OF _ _ completion(3)]
    have "x = None \<longleftrightarrow> ctx_or_background ctx 2 = None" using R(3) M by blast
    then have "ctx_live ctx 5 \<longrightarrow> x = None" by (simp add: ctx_live_def)
    then show ?thesis
      using M R(1,2) I c completion(5) by (intro keep) (auto split: if_splits)
  next
    case (queue w mr h cq e qp x cq' y mr')
    have M: "inv_m mr \<and> w \<notin> used_m (st_mr s) \<and> used_m mr = insert w (used_m (st_mr s))"
      using mr.acquire_ok [OF _ _ queue(1)] I assms(2) by blast
    have C: "inv_c cq \<and> h \<notin> used_c (st_cq s) \<and> used_c cq = insert h (used_c (st_cq s))"
      using cq.acquire_ok [OF _ _ queue(2)] I assms(2) by blast
    have q: "qp = st_qp s" using qp.acquire_err [OF queue(3)] .
    note RC = cq.release_used [OF _ _ queue(4)]
    note RM = mr.release_used [OF _ _ queue(5)]
    have "x = None \<longleftrightarrow> ctx_or_background ctx 3 = None" "y = None \<longleftrightarrow> ctx_or_background ctx 4 = None"
      using RC(3) RM(3) M C by blast+
    then have "ctx_live ctx 5 \<longrightarrow> x = None \<and> y = None" by (simp add: ctx_live_def)
    then show ?thesis
      using M C RC(1,2) RM(1,2) I q queue(7) by (intro keep) (auto split: if_splits)
  qed simp
qed

text \<open>Releasing the resources of a session that was just taken out of the map.\<close>

lemma release_spec:
  assumes "inv_m (st_mr s)" "inv_q (st_qp s)" "inv_c (st_cq s)"
    "se_Window l \<in> used_m (st_mr s)" "se_QueuePair l \<in> used_q (st_qp s)"
    "se_CompletionQueue l \<in> used_c (st_cq s)" "releaseLocked P c l s = (e, s')"
  shows "inv_m (st_mr s')" "inv_q (st_qp s')" "inv_c (st_cq s')"
    "used_q (st_qp s') = (if c 0 = None then used_q (st_qp s) - {se_QueuePair l} else used_q (st_qp s))"
    "used_c (st_cq s') =
      (if c 1 = None then used_c (st_cq s) - {se_CompletionQueue l} else used_c (st_cq s))"
    "used_m (st_mr s') = (if c 2 = None then used_m (st_mr s) - {se_Window l} else used_m (st_mr s))"
    "e = None \<longleftrightarrow> c 0 = None \<and> c 1 = None \<and> c 2 = None"
    "s' = s\<lparr>st_qp := st_qp s', st_cq := st_cq s', st_mr := st_mr s'\<rparr>" "rooms s \<Longrightarrow> rooms s'"
proof -
  obtain e1 q e2 k e3 m where R: "op_ReleaseQueuePair P (c 0) (se_QueuePair l) (st_qp s) = (e1, q)"
    "op_ReleaseCompletionQueue P (c 1) (se_CompletionQueue l) (st_cq s) = (e2, k)"
    "op_FreeMR P (c 2) (se_Window l) (st_mr s) = (e3, m)" by (metis surj_pair)
  then have S: "e = Join_errors [e1, e2, e3]" "s' = s\<lparr>st_qp := q, st_cq := k, st_mr := m\<rparr>"
    using assms(7) by (simp_all add: releaseLocked_def)
  note U = qp.release_used [OF assms(2,5) R(1)] cq.release_used [OF assms(3,6) R(2)]
    mr.release_used [OF assms(1,4) R(3)]
  show "inv_m (st_mr s')" "inv_q (st_qp s')" "inv_c (st_cq s')"
    "used_q (st_qp s') = (if c 0 = None then used_q (st_qp s) - {se_QueuePair l} else used_q (st_qp s))"
    "used_c (st_cq s') =
      (if c 1 = None then used_c (st_cq s) - {se_CompletionQueue l} else used_c (st_cq s))"
    "used_m (st_mr s') = (if c 2 = None then used_m (st_mr s) - {se_Window l} else used_m (st_mr s))"
    "e = None \<longleftrightarrow> c 0 = None \<and> c 1 = None \<and> c 2 = None"
    "s' = s\<lparr>st_qp := st_qp s', st_cq := st_cq s', st_mr := st_mr s'\<rparr>" "rooms s \<Longrightarrow> rooms s'"
    using U S by auto
qed

lemma close_spec:
  assumes "sinv s" "map_of (st_leases s) i = Some l" "store_Close P ctx i s = (e, s')"
  defines "c \<equiv> ctx_or_background ctx"
  shows "sinv s'" "st_leases s' = AList.delete i (st_leases s)"
    "used_q (st_qp s') = (if c 0 = None then used_q (st_qp s) - {se_QueuePair l} else used_q (st_qp s))"
    "used_c (st_cq s') =
      (if c 1 = None then used_c (st_cq s) - {se_CompletionQueue l} else used_c (st_cq s))"
    "used_m (st_mr s') = (if c 2 = None then used_m (st_mr s) - {se_Window l} else used_m (st_mr s))"
    "e = None \<longleftrightarrow> c 0 = None \<and> c 1 = None \<and> c 2 = None"
    "st_next s' = st_next s" "st_state s' = st_state s" "rooms s \<Longrightarrow> rooms s'"
proof -
  note I = assms(1) [unfolded store_inv_def]
  let ?d = "s\<lparr>st_leases := AList.delete i (st_leases s)\<rparr>"
  have rel: "releaseLocked P c l ?d = (e, s')"
    using assms(2,3) by (simp add: store_Close_def c_def Let_def)
  have "l \<in> snd ` set (st_leases s)" using map_of_SomeD [OF assms(2)] by force
  then have mem: "se_Window l \<in> set (windows s)" "se_QueuePair l \<in> set (queue_pairs s)"
    "se_CompletionQueue l \<in> set (completion_queues s)" by (auto simp: resource_lists)
  have pre: "inv_m (st_mr ?d)" "inv_q (st_qp ?d)" "inv_c (st_cq ?d)"
    "se_Window l \<in> used_m (st_mr ?d)" "se_QueuePair l \<in> used_q (st_qp ?d)"
    "se_CompletionQueue l \<in> used_c (st_cq ?d)" using I mem by auto
  note R = release_spec [OF pre rel, simplified]
  show uq: "used_q (st_qp s') = (if c 0 = None then used_q (st_qp s) - {se_QueuePair l} else used_q (st_qp s))"
    using R(4) by simp
  show uc: "used_c (st_cq s') =
      (if c 1 = None then used_c (st_cq s) - {se_CompletionQueue l} else used_c (st_cq s))"
    using R(5) by simp
  show um: "used_m (st_mr s') = (if c 2 = None then used_m (st_mr s) - {se_Window l} else used_m (st_mr s))"
    using R(6) by simp
  show "e = None \<longleftrightarrow> c 0 = None \<and> c 1 = None \<and> c 2 = None"
    using R(7) by simp
  have s': "s' = ?d\<lparr>st_qp := st_qp s', st_cq := st_cq s', st_mr := st_mr s'\<rparr>"
    using release_spec(8) [OF pre rel] .
  then show L: "st_leases s' = AList.delete i (st_leases s)" and N: "st_next s' = st_next s"
    and "st_state s' = st_state s"
    by (metis (no_types, lifting) store.select_convs store.surjective store.update_convs)+
  show "rooms s \<Longrightarrow> rooms s'" using R(9) by simp
  have wf: "store_wf s" using I by blast
  note W = store_wf_remove [OF wf assms(2) L N]
  show "sinv s'"
    unfolding store_inv_def using W R(1-3) I uq uc um by auto
qed

end

section \<open>Handles in use, attached and orphaned\<close>

datatype handle = Window mr_window | Queue QueuePairHandle | Completion CompletionQueueHandle

definition lease_handles :: "session_lease \<Rightarrow> handle set" where
  "lease_handles l = {Window (se_Window l), Queue (se_QueuePair l), Completion (se_CompletionQueue l)}"

definition attached :: "('m, 'q, 'c) store \<Rightarrow> handle set" where
  "attached s = (\<Union>(i, l) \<in> set (st_leases s). lease_handles l)"

definition in_use ::
  "('m \<Rightarrow> mr_window set) \<Rightarrow> ('q \<Rightarrow> string set) \<Rightarrow> ('c \<Rightarrow> string set) \<Rightarrow> ('m, 'q, 'c) store \<Rightarrow>
   handle set" where
  "in_use used_m used_q used_c s =
     Window ` used_m (st_mr s) \<union> Queue ` used_q (st_qp s) \<union> Completion ` used_c (st_cq s)"

lemma attached_lists:
  "attached s = Window ` set (windows s) \<union> Queue ` set (queue_pairs s) \<union>
     Completion ` set (completion_queues s)"
proof -
  have "x \<in> attached s \<longleftrightarrow> (\<exists>e \<in> set (st_leases s). x \<in> lease_handles (snd e))" for x
    by (force simp: attached_def)
  then show ?thesis
    by (auto simp: lease_handles_def resource_lists image_iff)
qed

lemma store_inv_attached:
  "store_inv inv_m used_m inv_q used_q inv_c used_c s \<longleftrightarrow>
     store_wf s \<and> inv_m (st_mr s) \<and> inv_q (st_qp s) \<and> inv_c (st_cq s) \<and>
     attached s \<subseteq> in_use used_m used_q used_c s"
  by (auto simp: store_inv_def attached_lists in_use_def)

lemma attached_mem: "map_of (st_leases s) i = Some l \<Longrightarrow> lease_handles l \<subseteq> attached s"
  by (auto simp: attached_def dest!: map_of_SomeD)

lemma attached_remove:
  assumes "store_wf s" "map_of (st_leases s) i = Some l"
    "st_leases s' = AList.delete i (st_leases s)" "st_next s' = st_next s"
  shows "attached s' = attached s - lease_handles l"
  unfolding attached_lists store_wf_remove(2-4) [OF assms] by (auto simp: lease_handles_def)

lemma attached_same_leases: "st_leases s' = st_leases s \<Longrightarrow> attached s' = attached s"
  by (simp add: attached_def)

definition expired_in :: "instant \<Rightarrow> (LeaseID \<times> session_lease) list \<Rightarrow> (LeaseID \<times> session_lease) list" where
  "expired_in now rest = filter (\<lambda>(i, l). \<not> now < se_ExpiresAt l) rest"

context session_pools
begin

abbreviation used where
  "used \<equiv> in_use used_m used_q used_c"

lemma open_success_handles:
  assumes "sinv s" "rooms s" "lease_room s" "store_Open P ctx now req s = (Inr l, s')"
  shows "used s' = used s \<union> lease_handles l" "lease_handles l \<inter> used s = {}"
    "attached s' = attached s \<union> lease_handles l"
  using open_success [OF assms] by (auto simp: in_use_def lease_handles_def attached_def)

lemma open_failure_handles:
  assumes "sinv s" "rooms s" "store_Open P ctx now req s = (Inl e, s')"
  shows "used s \<subseteq> used s'" "ctx_live ctx 5 \<Longrightarrow> used s' = used s" "attached s' = attached s"
  using open_failure [OF assms] by (auto simp: in_use_def attached_def)

lemma close_handles:
  assumes "sinv s" "map_of (st_leases s) i = Some l" "store_Close P ctx i s = (e, s')"
  shows "used s' \<subseteq> used s" "used s - lease_handles l \<subseteq> used s'"
    "e = None \<longleftrightarrow> ctx_live ctx 3" "ctx_live ctx 3 \<Longrightarrow> used s' = used s - lease_handles l"
    "attached s' = attached s - lease_handles l"
proof -
  note C = close_spec [OF assms]
  have live: "ctx_live ctx 3 \<longleftrightarrow> ctx_or_background ctx 0 = None \<and> ctx_or_background ctx 1 = None \<and>
      ctx_or_background ctx 2 = None"
    by (auto simp: ctx_live_def numeral_3_eq_3 numeral_2_eq_2 less_Suc_eq)
  show "used s' \<subseteq> used s" "used s - lease_handles l \<subseteq> used s'"
    using C(3-5) by (auto simp: in_use_def lease_handles_def split: if_splits)
  show "e = None \<longleftrightarrow> ctx_live ctx 3" using C(6) live by simp
  show "ctx_live ctx 3 \<Longrightarrow> used s' = used s - lease_handles l"
    using C(3-5) live by (auto simp: in_use_def lease_handles_def)
  have "store_wf s" using assms(1) by (simp add: store_inv_def)
  then show "attached s' = attached s - lease_handles l"
    using assms(2) C(2,7) by (rule attached_remove)
qed

text \<open>The handles of two sessions are disjoint.\<close>

lemma handles_disjoint:
  assumes "sinv s" "map_of (st_leases s) i = Some l" "map_of (st_leases s) j = Some k" "i \<noteq> j"
  shows "lease_handles l \<inter> lease_handles k = {}"
proof -
  have wf: "store_wf s" using assms(1) by (simp add: store_inv_def)
  let ?s = "s\<lparr>st_leases := AList.delete i (st_leases s)\<rparr>"
  have "attached ?s = attached s - lease_handles l"
    using attached_remove [OF wf assms(2), of ?s] by simp
  moreover have "lease_handles k \<subseteq> attached ?s"
    using assms(3,4) by (intro attached_mem [of _ j]) (simp add: map_of_delete)
  ultimately show ?thesis by blast
qed

text \<open>
  The reaper closes, one after the other, the expired sessions of the list it ranges over.  It removes
  exactly those; handles of other sessions stay; under a live context all of theirs are returned.
\<close>

lemma reap_loop_spec:
  assumes "sinv s" "map_ok rest" "\<forall>(i, l) \<in> set rest. map_of (st_leases s) i = Some l"
    "reap_loop P now rest c (n, err, s) = (n', err', s')"
  shows "sinv s' \<and> st_next s' = st_next s \<and> st_state s' = st_state s \<and>
    st_leases s' = filter (\<lambda>x. x \<notin> set (expired_in now rest)) (st_leases s) \<and>
    n' = n + length (expired_in now rest) \<and> used s' \<subseteq> used s \<and>
    used s - (\<Union>(i, l) \<in> set (expired_in now rest). lease_handles l) \<subseteq> used s' \<and>
    (rooms s \<longrightarrow> rooms s') \<and>
    ((\<forall>k. c k = None) \<longrightarrow> (err' = None \<longleftrightarrow> err = None) \<and>
      used s' = used s - (\<Union>(i, l) \<in> set (expired_in now rest). lease_handles l))"
  using assms
proof (induction rest arbitrary: n err s c)
  case Nil
  then show ?case by (simp add: expired_in_def)
next
  case (Cons x rest)
  obtain i l where x: "x = (i, l)" by (cases x)
  have ok: "map_ok rest" and i: "i \<notin> fst ` set rest" using Cons.prems(2) x by (auto simp: map_ok_def)
  have l: "map_of (st_leases s) i = Some l" using Cons.prems(3) x by simp
  show ?case
  proof (cases "now < se_ExpiresAt l")
    case True
    then have "expired_in now (x # rest) = expired_in now rest" using x by (simp add: expired_in_def)
    then show ?thesis using Cons.IH [OF Cons.prems(1) ok, of c n err] Cons.prems True x by simp
  next
    case False
    obtain e t where t: "store_Close P (Some c) i s = (e, t)" by fastforce
    have loop: "reap_loop P now rest (ctx_shift 3 c) (Suc n, Join_errors [err, e], t) = (n', err', s')"
      using Cons.prems(4) False x t l by (simp add: store_Close_def ctx_or_background_def)
    note S = close_spec [OF Cons.prems(1) l t] and H = close_handles [OF Cons.prems(1) l t]
    have pre: "\<forall>(j, k) \<in> set rest. map_of (st_leases t) j = Some k"
      using Cons.prems(3) i x S(2) by (force simp: map_of_delete)
    have ex: "expired_in now (x # rest) = (i, l) # expired_in now rest"
      using x False by (simp add: expired_in_def)
    have "\<forall>y \<in> set (st_leases s). fst y = i \<longrightarrow> y = (i, l)"
      using l Cons.prems(1) by (auto simp: store_inv_def store_wf_def mem_iff_map_of)
    then have del: "AList.delete i (st_leases s) = filter (\<lambda>y. y \<noteq> (i, l)) (st_leases s)"
      unfolding AList.delete_eq by (intro filter_cong) (auto simp: case_prod_unfold)
    have live: "ctx_live (Some c) 3" if "\<forall>k. c k = None"
      using that by (simp add: ctx_live_def ctx_or_background_def)
    have "\<forall>k. ctx_shift 3 c k = None" if "\<forall>k. c k = None"
      using that by (simp add: ctx_shift_def)
    then show ?thesis
      using Cons.IH [OF S(1) ok pre loop] S(2,7-9) H live unfolding ex del
      by (auto simp: filter_filter)
  qed
qed

end

section \<open>Histories\<close>

datatype store_op =
    OpSetState u8
  | OpSetSlotStats slot_stats
  | OpOpen "ctx option" instant session_request
  | OpRefresh LeaseID instant instant
  | OpTouch LeaseID instant
  | OpPulse instant
  | OpCloseLease "ctx option" LeaseID
  | OpReap "ctx option" instant

fun store_step :: "('m, 'q, 'c) pool_ops \<Rightarrow> store_op \<Rightarrow> ('m, 'q, 'c) store \<Rightarrow> ('m, 'q, 'c) store" where
  "store_step P (OpSetState w) s = snd (SetState w s)"
| "store_step P (OpSetSlotStats st) s = SetSlotStats st s"
| "store_step P (OpOpen c now req) s = snd (store_Open P c now req s)"
| "store_step P (OpRefresh i d now) s = snd (Refresh i d now s)"
| "store_step P (OpTouch i now) s = snd (Touch i now s)"
| "store_step P (OpPulse now) s = snd (PulseControlPlane now s)"
| "store_step P (OpCloseLease c i) s = snd (store_Close P c i s)"
| "store_step P (OpReap c now) s = snd (ReapExpired P c now s)"

fun store_run :: "('m, 'q, 'c) pool_ops \<Rightarrow> store_op list \<Rightarrow> ('m, 'q, 'c) store \<Rightarrow> ('m, 'q, 'c) store" where
  "store_run P [] s = s"
| "store_run P (c # cs) s = store_run P cs (store_step P c s)"

text \<open>The contexts an operation is given stay live while it runs.\<close>

fun op_live :: "store_op \<Rightarrow> bool" where
  "op_live (OpOpen c now req) = ctx_live c 5"
| "op_live (OpCloseLease c i) = ctx_live c 3"
| "op_live (OpReap c now) = (\<forall>k. ctx_or_background c k = None)"
| "op_live _ = True"

lemma Refresh_cases:
  assumes "Refresh i d now s = (r, s')"
  obtains (same) e where "r = Inl e" "s' = s"
  | (refreshed) l where "map_of (st_leases s) i = Some l" "now < se_ExpiresAt l" "now < d" "d \<noteq> 0"
      "i \<noteq> 0" "st_state s = StateReady"
      "r = Inr (l\<lparr>se_ExpiresAt := d, se_LastActivity := now, se_Healthy := True\<rparr>)"
      "s' = s\<lparr>st_leases := AList.update i (l\<lparr>se_ExpiresAt := d, se_LastActivity := now,
         se_Healthy := True\<rparr>) (st_leases s)\<rparr>"
  using assms by (auto simp: Refresh_def Let_def split: if_splits option.splits)

lemma Touch_cases:
  assumes "Touch i now s = (r, s')"
  obtains (same) e where "r = Inl e" "s' = s"
  | (touched) l where "map_of (st_leases s) i = Some l" "now < se_ExpiresAt l" "i \<noteq> 0"
      "st_state s = StateReady" "r = Inr (l\<lparr>se_LastActivity := now, se_Healthy := True\<rparr>)"
      "s' = s\<lparr>st_leases := AList.update i (l\<lparr>se_LastActivity := now, se_Healthy := True\<rparr>)
         (st_leases s)\<rparr>"
  using assms by (auto simp: Touch_def Let_def split: if_splits option.splits)

context session_pools
begin

lemma replace_inv:
  assumes "sinv s" "map_of (st_leases s) i = Some l" "s' = s\<lparr>st_leases := AList.update i l' (st_leases s)\<rparr>"
    "se_ID l' = se_ID l" and h: "se_Window l' = se_Window l" "se_QueuePair l' = se_QueuePair l"
    "se_CompletionQueue l' = se_CompletionQueue l"
  shows "sinv s' \<and> attached s' = attached s \<and> used s' = used s"
proof -
  have wf: "store_wf s" using assms(1) by (simp add: store_inv_def)
  have "st_leases s' = AList.update i l' (st_leases s)" "st_next s' = st_next s"
    using assms(3) by simp_all
  note W = store_wf_replace [OF wf assms(2) this assms(4) h]
  then show ?thesis
    using assms(1,3) by (auto simp: store_inv_def attached_lists in_use_def)
qed

lemma reap_spec:
  assumes "sinv s" "ReapExpired P ctx now s = ((n, err), s')"
  shows "sinv s'" "st_next s' = st_next s" "st_state s' = st_state s"
    "st_leases s' = filter (\<lambda>(i, l). now < se_ExpiresAt l) (st_leases s)"
    "n = length (expired_in now (st_leases s))" "used s' \<subseteq> used s"
    "used s - (\<Union>(i, l) \<in> set (expired_in now (st_leases s)). lease_handles l) \<subseteq> used s'"
    "rooms s \<Longrightarrow> rooms s'"
    "\<forall>k. ctx_or_background ctx k = None \<Longrightarrow> err = None"
    "\<forall>k. ctx_or_background ctx k = None \<Longrightarrow>
       used s' = used s - (\<Union>(i, l) \<in> set (expired_in now (st_leases s)). lease_handles l)"
    "attached s' = attached s - (\<Union>(i, l) \<in> set (expired_in now (st_leases s)). lease_handles l)"
proof -
  have wf: "store_wf s" using assms(1) by (simp add: store_inv_def)
  then have ok: "map_ok (st_leases s)" by (simp add: store_wf_def)
  have all: "\<forall>(i, l) \<in> set (st_leases s). map_of (st_leases s) i = Some l"
    using ok by (auto simp: mem_iff_map_of)
  have loop: "reap_loop P now (st_leases s) (ctx_or_background ctx) (0, None, s) = (n, err, s')"
    using assms(2) by (simp add: ReapExpired_def split: prod.splits)
  note R = reap_loop_spec [OF assms(1) ok all loop]
  then show "sinv s'" "st_next s' = st_next s" "st_state s' = st_state s"
    "n = length (expired_in now (st_leases s))" "used s' \<subseteq> used s"
    "used s - (\<Union>(i, l) \<in> set (expired_in now (st_leases s)). lease_handles l) \<subseteq> used s'"
    "rooms s \<Longrightarrow> rooms s'"
    "\<forall>k. ctx_or_background ctx k = None \<Longrightarrow> err = None"
    "\<forall>k. ctx_or_background ctx k = None \<Longrightarrow>
       used s' = used s - (\<Union>(i, l) \<in> set (expired_in now (st_leases s)). lease_handles l)"
    by simp_all
  have "filter (\<lambda>x. x \<notin> set (expired_in now (st_leases s))) (st_leases s) =
      filter (\<lambda>(i, l). now < se_ExpiresAt l) (st_leases s)"
    by (rule filter_cong) (auto simp: expired_in_def)
  then show L: "st_leases s' = filter (\<lambda>(i, l). now < se_ExpiresAt l) (st_leases s)"
    using R by simp
  show "attached s' = attached s - (\<Union>(i, l) \<in> set (expired_in now (st_leases s)). lease_handles l)"
  proof (intro set_eqI iffI)
    fix h assume "h \<in> attached s'"
    then obtain i l where il: "(i, l) \<in> set (st_leases s)" "now < se_ExpiresAt l" "h \<in> lease_handles l"
      by (auto simp: attached_def L)
    have "h \<notin> lease_handles k" if "(j, k) \<in> set (expired_in now (st_leases s))" for j k
    proof -
      have jk: "(j, k) \<in> set (st_leases s)" "\<not> now < se_ExpiresAt k"
        using that by (auto simp: expired_in_def)
      have m: "map_of (st_leases s) i = Some l" "map_of (st_leases s) j = Some k"
        using il(1) jk(1) all by auto
      then have "i \<noteq> j" using il(2) jk(2) by auto
      from handles_disjoint [OF assms(1) m this] il(3) show ?thesis by blast
    qed
    with il show "h \<in> attached s - (\<Union>(i, l) \<in> set (expired_in now (st_leases s)). lease_handles l)"
      by (auto simp: attached_def)
  next
    fix h assume "h \<in> attached s - (\<Union>(i, l) \<in> set (expired_in now (st_leases s)). lease_handles l)"
    then show "h \<in> attached s'"
      by (auto simp: attached_def L expired_in_def)
  qed
qed

text \<open>
  One step of the store: the invariant is kept, an orphaned handle stays orphaned, and an operation
  whose context stays live orphans nothing.
\<close>

lemma step_spec:
  assumes "sinv s" "rooms s" "lease_room s"
  shows "sinv (store_step P op s) \<and>
    used s - attached s \<subseteq> used (store_step P op s) - attached (store_step P op s) \<and>
    (op_live op \<longrightarrow> used (store_step P op s) - attached (store_step P op s) = used s - attached s)"
proof (cases op)
  case (OpSetState w)
  then show ?thesis
    using assms(1) by (auto simp: SetState_def store_inv_def store_wf_def resource_lists attached_def
        in_use_def split: option.splits)
next
  case (OpSetSlotStats st)
  then show ?thesis
    using assms(1) by (auto simp: SetSlotStats_def store_inv_def store_wf_def resource_lists
        attached_def in_use_def)
next
  case (OpOpen c now req)
  obtain r s' where o: "store_Open P c now req s = (r, s')" by fastforce
  show ?thesis
  proof (cases r)
    case (Inl e)
    note o' = o [unfolded Inl]
    show ?thesis
      using open_failure [OF assms(1,2) o'] open_failure_handles [OF assms(1,2) o'] o OpOpen by auto
  next
    case (Inr l)
    note o' = o [unfolded Inr]
    show ?thesis
      using open_success(1) [OF assms o'] open_success_handles [OF assms o'] o OpOpen by auto
  qed
next
  case (OpRefresh i d now)
  obtain r s' where o: "Refresh i d now s = (r, s')" by fastforce
  then show ?thesis
  proof (cases rule: Refresh_cases)
    case (refreshed l)
    have "sinv s' \<and> attached s' = attached s \<and> used s' = used s"
      by (rule replace_inv [OF assms(1) refreshed(1,8)]) simp_all
    then show ?thesis using o OpRefresh by simp
  qed (use assms(1) o OpRefresh in auto)
next
  case (OpTouch i now)
  obtain r s' where o: "Touch i now s = (r, s')" by fastforce
  then show ?thesis
  proof (cases rule: Touch_cases)
    case (touched l)
    have "sinv s' \<and> attached s' = attached s \<and> used s' = used s"
      by (rule replace_inv [OF assms(1) touched(1,6)]) simp_all
    then show ?thesis using o OpTouch by simp
  qed (use assms(1) o OpTouch in auto)
next
  case (OpPulse now)
  have wf: "store_wf s" using assms(1) by (simp add: store_inv_def)
  show ?thesis
    using OpPulse assms(1) pulse_wf [OF wf] by (simp add: store_inv_def attached_lists in_use_def)
      (simp add: PulseControlPlane_map [OF wf])
next
  case (OpCloseLease c i)
  obtain e s' where o: "store_Close P c i s = (e, s')" by fastforce
  show ?thesis
  proof (cases "map_of (st_leases s) i")
    case None
    then show ?thesis using OpCloseLease assms(1) by (simp add: store_Close_def)
  next
    case (Some l)
    then show ?thesis
      using OpCloseLease o close_spec(1) [OF assms(1) Some o] close_handles [OF assms(1) Some o]
        attached_mem [OF Some] by auto
  qed
next
  case (OpReap c now)
  obtain n e s' where o: "ReapExpired P c now s = ((n, e), s')" by (metis surj_pair)
  note R = reap_spec [OF assms(1) o]
  define E where "E = (\<Union>(i, l) \<in> set (expired_in now (st_leases s)). lease_handles l)"
  have "E \<subseteq> attached s"
    by (auto simp: E_def attached_def expired_in_def)
  moreover have "used s' \<subseteq> used s" "used s - E \<subseteq> used s'" "attached s' = attached s - E"
    "op_live op \<longrightarrow> used s' = used s - E"
    using R(6,7,10,11) OpReap by (simp_all add: E_def)
  ultimately show ?thesis
    using OpReap o R(1) by auto
qed

end

end
