(* ===== verification/Sessions.thy ===== *)
theory Sessions
  imports Store
begin

text \<open>
  The session store over the daemon's own pools.  The interpretation \<open>daemon\<close> discharges the laws
  of the pool interfaces for the slab, queue-pair and completion-queue pools; the properties below are
  about every history of operations of the store built by \<open>NewStore\<close> over freshly built pools.
\<close>

interpretation daemon: session_pools daemon_pools mr_inv id_room mr_used
  "qp_inv Q" "\<lambda>_. True" qp_used "cq_inv C" "\<lambda>_. True" cq_used
  unfolding session_pools_def daemon_pools_simps
  using mr.handle_pool_axioms qp.handle_pool_axioms cq.handle_pool_axioms by blast

definition daemon_inv :: "string set \<Rightarrow> string set \<Rightarrow> daemon_store \<Rightarrow> bool" where
  "daemon_inv Q C = store_inv mr_inv mr_used (qp_inv Q) qp_used (cq_inv C) cq_used"

definition handles_used :: "daemon_store \<Rightarrow> handle set" where
  "handles_used = in_use mr_used qp_used cq_used"

text \<open>Handles in use that belong to no session.\<close>

definition orphans :: "daemon_store \<Rightarrow> handle set" where
  "orphans s = handles_used s - attached s"

text \<open>How the daemon builds its store: fresh pools, every one of the constructors succeeding.\<close>

definition new_daemon ::
  "slab_os \<Rightarrow> int \<Rightarrow> QueuePairHandle list \<Rightarrow> CompletionQueueHandle list \<Rightarrow> daemon_store option" where
  "new_daemon os sz qps cqs =
     (case (NewSlab os sz, NewStaticQueuePairPool qps, NewStaticCompletionQueuePool cqs) of
        (Inr slab, Inr qp, Inr cq) \<Rightarrow>
          (case NewStore (Some slab) (Some qp) (Some cq) of Inr s \<Rightarrow> Some s | Inl e \<Rightarrow> None)
      | _ \<Rightarrow> None)"

section \<open>Identifier counters\<close>

definition counters_le :: "nat \<Rightarrow> daemon_store \<Rightarrow> bool" where
  "counters_le k s \<longleftrightarrow> unat (sl_nextID (st_mr s)) \<le> k \<and> unat (st_next s) \<le> k"

lemma unat_succ_le: "unat ((w :: u64) + 1) \<le> Suc (unat w)"
  by (simp add: unat_word_ariths)

lemma AllocMR_counter: "unat (sl_nextID (snd (AllocMR ce n p))) \<le> Suc (unat (sl_nextID p))"
proof -
  have "sl_nextID (snd (Alloc n p)) = sl_nextID p \<or> sl_nextID (snd (Alloc n p)) = sl_nextID p + 1"
    by (auto simp: Alloc_def slab_next_def Let_def split: option.splits)
  moreover have "sl_nextID (snd (AllocMR ce n p)) = sl_nextID p \<or>
      sl_nextID (snd (AllocMR ce n p)) = sl_nextID (snd (Alloc n p))"
    by (auto simp: AllocMR_def split: option.splits prod.splits sum.splits)
  ultimately show ?thesis using unat_succ_le [of "sl_nextID p"] by auto
qed

lemma FreeMR_counter [simp]: "sl_nextID (snd (FreeMR ce w p)) = sl_nextID p"
  by (auto simp: FreeMR_def split_beta split: option.splits)

lemma counters_step:
  assumes "daemon_inv Q C s" "counters_le k s"
  shows "counters_le (Suc k) (store_step daemon_pools op s)"
proof (cases op)
  case (OpOpen c now req)
  obtain r s' where o: "store_Open daemon_pools c now req s = (r, s')" by fastforce
  have A: "unat (sl_nextID mr) \<le> Suc k"
    if "AllocMR (ctx_or_background c 0) (rq_Size req) (st_mr s) = (a, mr)" for a mr
    using AllocMR_counter [of "ctx_or_background c 0" "rq_Size req" "st_mr s"] that assms
    by (simp add: counters_le_def)
  have F: "sl_nextID mr' = sl_nextID mr" if "FreeMR ce w mr = (x, mr')" for ce w mr x mr'
    using FreeMR_counter [of ce w mr] that by simp
  from o have "counters_le (Suc k) s'"
  proof (cases rule: store_Open_cases)
    case refused
    then show ?thesis using assms by (simp add: counters_le_def)
  next
    case (opened w mr h cq q qp)
    then show ?thesis
      using A assms(2) unat_succ_le [of "st_next s"] by (auto simp: counters_le_def)
  qed (use A F assms(2) in \<open>auto simp: counters_le_def dest!: F\<close>)
  then show ?thesis using OpOpen o by simp
next
  case (OpCloseLease c i)
  have "sl_nextID (st_mr (snd (releaseLocked daemon_pools c' l t))) = sl_nextID (st_mr t) \<and>
      st_next (snd (releaseLocked daemon_pools c' l t)) = st_next t" for c' l t
    by (simp add: releaseLocked_def split_beta)
  then show ?thesis
    using OpCloseLease assms(2)
    by (auto simp: store_Close_def counters_le_def Let_def split: option.splits)
next
  case (OpReap c now)
  have R: "sl_nextID (st_mr (snd (releaseLocked daemon_pools c' l t))) = sl_nextID (st_mr t) \<and>
      st_next (snd (releaseLocked daemon_pools c' l t)) = st_next t" for c' l t
    by (simp add: releaseLocked_def split_beta)
  have "sl_nextID (st_mr (snd (snd (reap_loop daemon_pools now rest c' (n, e, t))))) =
      sl_nextID (st_mr t) \<and> st_next (snd (snd (reap_loop daemon_pools now rest c' (n, e, t)))) = st_next t"
    for rest c' n e t
  proof (induction rest arbitrary: c' n e t)
    case (Cons x rest)
    then show ?case
      using R by (cases x) (auto simp: split_beta)
  qed simp
  then show ?thesis
    using OpReap assms(2) by (simp add: ReapExpired_def counters_le_def split_beta)
next
  case (OpRefresh i d now)
  then show ?thesis using assms(2)
    by (auto simp: Refresh_def counters_le_def Let_def split: option.splits)
next
  case (OpTouch i now)
  then show ?thesis using assms(2)
    by (auto simp: Touch_def counters_le_def Let_def split: option.splits)
next
  case (OpSetState w)
  then show ?thesis using assms(2)
    by (auto simp: SetState_def counters_le_def split: option.splits)
qed (use assms(2) in \<open>simp_all add: SetSlotStats_def PulseControlPlane_def counters_le_def split_beta\<close>)

lemma counters_room:
  assumes "counters_le k s" "Suc k < 2 ^ 64"
  shows "id_room (st_mr s)" "lease_room s"
  using assms by (auto simp: counters_le_def id_room_def lease_room_def)

section \<open>Histories of the daemon's store\<close>

lemma daemon_step:
  assumes "daemon_inv Q C s" "counters_le k s" "Suc k < 2 ^ 64"
  shows "daemon_inv Q C (store_step daemon_pools op s)"
    "orphans s \<subseteq> orphans (store_step daemon_pools op s)"
    "op_live op \<Longrightarrow> orphans (store_step daemon_pools op s) = orphans s"
  using daemon.step_spec [of Q C s op] assms counters_room [OF assms(2,3)]
  by (simp_all add: daemon_inv_def orphans_def handles_used_def)

lemma daemon_run:
  assumes "daemon_inv Q C s" "counters_le k s" "k + length ops < 2 ^ 64"
  shows "daemon_inv Q C (store_run daemon_pools ops s)"
    "orphans s \<subseteq> orphans (store_run daemon_pools ops s)"
    "\<forall>op \<in> set ops. op_live op \<Longrightarrow> orphans (store_run daemon_pools ops s) = orphans s"
    "counters_le (k + length ops) (store_run daemon_pools ops s)"
proof -
  have "daemon_inv Q C (store_run daemon_pools ops s) \<and>
    orphans s \<subseteq> orphans (store_run daemon_pools ops s) \<and>
    ((\<forall>op \<in> set ops. op_live op) \<longrightarrow> orphans (store_run daemon_pools ops s) = orphans s) \<and>
    counters_le (k + length ops) (store_run daemon_pools ops s)"
    using assms
  proof (induction ops arbitrary: s k)
    case (Cons op ops)
    have "Suc k < 2 ^ 64" using Cons.prems(3) by simp
    note S = daemon_step [OF Cons.prems(1,2) this, of op] and
      K = counters_step [OF Cons.prems(1,2), of op]
    from Cons.IH [OF S(1) K] Cons.prems(3) S(2,3) show ?case by auto
  qed simp
  then show "daemon_inv Q C (store_run daemon_pools ops s)"
    "orphans s \<subseteq> orphans (store_run daemon_pools ops s)"
    "\<forall>op \<in> set ops. op_live op \<Longrightarrow> orphans (store_run daemon_pools ops s) = orphans s"
    "counters_le (k + length ops) (store_run daemon_pools ops s)" by blast+
qed

lemma new_daemon_ok:
  assumes "new_daemon os sz qps cqs = Some s"
  shows "daemon_inv (set qps) (set cqs) s" "orphans s = {}" "counters_le 0 s" "st_leases s = []"
    "st_state s = StateBootstrapping"
proof -
  obtain slab qp cq where B: "NewSlab os sz = Inr slab" "NewStaticQueuePairPool qps = Inr qp"
    "NewStaticCompletionQueuePool cqs = Inr cq"
    "s = \<lparr> st_state = StateBootstrapping, st_next = 0, st_mr = slab, st_qp = qp, st_cq = cq,
       st_slots = zero_slots, st_leases = [] \<rparr>"
    using assms by (auto simp: new_daemon_def NewStore_def split: sum.splits)
  note N = NewSlab_ok [OF B(1)] NewStaticQueuePairPool_ok [OF B(2)]
    NewStaticCompletionQueuePool_ok [OF B(3)]
  show "daemon_inv (set qps) (set cqs) s"
    using N B(4) by (simp add: daemon_inv_def store_inv_def store_wf_def resource_lists mr_inv_def)
  show "orphans s = {}"
    using N B(4) by (simp add: orphans_def handles_used_def in_use_def mr_used_def)
  show "counters_le 0 s" "st_leases s = []" "st_state s = StateBootstrapping"
    using N(4) B(4) by (simp_all add: counters_le_def)
qed

section \<open>A small daemon\<close>

definition daemon16 :: daemon_store where
  "daemon16 = \<lparr> st_state = StateBootstrapping, st_next = 0, st_mr = slab16,
     st_qp = \<lparr> qp_available = [''q0'', ''q1''], qp_inUse = [] \<rparr>,
     st_cq = \<lparr> cq_available = [''c0'', ''c1''], cq_inUse = [] \<rparr>, st_slots = zero_slots, st_leases = [] \<rparr>"

definition req4 :: session_request where
  "req4 = \<lparr> rq_ClientID = ''a'',
     rq_Peer = \<lparr> peer_Rank = 1, peer_QueuePairNumber = 7, peer_PacketSequenceNumber = 7,
       peer_LocalID = 0, peer_GlobalID = '''', peer_MTU = 0, peer_Memory = \<lparr> rm_Addr = 0, rm_RKey = 0 \<rparr> \<rparr>,
     rq_Size = 4, rq_Deadline = 100, rq_HeartbeatMR = zero_heartbeat, rq_Heartbeat = 0 \<rparr>"

lemma new_daemon16: "new_daemon os_fine 16 [''q0'', ''q1''] [''c0'', ''c1''] = Some daemon16"
  by (simp add: new_daemon_def NewSlab_slab16 NewStaticQueuePairPool_def
      NewStaticCompletionQueuePool_def NewStore_def daemon16_def)

lemma validate_req4: "now < 100 \<Longrightarrow> validateRequest req4 now = None"
proof -
  have "TrimSpace ''a'' = ''a''" by code_simp
  then show "now < 100 \<Longrightarrow> validateRequest req4 now = None"
    by (simp add: validateRequest_def req4_def heartbeat_IsZero_def)
qed

definition ready16 :: daemon_store where
  "ready16 = daemon16\<lparr>st_state := StateReady\<rparr>"

definition lease4 :: session_lease where
  "lease4 = new_session 1 req4 5 \<lparr> mw_SlabID = ''1'', mw_Offset = 0, mw_Length = 4 \<rparr> ''q1'' ''c1''"

definition open16 :: daemon_store where
  "open16 = ready16\<lparr>st_next := 1,
     st_mr := slab16\<lparr>sl_nextID := 1, sl_leases := [(1, \<lparr> sp_off = 0, sp_n = 4 \<rparr>)],
       sl_free := [\<lparr> sp_off = 4, sp_n = 12 \<rparr>]\<rparr>,
     st_cq := \<lparr> cq_available = [''c0''], cq_inUse = [(''c1'', True)] \<rparr>,
     st_qp := \<lparr> qp_available = [''q0''], qp_inUse = [(''q1'', rq_Peer req4)] \<rparr>,
     st_leases := [(1, lease4)]\<rparr>"

lemma ready16_inv:
  "daemon_inv {''q0'', ''q1''} {''c0'', ''c1''} ready16" "counters_le 0 ready16" "orphans ready16 = {}"
proof -
  note N = new_daemon_ok [OF new_daemon16]
  have "store_step daemon_pools (OpSetState 2) daemon16 = ready16"
    by (simp add: SetState_def state_of_byte_def ready16_def daemon16_def less_state_def)
  then show "daemon_inv {''q0'', ''q1''} {''c0'', ''c1''} ready16" "orphans ready16 = {}"
    using daemon_step [OF N(1,3), of "OpSetState 2"] N(2) by auto
  show "counters_le 0 ready16"
    using N(3) by (simp add: ready16_def counters_le_def)
qed

lemma open16_Open: "store_Open daemon_pools None 5 req4 ready16 = (Inr lease4, open16)"
proof -
  have ff: "first_fit 4 [\<lparr> sp_off = 0, sp_n = 16 \<rparr>] = Some (0, [\<lparr> sp_off = 4, sp_n = 12 \<rparr>])"
    by (simp add: add64_def sub64_def wrap64_def)
  have fu: "FormatUint 1 = ''1''" by code_simp
  have A: "AllocMR None 4 slab16 = (Inr \<lparr> mw_SlabID = ''1'', mw_Offset = 0, mw_Length = 4 \<rparr>,
      slab16\<lparr>sl_nextID := 1, sl_leases := [(1, \<lparr> sp_off = 0, sp_n = 4 \<rparr>)],
       sl_free := [\<lparr> sp_off = 4, sp_n = 12 \<rparr>]\<rparr>)"
    using ff fu by (simp add: AllocMR_def Alloc_def slab_next_def slab16_def Let_def)
  have "rq_Size req4 = 4" by (simp add: req4_def)
  then show ?thesis
    using A validate_req4 [of 5]
    by (simp add: store_Open_def ready16_def daemon16_def open16_def lease4_def
        ctx_or_background_def Let_def AcquireCompletionQueue_def AcquireQueuePair_def)
qed

lemma open16_inv:
  "daemon_inv {''q0'', ''q1''} {''c0'', ''c1''} open16" "counters_le 1 open16" "orphans open16 = {}"
  using daemon_step [OF ready16_inv(1,2), of "OpOpen None 5 req4"] ready16_inv(3)
    counters_step [OF ready16_inv(1,2), of "OpOpen None 5 req4"] open16_Open by auto

section \<open>Properties\<close>

definition window_bytes :: "mr_window \<Rightarrow> int set" where
  "window_bytes w = {mw_Offset w ..< mw_Offset w + mw_Length w}"

lemma window_bytes_of [simp]: "window_bytes (window_of i r) = span_set r"
  by (simp add: window_bytes_def window_of_def span_set_def)

lemma windows_disjoint:
  assumes "slab_inv p" "v \<in> mr_used p" "w \<in> mr_used p" "v \<noteq> w"
  shows "window_bytes v \<inter> window_bytes w = {}"
proof -
  obtain i a j b where "held p i = Some a" "v = window_of i a" "held p j = Some b" "w = window_of j b"
    using assms(2,3) by (auto simp: mr_used_def)
  with assms(1,4) show ?thesis using slab_leases_disjoint [of p i a j b] by (cases "i = j") auto
qed

text \<open>C5.  Isolation.  In every state the store can reach from fresh pools, by any history of
operations under any contexts, live or cancelled, two different sessions never share a queue pair, a
completion queue or a byte of memory, and every handle of a session is marked in use in its pool.\<close>

theorem sessions_isolated:
  assumes "new_daemon os sz qps cqs = Some s0" and "length ops < 2 ^ 64"
    and "s = store_run daemon_pools ops s0"
    and "store_Lookup i s = Some l" and "store_Lookup j s = Some k" and "i \<noteq> j"
  shows "se_QueuePair l \<noteq> se_QueuePair k \<and> se_CompletionQueue l \<noteq> se_CompletionQueue k \<and>
    window_bytes (se_Window l) \<inter> window_bytes (se_Window k) = {} \<and> lease_handles l \<subseteq> handles_used s"
proof -
  note N = new_daemon_ok [OF assms(1)]
  have I: "daemon_inv (set qps) (set cqs) s"
    using daemon_run(1) [OF N(1,3)] assms(2,3) by simp
  have L: "map_of (st_leases s) i = Some l" "map_of (st_leases s) j = Some k"
    using assms(4,5) by (simp_all add: store_Lookup_def)
  have D: "lease_handles l \<inter> lease_handles k = {}"
    using daemon.handles_disjoint [OF I [unfolded daemon_inv_def] L assms(6)] .
  have U: "attached s \<subseteq> handles_used s" "slab_inv (st_mr s)"
    using I by (auto simp: daemon_inv_def store_inv_attached handles_used_def mr_inv_def)
  have "se_Window l \<in> mr_used (st_mr s)" "se_Window k \<in> mr_used (st_mr s)" "se_Window l \<noteq> se_Window k"
    using attached_mem [OF L(1)] attached_mem [OF L(2)] U(1) D
    by (auto simp: lease_handles_def handles_used_def in_use_def)
  from windows_disjoint [OF U(2) this] show ?thesis
    using D attached_mem [OF L(1)] U(1) by (auto simp: lease_handles_def)
qed

theorem sessions_isolated_witness:
  "\<exists>l k. let s = store_run daemon_pools [OpSetState 2, OpOpen None 5 req4, OpOpen None 6 req4] daemon16 in
    store_Lookup 1 s = Some l \<and> store_Lookup 2 s = Some k \<and> se_QueuePair l \<noteq> se_QueuePair k \<and>
    window_bytes (se_Window l) \<inter> window_bytes (se_Window k) = {}"
proof -
  let ?ops = "[OpSetState 2, OpOpen None 5 req4, OpOpen None 6 req4]"
  have s1: "store_step daemon_pools (OpSetState 2) daemon16 = ready16"
    by (simp add: SetState_def state_of_byte_def ready16_def daemon16_def less_state_def)
  have "AllocMR None 4 (st_mr open16) = (Inr \<lparr> mw_SlabID = ''2'', mw_Offset = 4, mw_Length = 4 \<rparr>,
      snd (AllocMR None 4 (st_mr open16)))"
  proof -
    have "FormatUint 2 = ''2''" by code_simp
    then show ?thesis
      by (simp add: AllocMR_def Alloc_def slab_next_def open16_def Let_def slab16_def add64_def sub64_def
          wrap64_def)
  qed
  then obtain mr where A: "AllocMR None 4 (st_mr open16) =
      (Inr \<lparr> mw_SlabID = ''2'', mw_Offset = 4, mw_Length = 4 \<rparr>, mr)" by blast
  have run: "store_run daemon_pools ?ops daemon16 = snd (store_Open daemon_pools None 6 req4 open16)"
    using s1 open16_Open by simp
  have f: "st_state open16 = StateReady" "st_leases open16 = [(1, lease4)]" "st_next open16 = 1"
    "st_cq open16 = \<lparr> cq_available = [''c0''], cq_inUse = [(''c1'', True)] \<rparr>"
    "st_qp open16 = \<lparr> qp_available = [''q0''], qp_inUse = [(''q1'', rq_Peer req4)] \<rparr>" "rq_Size req4 = 4"
    by (simp_all add: open16_def ready16_def req4_def)
  obtain k where k: "store_Lookup 2 (store_run daemon_pools ?ops daemon16) = Some k"
    "store_Lookup 1 (store_run daemon_pools ?ops daemon16) = Some lease4"
    unfolding run using A validate_req4 [of 6] f
    by (simp add: store_Open_def ctx_or_background_def Let_def AcquireCompletionQueue_def
        AcquireQueuePair_def store_Lookup_def)
  from sessions_isolated [OF new_daemon16 _ refl this(2) this(1)] k show ?thesis
    by (auto simp: Let_def)
qed

text \<open>C6.  No leaks.  Along every history in which no context is cancelled during a call, the pools'
handles in use are exactly the handles attached to sessions: failing opens, closes and reaps return
everything they must and nothing else.\<close>

theorem live_history_no_leak:
  assumes "new_daemon os sz qps cqs = Some s0" and "length ops < 2 ^ 64"
    and "\<forall>op \<in> set ops. op_live op"
  shows "handles_used (store_run daemon_pools ops s0) = attached (store_run daemon_pools ops s0)"
proof -
  note N = new_daemon_ok [OF assms(1)]
  note R = daemon_run [OF N(1,3), of ops]
  have "attached (store_run daemon_pools ops s0) \<subseteq> handles_used (store_run daemon_pools ops s0)"
    using R(1) assms(2) by (simp add: daemon_inv_def store_inv_attached handles_used_def)
  moreover have "orphans (store_run daemon_pools ops s0) = {}"
    using R(3) assms(2,3) N(2) by simp
  ultimately show ?thesis by (auto simp: orphans_def)
qed

theorem live_history_no_leak_witness:
  "handles_used (store_run daemon_pools [OpSetState 2, OpOpen None 5 req4, OpReap None 200] daemon16) =
   attached (store_run daemon_pools [OpSetState 2, OpOpen None 5 req4, OpReap None 200] daemon16)"
  by (rule live_history_no_leak [OF new_daemon16]) (simp_all add: ctx_or_background_def)

text \<open>A successful \<open>Open\<close> issues an identifier that no session has, records exactly the returned
session under it, leaves every other session alone, and attaches a window of the requested size, a
queue pair and a completion queue none of which was in use.  It happens only in the ready state, for a
deadline in the future.\<close>

lemma Open_correct:
  assumes "daemon_inv Q C s" and "id_room (st_mr s)" and "lease_room s"
    and "store_Open daemon_pools ctx now req s = (Inr l, s')"
  shows "store_Lookup (se_ID l) s = None \<and>
    (\<forall>j. store_Lookup j s' = (if j = se_ID l then Some l else store_Lookup j s)) \<and>
    handles_used s' = handles_used s \<union> lease_handles l \<and> lease_handles l \<inter> handles_used s = {} \<and>
    mw_Length (se_Window l) = rq_Size req \<and> se_Peer l = rq_Peer req \<and> se_ClientID l = rq_ClientID req \<and>
    se_ExpiresAt l = rq_Deadline req \<and> now < se_ExpiresAt l \<and> st_state s = StateReady"
proof -
  note I = assms(1) [unfolded daemon_inv_def]
  have rooms: "id_room (st_mr s) \<and> True \<and> True" using assms(2) by simp
  note O = daemon.open_success [OF I rooms assms(3,4)]
    and H = daemon.open_success_handles [OF I rooms assms(3,4)]
  have wf: "store_wf s" using I by (simp add: store_inv_def)
  obtain w q h where l: "l = new_session (st_next s + 1) req now w q h" using O(9) by blast
  have fresh: "map_of (st_leases s) (st_next s + 1) = None"
    using fresh_lease [OF wf assms(3)] by (simp add: map_of_eq_None_iff)
  have "now < rq_Deadline req"
    using O(10) by (simp add: validateRequest_def split: if_splits)
  moreover have "mw_Length w = rq_Size req"
  proof -
    from assms(4) l obtain mr where
      "AllocMR (ctx_or_background ctx 0) (rq_Size req) (st_mr s) = (Inr w, mr)"
      by (cases rule: store_Open_cases) (auto simp: new_session_def)
    then obtain k where "Alloc (rq_Size req) (st_mr s) = (Inr k, mr)"
      "w = window_of (lease_ID k) (lease_span k)" using AllocMR_Inr by blast
    then show ?thesis by (auto simp: window_of_def lease_span_def elim: Alloc_cases)
  qed
  ultimately show ?thesis
    using l fresh H O(2,11) unfolding store_Lookup_def handles_used_def
    by (auto simp: map_add_def split: option.splits)
qed

lemma Open_correct_witness:
  "store_Lookup 1 ready16 = None \<and> store_Lookup 1 open16 = Some lease4 \<and>
   handles_used open16 = handles_used ready16 \<union> lease_handles lease4"
  using Open_correct [OF ready16_inv(1) _ _ open16_Open] counters_room [OF ready16_inv(2)]
  by (simp add: lease4_def)

text \<open>C7.  A failing \<open>Open\<close> is atomic when its context stays live: whatever step failed, no session, no
counter and no handle in any pool changes.\<close>

theorem Open_failure_atomic:
  assumes "daemon_inv Q C s" and "id_room (st_mr s)" and "ctx_live ctx 5"
    and "store_Open daemon_pools ctx now req s = (Inl e, s')"
  shows "st_leases s' = st_leases s \<and> st_next s' = st_next s \<and> st_state s' = st_state s \<and>
    handles_used s' = handles_used s \<and> daemon_inv Q C s'"
proof -
  note I = assms(1) [unfolded daemon_inv_def]
  have rooms: "id_room (st_mr s) \<and> True \<and> True" using assms(2) by simp
  show ?thesis
    using daemon.open_failure [OF I rooms assms(4)]
      daemon.open_failure_handles(2) [OF I rooms assms(4,3)]
    by (simp add: daemon_inv_def handles_used_def)
qed

theorem Open_failure_atomic_witness:
  "\<exists>e s'. store_Open daemon_pools None 5 (req4\<lparr>rq_Size := 17\<rparr>) ready16 = (Inl e, s') \<and>
    handles_used s' = handles_used ready16"
proof -
  have "validateRequest (req4\<lparr>rq_Size := 17\<rparr>) 5 = None"
    using validate_req4 [of 5] by (simp add: validateRequest_def req4_def split: if_splits)
  then obtain e s' where o: "store_Open daemon_pools None 5 (req4\<lparr>rq_Size := 17\<rparr>) ready16 = (Inl e, s')"
    by (simp add: store_Open_def ready16_def daemon16_def ctx_or_background_def AllocMR_def Alloc_def
        slab16_def)
  show ?thesis
    using Open_failure_atomic [OF ready16_inv(1) _ _ o] counters_room(1) [OF ready16_inv(2)] o by simp
qed

lemma qp_exhausted:
  assumes "qp_inv Q p"
  shows "(\<exists>h p'. AcquireQueuePair None peer p = (Inr h, p')) \<longleftrightarrow> qp_used p \<noteq> Q"
proof -
  have "(\<exists>h p'. AcquireQueuePair None peer p = (Inr h, p')) \<longleftrightarrow> qp_available p \<noteq> []"
    by (simp add: AcquireQueuePair_def Let_def)
  moreover have "set (qp_available p) \<inter> qp_used p = {}" "set (qp_available p) \<union> qp_used p = Q"
    using assms by (simp_all add: qp_inv_def qp_used_def)
  ultimately show ?thesis by (cases "qp_available p") auto
qed

lemma cq_exhausted:
  assumes "cq_inv C p"
  shows "(\<exists>h p'. AcquireCompletionQueue None p = (Inr h, p')) \<longleftrightarrow> cq_used p \<noteq> C"
proof -
  have "(\<exists>h p'. AcquireCompletionQueue None p = (Inr h, p')) \<longleftrightarrow> cq_available p \<noteq> []"
    by (simp add: AcquireCompletionQueue_def Let_def)
  moreover have "set (cq_available p) \<inter> cq_used p = {}" "set (cq_available p) \<union> cq_used p = C"
    using assms by (simp_all add: cq_inv_def cq_used_def)
  ultimately show ?thesis by (cases "cq_available p") auto
qed

lemma AllocMR_available:
  assumes "mr_inv p" "0 < n"
  shows "(\<exists>w p'. AllocMR None n p = (Inr w, p')) \<longleftrightarrow> fst (Alloc n p) \<noteq> Inl NoMemory"
proof -
  have "\<not> sl_closed p" using assms(1) by (simp add: mr_inv_def)
  then show ?thesis
    using assms(2) by (auto simp: AllocMR_def Alloc_def Let_def slab_next_def split: option.splits prod.splits)
qed

text \<open>Availability: a ready store serves a valid request under a live context exactly when some
queue pair and some completion queue are not in use and the slab has that many contiguous bytes outside
all leases.  Resources the store has are never refused.\<close>

lemma Open_available:
  assumes "daemon_inv Q C s" and "st_state s = StateReady" and "validateRequest req now = None"
    and "ctx_live ctx 5"
  shows "(\<exists>l s'. store_Open daemon_pools ctx now req s = (Inr l, s')) \<longleftrightarrow>
    qp_used (st_qp s) \<noteq> Q \<and> cq_used (st_cq s) \<noteq> C \<and>
    (\<exists>off. 0 \<le> off \<and> off + rq_Size req \<le> sl_size (st_mr s) \<and>
      (\<forall>i r. held (st_mr s) i = Some r \<longrightarrow> {off ..< off + rq_Size req} \<inter> span_set r = {}))"
proof -
  have I: "mr_inv (st_mr s)" "qp_inv Q (st_qp s)" "cq_inv C (st_cq s)"
    using assms(1) by (simp_all add: daemon_inv_def store_inv_def)
  have n: "0 < rq_Size req" using assms(3) by (simp add: validateRequest_def split: if_splits)
  have c: "ctx_or_background ctx 0 = None" "ctx_or_background ctx (Suc 0) = None"
    "ctx_or_background ctx 2 = None"
    using assms(4) by (simp_all add: ctx_live_def)
  have "(\<exists>l s'. store_Open daemon_pools ctx now req s = (Inr l, s')) \<longleftrightarrow>
     (\<exists>w p. AllocMR None (rq_Size req) (st_mr s) = (Inr w, p)) \<and>
     (\<exists>h p. AcquireCompletionQueue None (st_cq s) = (Inr h, p)) \<and>
     (\<exists>h p. AcquireQueuePair None (rq_Peer req) (st_qp s) = (Inr h, p))"
    using assms(2,3) c
    by (auto simp: store_Open_def Let_def split: prod.splits sum.splits)
  then show ?thesis
    unfolding AllocMR_available [OF I(1) n] cq_exhausted [OF I(3)] qp_exhausted [OF I(2)]
    using Alloc_NoMemory_iff [of "st_mr s" "rq_Size req"] I(1) n by (auto simp: mr_inv_def)
qed

lemma Open_available_witness:
  "(\<exists>l s'. store_Open daemon_pools None 5 req4 ready16 = (Inr l, s')) \<and>
   (qp_used (st_qp ready16) \<noteq> {''q0'', ''q1''} \<and> cq_used (st_cq ready16) \<noteq> {''c0'', ''c1''} \<and>
    (\<exists>off. 0 \<le> off \<and> off + rq_Size req4 \<le> sl_size (st_mr ready16) \<and>
      (\<forall>i r. held (st_mr ready16) i = Some r \<longrightarrow> {off ..< off + rq_Size req4} \<inter> span_set r = {})))"
proof -
  have o: "\<exists>l s'. store_Open daemon_pools None 5 req4 ready16 = (Inr l, s')"
    using open16_Open by blast
  have r: "st_state ready16 = StateReady" by (simp add: ready16_def)
  have v: "validateRequest req4 5 = None" using validate_req4 by simp
  show ?thesis
    using conjI [OF o iffD1 [OF Open_available [OF ready16_inv(1) r v ctx_live_None] o]] .
qed

text \<open>Closing a session removes exactly it.  Under a live context the call reports success and the
pools take back exactly that session's window, queue pair and completion queue.\<close>

lemma Close_exact:
  assumes "daemon_inv Q C s" and "store_Lookup i s = Some l"
    and "store_Close daemon_pools ctx i s = (e, s')"
  shows "(\<forall>j. store_Lookup j s' = (if j = i then None else store_Lookup j s)) \<and>
    (e = None \<longleftrightarrow> ctx_live ctx 3) \<and>
    (ctx_live ctx 3 \<longrightarrow> handles_used s' = handles_used s - lease_handles l) \<and> daemon_inv Q C s'"
proof -
  note I = assms(1) [unfolded daemon_inv_def]
  have L: "map_of (st_leases s) i = Some l" using assms(2) by (simp add: store_Lookup_def)
  show ?thesis
    using daemon.close_spec(1,2) [OF I L assms(3)] daemon.close_handles [OF I L assms(3)]
    by (simp add: store_Lookup_def map_of_delete handles_used_def daemon_inv_def)
qed

lemma Close_exact_witness:
  "\<exists>s'. store_Close daemon_pools None 1 open16 = (None, s') \<and> store_Lookup 1 s' = None \<and>
    handles_used s' = handles_used open16 - lease_handles lease4"
proof -
  obtain e s' where c: "store_Close daemon_pools None 1 open16 = (e, s')" by fastforce
  have l: "store_Lookup 1 open16 = Some lease4" by (simp add: store_Lookup_def open16_def)
  from Close_exact [OF open16_inv(1) l c] c show ?thesis by auto
qed

text \<open>The reaper removes exactly the sessions whose deadline has passed, reports how many, and
under a live context returns exactly their handles and no error.\<close>

lemma Reap_exact:
  assumes "daemon_inv Q C s" and "ReapExpired daemon_pools ctx now s = ((n, err), s')"
  shows "st_leases s' = filter (\<lambda>(i, l). now < se_ExpiresAt l) (st_leases s) \<and>
    n = length (st_leases s) - length (st_leases s') \<and> daemon_inv Q C s' \<and>
    ((\<forall>k. ctx_or_background ctx k = None) \<longrightarrow> err = None \<and>
      handles_used s' = handles_used s - (\<Union>(i, l) \<in> set (expired_in now (st_leases s)). lease_handles l))"
proof -
  note R = daemon.reap_spec [OF assms(1) [unfolded daemon_inv_def] assms(2)]
  have "length (expired_in now xs) = length xs - length (filter (\<lambda>(i, l). now < se_ExpiresAt l) xs)" for xs
    using sum_length_filter_compl [of "\<lambda>(i, l). now < se_ExpiresAt l" xs]
    by (simp add: expired_in_def case_prod_unfold)
  then show ?thesis
    using R by (simp add: daemon_inv_def handles_used_def)
qed

lemma Reap_exact_witness:
  "\<exists>s'. ReapExpired daemon_pools None 100 open16 = ((1, None), s') \<and> st_leases s' = []"
proof -
  obtain n err s' where r: "ReapExpired daemon_pools None 100 open16 = ((n, err), s')"
    by (metis surj_pair)
  have "se_ExpiresAt lease4 = 100" "st_leases open16 = [(1, lease4)]"
    by (simp_all add: lease4_def req4_def open16_def)
  with Reap_exact [OF open16_inv(1) r] r show ?thesis
    by (auto simp: ctx_or_background_def)
qed

lemma state_step: "st_state s \<le> st_state (store_step P op s)"
proof (cases op)
  case (OpOpen c now req)
  obtain r s' where o: "store_Open P c now req s = (r, s')" by fastforce
  then have "st_state s' = st_state s" by (cases rule: store_Open_cases) auto
  then show ?thesis using OpOpen o by simp
next
  case (OpReap c now)
  have R: "st_state (snd (releaseLocked P c' l t)) = st_state t" for c' l t
    by (simp add: releaseLocked_def split_beta)
  have "st_state (snd (snd (reap_loop P now rest c' (n, e, t)))) = st_state t" for rest c' n e t
  proof (induction rest arbitrary: c' n e t)
    case (Cons x rest)
    then show ?case using R by (cases x) (auto simp: split_beta)
  qed simp
  then show ?thesis using OpReap by (simp add: ReapExpired_def split_beta)
next
  case (OpCloseLease c i)
  then show ?thesis
    by (auto simp: store_Close_def releaseLocked_def split_beta split: option.splits)
next
  case (OpSetState w)
  then show ?thesis by (auto simp: SetState_def split: option.splits)
qed (auto simp: SetSlotStats_def Refresh_def Touch_def PulseControlPlane_def Let_def split_beta
    split: option.splits)

lemma state_run: "st_state s \<le> st_state (store_run P ops s)"
  by (induction ops arbitrary: s) (auto intro: order_trans state_step)

lemma state_le_Terminated: "a \<le> StateTerminated"
  by (cases a) (simp_all add: less_eq_state_def)

text \<open>Daemon states only move forward: along every history the state never decreases, and once
the store is terminated it accepts no session any more; \<open>SetState\<close> fails exactly for an invalid byte or
a lower state, and then changes nothing.\<close>

lemma state_forward:
  "st_state s \<le> st_state (store_run daemon_pools ops s) \<and>
   (st_state s = StateTerminated \<longrightarrow>
     (\<forall>ctx now req l s'. store_Open daemon_pools ctx now req (store_run daemon_pools ops s) \<noteq> (Inr l, s'))) \<and>
   (fst (SetState w s) = None \<longleftrightarrow> (\<exists>new. w = state_byte new \<and> st_state s \<le> new)) \<and>
   (fst (SetState w s) \<noteq> None \<longrightarrow> snd (SetState w s) = s)"
proof (intro conjI)
  show mono: "st_state s \<le> st_state (store_run daemon_pools ops s)" by (rule state_run)
  show "st_state s = StateTerminated \<longrightarrow>
     (\<forall>ctx now req l s'. store_Open daemon_pools ctx now req (store_run daemon_pools ops s) \<noteq> (Inr l, s'))"
  proof (intro impI allI notI)
    fix ctx now req l s'
    assume "st_state s = StateTerminated"
    then have "st_state (store_run daemon_pools ops s) = StateTerminated"
      using mono state_le_Terminated order_antisym by metis
    moreover assume o: "store_Open daemon_pools ctx now req (store_run daemon_pools ops s) = (Inr l, s')"
    from o have "st_state (store_run daemon_pools ops s) = StateReady"
      by (cases rule: store_Open_cases) auto
    ultimately show False by simp
  qed
  show "fst (SetState w s) = None \<longleftrightarrow> (\<exists>new. w = state_byte new \<and> st_state s \<le> new)"
  proof (cases "state_of_byte w")
    case None
    then show ?thesis by (auto simp: SetState_def)
  next
    case (Some new)
    then have w: "w = state_byte new" by (simp add: state_of_byte_eq)
    have "state_byte new = state_byte b \<longleftrightarrow> b = new" for b
      using state_of_byte_state_byte by (metis option.inject)
    then have "(\<exists>b. w = state_byte b \<and> st_state s \<le> b) \<longleftrightarrow> st_state s \<le> new" using w by simp
    moreover have "fst (SetState w s) = None \<longleftrightarrow> st_state s \<le> new"
    proof (cases "st_state s \<le> new")
      case True
      then have "st_state s = StateTerminated \<Longrightarrow> new = StateTerminated"
        using state_le_Terminated [of new] by simp
      with True Some show ?thesis by (simp add: SetState_def)
    next
      case False
      then show ?thesis using Some by (auto simp: SetState_def not_le)
    qed
    ultimately show ?thesis by simp
  qed
  show "fst (SetState w s) \<noteq> None \<longrightarrow> snd (SetState w s) = s"
    by (simp add: SetState_def split: option.splits)
qed

lemma state_forward_witness:
  "StateBootstrapping \<le> st_state (store_run daemon_pools [OpSetState 2, OpSetState 1] daemon16) \<and>
   fst (SetState 1 ready16) \<noteq> None \<and> snd (SetState 1 ready16) = ready16"
proof -
  have "\<not> StateReady \<le> new \<or> state_byte new \<noteq> 1" for new
    by (cases new) (simp_all add: less_eq_state_def word_le_nat_alt)
  then have "fst (SetState 1 ready16) \<noteq> None"
    using state_forward [of ready16 "[]" 1] by (auto simp: ready16_def)
  moreover from this have "snd (SetState 1 ready16) = ready16"
    using state_forward [of ready16 "[]" 1] by blast
  moreover have "st_state daemon16 \<le> st_state (store_run daemon_pools [OpSetState 2, OpSetState 1] daemon16)"
    using state_forward by blast
  moreover have "st_state daemon16 = StateBootstrapping" by (simp add: daemon16_def)
  ultimately show ?thesis by simp
qed

text \<open>C8.  What a cancelled context does: \<open>Close\<close> then still deletes the session but the pools refuse
the releases, so the call reports an error and the session's queue pair stays in use with no session
attached to it; and it stays so along every later history: the handle is lost.\<close>

theorem Close_cancelled_orphans:
  assumes "daemon_inv Q C s" and "counters_le k s" and "store_Lookup i s = Some l" and "c 0 = Some e"
    and "store_Close daemon_pools (Some c) i s = (r, s')" and "k + length ops + 1 < 2 ^ 64"
  shows "r \<noteq> None \<and> store_Lookup i s' = None \<and>
    Queue (se_QueuePair l) \<in> orphans (store_run daemon_pools ops s')"
proof -
  note I = assms(1) [unfolded daemon_inv_def]
  have L: "map_of (st_leases s) i = Some l" using assms(3) by (simp add: store_Lookup_def)
  have live: "\<not> ctx_live (Some c) 3"
    using assms(4) by (auto simp: ctx_live_def ctx_or_background_def intro!: exI [of _ 0])
  note S = daemon.close_spec [OF I L assms(5)] and H = daemon.close_handles [OF I L assms(5)]
  have "Queue (se_QueuePair l) \<in> handles_used s"
    using attached_mem [OF L] I
    by (auto simp: store_inv_attached handles_used_def lease_handles_def)
  then have q: "Queue (se_QueuePair l) \<in> handles_used s'"
    using S(3) assms(4) by (auto simp: handles_used_def in_use_def ctx_or_background_def)
  have "counters_le (Suc k) s'"
    using counters_step [OF assms(1,2), of "OpCloseLease (Some c) i"] assms(5) by simp
  then have "orphans s' \<subseteq> orphans (store_run daemon_pools ops s')"
    using daemon_run(2) [of Q C s' "Suc k" ops] S(1) assms(6) by (simp add: daemon_inv_def)
  moreover have "Queue (se_QueuePair l) \<in> orphans s'"
    using q H(5) by (simp add: orphans_def lease_handles_def)
  ultimately show ?thesis
    using H(3) live S(2) by (auto simp: store_Lookup_def map_of_delete)
qed

theorem Close_cancelled_orphans_witness:
  "\<exists>r s'. store_Close daemon_pools (Some (\<lambda>_. Some Canceled)) 1 open16 = (r, s') \<and> r \<noteq> None \<and>
    Queue ''q1'' \<in> orphans (store_run daemon_pools [OpReap None 1000, OpOpen None 5 req4] s')"
proof -
  let ?c = "\<lambda>_ :: nat. Some Canceled"
  obtain r s' where c: "store_Close daemon_pools (Some ?c) 1 open16 = (r, s')" by fastforce
  have l: "store_Lookup 1 open16 = Some lease4" by (simp add: store_Lookup_def open16_def)
  from Close_cancelled_orphans [OF open16_inv(1,2) l _ c, of Canceled "[OpReap None 1000, OpOpen None 5 req4]"]
  show ?thesis using c by (simp add: lease4_def)
qed

text \<open>The instant at which an operation reads the clock.\<close>

fun op_time :: "store_op \<Rightarrow> instant option" where
  "op_time (OpOpen c now req) = Some now"
| "op_time (OpRefresh i d now) = Some now"
| "op_time (OpTouch i now) = Some now"
| "op_time (OpPulse now) = Some now"
| "op_time (OpReap c now) = Some now"
| "op_time _ = None"

definition dead_at :: "LeaseID \<Rightarrow> instant \<Rightarrow> daemon_store \<Rightarrow> bool" where
  "dead_at i t s \<longleftrightarrow> i \<le> st_next s \<and> (\<forall>l. map_of (st_leases s) i = Some l \<longrightarrow> se_ExpiresAt l \<le> t)"

lemma dead_step:
  assumes "daemon_inv Q C s" "counters_le k s" "Suc k < 2 ^ 64" "dead_at i t s"
    "\<forall>u. op_time op = Some u \<longrightarrow> t \<le> u"
  shows "dead_at i t (store_step daemon_pools op s)"
proof -
  note I = assms(1) [unfolded daemon_inv_def] and R = counters_room [OF assms(2,3)]
  have wf: "store_wf s" using I by (simp add: store_inv_def)
  have rooms: "id_room (st_mr s) \<and> True \<and> True" using R by simp
  show ?thesis
  proof (cases op)
    case (OpOpen c now req)
    obtain r s' where o: "store_Open daemon_pools c now req s = (r, s')" by fastforce
    show ?thesis
    proof (cases r)
      case (Inl e)
      then show ?thesis
        using daemon.open_failure [OF I rooms o [unfolded Inl]] OpOpen o assms(4)
        by (simp add: dead_at_def)
    next
      case (Inr l)
      note O = daemon.open_success [OF I rooms R(2) o [unfolded Inr]]
      have "st_next s < st_next s + 1"
        using R(2) word_next(2) by (simp add: lease_room_def)
      then show ?thesis
        using O(2,13) OpOpen o assms(4)
        by (auto simp: dead_at_def map_add_Some_iff split: if_splits)
    qed
  next
    case (OpRefresh j d now)
    then show ?thesis
      using assms(4,5) by (auto simp: Refresh_def dead_at_def Let_def map_of_update split: option.splits)
  next
    case (OpTouch j now)
    then show ?thesis
      using assms(4,5) by (auto simp: Touch_def dead_at_def Let_def map_of_update split: option.splits)
  next
    case (OpPulse now)
    have "map_of (map (\<lambda>(i, l). (i, pulsed now l)) xs) i = map_option (pulsed now) (map_of xs i)" for xs
      by (induction xs) auto
    then show ?thesis
      using OpPulse assms(4) by (auto simp: PulseControlPlane_map [OF wf] dead_at_def)
  next
    case (OpCloseLease c j)
    obtain e s' where o: "store_Close daemon_pools c j s = (e, s')" by fastforce
    show ?thesis
    proof (cases "map_of (st_leases s) j")
      case None
      then show ?thesis using OpCloseLease assms(4) by (simp add: store_Close_def)
    next
      case (Some l)
      then show ?thesis
        using daemon.close_spec(2,7) [OF I Some o] OpCloseLease o assms(4)
        by (simp add: dead_at_def map_of_delete)
    qed
  next
    case (OpReap c now)
    obtain n e s' where o: "ReapExpired daemon_pools c now s = ((n, e), s')" by (metis surj_pair)
    have "map_ok (st_leases s)" using wf by (simp add: store_wf_def)
    moreover have "map_ok (filter P (st_leases s))" for P
      using calculation by (simp add: map_ok_def distinct_map_filter)
    ultimately show ?thesis
      using daemon.reap_spec(2,4) [OF I o] OpReap o assms(4)
      by (auto simp: dead_at_def mem_iff_map_of [symmetric])
  qed (use assms(4) in \<open>auto simp: SetState_def SetSlotStats_def dead_at_def split: option.splits\<close>)
qed

text \<open>Expiry is final.  Once the deadline of a session has passed, no later operation, at clock
readings that do not go backwards, brings it back: no refresh or touch of it succeeds, and \<open>LookupLive\<close>
never returns it again.\<close>

lemma expired_is_final:
  assumes "daemon_inv Q C s" and "counters_le k s" and "k + length ops < 2 ^ 64"
    and "store_Lookup i s = Some l" and "se_ExpiresAt l \<le> t"
    and "\<forall>op \<in> set ops. \<forall>u. op_time op = Some u \<longrightarrow> t \<le> u" and "t \<le> now"
  shows "(\<forall>x. LookupLive i now (store_run daemon_pools ops s) \<noteq> Inr x) \<and>
    (\<forall>x s'. Touch i now (store_run daemon_pools ops s) \<noteq> (Inr x, s')) \<and>
    (\<forall>d x s'. Refresh i d now (store_run daemon_pools ops s) \<noteq> (Inr x, s'))"
proof -
  have "(i, l) \<in> set (st_leases s)"
    using assms(4) by (auto simp: store_Lookup_def dest: map_of_SomeD)
  then have "i \<le> st_next s"
    using assms(1) by (auto simp: daemon_inv_def store_inv_def store_wf_def)
  then have "dead_at i t s" using assms(4,5) by (simp add: dead_at_def store_Lookup_def)
  then have "dead_at i t (store_run daemon_pools ops s)"
    using assms(1-3,6)
  proof (induction ops arbitrary: s k)
    case (Cons op ops)
    have k: "Suc k < 2 ^ 64" using Cons.prems(4) by simp
    from Cons.IH [OF dead_step [OF Cons.prems(2,3) k Cons.prems(1)] daemon_step(1) [OF Cons.prems(2,3) k]
        counters_step [OF Cons.prems(2,3)]] Cons.prems(4,5)
    show ?case by simp
  qed simp
  then have D: "\<And>x. map_of (st_leases (store_run daemon_pools ops s)) i = Some x \<Longrightarrow> \<not> now < se_ExpiresAt x"
    using assms(7) by (force simp: dead_at_def)
  show ?thesis
    using D by (auto simp: LookupLive_def Touch_def Refresh_def Let_def split: option.splits)
qed

lemma expired_is_final_witness:
  "\<forall>x. LookupLive 1 200 (store_run daemon_pools [OpRefresh 1 500 150, OpPulse 160] open16) \<noteq> Inr x"
proof -
  have l: "store_Lookup 1 open16 = Some lease4" "se_ExpiresAt lease4 \<le> 100"
    by (simp_all add: store_Lookup_def open16_def lease4_def req4_def)
  show ?thesis
    using expired_is_final [OF open16_inv(1,2) _ l, of "[OpRefresh 1 500 150, OpPulse 160]" 200] by simp
qed

end
