(* ===== verification/Ipc.thy ===== *)
theory Ipc
  imports Sessions
begin

text \<open>
  The daemon's control protocol, \<^verbatim>\<open>src/internal/ipc/protocol.go\<close> and
  \<^verbatim>\<open>server.go\<close>: requests, responses, range checks, the request loop of one connection and its
  clean-up, and the interleaving of several connections over one slab and one session store.

  The store leases its windows from the slab the server allocates from, as the daemon wires them: the
  pool state of the store is the server's slab.  The data transport is outside: a \<open>transport\<close> gives the
  results of its calls, \<open>env\<close> the server's context, the clock and the slab's descriptor at one request.
  Work submitted with \<^verbatim>\<open>submit_reduce\<close> or \<^verbatim>\<open>submit_gather\<close> stays in the connection's work map until it has
  finished and been waited for.  Reading, writing and encoding messages on the socket is left out.
\<close>

section \<open>Messages\<close>

record request =
  rq_op :: string
  rq_size :: int
  rq_lease_id :: u64
  rq_peer :: int
  rq_offset :: int
  rq_length :: int
  rq_client_id :: string
  rq_session_peer :: peer_spec
  rq_deadline :: instant
  rq_heartbeat_mr :: heartbeat_mr
  rq_heartbeat :: duration
  rq_session_id :: u64
  rq_work_id :: u64
  rq_reduction_op :: int
  rq_dtype :: int
  rq_element_size :: int
  rq_dst_offset :: int
  rq_dst_length :: int
  rq_dst_lease_id :: u64
  rq_src_offset :: int
  rq_src_length :: int
  rq_src_lease_id :: u64

datatype ipc_error =
    PeerNegative int
  | LeaseUnknown
  | LengthNegative u64 int
  | RangeOutside int int u64 int int
  | AsyncInvalid
  | AsyncOverflow
  | AsyncSourceZero
  | AsyncDestinationShort int int
  | AsyncSource ipc_error
  | AsyncDestination ipc_error
  | AsyncPartialOverlap
  | NoTransport
  | TransportError string
  | SlabError slab_error
  | ResourceError res_error
  | UnknownWork u64
  | UnknownOp string
  | DecodeError string
  | RequestFailed

record response =
  rp_OK :: bool
  rp_error :: "ipc_error option"
  rp_lease :: "lease option"
  rp_stats :: "slab_stats option"
  rp_slab_size :: int
  rp_session :: "session_lease option"
  rp_resource_stats :: "resource_stats option"
  rp_work_id :: u64
  rp_ready :: bool
  rp_work_error :: "string option"
  rp_fd :: "int option"

definition ok_response :: response where
  "ok_response = \<lparr> rp_OK = True, rp_error = None, rp_lease = None, rp_stats = None, rp_slab_size = 0, rp_session = None,
     rp_resource_stats = None, rp_work_id = 0, rp_ready = False, rp_work_error = None, rp_fd = None \<rparr>"

definition error_response :: "ipc_error \<Rightarrow> response" where
  "error_response e = ok_response\<lparr>rp_OK := False, rp_error := Some e\<rparr>"

definition response_err :: "response \<Rightarrow> ipc_error option" where
  "response_err r =
     (if rp_OK r then None
      else case rp_error r of None \<Rightarrow> Some RequestFailed | Some e \<Rightarrow> Some e)"

section \<open>Range checks\<close>

definition range_check :: "(u64 \<times> lease) list \<Rightarrow> int \<Rightarrow> u64 \<Rightarrow> int \<Rightarrow> int \<Rightarrow> ipc_error option" where
  "range_check leases peer lid off len =
     (if peer < 0 then Some (PeerNegative peer)
      else case map_of leases lid of None \<Rightarrow> Some LeaseUnknown
      | Some l \<Rightarrow>
          if len < 0 then Some (LengthNegative lid len)
          else
            let fin = add64 off len; leaseEnd = add64 (lease_Offset l) (lease_Length l) in
            if fin < off \<or> off < lease_Offset l \<or> fin > leaseEnd
            then Some (RangeOutside off fin lid (lease_Offset l) leaseEnd) else None)"

definition checkRange :: "request \<Rightarrow> (u64 \<times> lease) list \<Rightarrow> ipc_error option" where
  "checkRange req leases =
     range_check leases (rq_peer req) (rq_lease_id req) (rq_offset req) (rq_length req)"

definition sameRange :: "int \<Rightarrow> int \<Rightarrow> int \<Rightarrow> int \<Rightarrow> bool" where
  "sameRange aOff aLen bOff bLen \<longleftrightarrow> aOff = bOff \<and> aLen = bLen"

definition rangesOverlap :: "int \<Rightarrow> int \<Rightarrow> int \<Rightarrow> int \<Rightarrow> bool" where
  "rangesOverlap aOff aLen bOff bLen \<longleftrightarrow> aOff < add64 bOff bLen \<and> bOff < add64 aOff aLen"

definition checkAsyncRange :: "request \<Rightarrow> (u64 \<times> lease) list \<Rightarrow> ipc_error option" where
  "checkAsyncRange req leases =
     (if rq_dst_offset req < 0 \<or> rq_dst_length req < 0 \<or> rq_src_offset req < 0 \<or> rq_src_length req < 0
      then Some AsyncInvalid
      else if add64 (rq_dst_offset req) (rq_dst_length req) < rq_dst_offset req \<or>
              add64 (rq_src_offset req) (rq_src_length req) < rq_src_offset req
      then Some AsyncOverflow
      else if rq_src_length req = 0 then Some AsyncSourceZero
      else if rq_dst_length req < rq_src_length req
      then Some (AsyncDestinationShort (rq_dst_length req) (rq_src_length req))
      else case range_check leases 0 (rq_src_lease_id req) (rq_src_offset req) (rq_src_length req) of
        Some e \<Rightarrow> Some (AsyncSource e)
      | None \<Rightarrow>
          (case range_check leases 0 (rq_dst_lease_id req) (rq_dst_offset req) (rq_dst_length req) of
            Some e \<Rightarrow> Some (AsyncDestination e)
          | None \<Rightarrow>
              if rq_src_lease_id req = rq_dst_lease_id req \<and>
                 rangesOverlap (rq_src_offset req) (rq_src_length req) (rq_dst_offset req) (rq_dst_length req) \<and>
                 \<not> sameRange (rq_src_offset req) (rq_src_length req) (rq_dst_offset req) (rq_dst_length req)
              then Some AsyncPartialOverlap else None))"

section \<open>Server and connections\<close>

text \<open>
  A transport: what its calls return, as functions of the instant of the call and of its arguments;
  \<open>None\<close> for an optional interface it does not implement.
\<close>

record transport =
  tr_Barrier :: "instant \<Rightarrow> ipc_error option"
  tr_Send :: "instant \<Rightarrow> int \<Rightarrow> int \<Rightarrow> int \<Rightarrow> ipc_error option"
  tr_Recv :: "instant \<Rightarrow> int \<Rightarrow> int \<Rightarrow> int \<Rightarrow> ipc_error option"
  tr_Maintain :: "(instant \<Rightarrow> ipc_error option) option"
  tr_collective :: bool

definition disabledTransport :: transport where
  "disabledTransport =
     \<lparr> tr_Barrier = (\<lambda>_. Some NoTransport), tr_Send = (\<lambda>_ _ _ _. Some NoTransport),
       tr_Recv = (\<lambda>_ _ _ _. Some NoTransport), tr_Maintain = None, tr_collective = False \<rparr>"

record server =
  sv_slab :: slab
  sv_transport :: transport
  sv_resources :: "daemon_store option"

text \<open>A work item: its request and, once it has finished, its error or nil.\<close>

record work_item =
  wk_req :: request
  wk_done :: "string option option"

record conn =
  cn_leases :: "(u64 \<times> lease) list"
  cn_sessions :: "(LeaseID \<times> bool) list"
  cn_work :: "(u64 \<times> work_item) list"
  cn_nextWork :: u64

definition new_conn :: conn where
  "new_conn = \<lparr> cn_leases = [], cn_sessions = [], cn_work = [], cn_nextWork = 0 \<rparr>"

record env =
  en_ctx :: "ctx option"
  en_now :: instant
  en_fd :: int

definition NewServerWithResources ::
  "slab option \<Rightarrow> transport option \<Rightarrow> daemon_store option \<Rightarrow> server option" where
  "NewServerWithResources slab transport resources =
     (case slab of None \<Rightarrow> None
      | Some s \<Rightarrow>
          Some \<lparr> sv_slab = s,
                 sv_transport = (case transport of None \<Rightarrow> disabledTransport | Some t \<Rightarrow> t),
                 sv_resources = resources \<rparr>)"

definition NewServer :: "slab option \<Rightarrow> transport option \<Rightarrow> server option" where
  "NewServer slab transport = NewServerWithResources slab transport None"

text \<open>Run a store operation; the store's window pool is the server's slab.\<close>

definition with_store :: "(daemon_store \<Rightarrow> 'r \<times> daemon_store) \<Rightarrow> daemon_store \<Rightarrow> server \<Rightarrow> 'r \<times> server" where
  "with_store f st sv =
     (case f (st\<lparr>st_mr := sv_slab sv\<rparr>) of (r, st') \<Rightarrow>
        (r, sv\<lparr>sv_slab := st_mr st', sv_resources := Some st'\<rparr>))"

definition session_request_of :: "request \<Rightarrow> session_request" where
  "session_request_of req =
     \<lparr> rq_ClientID = rq_client_id req, rq_Peer = rq_session_peer req, rq_Size = rq_size req,
       rq_Deadline = rq_deadline req, rq_HeartbeatMR = rq_heartbeat_mr req, rq_Heartbeat = rq_heartbeat req \<rparr>"

section \<open>Handlers\<close>

type_synonym handler = "env \<Rightarrow> request \<Rightarrow> server \<times> conn \<Rightarrow> response \<times> server \<times> conn"

definition handle_alloc :: handler where
  "handle_alloc en req = (\<lambda>(sv, c).
     case Alloc (rq_size req) (sv_slab sv) of
       (Inl e, s') \<Rightarrow> (error_response (SlabError e), sv\<lparr>sv_slab := s'\<rparr>, c)
     | (Inr l, s') \<Rightarrow>
         (ok_response\<lparr>rp_lease := Some l\<rparr>, sv\<lparr>sv_slab := s'\<rparr>,
          c\<lparr>cn_leases := AList.update (lease_ID l) l (cn_leases c)\<rparr>))"

definition handle_free :: handler where
  "handle_free en req = (\<lambda>(sv, c).
     if map_of (cn_leases c) (rq_lease_id req) = None then (error_response LeaseUnknown, sv, c)
     else
       (case Free (rq_lease_id req) (sv_slab sv) of
         (Some e, s') \<Rightarrow> (error_response (SlabError e), sv\<lparr>sv_slab := s'\<rparr>, c)
       | (None, s') \<Rightarrow>
           (ok_response, sv\<lparr>sv_slab := s'\<rparr>,
            c\<lparr>cn_leases := AList.delete (rq_lease_id req) (cn_leases c)\<rparr>)))"

definition transport_reply :: "ipc_error option \<Rightarrow> response" where
  "transport_reply r = (case r of Some e \<Rightarrow> error_response e | None \<Rightarrow> ok_response)"

definition handle_send :: handler where
  "handle_send en req = (\<lambda>(sv, c).
     case checkRange req (cn_leases c) of Some e \<Rightarrow> (error_response e, sv, c)
     | None \<Rightarrow>
         (transport_reply (tr_Send (sv_transport sv) (en_now en) (rq_peer req) (rq_offset req) (rq_length req)),
          sv, c))"

definition handle_recv :: handler where
  "handle_recv en req = (\<lambda>(sv, c).
     case checkRange req (cn_leases c) of Some e \<Rightarrow> (error_response e, sv, c)
     | None \<Rightarrow>
         (transport_reply (tr_Recv (sv_transport sv) (en_now en) (rq_peer req) (rq_offset req) (rq_length req)),
          sv, c))"

definition handle_barrier :: handler where
  "handle_barrier en req = (\<lambda>(sv, c). (transport_reply (tr_Barrier (sv_transport sv) (en_now en)), sv, c))"

definition handle_maintain :: handler where
  "handle_maintain en req = (\<lambda>(sv, c).
     (case tr_Maintain (sv_transport sv) of None \<Rightarrow> error_response NoTransport
      | Some f \<Rightarrow> transport_reply (f (en_now en)), sv, c))"

definition handle_map :: handler where
  "handle_map en req = (\<lambda>(sv, c).
     case slab_FD (en_fd en) (sv_slab sv) of Inl e \<Rightarrow> (error_response (SlabError e), sv, c)
     | Inr fd \<Rightarrow>
         (ok_response\<lparr>rp_slab_size := slab_Size (Some (sv_slab sv)), rp_fd := Some fd\<rparr>, sv, c))"

definition handle_stats :: handler where
  "handle_stats en req = (\<lambda>(sv, c).
     (ok_response\<lparr>rp_stats := Some (slab_Stats (sv_slab sv))\<rparr>, sv, c))"

definition handle_session_open :: handler where
  "handle_session_open en req = (\<lambda>(sv, c).
     case sv_resources sv of None \<Rightarrow> (error_response (ResourceError ErrNotReady), sv, c)
     | Some st \<Rightarrow>
         (case with_store (store_Open daemon_pools (en_ctx en) (en_now en) (session_request_of req)) st sv of
           (Inl e, sv') \<Rightarrow> (error_response (ResourceError e), sv', c)
         | (Inr l, sv') \<Rightarrow>
             (ok_response\<lparr>rp_session := Some l\<rparr>, sv',
              c\<lparr>cn_sessions := AList.update (se_ID l) True (cn_sessions c)\<rparr>)))"

definition handle_session_refresh :: handler where
  "handle_session_refresh en req = (\<lambda>(sv, c).
     case sv_resources sv of None \<Rightarrow> (error_response (ResourceError ErrNotReady), sv, c)
     | Some st \<Rightarrow>
         if map_of (cn_sessions c) (rq_session_id req) \<noteq> Some True
         then (error_response (ResourceError ErrLeaseNotFound), sv, c)
         else
           (case with_store (Refresh (rq_session_id req) (rq_deadline req) (en_now en)) st sv of
             (Inl e, sv') \<Rightarrow> (error_response (ResourceError e), sv', c)
           | (Inr l, sv') \<Rightarrow> (ok_response\<lparr>rp_session := Some l\<rparr>, sv', c)))"

definition handle_session_lookup :: handler where
  "handle_session_lookup en req = (\<lambda>(sv, c).
     case sv_resources sv of None \<Rightarrow> (error_response (ResourceError ErrNotReady), sv, c)
     | Some st \<Rightarrow>
         if map_of (cn_sessions c) (rq_session_id req) \<noteq> Some True
         then (error_response (ResourceError ErrLeaseNotFound), sv, c)
         else
           (case LookupLive (rq_session_id req) (en_now en) st of
             Inl e \<Rightarrow> (error_response (ResourceError e), sv, c)
           | Inr l \<Rightarrow> (ok_response\<lparr>rp_session := Some l\<rparr>, sv, c)))"

definition handle_session_close :: handler where
  "handle_session_close en req = (\<lambda>(sv, c).
     case sv_resources sv of None \<Rightarrow> (error_response (ResourceError ErrNotReady), sv, c)
     | Some st \<Rightarrow>
         if map_of (cn_sessions c) (rq_session_id req) \<noteq> Some True
         then (error_response (ResourceError ErrLeaseNotFound), sv, c)
         else
           (case with_store (store_Close daemon_pools (en_ctx en) (rq_session_id req)) st sv of
             (Some e, sv') \<Rightarrow> (error_response (ResourceError e), sv', c)
           | (None, sv') \<Rightarrow>
               (ok_response, sv', c\<lparr>cn_sessions := AList.delete (rq_session_id req) (cn_sessions c)\<rparr>)))"

definition handle_session_stats :: handler where
  "handle_session_stats en req = (\<lambda>(sv, c).
     case sv_resources sv of None \<Rightarrow> (error_response (ResourceError ErrNotReady), sv, c)
     | Some st \<Rightarrow>
         (ok_response\<lparr>rp_resource_stats := Some (store_Stats daemon_pools (st\<lparr>st_mr := sv_slab sv\<rparr>))\<rparr>, sv, c))"

text \<open>\<^verbatim>\<open>submit_reduce\<close> and \<^verbatim>\<open>submit_gather\<close> differ only in the transport call they start.\<close>

definition handle_submit :: handler where
  "handle_submit en req = (\<lambda>(sv, c).
     if \<not> tr_collective (sv_transport sv) then (error_response NoTransport, sv, c)
     else case checkAsyncRange req (cn_leases c) of Some e \<Rightarrow> (error_response e, sv, c)
     | None \<Rightarrow>
         let i = cn_nextWork c + 1 in
         (ok_response\<lparr>rp_work_id := i\<rparr>, sv,
          c\<lparr>cn_nextWork := i, cn_work := AList.update i \<lparr> wk_req = req, wk_done = None \<rparr> (cn_work c)\<rparr>))"

definition handle_wait :: handler where
  "handle_wait en req = (\<lambda>(sv, c).
     case map_of (cn_work c) (rq_work_id req) of
       None \<Rightarrow> (error_response (UnknownWork (rq_work_id req)), sv, c)
     | Some w \<Rightarrow>
         (case wk_done w of
           None \<Rightarrow> (ok_response, sv, c)
         | Some r \<Rightarrow>
             (ok_response\<lparr>rp_ready := True, rp_work_error := r\<rparr>, sv,
              c\<lparr>cn_work := AList.delete (rq_work_id req) (cn_work c)\<rparr>)))"

definition serve_request :: handler where
  "serve_request en req =
     (let o' = rq_op req in
      if o' = ''alloc'' then handle_alloc en req
      else if o' = ''free'' then handle_free en req
      else if o' = ''send'' then handle_send en req
      else if o' = ''recv'' then handle_recv en req
      else if o' = ''barrier'' then handle_barrier en req
      else if o' = ''maintain'' then handle_maintain en req
      else if o' = ''map'' then handle_map en req
      else if o' = ''stats'' then handle_stats en req
      else if o' = ''session_open'' then handle_session_open en req
      else if o' = ''session_refresh'' then handle_session_refresh en req
      else if o' = ''session_lookup'' then handle_session_lookup en req
      else if o' = ''session_close'' then handle_session_close en req
      else if o' = ''session_stats'' then handle_session_stats en req
      else if o' = ''submit_reduce'' then handle_submit en req
      else if o' = ''submit_gather'' then handle_submit en req
      else if o' = ''wait_work'' then handle_wait en req
      else (\<lambda>(sv, c). (error_response (UnknownOp o'), sv, c)))"

text \<open>
  The deferred clean-up of \<^verbatim>\<open>serve\<close>, after its work has ended: free every lease of the
  connection, then close every session of it under a background context.
\<close>

definition free_leases :: "(u64 \<times> lease) list \<Rightarrow> slab \<Rightarrow> slab" where
  "free_leases ls s = foldl (\<lambda>s (i, l). snd (Free i s)) s ls"

definition close_sessions :: "(LeaseID \<times> bool) list \<Rightarrow> server \<Rightarrow> server" where
  "close_sessions ss sv = foldl (\<lambda>sv (i, b).
     case sv_resources sv of None \<Rightarrow> sv
     | Some st \<Rightarrow> snd (with_store (store_Close daemon_pools (Some Background) i) st sv)) sv ss"

definition serve_cleanup :: "server \<Rightarrow> conn \<Rightarrow> server" where
  "serve_cleanup sv c = close_sessions (cn_sessions c) (sv\<lparr>sv_slab := free_leases (cn_leases c) (sv_slab sv)\<rparr>)"

section \<open>Connections side by side\<close>

text \<open>
  What the request loop reads: a message it cannot decode, which it answers with an error, or a request.
  End of file ends the loop.
\<close>

datatype conn_input = ReadError string | ReadRequest request

definition serve_input :: "env \<Rightarrow> conn_input \<Rightarrow> server \<times> conn \<Rightarrow> response \<times> server \<times> conn" where
  "serve_input en inp =
     (case inp of
        ReadError e \<Rightarrow> (\<lambda>(sv, c). (error_response (DecodeError e), sv, c))
      | ReadRequest req \<Rightarrow> serve_request en req)"

fun serve_loop :: "(env \<times> conn_input) list \<Rightarrow> server \<times> conn \<Rightarrow> response list \<times> server \<times> conn" where
  "serve_loop [] x = ([], x)"
| "serve_loop ((en, inp) # rest) x =
     (case serve_input en inp x of (r, y) \<Rightarrow> (case serve_loop rest y of (rs, z) \<Rightarrow> (r # rs, z)))"

text \<open>One connection from its acceptance to the end of its clean-up.\<close>

definition serve :: "(env \<times> conn_input) list \<Rightarrow> server \<Rightarrow> response list \<times> server" where
  "serve ins sv = (case serve_loop ins (sv, new_conn) of (rs, sv', c) \<Rightarrow> (rs, serve_cleanup sv' c))"

text \<open>
  The daemon at large: one server and its connections.  The slab and the store each have a mutex, so one
  request of one connection is one step; a connection's clean-up is a step per lease and per session,
  taken in any order, since other connections run in between.  The daemon's own loops act on the store.
\<close>

record world =
  wd_server :: server
  wd_conns :: "(nat \<times> conn) list"
  wd_closing :: "nat list"

fun daemon_op :: "store_op \<Rightarrow> bool" where
  "daemon_op (OpOpen c now req) = False"
| "daemon_op (OpCloseLease c i) = False"
| "daemon_op _ = True"

definition work_over :: "conn \<Rightarrow> bool" where
  "work_over c \<longleftrightarrow> list_all (\<lambda>(i, w). wk_done w \<noteq> None) (cn_work c)"

inductive ipc_step :: "world \<Rightarrow> world \<Rightarrow> bool" where
  accept: "map_of (wd_conns w) n = None \<Longrightarrow>
    ipc_step w (w\<lparr>wd_conns := AList.update n new_conn (wd_conns w)\<rparr>)"
| input: "map_of (wd_conns w) n = Some c \<Longrightarrow> n \<notin> set (wd_closing w) \<Longrightarrow>
    serve_input en inp (wd_server w, c) = (r, sv', c') \<Longrightarrow>
    ipc_step w (w\<lparr>wd_server := sv', wd_conns := AList.update n c' (wd_conns w)\<rparr>)"
| work_end: "map_of (wd_conns w) n = Some c \<Longrightarrow> map_of (cn_work c) i = Some wk \<Longrightarrow>
    wk_done wk = None \<Longrightarrow>
    ipc_step w (w\<lparr>wd_conns := AList.update n
      (c\<lparr>cn_work := AList.update i (wk\<lparr>wk_done := Some e\<rparr>) (cn_work c)\<rparr>) (wd_conns w)\<rparr>)"
| eof: "map_of (wd_conns w) n = Some c \<Longrightarrow> n \<notin> set (wd_closing w) \<Longrightarrow>
    ipc_step w (w\<lparr>wd_closing := n # wd_closing w\<rparr>)"
| cleanup_free: "map_of (wd_conns w) n = Some c \<Longrightarrow> n \<in> set (wd_closing w) \<Longrightarrow> work_over c \<Longrightarrow>
    map_of (cn_leases c) i = Some l \<Longrightarrow>
    ipc_step w (w\<lparr>wd_server := (wd_server w)\<lparr>sv_slab := snd (Free i (sv_slab (wd_server w)))\<rparr>,
      wd_conns := AList.update n (c\<lparr>cn_leases := AList.delete i (cn_leases c)\<rparr>) (wd_conns w)\<rparr>)"
| cleanup_close: "map_of (wd_conns w) n = Some c \<Longrightarrow> n \<in> set (wd_closing w) \<Longrightarrow> work_over c \<Longrightarrow>
    cn_leases c = [] \<Longrightarrow> map_of (cn_sessions c) i = Some b \<Longrightarrow>
    sv_resources (wd_server w) = Some st \<Longrightarrow>
    with_store (store_Close daemon_pools (Some Background) i) st (wd_server w) = (r, sv') \<Longrightarrow>
    ipc_step w (w\<lparr>wd_server := sv',
      wd_conns := AList.update n (c\<lparr>cn_sessions := AList.delete i (cn_sessions c)\<rparr>) (wd_conns w)\<rparr>)"
| hangup: "map_of (wd_conns w) n = Some c \<Longrightarrow> n \<in> set (wd_closing w) \<Longrightarrow> work_over c \<Longrightarrow>
    cn_leases c = [] \<Longrightarrow> cn_sessions c = [] \<or> sv_resources (wd_server w) = None \<Longrightarrow>
    ipc_step w (w\<lparr>wd_conns := AList.delete n (wd_conns w), wd_closing := removeAll n (wd_closing w)\<rparr>)"
| daemon_loop: "sv_resources (wd_server w) = Some st \<Longrightarrow> daemon_op op \<Longrightarrow>
    with_store (\<lambda>s. ((), store_step daemon_pools op s)) st (wd_server w) = (r, sv') \<Longrightarrow>
    ipc_step w (w\<lparr>wd_server := sv'\<rparr>)"

text \<open>States reached from a new server in a number of steps.\<close>

inductive ipc_reach :: "server \<Rightarrow> nat \<Rightarrow> world \<Rightarrow> bool" for sv where
  start: "ipc_reach sv 0 \<lparr> wd_server = sv, wd_conns = [], wd_closing = [] \<rparr>"
| step: "ipc_reach sv k w \<Longrightarrow> ipc_step w w' \<Longrightarrow> ipc_reach sv (Suc k) w'"

end
