(* ===== verification/Connections.thy ===== *)
theory Connections
  imports Ipc
begin

text \<open>
  Isolation of the daemon's connections.  The invariant of \<open>ipc_step\<close>: every connection's leases are
  held in the shared slab, belong to no session and to no other connection; every session a connection
  may act on was opened by it.
\<close>

section \<open>The server as a store\<close>

definition full_store :: "server \<Rightarrow> daemon_store \<Rightarrow> daemon_store" where
  "full_store sv st = st\<lparr>st_mr := sv_slab sv\<rparr>"

definition store_windows :: "server \<Rightarrow> mr_window set" where
  "store_windows sv = (case sv_resources sv of None \<Rightarrow> {} | Some st \<Rightarrow> set (windows st))"

definition store_next :: "server \<Rightarrow> u64" where
  "store_next sv = (case sv_resources sv of None \<Rightarrow> 0 | Some st \<Rightarrow> st_next st)"

definition server_inv :: "string set \<Rightarrow> string set \<Rightarrow> server \<Rightarrow> bool" where
  "server_inv Q C sv \<longleftrightarrow> mr_inv (sv_slab sv) \<and>
     (case sv_resources sv of None \<Rightarrow> True | Some st \<Rightarrow> daemon_inv Q C (full_store sv st))"

definition server_counters :: "nat \<Rightarrow> server \<Rightarrow> bool" where
  "server_counters k sv \<longleftrightarrow> unat (sl_nextID (sv_slab sv)) \<le> k \<and> unat (store_next sv) \<le> k"

text \<open>A lease of the slab that no session owns.\<close>

definition outside :: "server \<Rightarrow> u64 \<Rightarrow> span \<Rightarrow> bool" where
  "outside sv i r \<longleftrightarrow> held (sv_slab sv) i = Some r \<and> window_of i r \<notin> store_windows sv"

text \<open>The server moves on; leases outside the store are kept, but for those in \<open>lost\<close>.\<close>

definition evolves :: "string set \<Rightarrow> string set \<Rightarrow> u64 set \<Rightarrow> server \<Rightarrow> server \<Rightarrow> bool" where
  "evolves Q C lost sv sv' \<longleftrightarrow> server_inv Q C sv' \<and> store_next sv \<le> store_next sv' \<and>
     (\<forall>i r. outside sv i r \<and> i \<notin> lost \<longrightarrow> outside sv' i r)"

lemma evolves_refl [simp]: "server_inv Q C sv \<Longrightarrow> evolves Q C lost sv sv"
  by (simp add: evolves_def)

lemma mr_used_window:
  "window_of i r \<in> mr_used p \<longleftrightarrow> held p i = Some r"
  by (auto simp: mr_used_def window_of_inj)

lemma orphan_window:
  "Window (window_of i r) \<in> orphans (full_store sv st) \<longleftrightarrow>
   held (sv_slab sv) i = Some r \<and> window_of i r \<notin> set (windows st)"
  by (auto simp: orphans_def handles_used_def in_use_def attached_lists full_store_def mr_used_window
      windows_def)

lemma with_store_cases:
  assumes "with_store f st sv = (r, sv')" "snd (f (full_store sv st)) = st'"
  shows "r = fst (f (full_store sv st))" "sv_slab sv' = st_mr st'" "sv_resources sv' = Some st'"
    "full_store sv' st' = st'"
  using assms by (auto simp: with_store_def full_store_def split: prod.splits)

lemma store_step_next:
  assumes "lease_room s"
  shows "st_next s \<le> st_next (store_step P op s)"
proof (cases op)
  case (OpOpen c now req)
  obtain r s' where o: "store_Open P c now req s = (r, s')" by fastforce
  then have "st_next s' = st_next s \<or> st_next s' = st_next s + 1"
    by (cases rule: store_Open_cases) auto
  moreover have "st_next s \<le> st_next s + 1"
    using assms word_next [of "st_next s"] by (auto simp: lease_room_def word_le_nat_alt unat_word_ariths)
  ultimately show ?thesis using OpOpen o by auto
next
  case (OpCloseLease c i)
  then show ?thesis
    by (auto simp: store_Close_def releaseLocked_def Let_def split_beta split: option.splits)
next
  case (OpReap c now)
  have "st_next (snd (snd (reap_loop P now rest c' (n, e, t)))) = st_next t" for rest c' n e t
    by (induction rest arbitrary: c' n e t) (auto simp: split_beta releaseLocked_def)
  then show ?thesis using OpReap by (simp add: ReapExpired_def split_beta)
qed (auto simp: SetState_def SetSlotStats_def Refresh_def Touch_def PulseControlPlane_def Let_def
    split_beta split: option.splits)

lemma store_evolves:
  assumes inv: "server_inv Q C sv" and k: "server_counters k sv" "Suc k < 2 ^ 64"
    and st: "sv_resources sv = Some st" and w: "with_store f st sv = (r, sv')"
    and f: "snd (f (full_store sv st)) = store_step daemon_pools op (full_store sv st)"
  shows "evolves Q C lost sv sv'" "server_counters (Suc k) sv'"
proof -
  let ?S = "full_store sv st"
  let ?S' = "store_step daemon_pools op ?S"
  have D: "daemon_inv Q C ?S" "counters_le k ?S"
    using inv st k by (auto simp: server_inv_def server_counters_def counters_le_def full_store_def
        store_next_def)
  note W = with_store_cases [OF w f]
  note S = daemon_step(1,2) [OF D k(2), of op]
  have "lease_room ?S" using counters_room(2) [OF D(2) k(2)] .
  then have "st_next ?S \<le> st_next ?S'" by (rule store_step_next)
  then have "store_next sv \<le> store_next sv'"
    using W(3) st by (simp add: store_next_def full_store_def)
  moreover have "mr_inv (sv_slab sv')"
    using S(1) W(2) by (simp add: daemon_inv_def store_inv_def)
  moreover have "outside sv' i r" if "outside sv i r" for i r
  proof -
    have "Window (window_of i r) \<in> orphans ?S"
      using that st by (simp add: orphan_window outside_def store_windows_def)
    then have "Window (window_of i r) \<in> orphans (full_store sv' ?S')"
      using S(2) W(4) by auto
    then show ?thesis
      unfolding orphan_window using W(3) by (simp add: outside_def store_windows_def)
  qed
  ultimately show "evolves Q C lost sv sv'"
    using S(1) W(3,4) by (simp add: evolves_def server_inv_def)
  show "server_counters (Suc k) sv'"
    using counters_step [OF D, of op] W(2,3) by (simp add: server_counters_def counters_le_def store_next_def)
qed

text \<open>The raw leases of the slab, beside the store.\<close>

lemma full_store_slab:
  "daemon_inv Q C (full_store (sv\<lparr>sv_slab := p\<rparr>) st) \<longleftrightarrow>
   mr_inv p \<and> set (windows st) \<subseteq> mr_used p \<and> store_wf st \<and> qp_inv Q (st_qp st) \<and> cq_inv C (st_cq st) \<and>
   set (queue_pairs st) \<subseteq> qp_used (st_qp st) \<and> set (completion_queues st) \<subseteq> cq_used (st_cq st)"
  by (auto simp: daemon_inv_def store_inv_def store_wf_def full_store_def resource_lists)

lemma server_inv_slab:
  assumes "server_inv Q C sv" "mr_inv p" "store_windows sv \<subseteq> mr_used p"
  shows "server_inv Q C (sv\<lparr>sv_slab := p\<rparr>)"
proof (cases "sv_resources sv")
  case None
  then show ?thesis using assms(2) by (simp add: server_inv_def)
next
  case (Some st)
  have "daemon_inv Q C (full_store (sv\<lparr>sv_slab := sv_slab sv\<rparr>) st)"
    using assms(1) Some by (simp add: server_inv_def)
  with assms(2,3) Some show ?thesis
    unfolding full_store_slab by (simp add: server_inv_def full_store_slab store_windows_def)
qed

lemma store_windows_used: "server_inv Q C sv \<Longrightarrow> store_windows sv \<subseteq> mr_used (sv_slab sv)"
  by (auto simp: server_inv_def store_windows_def daemon_inv_def store_inv_def full_store_def windows_def
      split: option.splits)

lemma alloc_evolves:
  assumes inv: "server_inv Q C sv" and k: "server_counters k sv" "Suc k < 2 ^ 64"
    and a: "Alloc n (sv_slab sv) = (Inr l, p)"
  shows "evolves Q C lost sv (sv\<lparr>sv_slab := p\<rparr>)" "server_counters (Suc k) (sv\<lparr>sv_slab := p\<rparr>)"
    "held (sv_slab sv) (lease_ID l) = None" "outside (sv\<lparr>sv_slab := p\<rparr>) (lease_ID l) (lease_span l)"
proof -
  have I: "slab_inv (sv_slab sv)" "id_room (sv_slab sv)"
    using inv k by (auto simp: server_inv_def mr_inv_def server_counters_def id_room_def)
  note H = Alloc_held [OF I a]
  have "mr_inv p" using Alloc_inv [OF I a] H(5) by (simp add: mr_inv_def)
  moreover have W: "mr_used (sv_slab sv) \<subseteq> mr_used p"
  proof
    fix w assume "w \<in> mr_used (sv_slab sv)"
    then obtain i r where "held (sv_slab sv) i = Some r" "w = window_of i r" by (auto simp: mr_used_def)
    then show "w \<in> mr_used p" using H(1,2) by (auto simp: mr_used_window)
  qed
  ultimately have "server_inv Q C (sv\<lparr>sv_slab := p\<rparr>)"
    using server_inv_slab [OF inv] store_windows_used [OF inv] by blast
  moreover have keep: "outside (sv\<lparr>sv_slab := p\<rparr>) i r" if "outside sv i r" for i r
    using that H(1,2) by (auto simp: outside_def store_windows_def)
  ultimately show "evolves Q C lost sv (sv\<lparr>sv_slab := p\<rparr>)"
    by (simp add: evolves_def store_next_def)
  show "held (sv_slab sv) (lease_ID l) = None" by (rule H(1))
  have "window_of (lease_ID l) (lease_span l) \<notin> store_windows sv"
    using H(1) store_windows_used [OF inv] mr_used_window [of "lease_ID l" "lease_span l" "sv_slab sv"] by auto
  then show "outside (sv\<lparr>sv_slab := p\<rparr>) (lease_ID l) (lease_span l)"
    using H(2) by (simp add: outside_def store_windows_def)
  show "server_counters (Suc k) (sv\<lparr>sv_slab := p\<rparr>)"
    using Alloc_nextID [of n "sv_slab sv"] a k(1) unat_succ_le [of "sl_nextID (sv_slab sv)"]
    by (auto simp: server_counters_def store_next_def)
qed

lemma free_evolves:
  assumes inv: "server_inv Q C sv" and o: "outside sv i r"
  shows "evolves Q C {i} sv (sv\<lparr>sv_slab := snd (Free i (sv_slab sv))\<rparr>)" "fst (Free i (sv_slab sv)) = None"
    "held (snd (Free i (sv_slab sv))) = (held (sv_slab sv))(i := None)"
proof -
  have I: "slab_inv (sv_slab sv)" "\<not> sl_closed (sv_slab sv)" "held (sv_slab sv) i = Some r"
    using inv o by (auto simp: server_inv_def mr_inv_def outside_def)
  let ?p = "snd (Free i (sv_slab sv))"
  note H = held_Free [OF I(2,3)]
  have "mr_inv ?p" using Free_inv [OF I(1)] H(3) by (simp add: mr_inv_def)
  moreover have "store_windows sv \<subseteq> mr_used ?p"
  proof
    fix w assume w: "w \<in> store_windows sv"
    then obtain j q where j: "held (sv_slab sv) j = Some q" "w = window_of j q"
      using store_windows_used [OF inv] by (auto simp: mr_used_def)
    then have "j \<noteq> i" using o w I(3) by (auto simp: outside_def)
    with j H(1) show "w \<in> mr_used ?p" by (simp add: mr_used_window)
  qed
  ultimately have "server_inv Q C (sv\<lparr>sv_slab := ?p\<rparr>)"
    using server_inv_slab [OF inv] by blast
  then show "evolves Q C {i} sv (sv\<lparr>sv_slab := ?p\<rparr>)"
    using H(1) by (auto simp: evolves_def outside_def store_next_def store_windows_def)
  show "fst (Free i (sv_slab sv)) = None" "held ?p = (held (sv_slab sv))(i := None)"
    by (rule H)+
qed

section \<open>Connections\<close>

definition conn_ok :: "server \<Rightarrow> conn \<Rightarrow> bool" where
  "conn_ok sv c \<longleftrightarrow> map_ok (cn_leases c) \<and>
     (\<forall>(i, l) \<in> set (cn_leases c). lease_ID l = i \<and> outside sv i (lease_span l)) \<and>
     (\<forall>(i, b) \<in> set (cn_sessions c). 0 < i \<and> i \<le> store_next sv)"

definition lease_ids :: "conn \<Rightarrow> u64 set" where
  "lease_ids c = fst ` set (cn_leases c)"

definition session_ids :: "conn \<Rightarrow> u64 set" where
  "session_ids c = fst ` set (cn_sessions c)"

text \<open>
  One connection's move: it may give up leases of its own and take over identifiers nobody had.
\<close>

definition conn_move ::
  "string set \<Rightarrow> string set \<Rightarrow> server \<Rightarrow> conn \<Rightarrow> server \<Rightarrow> conn \<Rightarrow> bool" where
  "conn_move Q C sv c sv' c' \<longleftrightarrow>
     evolves Q C (lease_ids c - lease_ids c') sv sv' \<and> conn_ok sv' c' \<and>
     (\<forall>i \<in> lease_ids c' - lease_ids c. held (sv_slab sv) i = None) \<and>
     (\<forall>i \<in> session_ids c' - session_ids c. store_next sv < i)"

lemma conn_ok_evolves:
  assumes "conn_ok sv c" "evolves Q C lost sv sv'" "lease_ids c \<inter> lost = {}"
  shows "conn_ok sv' c"
  using assms by (fastforce simp: conn_ok_def evolves_def lease_ids_def)

lemma conn_move_refl: "server_inv Q C sv \<Longrightarrow> conn_ok sv c \<Longrightarrow> conn_move Q C sv c sv c"
  by (simp add: conn_move_def)

lemma conn_move_same:
  assumes "conn_move Q C sv c sv' c'" "cn_leases d = cn_leases c'" "cn_sessions d = cn_sessions c'"
  shows "conn_move Q C sv c sv' d"
  using assms by (simp add: conn_move_def conn_ok_def lease_ids_def session_ids_def)

lemma conn_ok_lease:
  "conn_ok sv c \<Longrightarrow> map_of (cn_leases c) i = Some l \<Longrightarrow> lease_ID l = i \<and> outside sv i (lease_span l)"
  by (auto simp: conn_ok_def dest!: map_of_SomeD)

lemma alloc_move:
  assumes "server_inv Q C sv" "conn_ok sv c" "server_counters k sv" "Suc k < 2 ^ 64"
    "Alloc n (sv_slab sv) = (Inr l, p)"
  shows "conn_move Q C sv c (sv\<lparr>sv_slab := p\<rparr>)
    (c\<lparr>cn_leases := AList.update (lease_ID l) l (cn_leases c)\<rparr>)"
proof -
  note A = alloc_evolves [OF assms(1,3,4,5)]
  have f: "lease_ID l \<notin> lease_ids c"
    using A(3) assms(2) by (auto simp: conn_ok_def lease_ids_def outside_def)
  have k: "conn_ok (sv\<lparr>sv_slab := p\<rparr>) c"
    using conn_ok_evolves [OF assms(2) A(1) [of "{}"]] by simp
  have "conn_ok (sv\<lparr>sv_slab := p\<rparr>) (c\<lparr>cn_leases := AList.update (lease_ID l) l (cn_leases c)\<rparr>)"
    using k A(4) f by (auto simp: conn_ok_def update_fresh lease_ids_def map_ok_def)
  then show ?thesis
    using A(1,3) f by (auto simp: conn_move_def lease_ids_def session_ids_def update_fresh)
qed

lemma free_move:
  assumes "server_inv Q C sv" "conn_ok sv c" "map_of (cn_leases c) i = Some l"
  shows "conn_move Q C sv c (sv\<lparr>sv_slab := snd (Free i (sv_slab sv))\<rparr>)
    (c\<lparr>cn_leases := AList.delete i (cn_leases c)\<rparr>)" "fst (Free i (sv_slab sv)) = None"
proof -
  have o: "outside sv i (lease_span l)" using conn_ok_lease [OF assms(2,3)] by simp
  note F = free_evolves [OF assms(1) o]
  let ?c = "c\<lparr>cn_leases := AList.delete i (cn_leases c)\<rparr>"
  have i: "i \<in> lease_ids c" using assms(3) by (auto simp: lease_ids_def dest: map_of_keyD)
  have d: "lease_ids ?c = lease_ids c - {i}" "map_ok (cn_leases ?c)"
    using assms(2) by (auto simp: lease_ids_def conn_ok_def set_delete_iff)
  have "conn_ok sv ?c"
    using assms(2) d(2) by (auto simp: conn_ok_def set_delete_iff)
  then have "conn_ok (sv\<lparr>sv_slab := snd (Free i (sv_slab sv))\<rparr>) ?c"
    using conn_ok_evolves [OF _ F(1), of ?c] d(1) by simp
  moreover have "lease_ids c - lease_ids ?c = {i}" using d(1) i by auto
  ultimately show "conn_move Q C sv c (sv\<lparr>sv_slab := snd (Free i (sv_slab sv))\<rparr>) ?c"
    using F(1) d(1) by (auto simp: conn_move_def session_ids_def)
  show "fst (Free i (sv_slab sv)) = None" by (rule F(2))
qed

lemma store_move:
  assumes "server_inv Q C sv" "conn_ok sv c" "server_counters k sv" "Suc k < 2 ^ 64"
    "sv_resources sv = Some st" "with_store f st sv = (r, sv')"
    "snd (f (full_store sv st)) = store_step daemon_pools op (full_store sv st)"
  shows "conn_move Q C sv c sv' c" "server_counters (Suc k) sv'"
  using store_evolves [OF assms(1,3-7)] conn_ok_evolves [OF assms(2), of Q C "{}" sv']
  by (simp_all add: conn_move_def)

lemma conn_move_drop_session:
  assumes "conn_move Q C sv c sv' c"
  shows "conn_move Q C sv c sv' (c\<lparr>cn_sessions := AList.delete i (cn_sessions c)\<rparr>)"
  using assms by (auto simp: conn_move_def conn_ok_def lease_ids_def session_ids_def set_delete_iff)

lemma open_move:
  assumes inv: "server_inv Q C sv" "conn_ok sv c" "server_counters k sv" "Suc k < 2 ^ 64"
    and st: "sv_resources sv = Some st"
    and w: "with_store (store_Open daemon_pools ctx now req) st sv = (Inr l, sv')"
  shows "conn_move Q C sv c sv' (c\<lparr>cn_sessions := AList.update (se_ID l) True (cn_sessions c)\<rparr>)"
proof -
  let ?S = "full_store sv st"
  have D: "daemon_inv Q C ?S" "counters_le k ?S"
    using inv st by (auto simp: server_inv_def server_counters_def counters_le_def full_store_def
        store_next_def)
  obtain S' where o: "store_Open daemon_pools ctx now req ?S = (Inr l, S')"
    using w by (auto simp: with_store_def full_store_def split: prod.splits)
  have O: "st_leases S' = st_leases ?S @ [(st_next ?S + 1, l)]" "daemon_inv Q C S'"
    using daemon.open_success(1,2) [OF _ _ _ o] D(1) counters_room [OF D(2) inv(4)]
    by (auto simp: daemon_inv_def)
  then have "se_ID l = st_next ?S + 1 \<and> 0 < se_ID l \<and> se_ID l \<le> st_next S'"
    by (auto simp: daemon_inv_def store_inv_def store_wf_def)
  moreover have "st_next ?S < st_next ?S + 1"
    using counters_room(2) [OF D(2) inv(4)] by (simp add: lease_room_def word_less_nat_alt unat_word_ariths)
  moreover have "store_next sv' = st_next S'" "store_next sv = st_next ?S"
    using with_store_cases(3) [OF w] o st by (simp_all add: store_next_def full_store_def)
  ultimately have l: "store_next sv < se_ID l" "0 < se_ID l" "se_ID l \<le> store_next sv'" by auto
  have "conn_move Q C sv c sv' c"
    using store_move(1) [OF inv st w, of "OpOpen ctx now req"] by simp
  moreover have "se_ID l \<notin> fst ` set (cn_sessions c)"
    using inv(2) l(1) by (auto simp: conn_ok_def)
  ultimately show ?thesis
    using l by (auto simp: conn_move_def conn_ok_def lease_ids_def session_ids_def update_fresh)
qed

section \<open>Every request is a move\<close>

lemma server_counters_mono: "server_counters k sv \<Longrightarrow> server_counters (Suc k) sv"
  by (simp add: server_counters_def)

lemmas handler_defs =
  handle_send_def handle_recv_def handle_barrier_def handle_maintain_def handle_map_def handle_stats_def
  handle_session_lookup_def handle_session_stats_def handle_submit_def handle_wait_def

lemma idle_handlers:
  assumes "server_inv Q C sv" "conn_ok sv c"
    "h \<in> {handle_send, handle_recv, handle_barrier, handle_maintain, handle_map, handle_stats,
       handle_session_lookup, handle_session_stats, handle_submit, handle_wait}"
    "h en req (sv, c) = (r, sv', c')"
  shows "sv' = sv \<and> cn_leases c' = cn_leases c \<and> cn_sessions c' = cn_sessions c"
  using assms(3,4)
  by (auto simp: handler_defs Let_def split: option.splits sum.splits if_splits)

lemma idle_move:
  assumes "server_inv Q C sv" "conn_ok sv c" "server_counters k sv"
    "sv' = sv \<and> cn_leases c' = cn_leases c \<and> cn_sessions c' = cn_sessions c"
  shows "conn_move Q C sv c sv' c' \<and> server_counters (Suc k) sv'"
  using assms conn_move_same [OF conn_move_refl [OF assms(1,2)]] server_counters_mono by auto

lemma handle_alloc_move:
  assumes "server_inv Q C sv" "conn_ok sv c" "server_counters k sv" "Suc k < 2 ^ 64"
    "handle_alloc en req (sv, c) = (r, sv', c')"
  shows "conn_move Q C sv c sv' c' \<and> server_counters (Suc k) sv'"
proof (cases "Alloc (rq_size req) (sv_slab sv)")
  case (Pair a p)
  show ?thesis
  proof (cases a)
    case (Inl e)
    then have "p = sv_slab sv" using Pair Alloc_error by blast
    then show ?thesis
      using assms Pair Inl by (intro idle_move) (auto simp: handle_alloc_def)
  next
    case (Inr l)
    then show ?thesis
      using assms(5) Pair alloc_move [OF assms(1-4), of "rq_size req" l p]
        alloc_evolves(2) [OF assms(1,3,4), of "rq_size req" l p] by (auto simp: handle_alloc_def)
  qed
qed

lemma handle_free_move:
  assumes "server_inv Q C sv" "conn_ok sv c" "server_counters k sv"
    "handle_free en req (sv, c) = (r, sv', c')"
  shows "conn_move Q C sv c sv' c' \<and> server_counters (Suc k) sv'"
proof (cases "map_of (cn_leases c) (rq_lease_id req)")
  case None
  then show ?thesis
    using assms by (intro idle_move) (auto simp: handle_free_def)
next
  case (Some l)
  note F = free_move [OF assms(1,2) Some]
  have "sv' = sv\<lparr>sv_slab := snd (Free (rq_lease_id req) (sv_slab sv))\<rparr>"
    "c' = c\<lparr>cn_leases := AList.delete (rq_lease_id req) (cn_leases c)\<rparr>"
    using assms(4) Some F(2) by (auto simp: handle_free_def split: prod.splits option.splits)
  then show ?thesis
    using F(1) assms(3) by (simp add: server_counters_def store_next_def)
qed

lemma handle_session_open_move:
  assumes "server_inv Q C sv" "conn_ok sv c" "server_counters k sv" "Suc k < 2 ^ 64"
    "handle_session_open en req (sv, c) = (r, sv', c')"
  shows "conn_move Q C sv c sv' c' \<and> server_counters (Suc k) sv'"
proof (cases "sv_resources sv")
  case None
  then show ?thesis using assms by (intro idle_move) (auto simp: handle_session_open_def)
next
  case (Some st)
  let ?op = "OpOpen (en_ctx en) (en_now en) (session_request_of req)"
  obtain a sv1 where w:
    "with_store (store_Open daemon_pools (en_ctx en) (en_now en) (session_request_of req)) st sv = (a, sv1)"
    by fastforce
  note S = store_move [OF assms(1-4) Some w, of ?op]
  show ?thesis
  proof (cases a)
    case (Inl e)
    then show ?thesis using S assms(5) Some w by (auto simp: handle_session_open_def)
  next
    case (Inr l)
    note w' = w [unfolded Inr]
    show ?thesis
      using S(2) open_move [OF assms(1-4) Some w'] assms(5) Some w' by (auto simp: handle_session_open_def)
  qed
qed

lemma handle_session_refresh_move:
  assumes "server_inv Q C sv" "conn_ok sv c" "server_counters k sv" "Suc k < 2 ^ 64"
    "handle_session_refresh en req (sv, c) = (r, sv', c')"
  shows "conn_move Q C sv c sv' c' \<and> server_counters (Suc k) sv'"
proof (cases "sv_resources sv")
  case None
  then show ?thesis using assms by (intro idle_move) (auto simp: handle_session_refresh_def)
next
  case (Some st)
  let ?op = "OpRefresh (rq_session_id req) (rq_deadline req) (en_now en)"
  obtain a sv1 where w:
    "with_store (Refresh (rq_session_id req) (rq_deadline req) (en_now en)) st sv = (a, sv1)" by fastforce
  note S = store_move [OF assms(1-4) Some w, of ?op]
  show ?thesis
  proof (cases "map_of (cn_sessions c) (rq_session_id req) = Some True")
    case True
    then have "sv' = sv1" "c' = c"
      using assms(5) Some w by (cases a; simp add: handle_session_refresh_def)+
    then show ?thesis using S by simp
  next
    case False
    then show ?thesis using assms Some by (intro idle_move) (auto simp: handle_session_refresh_def)
  qed
qed

lemma handle_session_close_move:
  assumes "server_inv Q C sv" "conn_ok sv c" "server_counters k sv" "Suc k < 2 ^ 64"
    "handle_session_close en req (sv, c) = (r, sv', c')"
  shows "conn_move Q C sv c sv' c' \<and> server_counters (Suc k) sv'"
proof (cases "sv_resources sv")
  case None
  then show ?thesis using assms by (intro idle_move) (auto simp: handle_session_close_def)
next
  case (Some st)
  let ?op = "OpCloseLease (en_ctx en) (rq_session_id req)"
  obtain a sv1 where w:
    "with_store (store_Close daemon_pools (en_ctx en) (rq_session_id req)) st sv = (a, sv1)" by fastforce
  note S = store_move [OF assms(1-4) Some w, of ?op]
  show ?thesis
  proof (cases "map_of (cn_sessions c) (rq_session_id req) = Some True")
    case True
    then have "sv' = sv1" "c' = c \<or> c' = c\<lparr>cn_sessions := AList.delete (rq_session_id req) (cn_sessions c)\<rparr>"
      using assms(5) Some w by (cases a; auto simp: handle_session_close_def)+
    then show ?thesis using S conn_move_drop_session [of Q C sv c sv1] by auto
  next
    case False
    then show ?thesis using assms Some by (intro idle_move) (auto simp: handle_session_close_def)
  qed
qed

lemma serve_input_move:
  assumes "server_inv Q C sv" "conn_ok sv c" "server_counters k sv" "Suc k < 2 ^ 64"
    "serve_input en inp (sv, c) = (r, sv', c')"
  shows "conn_move Q C sv c sv' c' \<and> server_counters (Suc k) sv'"
proof (cases inp)
  case (ReadError e)
  then show ?thesis using assms by (intro idle_move) (auto simp: serve_input_def)
next
  case (ReadRequest req)
  define G where "G \<longleftrightarrow> conn_move Q C sv c sv' c' \<and> server_counters (Suc k) sv'"
  note busy = handle_alloc_move [OF assms(1-4), of en req r sv' c', folded G_def]
    handle_free_move [OF assms(1-3), of en req r sv' c', folded G_def]
    handle_session_open_move [OF assms(1-4), of en req r sv' c', folded G_def]
    handle_session_refresh_move [OF assms(1-4), of en req r sv' c', folded G_def]
    handle_session_close_move [OF assms(1-4), of en req r sv' c', folded G_def]
  have idle: G if "h en req (sv, c) = (r, sv', c')" "h \<in> {handle_send, handle_recv, handle_barrier,
      handle_maintain, handle_map, handle_stats, handle_session_lookup, handle_session_stats,
      handle_submit, handle_wait}" for h
    using idle_move [OF assms(1-3) idle_handlers [OF assms(1,2) that(2,1)]] by (simp add: G_def)
  have same: G if "sv = sv'" "c = c'"
    using idle_move [OF assms(1-3), of sv' c'] that by (simp add: G_def)
  note idles = idle [of handle_send] idle [of handle_recv] idle [of handle_barrier]
    idle [of handle_maintain] idle [of handle_map] idle [of handle_stats] idle [of handle_session_lookup]
    idle [of handle_session_stats] idle [of handle_submit] idle [of handle_wait]
  from assms(5) ReadRequest have G
    by (simp add: serve_input_def serve_request_def Let_def busy idles same split: if_split_asm)
  then show ?thesis by (simp add: G_def)
qed

section \<open>The invariant of the daemon\<close>

definition world_inv :: "string set \<Rightarrow> string set \<Rightarrow> world \<Rightarrow> bool" where
  "world_inv Q C w \<longleftrightarrow> server_inv Q C (wd_server w) \<and>
     (\<forall>n c. map_of (wd_conns w) n = Some c \<longrightarrow> conn_ok (wd_server w) c) \<and>
     (\<forall>n m c d. map_of (wd_conns w) n = Some c \<longrightarrow> map_of (wd_conns w) m = Some d \<longrightarrow> n \<noteq> m \<longrightarrow>
        lease_ids c \<inter> lease_ids d = {} \<and> session_ids c \<inter> session_ids d = {})"

lemma world_invD:
  assumes "world_inv Q C w" "map_of (wd_conns w) n = Some c"
  shows "server_inv Q C (wd_server w)" "conn_ok (wd_server w) c"
    "map_of (wd_conns w) m = Some d \<Longrightarrow> n \<noteq> m \<Longrightarrow>
      lease_ids c \<inter> lease_ids d = {} \<and> session_ids c \<inter> session_ids d = {}"
  using assms by (auto simp: world_inv_def)

text \<open>A move of one connection leaves the others as they were.\<close>

lemma conn_ids:
  assumes "conn_ok sv c"
  shows "i \<in> lease_ids c \<Longrightarrow> held (sv_slab sv) i \<noteq> None" "i \<in> session_ids c \<Longrightarrow> i \<le> store_next sv"
  using assms by (auto simp: conn_ok_def lease_ids_def session_ids_def outside_def)

lemma world_move:
  assumes inv: "world_inv Q C w" and c: "map_of (wd_conns w) n = Some c"
    and mv: "conn_move Q C (wd_server w) c sv' c'"
    and w': "wd_server w' = sv'" "map_of (wd_conns w') = (map_of (wd_conns w))(n \<mapsto> c')"
  shows "world_inv Q C w'"
proof -
  have ev: "evolves Q C (lease_ids c - lease_ids c') (wd_server w) sv'" and ok: "conn_ok sv' c'"
    using mv by (auto simp: conn_move_def)
  have other: "conn_ok sv' d \<and> lease_ids d \<inter> lease_ids c' = {} \<and> session_ids d \<inter> session_ids c' = {}"
    if d: "map_of (wd_conns w) m = Some d" "m \<noteq> n" for m d
  proof -
    note okd = world_invD(2) [OF inv d(1)]
    have dis: "lease_ids c \<inter> lease_ids d = {}" "session_ids c \<inter> session_ids d = {}"
      using world_invD(3) [OF inv c d(1)] d(2) by auto
    have new: "i \<in> lease_ids c' \<Longrightarrow> i \<notin> lease_ids c \<Longrightarrow> held (sv_slab (wd_server w)) i = None"
      "i \<in> session_ids c' \<Longrightarrow> i \<notin> session_ids c \<Longrightarrow> store_next (wd_server w) < i" for i
      using mv unfolding conn_move_def by (blast, blast)
    have "i \<notin> lease_ids c'" if "i \<in> lease_ids d" for i
    proof
      assume "i \<in> lease_ids c'"
      moreover have "i \<notin> lease_ids c" using dis(1) that by blast
      ultimately have "held (sv_slab (wd_server w)) i = None" by (rule new(1))
      with conn_ids(1) [OF okd that] show False by simp
    qed
    moreover have "i \<notin> session_ids c'" if "i \<in> session_ids d" for i
    proof
      assume "i \<in> session_ids c'"
      moreover have "i \<notin> session_ids c" using dis(2) that by blast
      ultimately have "store_next (wd_server w) < i" by (rule new(2))
      with conn_ids(2) [OF okd that] show False by simp
    qed
    moreover have "conn_ok sv' d"
      using conn_ok_evolves [OF okd ev] dis(1) by blast
    ultimately show ?thesis by blast
  qed
  have "server_inv Q C sv'" using ev by (simp add: evolves_def)
  then show ?thesis
    unfolding world_inv_def w' using inv ok other
    by (auto simp: world_inv_def split: if_splits)
qed

lemma ipc_step_inv:
  assumes "ipc_step w w'" "world_inv Q C w" "server_counters k (wd_server w)" "Suc k < 2 ^ 64"
  shows "world_inv Q C w' \<and> server_counters (Suc k) (wd_server w')"
  using assms(1)
proof cases
  case (accept n)
  have "conn_ok (wd_server w) new_conn" by (simp add: conn_ok_def new_conn_def)
  then show ?thesis
    using accept assms(2) server_counters_mono [OF assms(3)]
    by (auto simp: world_inv_def map_of_update lease_ids_def session_ids_def new_conn_def)
next
  case (input n c en inp r sv' c')
  note M = serve_input_move [OF world_invD(1,2) [OF assms(2) input(2)] assms(3,4) input(4)]
  then show ?thesis
    using input(1) world_move [OF assms(2) input(2) conjunct1 [OF M], of w'] by (simp add: map_of_update)
next
  case (work_end n c i wk e)
  have "conn_move Q C (wd_server w) c (wd_server w)
      (c\<lparr>cn_work := AList.update i (wk\<lparr>wk_done := Some e\<rparr>) (cn_work c)\<rparr>)"
    by (rule conn_move_same [OF conn_move_refl [OF world_invD(1,2) [OF assms(2) work_end(2)]]]) simp_all
  from world_move [OF assms(2) work_end(2) this, of w'] show ?thesis
    using work_end(1) server_counters_mono [OF assms(3)] by (simp add: map_of_update)
next
  case (eof n c)
  then show ?thesis
    using assms(2) server_counters_mono [OF assms(3)] by (simp add: world_inv_def)
next
  case (cleanup_free n c i l)
  from world_move [OF assms(2) cleanup_free(2) free_move(1) [OF world_invD(1,2) [OF assms(2) cleanup_free(2)]
      cleanup_free(5)], of w'] show ?thesis
    using cleanup_free(1) assms(3) by (simp add: map_of_update server_counters_def store_next_def)
next
  case (cleanup_close n c i b st r sv')
  note M = store_move [OF world_invD(1,2) [OF assms(2) cleanup_close(2)] assms(3,4) cleanup_close(7,8),
      of "OpCloseLease (Some Background) i"]
  have "conn_move Q C (wd_server w) c sv' (c\<lparr>cn_sessions := AList.delete i (cn_sessions c)\<rparr>)"
    by (rule conn_move_drop_session [OF M(1)]) simp
  from world_move [OF assms(2) cleanup_close(2) this, of w'] show ?thesis
    using cleanup_close(1) M(2) by (simp add: map_of_update)
next
  case (hangup n c)
  then show ?thesis
    using assms(2) server_counters_mono [OF assms(3)]
    by (auto simp: world_inv_def map_of_delete split: if_splits)
next
  case (daemon_loop st op r sv')
  have inv: "server_inv Q C (wd_server w)" using assms(2) by (simp add: world_inv_def)
  note S = store_evolves [OF inv assms(3,4) daemon_loop(2,4), of op]
  have "conn_ok sv' c" if "conn_ok (wd_server w) c" for c
    using conn_ok_evolves [OF that S(1) [of "{}"]] by simp
  then show ?thesis
    using S daemon_loop(1) assms(2) by (simp add: world_inv_def evolves_def)
qed

lemma new_server_inv:
  assumes "new_daemon os sz qps cqs = Some st" "NewServerWithResources (Some (st_mr st)) t (Some st) = Some sv"
  shows "server_inv (set qps) (set cqs) sv" "server_counters 0 sv"
proof -
  note N = new_daemon_ok [OF assms(1)]
  have "sv_slab sv = st_mr st" "sv_resources sv = Some st"
    using assms(2) by (auto simp: NewServerWithResources_def)
  then show "server_inv (set qps) (set cqs) sv" "server_counters 0 sv"
    using N(1,3) by (auto simp: server_inv_def full_store_def server_counters_def counters_le_def
        store_next_def daemon_inv_def store_inv_def)
qed

lemma ipc_reach_inv:
  assumes "ipc_reach sv k w" "server_inv Q C sv" "server_counters 0 sv" "k < 2 ^ 64"
  shows "world_inv Q C w \<and> server_counters k (wd_server w)"
  using assms
proof (induction rule: ipc_reach.induct)
  case (step k w w')
  then have "world_inv Q C w \<and> server_counters k (wd_server w)" by simp
  then show ?case using ipc_step_inv [OF step.hyps(2), of Q C k] step.prems(3) by simp
qed (simp add: world_inv_def)

section \<open>Range checks\<close>

lemma range_check_None:
  assumes "int64_ok off" "int64_ok len" "map_of ls i = Some l" "span_ok (lease_span l)"
  shows "range_check ls p i off len = None \<longleftrightarrow> 0 \<le> p \<and> 0 \<le> len \<and> lease_Offset l \<le> off \<and>
    off + len \<le> lease_Offset l + lease_Length l"
proof -
  have fin: "add64 (lease_Offset l) (lease_Length l) = lease_Offset l + lease_Length l"
    using span_ok_add64 [OF assms(4)] by (simp add: lease_span_def)
  have b: "0 \<le> lease_Offset l" "lease_Offset l + lease_Length l \<le> max_int64"
    using assms(4) by (simp_all add: span_ok_def lease_span_def)
  have "(\<not> add64 off len < off \<and> \<not> off < lease_Offset l \<and>
      \<not> add64 off len > lease_Offset l + lease_Length l) \<longleftrightarrow>
      lease_Offset l \<le> off \<and> off + len \<le> lease_Offset l + lease_Length l" if "0 \<le> len"
  proof (cases "off + len \<le> max_int64")
    case True
    then have "add64 off len = off + len"
      using assms(1) that by (intro add64_id) (auto simp: int64_ok_def)
    then show ?thesis using that by auto
  next
    case False
    then have "add64 off len < off"
      using add64_no_overflow [OF assms(1,2) that] by simp
    then show ?thesis using False b(2) by auto
  qed
  then show ?thesis
    using assms(3) fin by (auto simp: range_check_def Let_def)
qed

section \<open>Ending a connection\<close>

lemma free_leases_each: "free_leases ls s = free_each Free (map fst ls) s"
  by (induction ls arbitrary: s) (auto simp: free_leases_def)

lemma free_leases_orphans:
  assumes inv: "server_inv Q C sv" "conn_ok sv c" and st: "sv_resources sv = Some st"
    and sv': "sv' = sv\<lparr>sv_slab := free_leases (cn_leases c) (sv_slab sv)\<rparr>"
  shows "server_inv Q C sv'"
    "held (sv_slab sv') = held (sv_slab sv) |` (- lease_ids c)"
    "sl_nextID (sv_slab sv') = sl_nextID (sv_slab sv)"
    "orphans (full_store sv' st) =
       orphans (full_store sv st) - {Window (window_of i (lease_span l)) | i l. (i, l) \<in> set (cn_leases c)}"
proof -
  have s: "slab_inv (sv_slab sv)" "\<not> sl_closed (sv_slab sv)"
    using inv(1) by (auto simp: server_inv_def mr_inv_def)
  note F = slab_alloc.free_each_spec [OF s, of "map fst (cn_leases c)"]
  then show held: "held (sv_slab sv') = held (sv_slab sv) |` (- lease_ids c)"
    by (simp add: sv' free_leases_each lease_ids_def)
  have "sl_nextID (free_each Free is p) = sl_nextID p" for "is" p
    by (induction "is" arbitrary: p) auto
  then show "sl_nextID (sv_slab sv') = sl_nextID (sv_slab sv)"
    by (simp add: sv' free_leases_each)
  have own: "held (sv_slab sv) i = Some (lease_span l) \<and> window_of i (lease_span l) \<notin> set (windows st)"
    if "(i, l) \<in> set (cn_leases c)" for i l
    using inv(2) st that by (auto simp: conn_ok_def outside_def store_windows_def)
  have keep: "store_windows sv \<subseteq> mr_used (sv_slab sv')"
  proof
    fix w assume w: "w \<in> store_windows sv"
    then obtain j q where j: "held (sv_slab sv) j = Some q" "w = window_of j q"
      using store_windows_used [OF inv(1)] by (auto simp: mr_used_def)
    then have "j \<notin> lease_ids c" using own w st by (fastforce simp: lease_ids_def store_windows_def)
    then show "w \<in> mr_used (sv_slab sv')" using j held by (simp add: mr_used_window)
  qed
  have "mr_inv (sv_slab sv')" using F by (simp add: sv' free_leases_each mr_inv_def)
  then show "server_inv Q C sv'"
    using server_inv_slab [OF inv(1)] keep by (simp add: sv')
  have used: "mr_used (sv_slab sv') =
      mr_used (sv_slab sv) - {window_of i (lease_span l) | i l. (i, l) \<in> set (cn_leases c)}"
  proof (intro set_eqI iffI)
    fix w assume "w \<in> mr_used (sv_slab sv')"
    then obtain j q where "held (sv_slab sv) j = Some q" "j \<notin> lease_ids c" "w = window_of j q"
      using held by (auto simp: mr_used_def restrict_map_def split: if_splits)
    then show "w \<in> mr_used (sv_slab sv) - {window_of i (lease_span l) | i l. (i, l) \<in> set (cn_leases c)}"
      by (auto simp: mr_used_window window_of_inj lease_ids_def rev_image_eqI)
  next
    fix w assume "w \<in> mr_used (sv_slab sv) - {window_of i (lease_span l) | i l. (i, l) \<in> set (cn_leases c)}"
    then obtain j q where j: "held (sv_slab sv) j = Some q" "w = window_of j q"
      "\<forall>l. (j, l) \<in> set (cn_leases c) \<longrightarrow> w \<noteq> window_of j (lease_span l)"
      by (auto simp: mr_used_def)
    then have "j \<notin> lease_ids c" using own by (fastforce simp: lease_ids_def)
    then show "w \<in> mr_used (sv_slab sv')" using j held by (simp add: mr_used_window)
  qed
  show "orphans (full_store sv' st) =
      orphans (full_store sv st) - {Window (window_of i (lease_span l)) | i l. (i, l) \<in> set (cn_leases c)}"
    using used by (auto simp: orphans_def handles_used_def in_use_def full_store_def attached_def)
qed

text \<open>Closing sessions under a background context returns exactly their handles.\<close>

lemma close_session_step:
  assumes inv: "server_inv Q C sv" and k: "server_counters k sv" "Suc k < 2 ^ 64"
    and st: "sv_resources sv = Some st"
    and w: "with_store (store_Close daemon_pools (Some Background) i) st sv = (r, sv')"
  shows "\<exists>st'. sv_resources sv' = Some st' \<and> server_inv Q C sv' \<and> server_counters k sv' \<and>
    st_leases st' = AList.delete i (st_leases st) \<and> orphans (full_store sv' st') = orphans (full_store sv st) \<and>
    (\<forall>j q. outside sv j q \<longrightarrow> outside sv' j q)"
proof -
  let ?S = "full_store sv st"
  let ?S' = "store_step daemon_pools (OpCloseLease (Some Background) i) ?S"
  note W = with_store_cases [OF w, of ?S', simplified]
  have D: "daemon_inv Q C ?S" "counters_le k ?S"
    using inv st k by (auto simp: server_inv_def server_counters_def counters_le_def full_store_def
        store_next_def)
  have "op_live (OpCloseLease (Some Background) i)"
    by (simp add: ctx_live_def ctx_or_background_def)
  note S = daemon_step(3) [OF D k(2) this] and
    E = store_evolves(1) [OF inv k st w, where op = "OpCloseLease (Some Background) i" and lost = "{}",
      simplified]
  have L: "st_leases ?S' = AList.delete i (st_leases st)"
    "sl_nextID (st_mr ?S') = sl_nextID (sv_slab sv)" "st_next ?S' = st_next st"
    by (auto simp: store_Close_def releaseLocked_def full_store_def Let_def split_beta delete_fresh
        map_of_eq_None_iff' split: option.splits)
  show ?thesis
    using W(2-4) E S L k(1) st by (auto simp: evolves_def server_counters_def store_next_def)
qed

lemma close_sessions_spec:
  assumes "server_inv Q C sv" "server_counters k sv" "Suc k < 2 ^ 64" "sv_resources sv = Some st"
  shows "\<exists>st'. sv_resources (close_sessions ss sv) = Some st' \<and> server_inv Q C (close_sessions ss sv) \<and>
    st_leases st' = fold (\<lambda>x m. AList.delete (fst x) m) ss (st_leases st) \<and>
    orphans (full_store (close_sessions ss sv) st') = orphans (full_store sv st) \<and>
    (\<forall>j q. outside sv j q \<longrightarrow> outside (close_sessions ss sv) j q)"
  using assms
proof (induction ss arbitrary: sv st)
  case Nil
  then show ?case by (simp add: close_sessions_def)
next
  case (Cons x ss)
  obtain i b where x: "x = (i, b)" by fastforce
  obtain r sv1 where w: "with_store (store_Close daemon_pools (Some Background) i) st sv = (r, sv1)"
    by fastforce
  from close_session_step [OF Cons.prems w] obtain st1 where S: "sv_resources sv1 = Some st1"
    "server_inv Q C sv1" "server_counters k sv1" "st_leases st1 = AList.delete i (st_leases st)"
    "orphans (full_store sv1 st1) = orphans (full_store sv st)" "\<forall>j q. outside sv j q \<longrightarrow> outside sv1 j q"
    by blast
  have eq: "close_sessions (x # ss) sv = close_sessions ss sv1"
    using Cons.prems(4) w x by (simp add: close_sessions_def)
  show ?case
    unfolding eq using Cons.IH [OF S(2,3) Cons.prems(3) S(1)] S(4-6) x by auto
qed

lemma map_of_fold_delete:
  "map_of (fold (\<lambda>x m. AList.delete (fst x) m) ss m) i = (if i \<in> fst ` set ss then None else map_of m i)"
  by (induction ss arbitrary: m) (auto simp: map_of_delete)

section \<open>Properties\<close>

text \<open>A server of a new daemon, and the states it can reach.\<close>

definition ipc_state :: "transport option \<Rightarrow> daemon_store \<Rightarrow> nat \<Rightarrow> world \<Rightarrow> bool" where
  "ipc_state t st k w \<longleftrightarrow>
     (\<exists>sv. NewServerWithResources (Some (st_mr st)) t (Some st) = Some sv \<and> ipc_reach sv k w)"

lemma ipc_state_inv:
  assumes "new_daemon os sz qps cqs = Some st" "ipc_state t st k w" "k < 2 ^ 64"
  shows "world_inv (set qps) (set cqs) w" "server_counters k (wd_server w)"
  using assms ipc_reach_inv new_server_inv unfolding ipc_state_def by metis+

lemma conn_lease_facts:
  assumes "world_inv Q C w" "map_of (wd_conns w) n = Some c" "map_of (cn_leases c) i = Some l"
  shows "held (sv_slab (wd_server w)) i = Some (lease_span l)" "slab_inv (sv_slab (wd_server w))"
    "window_of i (lease_span l) \<notin> store_windows (wd_server w)" "lease_ID l = i"
  using conn_ok_lease [OF world_invD(2) [OF assms(1,2)] assms(3)] world_invD(1) [OF assms(1,2)]
  by (auto simp: outside_def server_inv_def mr_inv_def)

definition range_bytes :: "int \<Rightarrow> int \<Rightarrow> int set" where
  "range_bytes off len = {off ..< off + len}"

lemma two_conns_disjoint:
  assumes "world_inv Q C w" "map_of (wd_conns w) n = Some c" "map_of (wd_conns w) m = Some d" "n \<noteq> m"
    "map_of (cn_leases c) i = Some l" "map_of (cn_leases d) j = Some l'"
  shows "i \<noteq> j" "span_set (lease_span l) \<inter> span_set (lease_span l') = {}"
proof -
  show "i \<noteq> j"
    using world_invD(3) [OF assms(1,2,3,4)] map_of_keyD [OF assms(5)] map_of_keyD [OF assms(6)]
    by (auto simp: lease_ids_def)
  then show "span_set (lease_span l) \<inter> span_set (lease_span l') = {}"
    using slab_leases_disjoint conn_lease_facts(1,2) [OF assms(1,2,5)] conn_lease_facts(1) [OF assms(1,3,6)]
    by blast
qed

lemma conn_range_check:
  assumes "world_inv Q C w" "map_of (wd_conns w) n = Some c" "int64_ok off" "int64_ok len"
  shows "range_check (cn_leases c) p i off len = None \<longleftrightarrow>
    0 \<le> p \<and> 0 \<le> len \<and> (\<exists>l. map_of (cn_leases c) i = Some l \<and> lease_Offset l \<le> off \<and>
      off + len \<le> lease_Offset l + lease_Length l)"
proof (cases "map_of (cn_leases c) i")
  case None
  then show ?thesis by (simp add: range_check_def)
next
  case (Some l)
  have "span_ok (lease_span l)"
    using slab_lease_range(3) conn_lease_facts(1,2) [OF assms(1,2) Some] by blast
  from range_check_None [OF assms(3,4) Some this] Some show ?thesis by auto
qed


text \<open>C17.  Bounds of a transfer.  The server's range check, with its wrapping 64-bit sums, accepts a
send or receive of a connection exactly when the peer is not negative and the mathematical byte range
lies inside one lease of that connection; an accepted range lies inside the slab and is disjoint from
every range accepted from another connection.\<close>

theorem checkRange_confines:
  assumes "new_daemon os sz qps cqs = Some st" and "ipc_state t st k w" and "k < 2 ^ 64"
    and "map_of (wd_conns w) n = Some c" and "map_of (wd_conns w) m = Some d" and "n \<noteq> m"
    and "int64_ok (rq_offset req)" and "int64_ok (rq_length req)"
    and "int64_ok (rq_offset req')" and "int64_ok (rq_length req')"
  shows "(checkRange req (cn_leases c) = None \<longleftrightarrow> 0 \<le> rq_peer req \<and> 0 \<le> rq_length req \<and>
      (\<exists>l. map_of (cn_leases c) (rq_lease_id req) = Some l \<and> lease_Offset l \<le> rq_offset req \<and>
        rq_offset req + rq_length req \<le> lease_Offset l + lease_Length l)) \<and>
    (checkRange req (cn_leases c) = None \<longrightarrow>
      range_bytes (rq_offset req) (rq_length req) \<subseteq> {0 ..< sl_size (sv_slab (wd_server w))}) \<and>
    (checkRange req (cn_leases c) = None \<and> checkRange req' (cn_leases d) = None \<longrightarrow>
      range_bytes (rq_offset req) (rq_length req) \<inter> range_bytes (rq_offset req') (rq_length req') = {})"
proof -
  note I = ipc_state_inv(1) [OF assms(1-3)]
  note R = conn_range_check [OF I assms(4,7,8)] and R' = conn_range_check [OF I assms(5,9,10)]
  have in_lease: "range_bytes off len \<subseteq> span_set (lease_span l)"
    if "lease_Offset l \<le> off" "off + len \<le> lease_Offset l + lease_Length l" for off len l
    using that by (auto simp: range_bytes_def span_set_def lease_span_def)
  have "range_bytes (rq_offset req) (rq_length req) \<subseteq> {0 ..< sl_size (sv_slab (wd_server w))}"
    if ok: "checkRange req (cn_leases c) = None"
  proof -
    from ok obtain l where l: "map_of (cn_leases c) (rq_lease_id req) = Some l"
      "lease_Offset l \<le> rq_offset req" "rq_offset req + rq_length req \<le> lease_Offset l + lease_Length l"
      by (auto simp: checkRange_def R)
    then show ?thesis
      using slab_lease_range(1,2) [OF conn_lease_facts(2,1) [OF I assms(4) l(1)]]
      by (auto simp: range_bytes_def lease_span_def)
  qed
  moreover have "range_bytes (rq_offset req) (rq_length req) \<inter> range_bytes (rq_offset req') (rq_length req') = {}"
    if ok: "checkRange req (cn_leases c) = None" "checkRange req' (cn_leases d) = None"
  proof -
    from ok obtain l l' where l: "map_of (cn_leases c) (rq_lease_id req) = Some l"
      "lease_Offset l \<le> rq_offset req" "rq_offset req + rq_length req \<le> lease_Offset l + lease_Length l"
      "map_of (cn_leases d) (rq_lease_id req') = Some l'"
      "lease_Offset l' \<le> rq_offset req'" "rq_offset req' + rq_length req' \<le> lease_Offset l' + lease_Length l'"
      by (auto simp: checkRange_def R R')
    then show ?thesis
      using two_conns_disjoint(2) [OF I assms(4,5,6) l(1,4)] in_lease [OF l(2,3)] in_lease [OF l(5,6)] by blast
  qed
  ultimately show ?thesis unfolding checkRange_def R by blast
qed

text \<open>C18.  Asynchronous work.  The server accepts a collective exactly when both ranges are non-negative
and mathematically inside leases of the connection, the source is not empty and no longer than the
destination, and the two ranges are equal or share no byte: a collective never runs over two ranges that
overlap in part.\<close>

theorem checkAsyncRange_exact:
  assumes "new_daemon os sz qps cqs = Some st" and "ipc_state t st k w" and "k < 2 ^ 64"
    and "map_of (wd_conns w) n = Some c"
    and "int64_ok (rq_src_offset req)" and "int64_ok (rq_src_length req)"
    and "int64_ok (rq_dst_offset req)" and "int64_ok (rq_dst_length req)"
  shows "checkAsyncRange req (cn_leases c) = None \<longleftrightarrow>
    0 < rq_src_length req \<and> rq_src_length req \<le> rq_dst_length req \<and>
    (\<exists>a b. map_of (cn_leases c) (rq_src_lease_id req) = Some a \<and>
       map_of (cn_leases c) (rq_dst_lease_id req) = Some b \<and>
       range_bytes (rq_src_offset req) (rq_src_length req) \<subseteq> span_set (lease_span a) \<and>
       range_bytes (rq_dst_offset req) (rq_dst_length req) \<subseteq> span_set (lease_span b)) \<and>
    (range_bytes (rq_src_offset req) (rq_src_length req) = range_bytes (rq_dst_offset req) (rq_dst_length req) \<or>
     range_bytes (rq_src_offset req) (rq_src_length req) \<inter> range_bytes (rq_dst_offset req) (rq_dst_length req) = {})"
    (is "?acc \<longleftrightarrow> ?spec")
proof -
  note I = ipc_state_inv(1) [OF assms(1-3)]
  let ?so = "rq_src_offset req" and ?sn = "rq_src_length req"
  let ?do = "rq_dst_offset req" and ?dn = "rq_dst_length req"
  note S = conn_range_check [OF I assms(4,5,6), of 0 "rq_src_lease_id req"] and
    D = conn_range_check [OF I assms(4,7,8), of 0 "rq_dst_lease_id req"]
  have sub: "range_bytes o' n' \<subseteq> span_set (lease_span a) \<longleftrightarrow>
      lease_Offset a \<le> o' \<and> o' + n' \<le> lease_Offset a + lease_Length a" if "0 < n'" for o' n' a
    using that by (auto simp: range_bytes_def span_set_def lease_span_def)
  have inside: "0 \<le> o' \<and> o' + n' \<le> max_int64 \<and> add64 o' n' = o' + n'"
    if "map_of (cn_leases c) i = Some a" "range_bytes o' n' \<subseteq> span_set (lease_span a)" "0 < n'" for i a o' n'
  proof -
    have "0 \<le> o'" "o' + n' \<le> max_int64"
      using sub [OF that(3), of o' a] that(2) slab_lease_range(3) [OF conn_lease_facts(2,1) [OF I assms(4) that(1)]]
      by (auto simp: span_ok_def lease_span_def)
    with that(3) show ?thesis by (auto intro!: add64_id)
  qed
  show ?thesis
  proof
    assume ok: ?acc
    then have b: "0 < ?sn" "?sn \<le> ?dn" "0 \<le> ?do" "0 \<le> ?so"
      and rs: "range_check (cn_leases c) 0 (rq_src_lease_id req) ?so ?sn = None"
      and rd: "range_check (cn_leases c) 0 (rq_dst_lease_id req) ?do ?dn = None"
      and ov: "\<not> (rq_src_lease_id req = rq_dst_lease_id req \<and> rangesOverlap ?so ?sn ?do ?dn \<and>
          \<not> sameRange ?so ?sn ?do ?dn)"
      unfolding checkAsyncRange_def by (auto split: if_splits option.splits)
    from rs rd b obtain x y where xy: "map_of (cn_leases c) (rq_src_lease_id req) = Some x"
      "map_of (cn_leases c) (rq_dst_lease_id req) = Some y"
      "range_bytes ?so ?sn \<subseteq> span_set (lease_span x)" "range_bytes ?do ?dn \<subseteq> span_set (lease_span y)"
      by (auto simp: S D sub)
    have "range_bytes ?so ?sn = range_bytes ?do ?dn \<or> range_bytes ?so ?sn \<inter> range_bytes ?do ?dn = {}"
    proof (cases "rq_src_lease_id req = rq_dst_lease_id req")
      case True
      then show ?thesis
        using ov inside [OF xy(1,3) b(1)] inside [OF xy(2,4)] b
        by (auto simp: rangesOverlap_def sameRange_def range_bytes_def)
    next
      case False
      from slab_leases_disjoint [OF conn_lease_facts(2,1) [OF I assms(4) xy(1)]
          conn_lease_facts(1) [OF I assms(4) xy(2)] False] xy(3,4)
      show ?thesis by blast
    qed
    with b xy show ?spec by blast
  next
    assume ?spec
    then obtain x y where b: "0 < ?sn" "?sn \<le> ?dn" and
      xy: "map_of (cn_leases c) (rq_src_lease_id req) = Some x"
      "map_of (cn_leases c) (rq_dst_lease_id req) = Some y"
      "range_bytes ?so ?sn \<subseteq> span_set (lease_span x)" "range_bytes ?do ?dn \<subseteq> span_set (lease_span y)"
      and ov: "range_bytes ?so ?sn = range_bytes ?do ?dn \<or> range_bytes ?so ?sn \<inter> range_bytes ?do ?dn = {}"
      by blast
    note i = inside [OF xy(1,3) b(1)] inside [OF xy(2,4)]
    have rs: "range_check (cn_leases c) 0 (rq_src_lease_id req) ?so ?sn = None"
      and rd: "range_check (cn_leases c) 0 (rq_dst_lease_id req) ?do ?dn = None"
      using b xy by (auto simp: S D sub)
    have ne: "?so \<in> range_bytes ?so ?sn" "?do \<in> range_bytes ?do ?dn"
      using b by (auto simp: range_bytes_def)
    have "sameRange ?so ?sn ?do ?dn \<or> \<not> rangesOverlap ?so ?sn ?do ?dn"
      using ov
    proof
      assume "range_bytes ?so ?sn = range_bytes ?do ?dn"
      then have "?so = ?do \<and> ?so + ?sn = ?do + ?dn"
        unfolding range_bytes_def using b by (subst (asm) atLeastLessThan_eq_iff) auto
      then show ?thesis by (simp add: sameRange_def)
    next
      assume dj: "range_bytes ?so ?sn \<inter> range_bytes ?do ?dn = {}"
      have "\<not> (?so < ?do + ?dn \<and> ?do < ?so + ?sn)"
      proof
        assume "?so < ?do + ?dn \<and> ?do < ?so + ?sn"
        then have "max ?so ?do \<in> range_bytes ?so ?sn \<inter> range_bytes ?do ?dn"
          using b by (auto simp: range_bytes_def)
        with dj show False by blast
      qed
      then show ?thesis using i b by (simp add: rangesOverlap_def)
    qed
    then show ?acc
      using rs rd b i unfolding checkAsyncRange_def by auto
  qed
qed

section \<open>A run of the daemon\<close>

definition request0 :: request where
  "request0 = \<lparr> rq_op = '''', rq_size = 0, rq_lease_id = 0, rq_peer = 0, rq_offset = 0, rq_length = 0,
     rq_client_id = rq_ClientID req4, rq_session_peer = rq_Peer req4, rq_deadline = rq_Deadline req4,
     rq_heartbeat_mr = rq_HeartbeatMR req4, rq_heartbeat = rq_Heartbeat req4, rq_session_id = 0,
     rq_work_id = 0, rq_reduction_op = 0, rq_dtype = 0, rq_element_size = 1, rq_dst_offset = 0,
     rq_dst_length = 0, rq_dst_lease_id = 0, rq_src_offset = 0, rq_src_length = 0, rq_src_lease_id = 0 \<rparr>"

definition alloc4 :: request where
  "alloc4 = request0\<lparr>rq_op := ''alloc'', rq_size := 4\<rparr>"

definition open4 :: request where
  "open4 = request0\<lparr>rq_op := ''session_open'', rq_size := rq_Size req4\<rparr>"

definition env5 :: env where
  "env5 = \<lparr> en_ctx = None, en_now = 5, en_fd = 3 \<rparr>"

definition server16 :: "daemon_store \<Rightarrow> server" where
  "server16 st = \<lparr> sv_slab = st_mr st, sv_transport = disabledTransport, sv_resources = Some st \<rparr>"

text \<open>The slab of \<open>open16\<close> after two more leases of four bytes.\<close>

definition leases16 :: "slab \<Rightarrow> slab" where
  "leases16 s = s\<lparr>sl_nextID := 3, sl_free := [\<lparr> sp_off = 12, sp_n = 4 \<rparr>],
     sl_leases := [(1, \<lparr> sp_off = 0, sp_n = 4 \<rparr>), (2, \<lparr> sp_off = 4, sp_n = 4 \<rparr>), (3, \<lparr> sp_off = 8, sp_n = 4 \<rparr>)]\<rparr>"

definition conn_a :: conn where
  "conn_a = new_conn\<lparr>cn_leases := [(2, \<lparr> lease_ID = 2, lease_Offset = 4, lease_Length = 4 \<rparr>)],
     cn_sessions := [(1, True)]\<rparr>"

definition conn_b :: conn where
  "conn_b = new_conn\<lparr>cn_leases := [(3, \<lparr> lease_ID = 3, lease_Offset = 8, lease_Length = 4 \<rparr>)]\<rparr>"

definition demo :: world where
  "demo = \<lparr> wd_server = (server16 open16)\<lparr>sv_slab := leases16 (st_mr open16)\<rparr>,
     wd_conns = [(0, conn_a), (1, conn_b)], wd_closing = [] \<rparr>"

lemma ipc_step_input:
  assumes "serve_input en inp (sv, c) = (r, sv', c')" "wd_server w = sv"
    "map_of (wd_conns w) n = Some c" "n \<notin> set (wd_closing w)"
    "w' = w\<lparr>wd_server := sv', wd_conns := AList.update n c' (wd_conns w)\<rparr>"
  shows "ipc_step w w'"
  using ipc_step.input [OF assms(3,4), of en inp r sv' c'] assms by simp

lemma demo_open:
  "serve_input env5 (ReadRequest open4) (server16 ready16, new_conn) =
   (ok_response\<lparr>rp_session := Some lease4\<rparr>, server16 open16, new_conn\<lparr>cn_sessions := [(1, True)]\<rparr>)"
proof -
  have "ready16\<lparr>st_mr := st_mr ready16\<rparr> = ready16" by simp
  moreover have "session_request_of open4 = req4"
    by (simp add: session_request_of_def open4_def request0_def)
  moreover have "se_ID lease4 = 1" by (simp add: lease4_def)
  moreover have "rq_op open4 = ''session_open''" by (simp add: open4_def)
  ultimately show ?thesis
    using open16_Open by (simp add: serve_input_def serve_request_def handle_session_open_def
        server16_def with_store_def env5_def new_conn_def Let_def)
qed

lemma alloc4_simps: "rq_op alloc4 = ''alloc''" "rq_size alloc4 = 4"
  by (simp_all add: alloc4_def)

lemma demo_alloc:
  "serve_input env5 (ReadRequest alloc4) (server16 open16, new_conn\<lparr>cn_sessions := [(1, True)]\<rparr>) =
   (ok_response\<lparr>rp_lease := Some \<lparr> lease_ID = 2, lease_Offset = 4, lease_Length = 4 \<rparr>\<rparr>,
    (server16 open16)\<lparr>sv_slab := (st_mr open16)\<lparr>sl_nextID := 2,
       sl_leases := [(1, \<lparr> sp_off = 0, sp_n = 4 \<rparr>), (2, \<lparr> sp_off = 4, sp_n = 4 \<rparr>)],
       sl_free := [\<lparr> sp_off = 8, sp_n = 8 \<rparr>]\<rparr>\<rparr>, conn_a)"
  by (simp add: serve_input_def serve_request_def handle_alloc_def alloc4_simps server16_def open16_def
      slab16_def Alloc_def slab_next_def add64_def sub64_def wrap64_def Let_def conn_a_def new_conn_def)

lemma demo_alloc':
  "serve_input env5 (ReadRequest alloc4)
     ((server16 open16)\<lparr>sv_slab := (st_mr open16)\<lparr>sl_nextID := 2,
       sl_leases := [(1, \<lparr> sp_off = 0, sp_n = 4 \<rparr>), (2, \<lparr> sp_off = 4, sp_n = 4 \<rparr>)],
       sl_free := [\<lparr> sp_off = 8, sp_n = 8 \<rparr>]\<rparr>\<rparr>, new_conn) =
   (ok_response\<lparr>rp_lease := Some \<lparr> lease_ID = 3, lease_Offset = 8, lease_Length = 4 \<rparr>\<rparr>,
    (server16 open16)\<lparr>sv_slab := leases16 (st_mr open16)\<rparr>, conn_b)"
  by (simp add: serve_input_def serve_request_def handle_alloc_def alloc4_simps server16_def open16_def
      slab16_def Alloc_def slab_next_def add64_def sub64_def wrap64_def Let_def conn_b_def new_conn_def
      leases16_def)

lemma demo_state: "ipc_state None daemon16 6 demo"
proof -
  let ?w = "\<lambda>sv cs. \<lparr> wd_server = sv, wd_conns = cs, wd_closing = [] \<rparr>"
  let ?n = "new_conn\<lparr>cn_sessions := [(1, True)]\<rparr>"
  let ?s = "(server16 open16)\<lparr>sv_slab := (st_mr open16)\<lparr>sl_nextID := 2,
       sl_leases := [(1, \<lparr> sp_off = 0, sp_n = 4 \<rparr>), (2, \<lparr> sp_off = 4, sp_n = 4 \<rparr>)],
       sl_free := [\<lparr> sp_off = 8, sp_n = 8 \<rparr>]\<rparr>\<rparr>"
  let ?sv = "server16 daemon16"
  have set: "store_step daemon_pools (OpSetState 2) daemon16 = ready16"
    by (simp add: SetState_def state_of_byte_def ready16_def daemon16_def less_state_def)
  have "with_store (\<lambda>s. ((), store_step daemon_pools (OpSetState 2) s)) daemon16 (server16 daemon16) =
      ((), server16 ready16)"
  proof -
    have "daemon16\<lparr>st_mr := st_mr daemon16\<rparr> = daemon16" by simp
    then show ?thesis using set by (simp add: with_store_def server16_def ready16_def)
  qed
  then have s1: "ipc_step (?w (server16 daemon16) []) (?w (server16 ready16) [])"
    using ipc_step.daemon_loop [of "?w (server16 daemon16) []" daemon16 "OpSetState 2"]
    by (simp add: server16_def)
  have s2: "ipc_step (?w (server16 ready16) []) (?w (server16 ready16) [(0, new_conn)])"
    using ipc_step.accept [of "?w (server16 ready16) []" 0] by simp
  have s3: "ipc_step (?w (server16 ready16) [(0, new_conn)]) (?w (server16 ready16) [(0, new_conn), (1, new_conn)])"
    using ipc_step.accept [of "?w (server16 ready16) [(0, new_conn)]" 1] by simp
  have s4: "ipc_step (?w (server16 ready16) [(0, new_conn), (1, new_conn)])
      (?w (server16 open16) [(0, ?n), (1, new_conn)])"
    by (rule ipc_step_input [OF demo_open, where n = 0]) simp_all
  have s5: "ipc_step (?w (server16 open16) [(0, ?n), (1, new_conn)]) (?w ?s [(0, conn_a), (1, new_conn)])"
    by (rule ipc_step_input [OF demo_alloc, where n = 0]) simp_all
  have s6: "ipc_step (?w ?s [(0, conn_a), (1, new_conn)]) demo"
    by (rule ipc_step_input [OF demo_alloc', where n = 1]) (simp_all add: demo_def)
  have "ipc_reach ?sv (Suc (Suc (Suc (Suc (Suc (Suc 0)))))) demo"
    by (rule ipc_reach.step [OF ipc_reach.step [OF ipc_reach.step [OF ipc_reach.step [OF ipc_reach.step
        [OF ipc_reach.step [OF ipc_reach.start s1] s2] s3] s4] s5] s6])
  then show ?thesis
    by (simp add: ipc_state_def NewServerWithResources_def server16_def numeral_eq_Suc)
qed

lemma demo_simps:
  "map_of (wd_conns demo) 0 = Some conn_a" "map_of (wd_conns demo) 1 = Some conn_b"
  "map_of (cn_leases conn_a) 2 = Some \<lparr> lease_ID = 2, lease_Offset = 4, lease_Length = 4 \<rparr>"
  "map_of (cn_leases conn_b) 3 = Some \<lparr> lease_ID = 3, lease_Offset = 8, lease_Length = 4 \<rparr>"
  "se_Window lease4 \<in> store_windows (wd_server demo)"
  by (simp_all add: demo_def conn_a_def conn_b_def store_windows_def server16_def open16_def windows_def)


definition send4 :: "u64 \<Rightarrow> int \<Rightarrow> request" where
  "send4 i off = request0\<lparr>rq_op := ''send'', rq_lease_id := i, rq_peer := 1, rq_offset := off, rq_length := 4\<rparr>"

theorem checkRange_confines_witness:
  "checkRange (send4 2 4) (cn_leases conn_a) = None \<and> checkRange (send4 3 8) (cn_leases conn_b) = None \<and>
   range_bytes 4 4 \<inter> range_bytes 8 4 = {}"
proof -
  have "checkRange (send4 2 4) (cn_leases conn_a) = None \<and> checkRange (send4 3 8) (cn_leases conn_b) = None"
    by (simp add: checkRange_def range_check_def send4_def conn_a_def conn_b_def add64_def wrap64_def)
  with checkRange_confines [OF new_daemon16 demo_state _ demo_simps(1,2), of "send4 2 4" "send4 3 8"]
  show ?thesis by (simp add: send4_def request0_def int64_defs)
qed

definition gather_req :: "int \<Rightarrow> int \<Rightarrow> request" where
  "gather_req dst n = request0\<lparr>rq_op := ''submit_gather'', rq_src_lease_id := 2, rq_src_offset := 4,
     rq_src_length := 2, rq_dst_lease_id := 2, rq_dst_offset := dst, rq_dst_length := n\<rparr>"

theorem checkAsyncRange_exact_witness:
  "checkAsyncRange (gather_req 6 2) (cn_leases conn_a) = None \<and>
   checkAsyncRange (gather_req 5 2) (cn_leases conn_a) \<noteq> None"
proof -
  have "range_bytes 4 2 \<inter> range_bytes 6 2 = {}" "5 \<in> range_bytes 4 2" "4 \<in> range_bytes 4 2"
    "5 \<in> range_bytes 5 2" "4 \<notin> range_bytes 5 2" "range_bytes 4 2 \<subseteq> {4 ..< 8}" "range_bytes 6 2 \<subseteq> {4 ..< 8}"
    by (auto simp: range_bytes_def)
  then show ?thesis
    using checkAsyncRange_exact [OF new_daemon16 demo_state _ demo_simps(1), of "gather_req 6 2"]
      checkAsyncRange_exact [OF new_daemon16 demo_state _ demo_simps(1), of "gather_req 5 2"] demo_simps(3)
    by (auto simp: gather_req_def request0_def int64_defs span_set_def lease_span_def)
qed

text \<open>C19.  A connection that ends leaves nothing behind.  Its clean-up frees each of its leases, closes
each of its sessions and returns their queue pairs, completion queues and windows to the pools; the leases
of other connections and every other session stay, and no handle is left in use without an owner that was
not so before.\<close>

theorem serve_cleanup_exact:
  assumes "new_daemon os sz qps cqs = Some st0" and "ipc_state t st0 k w" and "Suc k < 2 ^ 64"
    and "map_of (wd_conns w) n = Some c" and "sv_resources (wd_server w) = Some st"
    and "sv' = serve_cleanup (wd_server w) c"
  shows "\<exists>st'. sv_resources sv' = Some st' \<and>
    (\<forall>i l. map_of (cn_leases c) i = Some l \<longrightarrow> \<not> outside sv' i (lease_span l)) \<and>
    (\<forall>i. store_Lookup i st' = (if i \<in> session_ids c then None else store_Lookup i st)) \<and>
    (\<forall>m d i l. map_of (wd_conns w) m = Some d \<longrightarrow> m \<noteq> n \<longrightarrow> map_of (cn_leases d) i = Some l \<longrightarrow>
       outside sv' i (lease_span l)) \<and>
    orphans (full_store sv' st') = orphans (full_store (wd_server w) st) -
      {Window (window_of i (lease_span l)) | i l. map_of (cn_leases c) i = Some l}"
proof -
  let ?sv = "wd_server w"
  let ?s1 = "?sv\<lparr>sv_slab := free_leases (cn_leases c) (sv_slab ?sv)\<rparr>"
  have "k < 2 ^ 64" using assms(3) by simp
  note I = ipc_state_inv [OF assms(1,2) this]
  note IC = world_invD(1,2) [OF I(1) assms(4)]
  note F = free_leases_orphans [OF IC assms(5) refl]
  have r1: "sv_resources ?s1 = Some st" using assms(5) by simp
  have k1: "server_counters k ?s1" using I(2) F(3) by (simp add: server_counters_def store_next_def)
  have sv': "sv' = close_sessions (cn_sessions c) ?s1" using assms(6) by (simp add: serve_cleanup_def)
  have mem: "(i, l) \<in> set (cn_leases c) \<longleftrightarrow> map_of (cn_leases c) i = Some l" for i l
    using IC(2) by (simp add: conn_ok_def mem_iff_map_of)
  from close_sessions_spec [OF F(1) k1 assms(3) r1, of "cn_sessions c"] obtain st' where S:
    "sv_resources sv' = Some st'" "server_inv (set qps) (set cqs) sv'"
    "st_leases st' = fold (\<lambda>x m. AList.delete (fst x) m) (cn_sessions c) (st_leases st)"
    "orphans (full_store sv' st') = orphans (full_store ?s1 st)"
    "\<forall>j q. outside ?s1 j q \<longrightarrow> outside sv' j q" unfolding sv' by blast
  have orph: "orphans (full_store sv' st') = orphans (full_store ?sv st) -
      {Window (window_of i (lease_span l)) | i l. map_of (cn_leases c) i = Some l}"
    using S(4) F(4) by (simp add: mem)
  have gone: "\<not> outside sv' i (lease_span l)" if l: "map_of (cn_leases c) i = Some l" for i l
  proof
    assume "outside sv' i (lease_span l)"
    then have "Window (window_of i (lease_span l)) \<in> orphans (full_store sv' st')"
      using S(1) by (simp add: orphan_window outside_def store_windows_def)
    with orph l show False by blast
  qed
  have others: "outside sv' i (lease_span l)"
    if d: "map_of (wd_conns w) m = Some d" "m \<noteq> n" "map_of (cn_leases d) i = Some l" for m d i l
  proof -
    have "i \<notin> lease_ids c"
      using world_invD(3) [OF I(1) assms(4) d(1)] d(2) map_of_keyD [OF d(3)] by (auto simp: lease_ids_def)
    then have "outside ?s1 i (lease_span l)"
      using conn_lease_facts(1,3) [OF I(1) d(1,3)] F(2) by (simp add: outside_def store_windows_def)
    with S(5) show ?thesis by blast
  qed
  have "store_Lookup i st' = (if i \<in> session_ids c then None else store_Lookup i st)" for i
    using S(3) by (simp add: store_Lookup_def map_of_fold_delete session_ids_def)
  with S(1) orph gone others show ?thesis by blast
qed

theorem serve_cleanup_exact_witness:
  "\<exists>st'. sv_resources (serve_cleanup (wd_server demo) conn_a) = Some st' \<and> store_Lookup 1 st' = None \<and>
    outside (serve_cleanup (wd_server demo) conn_a) 3
      (lease_span \<lparr> lease_ID = 3, lease_Offset = 8, lease_Length = 4 \<rparr>)"
proof -
  have r: "sv_resources (wd_server demo) = Some open16" by (simp add: demo_def server16_def)
  have "1 \<in> session_ids conn_a" by (simp add: session_ids_def conn_a_def)
  with serve_cleanup_exact [OF new_daemon16 demo_state _ demo_simps(1) r refl] demo_simps(2,4)
  show ?thesis by fastforce
qed

section \<open>Freeing under work in flight\<close>

definition collectiveTransport :: transport where
  "collectiveTransport = disabledTransport\<lparr>tr_collective := True\<rparr>"

definition submit4 :: request where
  "submit4 = request0\<lparr>rq_op := ''submit_gather'', rq_src_lease_id := 1, rq_src_length := 4,
     rq_dst_lease_id := 1, rq_dst_length := 4\<rparr>"

definition free1 :: request where
  "free1 = request0\<lparr>rq_op := ''free'', rq_lease_id := 1\<rparr>"

definition hot_server :: "slab \<Rightarrow> server" where
  "hot_server s = \<lparr> sv_slab = s, sv_transport = collectiveTransport, sv_resources = Some daemon16 \<rparr>"

definition slab16' :: "u64 \<Rightarrow> (u64 \<times> span) list \<Rightarrow> span list \<Rightarrow> slab" where
  "slab16' i ls fr = slab16\<lparr>sl_nextID := i, sl_leases := ls, sl_free := fr\<rparr>"

definition lease_at0 :: "u64 \<Rightarrow> lease" where
  "lease_at0 i = \<lparr> lease_ID = i, lease_Offset = 0, lease_Length = 4 \<rparr>"

definition working :: "(u64 \<times> lease) list \<Rightarrow> conn" where
  "working ls = new_conn\<lparr>cn_leases := ls, cn_nextWork := 1,
     cn_work := [(1, \<lparr> wk_req = submit4, wk_done = None \<rparr>)]\<rparr>"

lemmas hot_defs = serve_input_def serve_request_def hot_server_def slab16'_def slab16_def lease_at0_def
  working_def new_conn_def Let_def

lemma hot_alloc:
  "serve_input env5 (ReadRequest alloc4) (hot_server slab16, new_conn) =
   (ok_response\<lparr>rp_lease := Some (lease_at0 1)\<rparr>,
    hot_server (slab16' 1 [(1, \<lparr> sp_off = 0, sp_n = 4 \<rparr>)] [\<lparr> sp_off = 4, sp_n = 12 \<rparr>]),
    new_conn\<lparr>cn_leases := [(1, lease_at0 1)]\<rparr>)"
  by (simp add: hot_defs handle_alloc_def alloc4_simps Alloc_def slab_next_def add64_def sub64_def
      wrap64_def)

lemma hot_submit:
  "serve_input env5 (ReadRequest submit4) (hot_server s, new_conn\<lparr>cn_leases := [(1, lease_at0 1)]\<rparr>) =
   (ok_response\<lparr>rp_work_id := 1\<rparr>, hot_server s, working [(1, lease_at0 1)])"
proof -
  have "checkAsyncRange submit4 [(1, lease_at0 1)] = None"
    by (simp add: checkAsyncRange_def range_check_def submit4_def request0_def lease_at0_def add64_def
        wrap64_def sameRange_def)
  moreover have "rq_op submit4 = ''submit_gather''" by (simp add: submit4_def)
  ultimately show ?thesis
    by (simp add: hot_defs handle_submit_def collectiveTransport_def)
qed

lemma hot_free:
  "serve_input env5 (ReadRequest free1)
     (hot_server (slab16' 1 [(1, \<lparr> sp_off = 0, sp_n = 4 \<rparr>)] [\<lparr> sp_off = 4, sp_n = 12 \<rparr>]), working [(1, lease_at0 1)]) =
   (ok_response, hot_server (slab16' 1 [] [\<lparr> sp_off = 0, sp_n = 16 \<rparr>]), working [])"
proof -
  have "insertFree [\<lparr> sp_off = 4, sp_n = 12 \<rparr>] \<lparr> sp_off = 0, sp_n = 4 \<rparr> = [\<lparr> sp_off = 0, sp_n = 16 \<rparr>]"
    by code_simp
  moreover have "rq_op free1 = ''free''" "rq_lease_id free1 = 1" by (simp_all add: free1_def)
  ultimately show ?thesis
    by (simp add: hot_defs handle_free_def Free_def)
qed

lemma hot_realloc:
  "serve_input env5 (ReadRequest alloc4) (hot_server (slab16' 1 [] [\<lparr> sp_off = 0, sp_n = 16 \<rparr>]), new_conn) =
   (ok_response\<lparr>rp_lease := Some (lease_at0 2)\<rparr>,
    hot_server (slab16' 2 [(2, \<lparr> sp_off = 0, sp_n = 4 \<rparr>)] [\<lparr> sp_off = 4, sp_n = 12 \<rparr>]),
    new_conn\<lparr>cn_leases := [(2, lease_at0 2)]\<rparr>)"
  by (simp add: hot_defs handle_alloc_def alloc4_simps Alloc_def slab_next_def add64_def sub64_def
      wrap64_def)

text \<open>The free request does not wait for work in flight.  The daemon reaches a state in which a
collective that one connection started has not finished, its destination range has been freed by that
connection, and the same bytes are leased to another connection: the collective writes into memory that
is no longer its owner's.\<close>

lemma free_in_flight:
  "\<exists>w c d wk. ipc_state (Some collectiveTransport) daemon16 6 w \<and> map_of (wd_conns w) 0 = Some c \<and>
     map_of (wd_conns w) 1 = Some d \<and> map_of (cn_work c) 1 = Some wk \<and> wk_done wk = None \<and>
     map_of (cn_leases d) 2 = Some (lease_at0 2) \<and>
     range_bytes (rq_dst_offset (wk_req wk)) (rq_dst_length (wk_req wk)) = span_set (lease_span (lease_at0 2))"
proof -
  let ?w = "\<lambda>s cs. \<lparr> wd_server = hot_server s, wd_conns = cs, wd_closing = [] \<rparr>"
  let ?s1 = "slab16' 1 [(1, \<lparr> sp_off = 0, sp_n = 4 \<rparr>)] [\<lparr> sp_off = 4, sp_n = 12 \<rparr>]"
  let ?s2 = "slab16' 1 [] [\<lparr> sp_off = 0, sp_n = 16 \<rparr>]"
  let ?s3 = "slab16' 2 [(2, \<lparr> sp_off = 0, sp_n = 4 \<rparr>)] [\<lparr> sp_off = 4, sp_n = 12 \<rparr>]"
  let ?c = "new_conn\<lparr>cn_leases := [(1, lease_at0 1)]\<rparr>" and ?d = "new_conn\<lparr>cn_leases := [(2, lease_at0 2)]\<rparr>"
  have s1: "ipc_step (?w slab16 []) (?w slab16 [(0, new_conn)])"
    using ipc_step.accept [of "?w slab16 []" 0] by simp
  have s2: "ipc_step (?w slab16 [(0, new_conn)]) (?w slab16 [(0, new_conn), (1, new_conn)])"
    using ipc_step.accept [of "?w slab16 [(0, new_conn)]" 1] by simp
  have s3: "ipc_step (?w slab16 [(0, new_conn), (1, new_conn)]) (?w ?s1 [(0, ?c), (1, new_conn)])"
    by (rule ipc_step_input [OF hot_alloc, where n = 0]) simp_all
  have s4: "ipc_step (?w ?s1 [(0, ?c), (1, new_conn)]) (?w ?s1 [(0, working [(1, lease_at0 1)]), (1, new_conn)])"
    by (rule ipc_step_input [OF hot_submit, where n = 0]) simp_all
  have s5: "ipc_step (?w ?s1 [(0, working [(1, lease_at0 1)]), (1, new_conn)])
      (?w ?s2 [(0, working []), (1, new_conn)])"
    by (rule ipc_step_input [OF hot_free, where n = 0]) simp_all
  have s6: "ipc_step (?w ?s2 [(0, working []), (1, new_conn)]) (?w ?s3 [(0, working []), (1, ?d)])"
    by (rule ipc_step_input [OF hot_realloc, where n = 1]) simp_all
  have "ipc_reach (hot_server slab16) (Suc (Suc (Suc (Suc (Suc (Suc 0)))))) (?w ?s3 [(0, working []), (1, ?d)])"
    by (rule ipc_reach.step [OF ipc_reach.step [OF ipc_reach.step [OF ipc_reach.step [OF ipc_reach.step
        [OF ipc_reach.step [OF ipc_reach.start s1] s2] s3] s4] s5] s6])
  then have "ipc_state (Some collectiveTransport) daemon16 6 (?w ?s3 [(0, working []), (1, ?d)])"
    by (simp add: ipc_state_def NewServerWithResources_def hot_server_def numeral_eq_Suc daemon16_def)
  moreover have "range_bytes (rq_dst_offset submit4) (rq_dst_length submit4) = span_set (lease_span (lease_at0 2))"
    by (simp add: range_bytes_def submit4_def request0_def span_set_def lease_span_def lease_at0_def)
  ultimately show ?thesis
    by (intro exI [of _ "?w ?s3 [(0, working []), (1, ?d)]"] exI [of _ "working []"] exI [of _ ?d]
        exI [of _ "\<lparr> wk_req = submit4, wk_done = None \<rparr>"]) (simp add: working_def)
qed

end
