(* ===== verification/Admission.thy ===== *)
theory Admission
  imports Prelude
begin

text \<open>
  The admission gate of the daemon's transport, \<^verbatim>\<open>src/cmd/jaccld/admission.go\<close>.  Data operations
  pass it one by one; a maintenance window closes it and waits until the operations inside have left.

  The channel \<^verbatim>\<open>changed\<close>, closed and replaced at each signal, is a generation number: a task that
  waits on generation \<open>k\<close> is woken once the gate's generation is past \<open>k\<close>.  Each critical section of the
  mutex is one step of \<open>gate_step\<close>; tasks interleave freely between them.
\<close>

section \<open>The gate\<close>

record gate =
  ga_maintenance :: bool
  ga_inFlight :: int
  ga_changed :: nat

definition newAdmissionGate :: gate where
  "newAdmissionGate = \<lparr> ga_maintenance = False, ga_inFlight = 0, ga_changed = 0 \<rparr>"

definition signalLocked :: "gate \<Rightarrow> gate" where
  "signalLocked g = g\<lparr>ga_changed := ga_changed g + 1\<rparr>"

text \<open>Where a task is in \<^verbatim>\<open>enter\<close>, in the operation it was admitted to, or in
\<^verbatim>\<open>beginMaintenance\<close> and its window; the closures returned to it run their body once.\<close>

datatype task =
    Entering
  | EnterWait nat
  | EnterFailed ctx_error
  | Inside
  | Left
  | Beginning
  | DrainWait nat
  | Draining
  | BeginBusy
  | BeginFailed ctx_error
  | Maintaining
  | Ended
  | Panicked

definition enter_try :: "gate \<Rightarrow> gate \<times> task" where
  "enter_try g =
     (if \<not> ga_maintenance g then (g\<lparr>ga_inFlight := add64 (ga_inFlight g) 1\<rparr>, Inside)
      else (g, EnterWait (ga_changed g)))"

definition leave :: "gate \<Rightarrow> gate \<times> task" where
  "leave g =
     (if ga_inFlight g = 0 then (g, Panicked)
      else
        let g' = g\<lparr>ga_inFlight := sub64 (ga_inFlight g) 1\<rparr> in
        (if ga_inFlight g' = 0 then signalLocked g' else g', Left))"

definition drain_check :: "gate \<Rightarrow> gate \<times> task" where
  "drain_check g = (if 0 < ga_inFlight g then (g, DrainWait (ga_changed g)) else (g, Maintaining))"

definition begin_try :: "gate \<Rightarrow> gate \<times> task" where
  "begin_try g =
     (if ga_maintenance g then (g, BeginBusy)
      else drain_check (signalLocked (g\<lparr>ga_maintenance := True\<rparr>)))"

definition reopen :: "gate \<Rightarrow> gate" where
  "reopen g = signalLocked (g\<lparr>ga_maintenance := False\<rparr>)"

section \<open>Tasks side by side\<close>

text \<open>What a task may do next; \<open>e\<close> is the error of its context when the context ends.\<close>

inductive task_step :: "gate \<Rightarrow> task \<Rightarrow> gate \<Rightarrow> task \<Rightarrow> bool" where
  enter: "enter_try g = (g', p) \<Longrightarrow> task_step g Entering g' p"
| enter_wake: "k < ga_changed g \<Longrightarrow> task_step g (EnterWait k) g Entering"
| enter_cancel: "task_step g (EnterWait k) g (EnterFailed e)"
| exit: "leave g = (g', p) \<Longrightarrow> task_step g Inside g' p"
| exit_again: "task_step g Left g Left"
| start: "begin_try g = (g', p) \<Longrightarrow> task_step g Beginning g' p"
| drain_wake: "k < ga_changed g \<Longrightarrow> task_step g (DrainWait k) g Draining"
| drain_cancel: "task_step g (DrainWait k) (reopen g) (BeginFailed e)"
| drain: "drain_check g = (g', p) \<Longrightarrow> task_step g Draining g' p"
| finish: "task_step g Maintaining (reopen g) Ended"
| finish_again: "task_step g Ended g Ended"

inductive gate_step :: "gate \<times> task list \<Rightarrow> gate \<times> task list \<Rightarrow> bool" where
  act: "i < length ts \<Longrightarrow> task_step g (ts ! i) g' p \<Longrightarrow> gate_step (g, ts) (g', ts[i := p])"

text \<open>Any number of tasks, each about to enter or to begin a window, at a new gate.\<close>

inductive gate_reach :: "gate \<times> task list \<Rightarrow> bool" where
  start: "set ts \<subseteq> {Entering, Beginning} \<Longrightarrow> int (length ts) < max_int64 \<Longrightarrow>
    gate_reach (newAdmissionGate, ts)"
| step: "gate_reach s \<Longrightarrow> gate_step s s' \<Longrightarrow> gate_reach s'"

inductive_cases task_stepE:
  "task_step g Entering g' p" "task_step g (EnterWait k) g' p" "task_step g (EnterFailed e) g' p"
  "task_step g Inside g' p" "task_step g Left g' p" "task_step g Beginning g' p"
  "task_step g (DrainWait k) g' p" "task_step g Draining g' p" "task_step g BeginBusy g' p"
  "task_step g (BeginFailed e) g' p" "task_step g Maintaining g' p" "task_step g Ended g' p"
  "task_step g Panicked g' p"

inductive_cases gate_stepE: "gate_step (g, ts) s'"

section \<open>Invariant\<close>

fun owns :: "task \<Rightarrow> bool" where
  "owns (DrainWait k) = True"
| "owns Draining = True"
| "owns Maintaining = True"
| "owns _ = False"

fun waits_for :: "gate \<Rightarrow> task \<Rightarrow> bool" where
  "waits_for g (EnterWait k) = (k \<le> ga_changed g \<and> (k = ga_changed g \<longrightarrow> ga_maintenance g))"
| "waits_for g (DrainWait k) = (k \<le> ga_changed g \<and> (k = ga_changed g \<longrightarrow> 0 < ga_inFlight g))"
| "waits_for g Maintaining = (ga_inFlight g = 0)"
| "waits_for g Panicked = False"
| "waits_for g _ = True"

definition gate_inv :: "gate \<times> task list \<Rightarrow> bool" where
  "gate_inv s \<longleftrightarrow> (case s of (g, ts) \<Rightarrow>
     int (length ts) < max_int64 \<and> ga_inFlight g = int (count_list ts Inside) \<and>
     length (filter owns ts) = of_bool (ga_maintenance g) \<and> (\<forall>p \<in> set ts. waits_for g p))"

text \<open>Counting in an updated list.\<close>

lemma count_list_update:
  "i < length ts \<Longrightarrow>
   count_list (ts[i := p]) x + of_bool (ts ! i = x) = count_list ts x + of_bool (p = x)"
proof (induction ts arbitrary: i)
  case (Cons a ts)
  then show ?case by (cases i) auto
qed simp

lemma set_update_other: "i < length ts \<Longrightarrow> x \<in> set (ts[i := p]) \<Longrightarrow> x = p \<or> x \<in> set ts"
  by (metis in_set_conv_nth length_list_update nth_list_update)

lemma count_list_le: "count_list ts x \<le> length ts"
  by (induction ts) auto

lemmas gate_defs = enter_try_def leave_def begin_try_def drain_check_def reopen_def signalLocked_def Let_def

text \<open>What a step of one task leaves true for the others.\<close>

lemma task_step_frame:
  assumes "task_step g q g' p" "0 \<le> ga_inFlight g" "ga_inFlight g < max_int64"
  shows "ga_changed g \<le> ga_changed g'"
    "ga_changed g' = ga_changed g \<Longrightarrow> ga_maintenance g \<Longrightarrow> ga_maintenance g'"
    "ga_changed g' = ga_changed g \<Longrightarrow> 0 < ga_inFlight g \<Longrightarrow> 0 < ga_inFlight g'"
    "ga_maintenance g \<Longrightarrow> ga_inFlight g = 0 \<Longrightarrow> ga_inFlight g' = 0"
  using assms
  by (cases, auto simp: gate_defs add64_id sub64_id split: if_splits)+

lemma waits_for_frame:
  assumes "task_step g q g' p" "0 \<le> ga_inFlight g" "ga_inFlight g < max_int64"
    "waits_for g r" "owns r \<longrightarrow> ga_maintenance g"
  shows "waits_for g' r"
  using task_step_frame [OF assms(1-3)] assms(4,5) by (cases r) auto

text \<open>What a step does to the task itself and to the counters.\<close>

lemma task_step_self:
  assumes "task_step g q g' p" "0 \<le> ga_inFlight g" "ga_inFlight g < max_int64" "waits_for g q"
    "q = Inside \<longrightarrow> 0 < ga_inFlight g" "owns q \<longrightarrow> ga_maintenance g"
  shows "ga_inFlight g' + of_bool (q = Inside) = ga_inFlight g + of_bool (p = Inside)"
    "of_bool (ga_maintenance g') + of_bool (owns q) = (of_bool (ga_maintenance g) + of_bool (owns p) :: nat)"
    "waits_for g' p"
  using assms
  by (cases, auto simp: gate_defs add64_id sub64_id int64_defs split: if_splits)+

lemma gate_inv_step:
  assumes inv: "gate_inv (g, ts)" and i: "i < length ts" and st: "task_step g (ts ! i) g' p"
  shows "gate_inv (g', ts[i := p])"
proof -
  have n: "int (length ts) < max_int64" and f: "ga_inFlight g = int (count_list ts Inside)"
    and o: "length (filter owns ts) = of_bool (ga_maintenance g)" and w: "\<forall>q \<in> set ts. waits_for g q"
    using inv by (auto simp: gate_inv_def)
  have own: "owns q \<longrightarrow> ga_maintenance g" if "q \<in> set ts" for q
    using o that by (cases "ga_maintenance g") (auto simp: filter_empty_conv)
  have b: "0 \<le> ga_inFlight g" "ga_inFlight g < max_int64"
    using f n count_list_le [of ts Inside] by auto
  have "ts ! i = Inside \<longrightarrow> 0 < ga_inFlight g"
    using f nth_mem [OF i] by (auto simp: count_list_0_iff neq0_conv [symmetric])
  note self = task_step_self [OF st b bspec [OF w nth_mem [OF i]] this own [OF nth_mem [OF i]]]
  have "ga_inFlight g' = int (count_list (ts[i := p]) Inside)"
    using arg_cong [OF count_list_update [OF i, of p Inside], of int] f self(1) by simp
  moreover have "length (filter owns (ts[i := p])) = of_bool (ga_maintenance g')"
    using filter_length_update [OF i, of owns p] o self(2) by simp
  moreover have "waits_for g' q" if "q \<in> set (ts[i := p])" for q
    using set_update_other [OF i that] self(3) waits_for_frame [OF st b] w own by blast
  ultimately show ?thesis using n by (simp add: gate_inv_def)
qed

lemma gate_reach_inv: "gate_reach s \<Longrightarrow> gate_inv s"
proof (induction rule: gate_reach.induct)
  case (start ts)
  then have "count_list ts Inside = 0" "filter owns ts = []" "\<forall>p \<in> set ts. waits_for newAdmissionGate p"
    by (auto simp: count_list_0_iff filter_empty_conv)
  with start show ?case by (simp add: gate_inv_def newAdmissionGate_def)
next
  case (step s s')
  obtain g ts where s: "s = (g, ts)" by fastforce
  with step show ?case by (auto elim!: gate_stepE intro: gate_inv_step)
qed

section \<open>Properties\<close>

lemma owner_unique:
  "length (filter P ts) \<le> 1 \<Longrightarrow> i < length ts \<Longrightarrow> j < length ts \<Longrightarrow> P (ts ! i) \<Longrightarrow> P (ts ! j) \<Longrightarrow> i = j"
proof (induction ts arbitrary: i j)
  case (Cons a ts)
  have none: "k < length ts \<Longrightarrow> \<not> P (ts ! k)" if "P a" for k
    using Cons.prems(1) that by (auto simp: filter_empty_conv)
  show ?case
  proof (cases i)
    case 0
    then show ?thesis using Cons.prems none by (cases j) auto
  next
    case (Suc i')
    then show ?thesis using Cons.prems none Cons.IH [of i' "j - 1"] by (cases j) (auto split: if_splits)
  qed
qed simp

text \<open>C20.  Mutual exclusion at the gate.  However the tasks interleave and whichever contexts end, while a
maintenance window is open no admitted data operation is under way, at most one task drains or holds the
gate, the counter is the number of operations inside, and the panic of \<^verbatim>\<open>leave\<close> never happens.\<close>

theorem admission_exclusive:
  assumes "gate_reach (g, ts)" and "i < length ts" and "ts ! i = Maintaining" and "j < length ts"
  shows "ts ! j \<noteq> Inside \<and> (owns (ts ! j) \<longrightarrow> j = i) \<and> ga_inFlight g = int (count_list ts Inside) \<and>
    Panicked \<notin> set ts"
proof -
  have inv: "ga_inFlight g = int (count_list ts Inside)" "\<forall>p \<in> set ts. waits_for g p"
    "length (filter owns ts) \<le> 1"
    using gate_reach_inv [OF assms(1)] by (auto simp: gate_inv_def)
  have "waits_for g Maintaining" using inv(2) assms(2,3) nth_mem by metis
  then have "count_list ts Inside = 0" using inv(1) by simp
  then have "Inside \<notin> set ts" by (simp add: count_list_0_iff)
  moreover have "owns (ts ! j) \<longrightarrow> j = i"
    using owner_unique [OF inv(3) assms(2,4)] assms(3) by auto
  moreover have "Panicked \<notin> set ts" using inv(2) by force
  ultimately show ?thesis using inv(1) assms(4) nth_mem by metis
qed

text \<open>C21.  No lost wake-up.  A task that still sleeps on the current generation of the gate sleeps for a
reason: an entering task because a window is draining or open, a draining window because operations are
inside.  So once the window ends, or the last operation leaves, every sleeper can take a step.\<close>

theorem admission_no_lost_wakeup:
  assumes "gate_reach (g, ts)" and "i < length ts"
  shows "(ts ! i = EnterWait k \<and> \<not> (\<exists>q \<in> set ts. owns q) \<longrightarrow> task_step g (ts ! i) g Entering) \<and>
    (ts ! i = DrainWait k \<and> Inside \<notin> set ts \<longrightarrow> task_step g (ts ! i) g Draining)"
proof -
  have inv: "ga_inFlight g = int (count_list ts Inside)" "waits_for g (ts ! i)"
    "length (filter owns ts) = of_bool (ga_maintenance g)"
    using gate_reach_inv [OF assms(1)] assms(2) nth_mem by (auto simp: gate_inv_def)
  have "task_step g (ts ! i) g Entering" if "ts ! i = EnterWait k" "\<not> (\<exists>q \<in> set ts. owns q)"
  proof -
    have "\<not> ga_maintenance g" using inv(3) that(2) by (auto simp: filter_empty_conv [THEN iffD2])
    then have "k < ga_changed g" using inv(2) that(1) by auto
    then show ?thesis unfolding that(1) by (rule task_step.enter_wake)
  qed
  moreover have "task_step g (ts ! i) g Draining" if "ts ! i = DrainWait k" "Inside \<notin> set ts"
  proof -
    have "ga_inFlight g = 0" using inv(1) that(2) by (simp add: count_list_0_iff)
    then have "k < ga_changed g" using inv(2) that(1) by auto
    then show ?thesis unfolding that(1) by (rule task_step.drain_wake)
  qed
  ultimately show ?thesis by blast
qed

section \<open>A run\<close>

text \<open>A data operation is inside when a window begins; the next operation waits, the window drains.\<close>

lemma gate_act:
  assumes "gate_reach (g, ts)" "i < length ts" "task_step g (ts ! i) g' p" "ts' = ts[i := p]"
  shows "gate_reach (g', ts')"
  using gate_reach.step [OF assms(1) gate_step.act [OF assms(2,3)]] assms(4) by simp

definition gate_at :: "bool \<Rightarrow> int \<Rightarrow> nat \<Rightarrow> gate" where
  "gate_at m n k = \<lparr> ga_maintenance = m, ga_inFlight = n, ga_changed = k \<rparr>"

lemma gate_at_simps [simp]:
  "enter_try (gate_at False 0 0) = (gate_at False 1 0, Inside)"
  "begin_try (gate_at False 1 0) = (gate_at True 1 (Suc 0), DrainWait (Suc 0))"
  "enter_try (gate_at True 1 (Suc 0)) = (gate_at True 1 (Suc 0), EnterWait (Suc 0))"
  "leave (gate_at True 1 (Suc 0)) = (gate_at True 0 2, Left)"
  "drain_check (gate_at True 0 2) = (gate_at True 0 2, Maintaining)"
  "reopen (gate_at True 0 2) = gate_at False 0 3" "ga_changed (gate_at m n k) = k"
  by (simp_all add: gate_at_def gate_defs add64_def sub64_def wrap64_def)

lemma gate_run:
  "gate_reach (gate_at True 1 1, [Inside, DrainWait 1, EnterWait 1])"
  "gate_reach (gate_at True 0 2, [Left, DrainWait 1, EnterWait 1])"
  "gate_reach (gate_at True 0 2, [Left, Maintaining, EnterWait 1])"
  "gate_reach (gate_at False 0 3, [Left, Ended, EnterWait 1])"
proof -
  have "gate_reach (gate_at False 0 0, [Entering, Beginning, Entering])"
    using gate_reach.start [of "[Entering, Beginning, Entering]"]
    by (simp add: newAdmissionGate_def gate_at_def max_int64_def)
  from gate_act [OF this, of 0 "gate_at False 1 0" Inside "[Inside, Beginning, Entering]"]
  have "gate_reach (gate_at False 1 0, [Inside, Beginning, Entering])" by (simp add: task_step.enter)
  from gate_act [OF this, of 1 "gate_at True 1 1" "DrainWait 1" "[Inside, DrainWait 1, Entering]"]
  have "gate_reach (gate_at True 1 1, [Inside, DrainWait 1, Entering])" by (simp add: task_step.start)
  from gate_act [OF this, of 2 "gate_at True 1 1" "EnterWait 1" "[Inside, DrainWait 1, EnterWait 1]"]
  show a: "gate_reach (gate_at True 1 1, [Inside, DrainWait 1, EnterWait 1])" by (simp add: task_step.enter)
  from gate_act [OF a, of 0 "gate_at True 0 2" Left "[Left, DrainWait 1, EnterWait 1]"]
  show b: "gate_reach (gate_at True 0 2, [Left, DrainWait 1, EnterWait 1])" by (simp add: task_step.exit)
  from gate_act [OF b, of 1 "gate_at True 0 2" Draining "[Left, Draining, EnterWait 1]"]
  have "gate_reach (gate_at True 0 2, [Left, Draining, EnterWait 1])" by (simp add: task_step.drain_wake)
  from gate_act [OF this, of 1 "gate_at True 0 2" Maintaining "[Left, Maintaining, EnterWait 1]"]
  show c: "gate_reach (gate_at True 0 2, [Left, Maintaining, EnterWait 1])" by (simp add: task_step.drain)
  from gate_act [OF c, of 1 "gate_at False 0 3" Ended "[Left, Ended, EnterWait 1]"] task_step.finish [of "gate_at True 0 2"]
  show "gate_reach (gate_at False 0 3, [Left, Ended, EnterWait 1])" by simp
qed

theorem admission_exclusive_witness:
  "ga_inFlight (gate_at True 0 2) = int (count_list [Left, Maintaining, EnterWait 1] Inside) \<and>
   Panicked \<notin> set [Left, Maintaining, EnterWait 1]"
  using admission_exclusive [OF gate_run(3), of 1 0] by simp

theorem admission_no_lost_wakeup_witness:
  "task_step (gate_at False 0 3) (EnterWait 1) (gate_at False 0 3) Entering \<and>
   task_step (gate_at True 0 2) (DrainWait 1) (gate_at True 0 2) Draining"
  using admission_no_lost_wakeup [OF gate_run(4), of 2 1] admission_no_lost_wakeup [OF gate_run(2), of 1 1]
  by simp

section \<open>The maintenance window\<close>

text \<open>
  \<^verbatim>\<open>beginMaintenanceWindow\<close> around the gate.  \<open>begun\<close> is where \<^verbatim>\<open>beginMaintenance\<close> left the gate and
  the task, \<open>pre\<close> and \<open>post\<close> are the errors of the barriers; a task that is still draining has not returned.  The
  function it returns runs its body once.
\<close>

datatype window_error = WindowNilSide | WindowBusy | WindowCtx ctx_error | WindowPreBarrier string | WindowPostBarrier string

record window =
  wi_done :: bool
  wi_finishErr :: "window_error option"

definition beginMaintenanceWindow :: "bool \<Rightarrow> gate \<Rightarrow> gate \<times> task \<Rightarrow> string option \<Rightarrow> ((window_error + window) \<times> gate) option" where
  "beginMaintenanceWindow side g0 begun pre =
     (if \<not> side then Some (Inl WindowNilSide, g0)
      else case begun of
        (g, BeginBusy) \<Rightarrow> Some (Inl WindowBusy, g)
      | (g, BeginFailed e) \<Rightarrow> Some (Inl (WindowCtx e), g)
      | (g, Maintaining) \<Rightarrow>
          (case pre of Some e \<Rightarrow> Some (Inl (WindowPreBarrier e), reopen g)
           | None \<Rightarrow> Some (Inr \<lparr> wi_done = False, wi_finishErr = None \<rparr>, g))
      | _ \<Rightarrow> None)"

definition finish_window :: "string option \<Rightarrow> window \<times> gate \<Rightarrow> window_error option \<times> window \<times> gate" where
  "finish_window post wg =
     (case wg of (win, g) \<Rightarrow>
        if wi_done win then (wi_finishErr win, win, g)
        else let e = map_option WindowPostBarrier post in (e, \<lparr> wi_done = True, wi_finishErr = e \<rparr>, reopen g))"

fun finish_all :: "string option list \<Rightarrow> window \<times> gate \<Rightarrow> window_error option list \<times> window \<times> gate" where
  "finish_all [] wg = ([], wg)"
| "finish_all (post # posts) wg =
     (case finish_window post wg of (e, wg') \<Rightarrow> (case finish_all posts wg' of (es, wg'') \<Rightarrow> (e # es, wg'')))"

text \<open>
  However often a window is finished and whatever the barriers answer, the gate is opened again exactly once and
  every call returns the error of the first; a window refused by its first barrier leaves the gate open.
\<close>

lemma finish_done: "wi_done win \<Longrightarrow> finish_all posts (win, g) = (replicate (length posts) (wi_finishErr win), win, g)"
  by (induction posts) (simp_all add: finish_window_def)

lemma window_reopens_once:
  "beginMaintenanceWindow True g0 (g, Maintaining) (Some e) = Some (Inl (WindowPreBarrier e), reopen g)"
  "beginMaintenanceWindow True g0 (g, Maintaining) None = Some (Inr win, g') \<Longrightarrow>
     \<exists>win'. finish_all (post # posts) (win, g') =
       (replicate (Suc (length posts)) (map_option WindowPostBarrier post), win', reopen g) \<and> \<not> ga_maintenance (reopen g)"
  by (auto simp: beginMaintenanceWindow_def finish_window_def Let_def finish_done reopen_def signalLocked_def)

end
