(* ===== verification/SlotLedger.thy ===== *)
theory SlotLedger
  imports Resource
begin

text \<open>
  The daemon's ledger of hardware slots, \<^verbatim>\<open>src/cmd/jaccld/slot_ledger.go\<close>: counters of opened,
  closed and failed protection domains, memory regions, queue pairs and completion queues, kept per boot
  in a file that a restarted daemon reads back.

  The disk is a map from paths to files; a file is the encoding of a \<open>ledger_file\<close> or something else.
  \<open>ledger_os\<close> gives the outcome of the system calls of one operation, the clock and
  \<^verbatim>\<open>filepath.Join\<close>; the boot identifier comes from the system (\<^verbatim>\<open>currentBootID\<close>).
\<close>

section \<open>Data\<close>

record file_counts =
  fc_Opened :: u64
  fc_Closed :: u64
  fc_Failed :: u64

record ledger_file =
  lf_BootID :: string
  lf_UpdatedAt :: instant
  lf_ProtectionDomains :: file_counts
  lf_MemoryRegions :: file_counts
  lf_QueuePairs :: file_counts
  lf_CompletionQueues :: file_counts

record ledger =
  lg_path :: string
  lg_stats :: slot_stats
  lg_file :: ledger_file

datatype disk_file = LedgerData ledger_file | OtherData

type_synonym disk = "(string \<times> disk_file) list"

record ledger_os =
  lo_MkdirAll :: "string option"
  lo_Join :: "string \<Rightarrow> string \<Rightarrow> string"
  lo_ReadFile :: "string option"
  lo_WriteFile :: "(string \<times> disk_file option) option"
  lo_Rename :: "string option"
  lo_now :: instant

datatype ledger_error =
    LedgerBootID string
  | LedgerEmptyBootID
  | LedgerMkdir string
  | LedgerRead string
  | LedgerDecode
  | LedgerWrite string
  | LedgerCommit string
  | LedgerUnknownKind string

definition zero_counts :: file_counts where
  "zero_counts = \<lparr> fc_Opened = 0, fc_Closed = 0, fc_Failed = 0 \<rparr>"

definition empty_file :: "string \<Rightarrow> ledger_file" where
  "empty_file bootID = \<lparr> lf_BootID = bootID, lf_UpdatedAt = 0, lf_ProtectionDomains = zero_counts,
     lf_MemoryRegions = zero_counts, lf_QueuePairs = zero_counts, lf_CompletionQueues = zero_counts \<rparr>"

section \<open>File names\<close>

text \<open>
  The number of bytes \<^verbatim>\<open>range\<close> takes for the next rune of a string: the width of a valid
  UTF-8 sequence, or one byte of an invalid one.
\<close>

definition byte_in :: "nat \<Rightarrow> nat \<Rightarrow> char \<Rightarrow> bool" where
  "byte_in lo hi c \<longleftrightarrow> lo \<le> of_char c \<and> of_char c \<le> hi"

fun utf8_width :: "string \<Rightarrow> nat" where
  "utf8_width (a # b # c # d # s) =
     (if byte_in 0xC2 0xDF a \<and> byte_in 0x80 0xBF b then 2
      else if (byte_in 0xE0 0xE0 a \<and> byte_in 0xA0 0xBF b \<or> byte_in 0xE1 0xEC a \<and> byte_in 0x80 0xBF b \<or>
               byte_in 0xED 0xED a \<and> byte_in 0x80 0x9F b \<or> byte_in 0xEE 0xEF a \<and> byte_in 0x80 0xBF b) \<and>
              byte_in 0x80 0xBF c then 3
      else if (byte_in 0xF0 0xF0 a \<and> byte_in 0x90 0xBF b \<or> byte_in 0xF1 0xF3 a \<and> byte_in 0x80 0xBF b \<or>
               byte_in 0xF4 0xF4 a \<and> byte_in 0x80 0x8F b) \<and> byte_in 0x80 0xBF c \<and> byte_in 0x80 0xBF d then 4
      else 1)"
| "utf8_width [a, b, c] =
     (if byte_in 0xC2 0xDF a \<and> byte_in 0x80 0xBF b then 2
      else if (byte_in 0xE0 0xE0 a \<and> byte_in 0xA0 0xBF b \<or> byte_in 0xE1 0xEC a \<and> byte_in 0x80 0xBF b \<or>
               byte_in 0xED 0xED a \<and> byte_in 0x80 0x9F b \<or> byte_in 0xEE 0xEF a \<and> byte_in 0x80 0xBF b) \<and>
              byte_in 0x80 0xBF c then 3
      else 1)"
| "utf8_width [a, b] = (if byte_in 0xC2 0xDF a \<and> byte_in 0x80 0xBF b then 2 else 1)"
| "utf8_width _ = 1"

definition safe_byte :: "char \<Rightarrow> bool" where
  "safe_byte c \<longleftrightarrow> byte_in 97 122 c \<or> byte_in 65 90 c \<or> byte_in 48 57 c \<or>
     c = CHR ''.'' \<or> c = CHR ''-'' \<or> c = CHR ''_''"

lemma utf8_width_pos: "0 < utf8_width s"
  by (induction s rule: utf8_width.induct) auto

function safeBootID :: "string \<Rightarrow> string" where
  "safeBootID [] = []"
| "safeBootID (c # s) =
     (if safe_byte c then c # safeBootID s
      else CHR ''_'' # safeBootID (drop (utf8_width (c # s)) (c # s)))"
  by pat_completeness auto
termination
  by (relation "measure length") (auto simp: utf8_width_pos less_Suc_eq_le drop_Cons split: nat.splits)

section \<open>Operations\<close>

definition slotCounter :: "file_counts \<Rightarrow> int \<Rightarrow> slot_counter" where
  "slotCounter c live =
     \<lparr> sc_Opened = fc_Opened c, sc_Closed = fc_Closed c, sc_Failed = fc_Failed c,
       sc_Outstanding = (if fc_Closed c \<le> fc_Opened c then fc_Opened c - fc_Closed c else 0),
       sc_Live = live \<rparr>"

definition refreshStatsLocked :: "ledger \<Rightarrow> ledger" where
  "refreshStatsLocked l =
     (let f = lg_file l; s = lg_stats l in
      l\<lparr>lg_stats :=
        \<lparr> ss_BootID = lf_BootID f, ss_Source = ''jaccld-observed'', ss_StatePath = lg_path l,
          ss_ExternalUseUnknown = True,
          ss_ProtectionDomains = slotCounter (lf_ProtectionDomains f) (sc_Live (ss_ProtectionDomains s)),
          ss_MemoryRegions = slotCounter (lf_MemoryRegions f) (sc_Live (ss_MemoryRegions s)),
          ss_QueuePairs = slotCounter (lf_QueuePairs f) (sc_Live (ss_QueuePairs s)),
          ss_CompletionQueues = slotCounter (lf_CompletionQueues f) (sc_Live (ss_CompletionQueues s)) \<rparr>\<rparr>)"

text \<open>Write a temporary file and rename it over the ledger's.\<close>

definition saveLocked :: "ledger_os \<Rightarrow> ledger \<Rightarrow> disk \<Rightarrow> ledger_error option \<times> ledger \<times> disk" where
  "saveLocked os l d =
     (let l' = l\<lparr>lg_file := (lg_file l)\<lparr>lf_UpdatedAt := lo_now os\<rparr>\<rparr>;
          tmp = lg_path l @ ''.tmp'' in
      case lo_WriteFile os of
        Some (e, left) \<Rightarrow>
          (Some (LedgerWrite e), l', case left of None \<Rightarrow> d | Some f \<Rightarrow> AList.update tmp f d)
      | None \<Rightarrow>
          (let d1 = AList.update tmp (LedgerData (lg_file l')) d in
           case lo_Rename os of
             Some e \<Rightarrow> (Some (LedgerCommit e), l', AList.delete tmp d1)
           | None \<Rightarrow>
               (None, l', AList.update (lg_path l) (LedgerData (lg_file l')) (AList.delete tmp d1))))"

definition newSlotLedgerWithBootID ::
  "ledger_os \<Rightarrow> string \<Rightarrow> string \<Rightarrow> disk \<Rightarrow> (ledger_error + ledger) \<times> disk" where
  "newSlotLedgerWithBootID os dir bootID d =
     (if TrimSpace bootID = '''' then (Inl LedgerEmptyBootID, d)
      else
        let dir' = (if dir = '''' then ''/tmp/jaccld/slots'' else dir) in
        case lo_MkdirAll os of
          Some e \<Rightarrow> (Inl (LedgerMkdir e), d)
        | None \<Rightarrow>
            (let path = lo_Join os dir' (safeBootID bootID @ ''.json'');
                 open_with = (\<lambda>f.
                   let l = refreshStatsLocked \<lparr> lg_path = path, lg_stats = zero_slots, lg_file = f \<rparr> in
                   case saveLocked os l d of
                     (Some e, l', d') \<Rightarrow> (Inl e, d')
                   | (None, l', d') \<Rightarrow> (Inr l', d')) in
             case lo_ReadFile os of
               Some e \<Rightarrow> (Inl (LedgerRead e), d)
             | None \<Rightarrow>
                 (case map_of d path of
                    None \<Rightarrow> open_with (empty_file bootID)
                  | Some OtherData \<Rightarrow> (Inl LedgerDecode, d)
                  | Some (LedgerData f) \<Rightarrow>
                      open_with (if lf_BootID f \<noteq> bootID then empty_file bootID else f))))"

definition newSlotLedger ::
  "ledger_os \<Rightarrow> string + string \<Rightarrow> string \<Rightarrow> disk \<Rightarrow> (ledger_error + ledger) \<times> disk" where
  "newSlotLedger os currentBootID dir d =
     (case currentBootID of
        Inl e \<Rightarrow> (Inl (LedgerBootID e), d)
      | Inr bootID \<Rightarrow> newSlotLedgerWithBootID os dir bootID d)"

text \<open>\<^verbatim>\<open>counterLocked\<close>: the file counts and the live counter of a kind, to read and to write.\<close>

fun counterLocked :: "slot_kind \<Rightarrow> ledger \<Rightarrow> ledger_error + file_counts \<times> int" where
  "counterLocked SlotProtectionDomain l =
     Inr (lf_ProtectionDomains (lg_file l), sc_Live (ss_ProtectionDomains (lg_stats l)))"
| "counterLocked SlotMemoryRegion l =
     Inr (lf_MemoryRegions (lg_file l), sc_Live (ss_MemoryRegions (lg_stats l)))"
| "counterLocked SlotQueuePair l =
     Inr (lf_QueuePairs (lg_file l), sc_Live (ss_QueuePairs (lg_stats l)))"
| "counterLocked SlotCompletionQueue l =
     Inr (lf_CompletionQueues (lg_file l), sc_Live (ss_CompletionQueues (lg_stats l)))"
| "counterLocked (SlotUnknown k) l = Inl (LedgerUnknownKind k)"

fun set_counter :: "slot_kind \<Rightarrow> file_counts \<times> int \<Rightarrow> ledger \<Rightarrow> ledger" where
  "set_counter SlotProtectionDomain (c, live) l =
     l\<lparr>lg_file := (lg_file l)\<lparr>lf_ProtectionDomains := c\<rparr>, lg_stats := (lg_stats l)\<lparr>ss_ProtectionDomains :=
         (ss_ProtectionDomains (lg_stats l))\<lparr>sc_Live := live\<rparr>\<rparr>\<rparr>"
| "set_counter SlotMemoryRegion (c, live) l =
     l\<lparr>lg_file := (lg_file l)\<lparr>lf_MemoryRegions := c\<rparr>, lg_stats := (lg_stats l)\<lparr>ss_MemoryRegions :=
         (ss_MemoryRegions (lg_stats l))\<lparr>sc_Live := live\<rparr>\<rparr>\<rparr>"
| "set_counter SlotQueuePair (c, live) l =
     l\<lparr>lg_file := (lg_file l)\<lparr>lf_QueuePairs := c\<rparr>, lg_stats := (lg_stats l)\<lparr>ss_QueuePairs :=
         (ss_QueuePairs (lg_stats l))\<lparr>sc_Live := live\<rparr>\<rparr>\<rparr>"
| "set_counter SlotCompletionQueue (c, live) l =
     l\<lparr>lg_file := (lg_file l)\<lparr>lf_CompletionQueues := c\<rparr>, lg_stats := (lg_stats l)\<lparr>ss_CompletionQueues :=
         (ss_CompletionQueues (lg_stats l))\<lparr>sc_Live := live\<rparr>\<rparr>\<rparr>"
| "set_counter (SlotUnknown k) x l = l"

definition slot_update ::
  "ledger_os \<Rightarrow> slot_kind \<Rightarrow> (file_counts \<times> int \<Rightarrow> file_counts \<times> int) \<Rightarrow> ledger option \<Rightarrow> disk \<Rightarrow>
   (slot_stats \<times> ledger_error option) \<times> ledger option \<times> disk" where
  "slot_update os kind fn lo d =
     (case lo of
        None \<Rightarrow> ((zero_slots, None), None, d)
      | Some l \<Rightarrow>
          (case counterLocked kind l of
             Inl e \<Rightarrow> ((lg_stats l, Some e), Some l, d)
           | Inr c \<Rightarrow>
               (case saveLocked os (refreshStatsLocked (set_counter kind (fn c) l)) d of
                  (e, l', d') \<Rightarrow> ((lg_stats l', e), Some l', d'))))"

fun mark_opened :: "file_counts \<times> int \<Rightarrow> file_counts \<times> int" where
  "mark_opened (c, live) = (c\<lparr>fc_Opened := fc_Opened c + 1\<rparr>, add64 live 1)"

fun mark_closed :: "file_counts \<times> int \<Rightarrow> file_counts \<times> int" where
  "mark_closed (c, live) = (c\<lparr>fc_Closed := fc_Closed c + 1\<rparr>, if 0 < live then sub64 live 1 else live)"

fun mark_failed :: "file_counts \<times> int \<Rightarrow> file_counts \<times> int" where
  "mark_failed (c, live) = (c\<lparr>fc_Failed := fc_Failed c + 1\<rparr>, live)"

definition MarkOpened where
  "MarkOpened os kind = slot_update os kind mark_opened"

definition MarkClosed where
  "MarkClosed os kind = slot_update os kind mark_closed"

definition MarkFailed where
  "MarkFailed os kind = slot_update os kind mark_failed"

definition ledger_Stats :: "ledger \<Rightarrow> slot_stats" where
  "ledger_Stats l = lg_stats l"

section \<open>Histories\<close>

datatype mark = Opened | Closed | Failed

fun mark_with :: "mark \<Rightarrow> ledger_os \<Rightarrow> slot_kind \<Rightarrow> ledger option \<Rightarrow> disk \<Rightarrow>
    (slot_stats \<times> ledger_error option) \<times> ledger option \<times> disk" where
  "mark_with Opened = MarkOpened"
| "mark_with Closed = MarkClosed"
| "mark_with Failed = MarkFailed"

fun mark_fn :: "mark \<Rightarrow> file_counts \<times> int \<Rightarrow> file_counts \<times> int" where
  "mark_fn Opened = mark_opened"
| "mark_fn Closed = mark_closed"
| "mark_fn Failed = mark_failed"

lemma mark_with_update: "mark_with m os kind = slot_update os kind (mark_fn m)"
  by (cases m) (simp_all add: MarkOpened_def MarkClosed_def MarkFailed_def)

fun ledger_run :: "(ledger_os \<times> slot_kind \<times> mark) list \<Rightarrow> ledger option \<times> disk \<Rightarrow> ledger option \<times> disk" where
  "ledger_run [] x = x"
| "ledger_run ((os, kind, m) # ms) (lo, d) = ledger_run ms (snd (mark_with m os kind lo d))"

section \<open>Lemmas\<close>

lemma slotCounter_simps [simp]:
  "sc_Opened (slotCounter c v) = fc_Opened c" "sc_Closed (slotCounter c v) = fc_Closed c"
  "sc_Failed (slotCounter c v) = fc_Failed c" "sc_Live (slotCounter c v) = v"
  by (simp_all add: slotCounter_def)

lemma counter_refresh [simp]: "counterLocked k (refreshStatsLocked l) = counterLocked k l"
  by (cases k) (simp_all add: refreshStatsLocked_def Let_def)

lemma counter_set:
  "counterLocked k l = Inr c \<Longrightarrow>
   counterLocked j (set_counter k x l) = (if j = k then Inr x else counterLocked j l)"
  by (cases x; cases k; cases j) auto

text \<open>The statistics the ledger reports are those of its file and its live counters.\<close>

definition stats_ok :: "ledger \<Rightarrow> bool" where
  "stats_ok l \<longleftrightarrow> ss_BootID (lg_stats l) = lf_BootID (lg_file l) \<and>
     (\<forall>k c v. counterLocked k l = Inr (c, v) \<longrightarrow> slot_stats_Counter (lg_stats l) k = slotCounter c v)"

lemma stats_ok_refresh: "stats_ok (refreshStatsLocked l)"
proof -
  have "slot_stats_Counter (lg_stats (refreshStatsLocked l)) k = slotCounter c v"
    if "counterLocked k (refreshStatsLocked l) = Inr (c, v)" for k c v
    using that by (cases k) (auto simp: refreshStatsLocked_def Let_def)
  then show ?thesis by (simp add: stats_ok_def refreshStatsLocked_def Let_def)
qed

lemma save_counters:
  assumes "saveLocked os l d = (e, l', d')"
  shows "counterLocked k l' = counterLocked k l" "lg_stats l' = lg_stats l" "lg_path l' = lg_path l"
    "lf_BootID (lg_file l') = lf_BootID (lg_file l)" "stats_ok l \<Longrightarrow> stats_ok l'"
proof -
  have l': "l' = l\<lparr>lg_file := (lg_file l)\<lparr>lf_UpdatedAt := lo_now os\<rparr>\<rparr>"
    using assms by (auto simp: saveLocked_def Let_def split: option.splits)
  show c: "counterLocked k l' = counterLocked k l" for k
    unfolding l' by (cases k) simp_all
  show "lg_stats l' = lg_stats l" "lg_path l' = lg_path l" "lf_BootID (lg_file l') = lf_BootID (lg_file l)"
    by (simp_all add: l')
  then show "stats_ok l \<Longrightarrow> stats_ok l'" by (simp add: stats_ok_def c)
qed

lemma tmp_neq: "p \<noteq> p @ ''.tmp''" "p @ ''.tmp'' \<noteq> p"
  by simp_all

text \<open>The ledger's file changes only when the save succeeds, and then holds the ledger's counts.\<close>

lemma save_disk:
  assumes "saveLocked os l d = (e, l', d')"
  shows "map_of d' (lg_path l) = (if e = None then Some (LedgerData (lg_file l')) else map_of d (lg_path l))"
  using assms
  by (auto simp: saveLocked_def Let_def map_of_update map_of_delete tmp_neq split: option.splits)

lemma slot_update_known:
  assumes "counterLocked k l = Inr c" "slot_update os k fn (Some l) d = ((st, e), lo, d')"
  shows "\<exists>l'. lo = Some l' \<and> stats_ok l' \<and> st = lg_stats l' \<and> lg_path l' = lg_path l \<and>
    lf_BootID (lg_file l') = lf_BootID (lg_file l) \<and>
    (\<forall>j. counterLocked j l' = (if j = k then Inr (fn c) else counterLocked j l)) \<and>
    map_of d' (lg_path l) = (if e = None then Some (LedgerData (lg_file l')) else map_of d (lg_path l))"
proof -
  let ?l = "refreshStatsLocked (set_counter k (fn c) l)"
  obtain l' where s: "saveLocked os ?l d = (e, l', d')" "lo = Some l'" "st = lg_stats l'"
    using assms by (auto simp: slot_update_def split: prod.splits)
  have keep: "lg_path (set_counter k x l) = lg_path l" "lf_BootID (lg_file (set_counter k x l)) = lf_BootID (lg_file l)"
    for x by (cases x; cases k; simp)+
  then have "lg_path ?l = lg_path l" "lf_BootID (lg_file ?l) = lf_BootID (lg_file l)"
    by (simp_all add: refreshStatsLocked_def Let_def)
  then show ?thesis
    using save_counters [OF s(1)] save_disk [OF s(1)] stats_ok_refresh [of "set_counter k (fn c) l"]
      counter_set [OF assms(1)] s(2,3) by simp
qed

fun unknown_kind :: "slot_kind \<Rightarrow> bool" where
  "unknown_kind (SlotUnknown k) = True"
| "unknown_kind _ = False"

lemma counter_known: "\<not> unknown_kind k \<Longrightarrow> \<exists>c v. counterLocked k l = Inr (c, v)"
  by (cases k) auto

lemma slot_update_unknown:
  "unknown_kind k \<Longrightarrow> \<exists>e. slot_update os k fn (Some l) d = ((lg_stats l, Some e), Some l, d)"
  by (cases k) (auto simp: slot_update_def)

text \<open>A history of marks folds them, kind by kind, into the counters.\<close>

definition marks_of :: "slot_kind \<Rightarrow> (ledger_os \<times> slot_kind \<times> mark) list \<Rightarrow> mark list" where
  "marks_of k ms = map (snd \<circ> snd) (filter (\<lambda>(os, j, m). j = k) ms)"

lemma ledger_run_fold:
  assumes "stats_ok l"
  shows "\<exists>l' d'. ledger_run ms (Some l, d) = (Some l', d') \<and> stats_ok l' \<and> lg_path l' = lg_path l \<and>
    lf_BootID (lg_file l') = lf_BootID (lg_file l) \<and>
    (\<forall>k c. counterLocked k l = Inr c \<longrightarrow> counterLocked k l' = Inr (fold mark_fn (marks_of k ms) c))"
  using assms
proof (induction ms arbitrary: l d)
  case Nil
  then show ?case by (simp add: marks_of_def)
next
  case (Cons x ms)
  obtain os k m where x: "x = (os, k, m)" using prod_cases3 by blast
  obtain st e lo d1 where u: "slot_update os k (mark_fn m) (Some l) d = ((st, e), lo, d1)"
    by (metis surj_pair)
  show ?case
  proof (cases "unknown_kind k")
    case True
    then have "lo = Some l" "d1 = d" "counterLocked k l \<noteq> Inr c" for c
      using slot_update_unknown [OF True, of os "mark_fn m" l d] u by (cases k; auto)+
    then show ?thesis
      using Cons.IH [OF Cons.prems, of d] u x
      by (auto simp: mark_with_update marks_of_def)
  next
    case False
    then obtain c where c: "counterLocked k l = Inr c" using counter_known by metis
    from slot_update_known [OF c u] obtain l1 where l1: "lo = Some l1" "stats_ok l1" "lg_path l1 = lg_path l"
      "lf_BootID (lg_file l1) = lf_BootID (lg_file l)"
      "\<forall>j. counterLocked j l1 = (if j = k then Inr (mark_fn m c) else counterLocked j l)" by blast
    from Cons.IH [OF l1(2), of d1] obtain l' d' where I: "ledger_run ms (Some l1, d1) = (Some l', d')"
      "stats_ok l'" "lg_path l' = lg_path l1" "lf_BootID (lg_file l') = lf_BootID (lg_file l1)"
      "\<forall>k c. counterLocked k l1 = Inr c \<longrightarrow> counterLocked k l' = Inr (fold mark_fn (marks_of k ms) c)"
      by blast
    have "counterLocked j l' = Inr (fold mark_fn (marks_of j (x # ms)) b)" if "counterLocked j l = Inr b" for j b
    proof (cases "j = k")
      case True
      have "counterLocked k l1 = Inr (mark_fn m c)" using l1(5) by simp
      with I(5) have "counterLocked k l' = Inr (fold mark_fn (marks_of k ms) (mark_fn m c))" by blast
      then show ?thesis using True that c x by (simp add: marks_of_def)
    next
      case False
      with l1(5) that have "counterLocked j l1 = Inr b" by simp
      with I(5) have "counterLocked j l' = Inr (fold mark_fn (marks_of j ms) b)" by blast
      then show ?thesis using False x by (simp add: marks_of_def)
    qed
    then show ?thesis
      using I(1-4) u x l1(1,3,4) by (simp add: mark_with_update)
  qed
qed

lemma count_list_append [simp]: "count_list (xs @ ys) x = count_list xs x + count_list ys x"
  by (induction xs) auto

definition counts_after :: "mark list \<Rightarrow> file_counts" where
  "counts_after ms = \<lparr> fc_Opened = of_nat (count_list ms Opened), fc_Closed = of_nat (count_list ms Closed),
     fc_Failed = of_nat (count_list ms Failed) \<rparr>"

lemma marks_fold:
  assumes "\<forall>n. count_list (take n ms) Closed \<le> count_list (take n ms) Opened" "int (length ms) < max_int64"
  shows "fold mark_fn ms (zero_counts, 0) =
    (counts_after ms, int (count_list ms Opened) - int (count_list ms Closed))"
  using assms
proof (induction ms rule: rev_induct)
  case Nil
  then show ?case by (simp add: counts_after_def zero_counts_def)
next
  case (snoc m ms)
  have "count_list (take n ms) Closed \<le> count_list (take n ms) Opened" for n
    using snoc.prems(1) [rule_format, of "min n (length ms)"] by (cases "n \<le> length ms") simp_all
  then have IH: "fold mark_fn ms (zero_counts, 0) =
      (counts_after ms, int (count_list ms Opened) - int (count_list ms Closed))"
    using snoc by simp
  have le: "count_list (ms @ [m]) Closed \<le> count_list (ms @ [m]) Opened"
    using snoc.prems(1) [rule_format, of "length (ms @ [m])"] by simp
  have b: "int (count_list ms Opened) < max_int64 - 1"
    using snoc.prems(2) count_le_length [of ms Opened] by simp
  have a: "add64 (int (count_list ms Opened) - int (count_list ms Closed)) 1 =
      int (count_list ms Opened) - int (count_list ms Closed) + 1" if "m = Opened"
    using b le that by (intro add64_id) (auto simp: int64_defs)
  have s: "sub64 (int (count_list ms Opened) - int (count_list ms Closed)) 1 =
      int (count_list ms Opened) - int (count_list ms Closed) - 1" if "m = Closed"
    using b le that by (intro sub64_id) (auto simp: int64_defs)
  show ?case
    using IH le a s by (cases m) (auto simp: counts_after_def)
qed

lemma open_fresh:
  assumes "newSlotLedgerWithBootID os dir boot d = (Inr l, d')"
  shows "\<exists>f. map_of d (lg_path l) \<noteq> Some OtherData \<and> stats_ok l \<and> lf_BootID (lg_file l) = boot \<and>
    map_of d' (lg_path l) = Some (LedgerData (lg_file l)) \<and>
    f = (case map_of d (lg_path l) of Some (LedgerData g) \<Rightarrow> if lf_BootID g = boot then g else empty_file boot
         | _ \<Rightarrow> empty_file boot) \<and>
    (\<forall>k. counterLocked k l = counterLocked k \<lparr> lg_path = lg_path l, lg_stats = zero_slots, lg_file = f \<rparr>)"
proof -
  define path where "path = lo_Join os (if dir = '''' then ''/tmp/jaccld/slots'' else dir) (safeBootID boot @ ''.json'')"
  define f where "f = (case map_of d path of Some (LedgerData g) \<Rightarrow> if lf_BootID g = boot then g else empty_file boot
         | _ \<Rightarrow> empty_file boot)"
  let ?l = "refreshStatsLocked \<lparr> lg_path = path, lg_stats = zero_slots, lg_file = f \<rparr>"
  have s: "saveLocked os ?l d = (None, l, d')" and o: "map_of d path \<noteq> Some OtherData"
    using assms unfolding newSlotLedgerWithBootID_def Let_def f_def path_def
    by (auto split: if_splits option.splits disk_file.splits prod.splits)
  have "lg_path ?l = path" "lf_BootID (lg_file ?l) = boot"
    by (auto simp: refreshStatsLocked_def Let_def f_def empty_file_def split: option.splits disk_file.splits)
  with s o show ?thesis
    using save_counters [OF s] save_disk [OF s] stats_ok_refresh f_def by auto
qed

section \<open>Properties\<close>


lemma open_path:
  assumes "newSlotLedgerWithBootID os dir boot d = (Inr l, d')"
  shows "lg_path l = lo_Join os (if dir = '''' then ''/tmp/jaccld/slots'' else dir) (safeBootID boot @ ''.json'')"
proof -
  define path where "path = lo_Join os (if dir = '''' then ''/tmp/jaccld/slots'' else dir) (safeBootID boot @ ''.json'')"
  have "\<exists>f e. saveLocked os (refreshStatsLocked \<lparr> lg_path = path, lg_stats = zero_slots, lg_file = f \<rparr>) d = (e, l, d')"
    using assms unfolding newSlotLedgerWithBootID_def Let_def path_def
    by (auto split: if_splits option.splits disk_file.splits prod.splits)
  then show ?thesis
    unfolding path_def [symmetric] by (auto dest: save_counters(3) simp: refreshStatsLocked_def Let_def)
qed

text \<open>The ledger survives the daemon.  When the last write of the file succeeded, a daemon started
again in the same boot reads back, for every kind, the opened, closed, failed and outstanding counts the
previous daemon reported, with no live slot; when a write fails, the file of the last successful write is
still in place.\<close>

lemma ledger_recovers:
  assumes "newSlotLedgerWithBootID os dir boot d = (Inr l0, d0)"
    and "ledger_run ms (Some l0, d0) = (Some l, d1)" and "\<not> unknown_kind k"
    and "mark_with m os1 k (Some l) d1 = ((st, e), lo, d2)"
    and "lo_Join os2 = lo_Join os" and "\<not> unknown_kind j"
  shows "(e = None \<and> newSlotLedgerWithBootID os2 dir boot d2 = (Inr l3, d3) \<longrightarrow>
      slot_stats_Counter (ledger_Stats l3) j = (slot_stats_Counter st j)\<lparr>sc_Live := 0\<rparr>) \<and>
    (e \<noteq> None \<longrightarrow> map_of d2 (lg_path l) = map_of d1 (lg_path l))"
proof -
  note O = open_fresh [OF assms(1)]
  have P: "lg_path l = lg_path l0" "lf_BootID (lg_file l) = boot" "stats_ok l"
    using ledger_run_fold [of l0 ms d0] O assms(2) by auto
  obtain c where c: "counterLocked k l = Inr c" using counter_known [OF assms(3)] by metis
  have u: "slot_update os1 k (mark_fn m) (Some l) d1 = ((st, e), lo, d2)"
    using assms(4) by (simp add: mark_with_update)
  from slot_update_known [OF c u] obtain l2 where l2: "stats_ok l2" "st = lg_stats l2" "lg_path l2 = lg_path l"
    "lf_BootID (lg_file l2) = boot"
    "map_of d2 (lg_path l) = (if e = None then Some (LedgerData (lg_file l2)) else map_of d1 (lg_path l))"
    using P(2) by auto
  have "slot_stats_Counter (ledger_Stats l3) j = (slot_stats_Counter st j)\<lparr>sc_Live := 0\<rparr>"
    if e: "e = None" and r: "newSlotLedgerWithBootID os2 dir boot d2 = (Inr l3, d3)"
  proof -
    have path: "lg_path l3 = lg_path l"
      using open_path [OF r] open_path [OF assms(1)] assms(5) P(1) by simp
    have R: "stats_ok l3" "counterLocked j l3 =
        counterLocked j \<lparr> lg_path = lg_path l3, lg_stats = zero_slots, lg_file = lg_file l2 \<rparr>"
      using open_fresh [OF r] l2(4,5) e path by auto
    obtain b v where b: "counterLocked j l2 = Inr (b, v)" using counter_known [OF assms(6)] by metis
    then have "counterLocked j l3 = Inr (b, 0)"
      unfolding R(2) using assms(6) by (cases j) (auto simp: zero_slots_def zero_counter_def)
    then show ?thesis
      using R(1) l2(1,2) b by (simp add: stats_ok_def ledger_Stats_def slotCounter_def)
  qed
  moreover have "map_of d2 (lg_path l) = map_of d1 (lg_path l)" if "e \<noteq> None"
    using l2(5) that by simp
  ultimately show ?thesis by blast
qed

section \<open>A small ledger\<close>

definition disk_fine :: ledger_os where
  "disk_fine = \<lparr> lo_MkdirAll = None, lo_Join = (\<lambda>a b. a @ ''/'' @ b), lo_ReadFile = None,
     lo_WriteFile = None, lo_Rename = None, lo_now = 7 \<rparr>"

definition disk_full :: ledger_os where
  "disk_full = disk_fine\<lparr>lo_WriteFile := Some (''no space'', Some OtherData)\<rparr>"

definition ledger_a :: ledger where
  "ledger_a = refreshStatsLocked \<lparr> lg_path = ''d/a.json'', lg_stats = zero_slots,
     lg_file = (empty_file ''a'')\<lparr>lf_UpdatedAt := 7\<rparr> \<rparr>"

lemma open_a: "newSlotLedgerWithBootID disk_fine ''d'' ''a'' [] =
  (Inr ledger_a, [(''d/a.json'', LedgerData (lg_file ledger_a))])"
proof -
  have "TrimSpace ''a'' = ''a''" "safeBootID ''a'' = ''a''" by code_simp+
  then show ?thesis
    by (simp add: newSlotLedgerWithBootID_def disk_fine_def saveLocked_def ledger_a_def
        refreshStatsLocked_def Let_def)
qed

lemma path_a: "lg_path ledger_a = ''d/a.json''"
  by (simp add: ledger_a_def refreshStatsLocked_def Let_def)

text \<open>Two queue pairs are opened, the second while the disk is full; one is closed.\<close>

definition marks_a :: "(ledger_os \<times> slot_kind \<times> mark) list" where
  "marks_a = [(disk_fine, SlotQueuePair, Opened), (disk_full, SlotQueuePair, Opened), (disk_fine, SlotQueuePair, Closed)]"

lemma marks_of_a: "marks_of SlotQueuePair marks_a = [Opened, Opened, Closed]"
  by (simp add: marks_of_def marks_a_def)


lemma ledger_recovers_witness:
  "\<exists>st lo d2 l3 d3. mark_with Opened disk_fine SlotQueuePair (Some ledger_a)
      [(''d/a.json'', LedgerData (lg_file ledger_a))] = ((st, None), lo, d2) \<and>
    newSlotLedgerWithBootID disk_fine ''d'' ''a'' d2 = (Inr l3, d3) \<and>
    slot_stats_Counter (ledger_Stats l3) SlotQueuePair = (slot_stats_Counter st SlotQueuePair)\<lparr>sc_Live := 0\<rparr>"
proof -
  let ?d = "[(''d/a.json'', LedgerData (lg_file ledger_a))]"
  obtain st e lo d2 where m: "mark_with Opened disk_fine SlotQueuePair (Some ledger_a) ?d = ((st, e), lo, d2)"
    by (metis surj_pair)
  then have e: "e = None" and d2: "\<exists>f. map_of d2 ''d/a.json'' = Some (LedgerData f)"
    by (auto simp: MarkOpened_def slot_update_def saveLocked_def disk_fine_def Let_def path_a
        refreshStatsLocked_def map_of_update)
  have "TrimSpace ''a'' = ''a''" "safeBootID ''a'' = ''a''" by code_simp+
  with d2 obtain l3 d3 where r: "newSlotLedgerWithBootID disk_fine ''d'' ''a'' d2 = (Inr l3, d3)"
    by (auto simp: newSlotLedgerWithBootID_def disk_fine_def saveLocked_def Let_def split: prod.splits)
  have "slot_stats_Counter (ledger_Stats l3) SlotQueuePair = (slot_stats_Counter st SlotQueuePair)\<lparr>sc_Live := 0\<rparr>"
    using ledger_recovers [OF open_a, of "[]" ledger_a ?d SlotQueuePair Opened disk_fine st e lo d2 disk_fine
        SlotQueuePair l3 d3] m e r by simp
  with m e r show ?thesis by blast
qed

end
