(* ===== verification/Topology.thy ===== *)
theory Topology
  imports GoStrings "HOL-Library.List_Lexorder" "HOL-Library.Char_ord"
begin

text \<open>
  Device matrices, \<^verbatim>\<open>src/internal/topology\<close>: the four validators, the choice of a topology
  and the summary.  A matrix is a list of rows of cells; a cell is a Go slice of device names, \<open>None\<close>
  when it is nil.  A nested loop that returns the first error is \<open>first_err\<close> over the pairs it visits,
  in order; the breadth-first search of \<open>ValidateConnected\<close> keeps its queue and its \<^verbatim>\<open>seen\<close>
  slice.

  Lemmas: what each validator accepts; the search computes reachability; every topology \<open>Choose\<close> can
  return implies a connected graph, so \<open>Choose\<close> fails exactly when \<open>ValidateConnected\<close> does.
\<close>

section \<open>Validators\<close>

type_synonym cell = "string list option"
type_synonym matrix = "cell list list"

datatype topology = Unknown | Mesh | Ring | Line | Connected

fun topology_String :: "topology \<Rightarrow> string" where
  "topology_String Mesh = ''mesh''"
| "topology_String Ring = ''ring''"
| "topology_String Line = ''line''"
| "topology_String Connected = ''connected''"
| "topology_String Unknown = ''unknown''"

datatype topo_error =
    EmptyMatrix
  | RowLength nat nat nat
  | NilCell nat nat
  | TooFewRanks topology
  | MissingMesh nat nat
  | OneWayMesh nat nat
  | MissingRing nat
  | RingWires nat nat nat nat
  | NonAdjacentRing nat nat
  | NonAdjacentLine nat nat
  | MissingLine nat nat
  | LineWires nat nat nat nat
  | OneWayConnected nat nat
  | NotConnected nat
  | NoTopology topo_error topo_error topo_error topo_error
  | DigestError string

text \<open>\<^verbatim>\<open>for ... { if bad { return err } }; return nil\<close>\<close>

fun first_err :: "('a \<Rightarrow> 'e option) \<Rightarrow> 'a list \<Rightarrow> 'e option" where
  "first_err f [] = None"
| "first_err f (x # xs) = (case f x of Some e \<Rightarrow> Some e | None \<Rightarrow> first_err f xs)"

definition pairs :: "nat \<Rightarrow> (nat \<times> nat) list" where
  "pairs n = concat (map (\<lambda>i. map (Pair i) [0..<n]) [0..<n])"

definition cell :: "matrix \<Rightarrow> nat \<Rightarrow> nat \<Rightarrow> cell" where
  "cell m i j = m ! i ! j"

definition paths_of :: "cell \<Rightarrow> string list" where
  "paths_of c = (case c of None \<Rightarrow> [] | Some ps \<Rightarrow> ps)"

definition usablePathCount :: "cell \<Rightarrow> nat" where
  "usablePathCount c = foldl (\<lambda>n p. if TrimSpace p \<noteq> '''' then Suc n else n) 0 (paths_of c)"

definition hasPath :: "cell \<Rightarrow> bool" where
  "hasPath c \<longleftrightarrow> usablePathCount c > 0"

fun check_row :: "nat \<Rightarrow> nat \<Rightarrow> cell list \<Rightarrow> topo_error option" where
  "check_row i j [] = None"
| "check_row i j (None # cs) = Some (NilCell i j)"
| "check_row i j (Some ps # cs) = check_row i (Suc j) cs"

definition ValidateDeviceMatrix :: "matrix \<Rightarrow> topo_error option" where
  "ValidateDeviceMatrix m =
     (let n = length m in
      if n = 0 then Some EmptyMatrix
      else first_err (\<lambda>i. if length (m ! i) \<noteq> n then Some (RowLength i (length (m ! i)) n)
                          else check_row i 0 (m ! i)) [0..<n])"

definition ValidateMesh :: "matrix \<Rightarrow> topo_error option" where
  "ValidateMesh m =
     (case ValidateDeviceMatrix m of Some e \<Rightarrow> Some e
      | None \<Rightarrow>
          let n = length m in
          if n < 2 then Some (TooFewRanks Mesh)
          else first_err (\<lambda>(src, dst).
            if src = dst then None
            else if \<not> hasPath (cell m src dst) then Some (MissingMesh src dst)
            else if \<not> hasPath (cell m dst src) then Some (OneWayMesh src dst)
            else None) (pairs n))"

definition ring_adjacent :: "nat \<Rightarrow> nat \<Rightarrow> nat \<Rightarrow> bool" where
  "ring_adjacent n src dst \<longleftrightarrow> dst = (src + n - 1) mod n \<or> dst = (src + 1) mod n"

definition ValidateRing :: "matrix \<Rightarrow> topo_error option" where
  "ValidateRing m =
     (case ValidateDeviceMatrix m of Some e \<Rightarrow> Some e
      | None \<Rightarrow>
          let n = length m in
          if n < 2 then Some (TooFewRanks Ring)
          else
            let wireCount = usablePathCount (cell m 0 (1 mod n)) in
            if wireCount = 0 then Some (MissingRing (1 mod n))
            else first_err (\<lambda>(src, dst).
              if src = dst then None
              else
                let ps = usablePathCount (cell m src dst) in
                if ring_adjacent n src dst
                then (if ps \<noteq> wireCount then Some (RingWires src dst ps wireCount) else None)
                else (if ps \<noteq> 0 then Some (NonAdjacentRing src dst) else None)) (pairs n))"

text \<open>The loop of \<open>ValidateLine\<close> fixes the wire count at the first adjacent pair it meets.\<close>

fun line_loop :: "matrix \<Rightarrow> nat \<Rightarrow> (nat \<times> nat) list \<Rightarrow> topo_error option" where
  "line_loop m wireCount [] = None"
| "line_loop m wireCount ((src, dst) # rest) =
     (if src = dst then line_loop m wireCount rest
      else
        let adjacent = (dst + 1 = src \<or> dst = src + 1); ps = usablePathCount (cell m src dst) in
        if \<not> adjacent
        then (if ps \<noteq> 0 then Some (NonAdjacentLine src dst) else line_loop m wireCount rest)
        else if ps = 0 then Some (MissingLine src dst)
        else
          let wireCount' = (if wireCount = 0 then ps else wireCount) in
          if ps \<noteq> wireCount' then Some (LineWires src dst ps wireCount')
          else line_loop m wireCount' rest)"

definition ValidateLine :: "matrix \<Rightarrow> topo_error option" where
  "ValidateLine m =
     (case ValidateDeviceMatrix m of Some e \<Rightarrow> Some e
      | None \<Rightarrow>
          let n = length m in
          if n < 2 then Some (TooFewRanks Line) else line_loop m 0 (pairs n))"

text \<open>One round of the search: the inner loop over \<^verbatim>\<open>dst\<close>, then the outer loop over the queue.\<close>

fun bfs_visit :: "matrix \<Rightarrow> nat \<Rightarrow> nat list \<Rightarrow> bool list \<Rightarrow> nat list \<Rightarrow> bool list \<times> nat list" where
  "bfs_visit m src [] seen queue = (seen, queue)"
| "bfs_visit m src (dst # dsts) seen queue =
     (if src = dst \<or> seen ! dst \<or> \<not> hasPath (cell m src dst) then bfs_visit m src dsts seen queue
      else bfs_visit m src dsts (seen[dst := True]) (queue @ [dst]))"

lemma bfs_visit_measure:
  assumes "\<forall>d \<in> set dsts. d < length seen" "bfs_visit m src dsts seen queue = (seen', queue')"
  shows "length seen' = length seen \<and>
    length (filter Not seen') + length queue' = length (filter Not seen) + length queue"
  using assms
proof (induction dsts arbitrary: seen queue)
  case (Cons d dsts)
  show ?case
  proof (cases "src = d \<or> seen ! d \<or> \<not> hasPath (cell m src d)")
    case True
    then show ?thesis using Cons by simp
  next
    case False
    have d: "d < length seen" using Cons.prems by simp
    have "length (filter Not (seen[d := True])) + 1 = length (filter Not seen)"
    proof -
      have s: "seen = take d seen @ seen ! d # drop (Suc d) seen" using d by (simp add: id_take_nth_drop)
      have "seen[d := True] = take d seen @ True # drop (Suc d) seen"
        using d by (simp add: upd_conv_take_nth_drop)
      then show ?thesis
        using False by (subst (2) s) simp
    qed
    then show ?thesis
      using Cons.IH [of "seen[d := True]" "queue @ [d]"] Cons.prems False by simp
  qed
qed simp

function bfs :: "matrix \<Rightarrow> bool list \<Rightarrow> nat list \<Rightarrow> bool list" where
  "bfs m seen [] = seen"
| "bfs m seen (src # queue) =
     (case bfs_visit m src [0..<length seen] seen queue of (seen', queue') \<Rightarrow> bfs m seen' queue')"
  by pat_completeness auto
termination
  by (relation "measure (\<lambda>(m, seen, queue). length (filter Not seen) + length queue)")
    (auto split: prod.splits dest!: bfs_visit_measure [rotated])

definition upper_pairs :: "nat \<Rightarrow> (nat \<times> nat) list" where
  "upper_pairs n = concat (map (\<lambda>i. map (Pair i) [i + 1..<n]) [0..<n])"

definition ValidateConnected :: "matrix \<Rightarrow> topo_error option" where
  "ValidateConnected m =
     (case ValidateDeviceMatrix m of Some e \<Rightarrow> Some e
      | None \<Rightarrow>
          let n = length m in
          if n < 2 then Some (TooFewRanks Connected)
          else
            (case first_err (\<lambda>(src, dst).
                if hasPath (cell m src dst) \<noteq> hasPath (cell m dst src)
                then Some (OneWayConnected src dst) else None) (upper_pairs n) of
              Some e \<Rightarrow> Some e
            | None \<Rightarrow>
                let seen = bfs m ((replicate n False)[0 := True]) [0] in
                first_err (\<lambda>rank. if \<not> seen ! rank then Some (NotConnected rank) else None) [0..<n]))"

definition Choose :: "matrix \<Rightarrow> bool \<Rightarrow> topo_error + topology" where
  "Choose m preferRing =
     (let meshErr = ValidateMesh m; ringErr = ValidateRing m; lineErr = ValidateLine m;
          connectedErr = ValidateConnected m in
      if preferRing \<and> ringErr = None then Inr Ring
      else if meshErr = None then Inr Mesh
      else if ringErr = None then Inr Ring
      else if lineErr = None then Inr Line
      else if connectedErr = None then Inr Connected
      else Inl (NoTopology (the meshErr) (the ringErr) (the lineErr) (the connectedErr)))"

section \<open>Summary\<close>

record summary =
  sm_Topology :: topology
  sm_Ranks :: nat
  sm_DirectedEdges :: nat
  sm_EmptyEdges :: nat
  sm_TotalWires :: nat
  sm_MaxWires :: nat
  sm_Devices :: "string list"
  sm_PrimaryDevices :: "string list"
  sm_MatrixSHA256 :: string

fun firstUsablePath :: "string list \<Rightarrow> string" where
  "firstUsablePath [] = ''''"
| "firstUsablePath (p # ps) = (let p' = TrimSpace p in if p' \<noteq> '''' then p' else firstUsablePath ps)"

fun addUnique :: "string list \<Rightarrow> string \<Rightarrow> string list" where
  "addUnique xs v = (if v \<in> set xs then xs else xs @ [v])"

text \<open>The body of the double loop of \<open>Summarize\<close> for one cell.\<close>

definition summarize_cell :: "summary \<Rightarrow> (nat \<times> nat \<times> cell) \<Rightarrow> summary" where
  "summarize_cell s = (\<lambda>(src, dst, c).
     if src = dst then s
     else
       let n = usablePathCount c in
       if n = 0 then s\<lparr>sm_EmptyEdges := Suc (sm_EmptyEdges s)\<rparr>
       else
         let s1 = s\<lparr>sm_DirectedEdges := Suc (sm_DirectedEdges s), sm_TotalWires := sm_TotalWires s + n,
                    sm_MaxWires := (if n > sm_MaxWires s then n else sm_MaxWires s),
                    sm_Devices := foldl (\<lambda>ds p. let p' = TrimSpace p in
                        if p' = '''' then ds else addUnique ds p') (sm_Devices s) (paths_of c)\<rparr>;
             p = firstUsablePath (paths_of c) in
         if p \<noteq> '''' then s1\<lparr>sm_PrimaryDevices := addUnique (sm_PrimaryDevices s1) p\<rparr> else s1)"

definition cells :: "matrix \<Rightarrow> (nat \<times> nat \<times> cell) list" where
  "cells m = concat (map (\<lambda>i. map (\<lambda>j. (i, j, m ! i ! j)) [0..<length (m ! i)]) [0..<length m])"

text \<open>\<open>Summarize\<close>; the digest (SHA-256 of the JSON text) is the parameter \<open>digest\<close>.\<close>

definition Summarize :: "(matrix \<Rightarrow> string + string) \<Rightarrow> matrix \<Rightarrow> bool \<Rightarrow> topo_error + summary" where
  "Summarize digest m preferRing =
     (case Choose m preferRing of Inl e \<Rightarrow> Inl e
      | Inr topo \<Rightarrow>
          (case digest m of Inl e \<Rightarrow> Inl (DigestError e)
           | Inr d \<Rightarrow>
               let s = foldl summarize_cell
                 \<lparr> sm_Topology = topo, sm_Ranks = length m, sm_DirectedEdges = 0, sm_EmptyEdges = 0,
                   sm_TotalWires = 0, sm_MaxWires = 0, sm_Devices = [], sm_PrimaryDevices = [],
                   sm_MatrixSHA256 = d \<rparr> (cells m) in
               Inr (s\<lparr>sm_Devices := sort (sm_Devices s), sm_PrimaryDevices := sort (sm_PrimaryDevices s)\<rparr>)))"

section \<open>What the validators accept\<close>

lemma first_err_None [simp]: "first_err f xs = None \<longleftrightarrow> (\<forall>x \<in> set xs. f x = None)"
  by (induction xs) (auto split: option.splits)

lemma set_pairs [simp]: "set (pairs n) = {(i, j). i < n \<and> j < n}"
  by (auto simp: pairs_def)

lemma set_upper_pairs [simp]: "set (upper_pairs n) = {(i, j). i < j \<and> j < n}"
  by (auto simp: upper_pairs_def image_iff)

lemma usablePathCount_filter:
  "usablePathCount c = length (filter (\<lambda>p. TrimSpace p \<noteq> '''') (paths_of c))"
proof -
  have "foldl (\<lambda>n p. if TrimSpace p \<noteq> '''' then Suc n else n) k ps =
      k + length (filter (\<lambda>p. TrimSpace p \<noteq> '''') ps)" for k ps
    by (induction ps arbitrary: k) auto
  then show ?thesis by (simp add: usablePathCount_def)
qed

lemma check_row_None [simp]: "check_row i j cs = None \<longleftrightarrow> None \<notin> set cs"
  by (induction i j cs rule: check_row.induct) auto

text \<open>A non-empty square matrix without nil cells.\<close>

definition square :: "matrix \<Rightarrow> bool" where
  "square m \<longleftrightarrow> m \<noteq> [] \<and> (\<forall>row \<in> set m. length row = length m \<and> None \<notin> set row)"

lemma ValidateDeviceMatrix_None: "ValidateDeviceMatrix m = None \<longleftrightarrow> square m"
  by (auto simp: ValidateDeviceMatrix_def square_def Let_def all_set_conv_all_nth split: if_splits)

definition edge :: "matrix \<Rightarrow> (nat \<times> nat) set" where
  "edge m = {(i, j). i < length m \<and> j < length m \<and> i \<noteq> j \<and> hasPath (cell m i j)}"

lemma ValidateMesh_None:
  "ValidateMesh m = None \<longleftrightarrow> square m \<and> 2 \<le> length m \<and>
     (\<forall>i < length m. \<forall>j < length m. i \<noteq> j \<longrightarrow> (i, j) \<in> edge m)"
proof -
  have "(\<forall>x \<in> set (pairs (length m)). (case x of (src, dst) \<Rightarrow>
      if src = dst then None
      else if \<not> hasPath (cell m src dst) then Some (MissingMesh src dst)
      else if \<not> hasPath (cell m dst src) then Some (OneWayMesh src dst) else None) = None) \<longleftrightarrow>
    (\<forall>i < length m. \<forall>j < length m. i \<noteq> j \<longrightarrow> (i, j) \<in> edge m)"
    by (auto simp: edge_def split: if_splits)
  then show ?thesis
    unfolding ValidateMesh_def Let_def ValidateDeviceMatrix_None [symmetric]
    by (auto split: option.splits)
qed

text \<open>Adjacent ranks share one positive number of wires, other ranks none.\<close>

definition wired :: "matrix \<Rightarrow> (nat \<Rightarrow> nat \<Rightarrow> bool) \<Rightarrow> nat \<Rightarrow> bool" where
  "wired m adjacent c \<longleftrightarrow> 0 < c \<and> (\<forall>i < length m. \<forall>j < length m. i \<noteq> j \<longrightarrow>
     usablePathCount (cell m i j) = (if adjacent i j then c else 0))"

definition line_adjacent :: "nat \<Rightarrow> nat \<Rightarrow> bool" where
  "line_adjacent i j \<longleftrightarrow> j + 1 = i \<or> j = i + 1"

lemma ValidateRing_None:
  "ValidateRing m = None \<longleftrightarrow>
     square m \<and> 2 \<le> length m \<and> (\<exists>c. wired m (ring_adjacent (length m)) c)"
proof (cases "square m \<and> 2 \<le> length m")
  case True
  let ?n = "length m" and ?w = "usablePathCount (cell m 0 (1 mod length m))"
  have one: "1 mod ?n = 1" "0 \<noteq> 1 mod ?n" "1 mod ?n < ?n" using True by auto
  have adj: "ring_adjacent ?n 0 (1 mod ?n)" by (simp add: ring_adjacent_def)
  define f where "f = (\<lambda>(src, dst).
      if src = dst then None
      else
        let ps = usablePathCount (cell m src dst) in
        if ring_adjacent ?n src dst
        then (if ps \<noteq> ?w then Some (RingWires src dst ps ?w) else None)
        else (if ps \<noteq> 0 then Some (NonAdjacentRing src dst) else None))"
  have f: "f (i, j) = None \<longleftrightarrow>
      (i \<noteq> j \<longrightarrow> usablePathCount (cell m i j) = (if ring_adjacent ?n i j then ?w else 0))" for i j
    by (simp add: f_def Let_def)
  have "ValidateRing m = (if ?w = 0 then Some (MissingRing (1 mod ?n)) else first_err f (pairs ?n))"
    unfolding ValidateRing_def Let_def f_def using True ValidateDeviceMatrix_None [of m] by simp
  then have "ValidateRing m = None \<longleftrightarrow> wired m (ring_adjacent ?n) ?w"
    using f by (auto simp: wired_def)
  moreover have "c = ?w" if "wired m (ring_adjacent ?n) c" for c
    using that one adj unfolding wired_def by (metis length_greater_0_conv list.size(3) not_less_zero)
  ultimately show ?thesis using True by blast
next
  case False
  then show ?thesis
    using ValidateDeviceMatrix_None [of m] by (auto simp: ValidateRing_def Let_def split: option.splits)
qed

lemma line_loop_None:
  "line_loop m w ps = None \<longleftrightarrow> (\<exists>c > 0. (w = 0 \<or> c = w) \<and> (\<forall>(i, j) \<in> set ps. i \<noteq> j \<longrightarrow>
     usablePathCount (cell m i j) = (if line_adjacent i j then c else 0)))"
proof (induction ps arbitrary: w)
  case Nil
  then show ?case by (cases "w = 0") auto
next
  case (Cons x ps)
  obtain i j where x: "x = (i, j)" by (cases x)
  consider "i = j" | "i \<noteq> j" "\<not> line_adjacent i j" | "i \<noteq> j" "line_adjacent i j" by blast
  then show ?case
  proof cases
    case 3
    let ?c = "usablePathCount (cell m i j)"
    show ?thesis
    proof (cases "0 < ?c \<and> (w = 0 \<or> ?c = w)")
      case True
      then have "line_loop m w (x # ps) = line_loop m ?c ps"
        using 3 x by (auto simp: line_adjacent_def Let_def)
      then show ?thesis
        using Cons.IH [of ?c] 3 x True by auto
    next
      case False
      then have "line_loop m w (x # ps) \<noteq> None"
        using 3 x by (auto simp: line_adjacent_def Let_def)
      then show ?thesis using 3 x False by auto
    qed
  qed (use Cons x in \<open>auto simp: line_adjacent_def Let_def\<close>)
qed

lemma ValidateLine_None:
  "ValidateLine m = None \<longleftrightarrow> square m \<and> 2 \<le> length m \<and> (\<exists>c. wired m line_adjacent c)"
  using ValidateDeviceMatrix_None [of m]
  by (auto simp: ValidateLine_def Let_def line_loop_None wired_def split: option.splits)

section \<open>Reachability\<close>

lemma bfs_visit_spec:
  assumes "\<forall>d \<in> set dsts. d < length seen" "bfs_visit m src dsts seen queue = (seen', queue')"
  shows "length seen' = length seen \<and>
    (\<forall>j < length seen. seen' ! j \<longleftrightarrow> seen ! j \<or> j \<in> set dsts \<and> src \<noteq> j \<and> hasPath (cell m src j)) \<and>
    set queue' = set queue \<union> {j \<in> set dsts. src \<noteq> j \<and> \<not> seen ! j \<and> hasPath (cell m src j)}"
  using assms
proof (induction dsts arbitrary: seen queue)
  case (Cons d dsts)
  show ?case
  proof (cases "src = d \<or> seen ! d \<or> \<not> hasPath (cell m src d)")
    case True
    then have "bfs_visit m src dsts seen queue = (seen', queue')" using Cons.prems(2) by simp
    from Cons.IH [OF _ this] Cons.prems(1) True show ?thesis by auto
  next
    case False
    then have "bfs_visit m src dsts (seen[d := True]) (queue @ [d]) = (seen', queue')"
      using Cons.prems(2) by simp
    from Cons.IH [OF _ this] Cons.prems(1) False show ?thesis
      by (auto simp: nth_list_update)
  qed
qed simp

lemma bfs_spec:
  assumes "length seen = length m" "\<forall>q \<in> set queue. q < length m \<and> seen ! q"
    "\<forall>(i, j) \<in> edge m. seen ! i \<longrightarrow> i \<notin> set queue \<longrightarrow> seen ! j"
  shows "length (bfs m seen queue) = length m \<and> (\<forall>i < length m. seen ! i \<longrightarrow> bfs m seen queue ! i) \<and>
    (\<forall>(i, j) \<in> edge m. bfs m seen queue ! i \<longrightarrow> bfs m seen queue ! j) \<and>
    (\<forall>j < length m. bfs m seen queue ! j \<longrightarrow> (\<exists>i < length m. seen ! i \<and> (i, j) \<in> (edge m)\<^sup>*))"
  using assms
proof (induction m seen queue rule: bfs.induct)
  case (1 m seen)
  then show ?case by auto
next
  case (2 m seen src queue)
  obtain seen' queue' where v: "bfs_visit m src [0..<length seen] seen queue = (seen', queue')"
    by fastforce
  have V: "length seen' = length seen"
    "\<And>j. j < length m \<Longrightarrow> seen' ! j \<longleftrightarrow> seen ! j \<or> src \<noteq> j \<and> hasPath (cell m src j)"
    "set queue' = set queue \<union> {j. j < length m \<and> src \<noteq> j \<and> \<not> seen ! j \<and> hasPath (cell m src j)}"
    using bfs_visit_spec [OF _ v] "2.prems"(1) by auto
  have src: "src < length m" "seen ! src" using "2.prems"(2) by auto
  have q: "\<forall>q \<in> set queue'. q < length m \<and> seen' ! q"
    using V "2.prems"(2) by auto
  have c: "\<forall>(i, j) \<in> edge m. seen' ! i \<longrightarrow> i \<notin> set queue' \<longrightarrow> seen' ! j"
  proof (clarify)
    fix i j assume e: "(i, j) \<in> edge m" and i: "seen' ! i" "i \<notin> set queue'"
    have ij: "i < length m" "j < length m" "i \<noteq> j" "hasPath (cell m i j)" using e by (auto simp: edge_def)
    have "seen ! i" using i V(2,3) ij by auto
    then have "i = src \<or> seen ! j" using "2.prems"(3) e i(2) V(3) by auto
    then show "seen' ! j" using V(2) ij by auto
  qed
  have len: "length seen' = length m" using V(1) "2.prems"(1) by simp
  note IH = "2.IH" [OF v [symmetric] len q c]
  have b: "bfs m seen (src # queue) = bfs m seen' queue'" using v by simp
  have "\<exists>i < length m. seen ! i \<and> (i, j) \<in> (edge m)\<^sup>*"
    if j: "j < length m" "bfs m seen' queue' ! j" for j
  proof -
    obtain i where i: "i < length m" "seen' ! i" "(i, j) \<in> (edge m)\<^sup>*" using IH j by blast
    show ?thesis
    proof (cases "seen ! i")
      case False
      then have "(src, i) \<in> edge m" using V(2) i src by (auto simp: edge_def)
      with i src show ?thesis by (meson converse_rtrancl_into_rtrancl)
    qed (use i in blast)
  qed
  then show ?case
    unfolding b using IH V(2) by auto
qed

lemma bfs_reachable:
  assumes "0 < length m" "j < length m"
  shows "bfs m ((replicate (length m) False)[0 := True]) [0] ! j \<longleftrightarrow> (0, j) \<in> (edge m)\<^sup>*"
proof -
  let ?s = "(replicate (length m) False)[0 := True]"
  have s: "?s ! i \<longleftrightarrow> i = 0" if "i < length m" for i
    using that by (cases "i = 0") auto
  have "\<forall>(i, j) \<in> edge m. ?s ! i \<longrightarrow> i \<notin> set [0] \<longrightarrow> ?s ! j"
    using s by (auto simp: edge_def)
  then have B: "(\<forall>i < length m. ?s ! i \<longrightarrow> bfs m ?s [0] ! i)"
    "(\<forall>(i, j) \<in> edge m. bfs m ?s [0] ! i \<longrightarrow> bfs m ?s [0] ! j)"
    "(\<forall>j < length m. bfs m ?s [0] ! j \<longrightarrow> (\<exists>i < length m. ?s ! i \<and> (i, j) \<in> (edge m)\<^sup>*))"
    using bfs_spec [of ?s m "[0]"] assms(1) s by auto
  show ?thesis
  proof
    assume "bfs m ?s [0] ! j"
    then show "(0, j) \<in> (edge m)\<^sup>*" using B(3) assms s by metis
  next
    assume "(0, j) \<in> (edge m)\<^sup>*"
    then show "bfs m ?s [0] ! j"
      by (induction rule: rtrancl_induct) (use B(1,2) assms s in auto)
  qed
qed

lemma ValidateConnected_None:
  "ValidateConnected m = None \<longleftrightarrow> square m \<and> 2 \<le> length m \<and>
     (\<forall>i j. (i, j) \<in> edge m \<longrightarrow> (j, i) \<in> edge m) \<and> (\<forall>j < length m. (0, j) \<in> (edge m)\<^sup>*)"
proof (cases "square m \<and> 2 \<le> length m")
  case True
  have sym: "(\<forall>i j. i < j \<and> j < length m \<longrightarrow> hasPath (cell m i j) = hasPath (cell m j i)) \<longleftrightarrow>
     (\<forall>i j. (i, j) \<in> edge m \<longrightarrow> (j, i) \<in> edge m)"
    unfolding edge_def by (auto) (metis linorder_neqE_nat order.strict_trans)+
  define f where "f = (\<lambda>(src, dst). if hasPath (cell m src dst) \<noteq> hasPath (cell m dst src)
      then Some (OneWayConnected src dst) else None)"
  define g where "g = (\<lambda>rank. if \<not> bfs m ((replicate (length m) False)[0 := True]) [0] ! rank
      then Some (NotConnected rank) else None)"
  have "ValidateConnected m =
      (case first_err f (upper_pairs (length m)) of Some e \<Rightarrow> Some e | None \<Rightarrow> first_err g [0..<length m])"
    unfolding ValidateConnected_def Let_def f_def g_def
    using True ValidateDeviceMatrix_None [of m] by simp
  moreover have "f (i, j) = None \<longleftrightarrow> hasPath (cell m i j) = hasPath (cell m j i)" for i j
    by (simp add: f_def)
  moreover have "g j = None \<longleftrightarrow> bfs m ((replicate (length m) False)[0 := True]) [0] ! j" for j
    by (simp add: g_def)
  ultimately have "ValidateConnected m = None \<longleftrightarrow>
     (\<forall>i j. i < j \<and> j < length m \<longrightarrow> hasPath (cell m i j) = hasPath (cell m j i)) \<and>
     (\<forall>j < length m. bfs m ((replicate (length m) False)[0 := True]) [0] ! j)"
  proof -
    assume V: "ValidateConnected m = (case first_err f (upper_pairs (length m)) of Some e \<Rightarrow> Some e
        | None \<Rightarrow> first_err g [0..<length m])"
      and F: "\<And>i j. f (i, j) = None \<longleftrightarrow> hasPath (cell m i j) = hasPath (cell m j i)"
      and G: "\<And>j. g j = None \<longleftrightarrow> bfs m ((replicate (length m) False)[0 := True]) [0] ! j"
    have "ValidateConnected m = None \<longleftrightarrow>
        first_err f (upper_pairs (length m)) = None \<and> first_err g [0..<length m] = None"
      unfolding V
      by (cases "first_err f (upper_pairs (length m))") (simp_all del: first_err_None)
    then show ?thesis by (auto simp: F G simp del: bfs.simps)
  qed
  moreover have "0 < length m" using True by linarith
  ultimately show ?thesis
    using True sym bfs_reachable [OF \<open>0 < length m\<close>] by (simp del: bfs.simps)
next
  case False
  then show ?thesis
    using ValidateDeviceMatrix_None [of m]
    by (auto simp: ValidateConnected_def Let_def split: option.splits)
qed

section \<open>Choosing a topology\<close>

lemma wired_edge:
  assumes "wired m adj c" "i < length m" "j < length m" "i \<noteq> j"
  shows "(i, j) \<in> edge m \<longleftrightarrow> adj i j"
  using assms by (auto simp: wired_def edge_def hasPath_def)

lemma chain_reachable:
  assumes "\<forall>i. Suc i < length m \<longrightarrow> (i, Suc i) \<in> edge m" "j < length m"
  shows "(0, j) \<in> (edge m)\<^sup>*"
  using assms(2)
proof (induction j)
  case (Suc j)
  then show ?case using assms(1) by (meson Suc_lessD rtrancl.rtrancl_into_rtrancl)
qed simp

text \<open>Matrices wired by a symmetric adjacency that contains the chain of ranks are connected.\<close>

lemma wired_connected:
  assumes "square m" "2 \<le> length m" "wired m adj c"
    "\<And>i j. i < length m \<Longrightarrow> j < length m \<Longrightarrow> adj i j \<Longrightarrow> adj j i"
    "\<And>i. Suc i < length m \<Longrightarrow> adj i (Suc i)"
  shows "ValidateConnected m = None"
proof -
  have "\<forall>i j. (i, j) \<in> edge m \<longrightarrow> (j, i) \<in> edge m"
  proof (intro allI impI)
    fix i j assume e: "(i, j) \<in> edge m"
    then have "i < length m" "j < length m" "i \<noteq> j" by (auto simp: edge_def)
    with e assms(3,4) wired_edge show "(j, i) \<in> edge m" by metis
  qed
  moreover have "\<forall>i. Suc i < length m \<longrightarrow> (i, Suc i) \<in> edge m"
    using wired_edge [OF assms(3)] assms(5) by simp
  ultimately show ?thesis
    using chain_reachable [of m] assms(1,2) by (simp add: ValidateConnected_None)
qed

lemma ring_adjacent_sym:
  assumes "i < n" "j < n" "ring_adjacent n i j"
  shows "ring_adjacent n j i"
proof -
  have p: "(k + n - 1) mod n = (if k = 0 then n - 1 else k - 1)" if "k < n" for k
  proof (cases "k = 0")
    case False
    then have "k + n - 1 = (k - 1) + n" by simp
    then have "(k + n - 1) mod n = (k - 1) mod n" by (simp only: mod_add_self2)
    then show ?thesis using False that by simp
  qed (use that in simp)
  have s: "(k + 1) mod n = (if k = n - 1 then 0 else k + 1)" if "k < n" for k
    using that by (auto simp: mod_Suc)
  have adj: "ring_adjacent n k l \<longleftrightarrow> l = (if k = 0 then n - 1 else k - 1) \<or>
      l = (if k = n - 1 then 0 else k + 1)" if "k < n" for k l
    unfolding ring_adjacent_def p [OF that] s [OF that] ..
  show ?thesis
    using assms(3) assms(1,2) unfolding adj [OF assms(1)] adj [OF assms(2)]
    by (simp split: if_splits) (elim disjE; arith)+
qed

lemma mesh_connected:
  assumes "ValidateMesh m = None"
  shows "ValidateConnected m = None"
proof -
  have M: "\<forall>i < length m. \<forall>j < length m. i \<noteq> j \<longrightarrow> (i, j) \<in> edge m" "square m" "2 \<le> length m"
    using assms by (auto simp: ValidateMesh_None)
  have "(0, j) \<in> (edge m)\<^sup>*" if "j < length m" for j
  proof (cases "j = 0")
    case False
    have "0 < length m" using M(3) by linarith
    with False have "(0, j) \<in> edge m" using M(1) that by blast
    then show ?thesis by (rule r_into_rtrancl)
  qed simp
  moreover have "(i, j) \<in> edge m \<Longrightarrow> (j, i) \<in> edge m" for i j
    using M(1) unfolding edge_def by blast
  ultimately show ?thesis using M by (simp add: ValidateConnected_None)
qed

lemma ring_connected:
  assumes "ValidateRing m = None"
  shows "ValidateConnected m = None"
proof -
  obtain c where "square m" "2 \<le> length m" "wired m (ring_adjacent (length m)) c"
    using assms by (auto simp: ValidateRing_None)
  then show ?thesis
    by (rule wired_connected) (auto intro: ring_adjacent_sym, simp add: ring_adjacent_def)
qed

lemma line_connected:
  assumes "ValidateLine m = None"
  shows "ValidateConnected m = None"
proof -
  obtain c where "square m" "2 \<le> length m" "wired m line_adjacent c"
    using assms by (auto simp: ValidateLine_None)
  then show ?thesis
    by (rule wired_connected) (auto simp: line_adjacent_def)
qed

definition valid_as :: "topology \<Rightarrow> matrix \<Rightarrow> bool" where
  "valid_as t m \<longleftrightarrow>
     (case t of Mesh \<Rightarrow> ValidateMesh m = None | Ring \<Rightarrow> ValidateRing m = None
      | Line \<Rightarrow> ValidateLine m = None | Connected \<Rightarrow> ValidateConnected m = None | Unknown \<Rightarrow> False)"

lemma Choose_Inr: "Choose m p = Inr t \<Longrightarrow> valid_as t m"
  by (auto simp: Choose_def Let_def valid_as_def split: if_splits)

lemma Choose_succeeds: "(\<exists>t. Choose m p = Inr t) \<longleftrightarrow> ValidateConnected m = None"
  using mesh_connected ring_connected line_connected
  by (auto simp: Choose_def Let_def)

text \<open>C9.  \<open>Choose\<close> succeeds exactly on the non-empty square matrices of at least two ranks whose usable
links are all bidirectional and connect every rank to rank 0; the topology it returns is one the matrix
satisfies, and a ring is returned over a mesh exactly when it is preferred.\<close>

theorem Choose_iff_connected:
  "((\<exists>t. Choose m p = Inr t) \<longleftrightarrow> square m \<and> 2 \<le> length m \<and>
     (\<forall>i j. (i, j) \<in> edge m \<longrightarrow> (j, i) \<in> edge m) \<and> (\<forall>j < length m. (0, j) \<in> (edge m)\<^sup>*)) \<and>
   (\<forall>t. Choose m p = Inr t \<longrightarrow> valid_as t m) \<and>
   (Choose m p = Inr Ring \<longleftrightarrow> ValidateRing m = None \<and> (p \<or> ValidateMesh m \<noteq> None))"
proof (intro conjI)
  show "(\<exists>t. Choose m p = Inr t) \<longleftrightarrow> square m \<and> 2 \<le> length m \<and>
     (\<forall>i j. (i, j) \<in> edge m \<longrightarrow> (j, i) \<in> edge m) \<and> (\<forall>j < length m. (0, j) \<in> (edge m)\<^sup>*)"
    unfolding Choose_succeeds ValidateConnected_None ..
  show "\<forall>t. Choose m p = Inr t \<longrightarrow> valid_as t m" using Choose_Inr by blast
  show "Choose m p = Inr Ring \<longleftrightarrow> ValidateRing m = None \<and> (p \<or> ValidateMesh m \<noteq> None)"
    by (auto simp: Choose_def Let_def)
qed

definition pair_matrix :: matrix where
  "pair_matrix = [[Some [], Some [''rdma_en1'']], [Some [''rdma_en1''], Some []]]"

lemma Choose_pair_matrix: "Choose pair_matrix False = Inr Mesh"
  by code_simp

theorem Choose_iff_connected_witness:
  "valid_as Mesh pair_matrix \<and> square pair_matrix \<and> (0, 1) \<in> (edge pair_matrix)\<^sup>*"
proof -
  have "\<exists>t. Choose pair_matrix False = Inr t" using Choose_pair_matrix by blast
  then have "square pair_matrix \<and> (\<forall>j < length pair_matrix. (0, j) \<in> (edge pair_matrix)\<^sup>*)"
    using Choose_iff_connected [of pair_matrix False] by blast
  moreover have "1 < length pair_matrix" by (simp add: pair_matrix_def)
  moreover have "valid_as Mesh pair_matrix"
    using Choose_iff_connected [of pair_matrix False] Choose_pair_matrix by blast
  ultimately show ?thesis by blast
qed

section \<open>The summary counts what the matrix has\<close>

lemma addUnique_simps [simp]:
  "set (addUnique xs v) = insert v (set xs)" "distinct xs \<Longrightarrow> distinct (addUnique xs v)"
  by auto

declare addUnique.simps [simp del]

definition device_names :: "cell \<Rightarrow> string set" where
  "device_names c = TrimSpace ` set (paths_of c) - {''''}"

lemma foldl_devices:
  defines "g \<equiv> \<lambda>ds p. let p' = TrimSpace p in if p' = '''' then ds else addUnique ds p'"
  shows "set (foldl g ds ps) = set ds \<union> (TrimSpace ` set ps - {''''}) \<and>
    (distinct ds \<longrightarrow> distinct (foldl g ds ps))"
proof (induction ps arbitrary: ds)
  case (Cons p ps)
  have "set (g ds p) = set ds \<union> ({TrimSpace p} - {''''})" "distinct ds \<longrightarrow> distinct (g ds p)"
    by (auto simp: g_def Let_def)
  then show ?case using Cons.IH [of "g ds p"] by auto
qed simp

lemma hasPath_device_names: "hasPath c \<longleftrightarrow> device_names c \<noteq> {}"
  by (auto simp: hasPath_def usablePathCount_filter device_names_def filter_empty_conv)

lemma summarize_cell_spec:
  "sm_DirectedEdges (summarize_cell s (i, j, c)) = sm_DirectedEdges s + of_bool (i \<noteq> j \<and> hasPath c)"
  "sm_EmptyEdges (summarize_cell s (i, j, c)) = sm_EmptyEdges s + of_bool (i \<noteq> j \<and> \<not> hasPath c)"
  "sm_TotalWires (summarize_cell s (i, j, c)) = sm_TotalWires s + (if i \<noteq> j then usablePathCount c else 0)"
  "sm_MaxWires (summarize_cell s (i, j, c)) = max (sm_MaxWires s) (if i \<noteq> j then usablePathCount c else 0)"
  "set (sm_Devices (summarize_cell s (i, j, c))) =
     set (sm_Devices s) \<union> (if i \<noteq> j then device_names c else {})"
  "distinct (sm_Devices s) \<Longrightarrow> distinct (sm_Devices (summarize_cell s (i, j, c)))"
  "sm_Topology (summarize_cell s (i, j, c)) = sm_Topology s"
  "sm_Ranks (summarize_cell s (i, j, c)) = sm_Ranks s"
  using foldl_devices [of "sm_Devices s" "paths_of c"] hasPath_device_names [of c]
  by (auto simp: summarize_cell_def Let_def hasPath_def device_names_def max_def)

lemma summarize_fold:
  "sm_DirectedEdges (foldl summarize_cell s cs) =
     sm_DirectedEdges s + length (filter (\<lambda>(i, j, c). i \<noteq> j \<and> hasPath c) cs)"
  "sm_EmptyEdges (foldl summarize_cell s cs) =
     sm_EmptyEdges s + length (filter (\<lambda>(i, j, c). i \<noteq> j \<and> \<not> hasPath c) cs)"
  "sm_TotalWires (foldl summarize_cell s cs) =
     sm_TotalWires s + sum_list (map (\<lambda>(i, j, c). if i \<noteq> j then usablePathCount c else 0) cs)"
  "set (sm_Devices (foldl summarize_cell s cs)) =
     set (sm_Devices s) \<union> (\<Union>(i, j, c) \<in> set cs. if i \<noteq> j then device_names c else {})"
  "distinct (sm_Devices s) \<Longrightarrow> distinct (sm_Devices (foldl summarize_cell s cs))"
  "sm_Topology (foldl summarize_cell s cs) = sm_Topology s"
  "sm_Ranks (foldl summarize_cell s cs) = sm_Ranks s"
  by (induction cs arbitrary: s) (auto simp: summarize_cell_spec)

lemma cells_square:
  assumes "square m"
  shows "cells m = map (\<lambda>(i, j). (i, j, cell m i j)) (pairs (length m))"
proof -
  have "map (\<lambda>i. map (\<lambda>j. (i, j, m ! i ! j)) [0..<length (m ! i)]) [0..<length m] =
      map (\<lambda>i. map (\<lambda>j. (i, j, cell m i j)) [0..<length m]) [0..<length m]"
    using assms by (intro map_cong refl) (auto simp: square_def cell_def)
  then show ?thesis
    unfolding cells_def pairs_def map_concat by (simp add: comp_def del: map_eq_conv)
qed

lemma distinct_pairs: "distinct (pairs n)"
  unfolding pairs_def
  by (rule distinct_concat) (auto simp: distinct_map inj_on_def)

lemma card_edge:
  assumes "square m"
  shows "length (filter (\<lambda>(i, j, c). i \<noteq> j \<and> hasPath c) (cells m)) = card (edge m)"
    "length (filter (\<lambda>(i, j, c). i \<noteq> j \<and> \<not> hasPath c) (cells m)) =
     length m * (length m - 1) - card (edge m)"
proof -
  let ?P = "pairs (length m)"
  have E: "set (filter (\<lambda>(i, j). i \<noteq> j \<and> hasPath (cell m i j)) ?P) = edge m"
    by (auto simp: edge_def)
  have c: "card (edge m) = length (filter (\<lambda>(i, j). i \<noteq> j \<and> hasPath (cell m i j)) ?P)"
    unfolding E [symmetric] by (rule distinct_card) (simp add: distinct_pairs)
  show "length (filter (\<lambda>(i, j, c). i \<noteq> j \<and> hasPath c) (cells m)) = card (edge m)"
    unfolding cells_square [OF assms] c by (simp add: filter_map comp_def case_prod_unfold)
  have D: "set (filter (\<lambda>(i, j). i \<noteq> j) ?P) = {..<length m} \<times> {..<length m} - Id_on {..<length m}"
    by auto
  have "length (filter (\<lambda>(i, j). i \<noteq> j) ?P) = card ({..<length m} \<times> {..<length m} - Id_on {..<length m})"
    unfolding D [symmetric] by (rule distinct_card [symmetric]) (simp add: distinct_pairs)
  also have "\<dots> = length m * length m - length m"
  proof -
    have "Id_on {..<length m} = (\<lambda>x. (x, x)) ` {..<length m}" by auto
    then have "card (Id_on {..<length m}) = length m" "finite (Id_on {..<length m})"
      by (simp_all add: card_image inj_on_def)
    then show ?thesis by (subst card_Diff_subset) (auto simp: card_cartesian_product)
  qed
  finally have "length (filter (\<lambda>(i, j). i \<noteq> j) ?P) = length m * (length m - 1)"
    by (simp add: algebra_simps diff_mult_distrib2)
  moreover have "length (filter (\<lambda>(i, j). i \<noteq> j) ?P) =
      length (filter (\<lambda>(i, j). i \<noteq> j \<and> hasPath (cell m i j)) ?P) +
      length (filter (\<lambda>(i, j). i \<noteq> j \<and> \<not> hasPath (cell m i j)) ?P)"
    using sum_length_filter_compl [of "\<lambda>(i, j). hasPath (cell m i j)" "filter (\<lambda>(i, j). i \<noteq> j) ?P"]
    by (simp add: case_prod_unfold conj_commute)
  ultimately show "length (filter (\<lambda>(i, j, c). i \<noteq> j \<and> \<not> hasPath c) (cells m)) =
     length m * (length m - 1) - card (edge m)"
    unfolding cells_square [OF assms] c by (simp add: filter_map comp_def case_prod_unfold)
qed

lemma Choose_square: "Choose m p = Inr t \<Longrightarrow> square m"
  using Choose_succeeds [of m p] by (auto simp: ValidateConnected_None)

text \<open>A summary is exact: its directed edges are the usable links, its empty edges the remaining
ordered pairs of different ranks, its wires the usable paths of all links, and its device list is the
sorted list, without repetition, of the trimmed names of all usable paths.\<close>

lemma Summarize_exact:
  assumes "Summarize digest m p = Inr s"
  shows "Choose m p = Inr (sm_Topology s) \<and> sm_Ranks s = length m \<and>
    sm_DirectedEdges s = card (edge m) \<and>
    sm_EmptyEdges s = length m * (length m - 1) - card (edge m) \<and>
    sm_TotalWires s = sum_list (map (\<lambda>(i, j). if i \<noteq> j then usablePathCount (cell m i j) else 0)
      (pairs (length m))) \<and>
    set (sm_Devices s) = (\<Union>(i, j) \<in> edge m. device_names (cell m i j)) \<and>
    sorted (sm_Devices s) \<and> distinct (sm_Devices s)"
proof -
  obtain t d where T: "Choose m p = Inr t" "digest m = Inr d"
    using assms by (auto simp: Summarize_def split: sum.splits)
  define s0 where "s0 = \<lparr> sm_Topology = t, sm_Ranks = length m, sm_DirectedEdges = 0, sm_EmptyEdges = 0,
      sm_TotalWires = 0, sm_MaxWires = 0, sm_Devices = [], sm_PrimaryDevices = [], sm_MatrixSHA256 = d \<rparr>"
  define f where "f = foldl summarize_cell s0 (cells m)"
  have s: "s = f\<lparr>sm_Devices := sort (sm_Devices f), sm_PrimaryDevices := sort (sm_PrimaryDevices f)\<rparr>"
    using assms T by (simp add: Summarize_def Let_def f_def s0_def)
  have sq: "square m" using Choose_square [OF T(1)] .
  have "(\<Union>(i, j, c) \<in> set (cells m). if i \<noteq> j then device_names c else {}) =
      (\<Union>(i, j) \<in> edge m. device_names (cell m i j))"
    unfolding cells_square [OF sq] edge_def
    by (auto simp: hasPath_device_names split: if_splits)
  moreover have "sum_list (map (\<lambda>(i, j, c). if i \<noteq> j then usablePathCount c else 0) (cells m)) =
      sum_list (map (\<lambda>(i, j). if i \<noteq> j then usablePathCount (cell m i j) else 0) (pairs (length m)))"
    unfolding cells_square [OF sq] map_map by (simp add: comp_def case_prod_unfold cong: if_cong)
  moreover have "sm_DirectedEdges s0 = 0" "sm_EmptyEdges s0 = 0" "sm_TotalWires s0 = 0"
    "sm_Devices s0 = []" "sm_Topology s0 = t" "sm_Ranks s0 = length m"
    by (simp_all add: s0_def)
  ultimately show ?thesis
    using s T summarize_fold [of s0 "cells m"] card_edge [OF sq] unfolding f_def by simp
qed

lemma Summarize_exact_witness:
  "\<exists>s. Summarize (\<lambda>m. Inr ''d'') pair_matrix False = Inr s \<and> sm_DirectedEdges s = card (edge pair_matrix) \<and>
    sm_EmptyEdges s = 2 - card (edge pair_matrix)"
proof -
  obtain s where s: "Summarize (\<lambda>m. Inr ''d'') pair_matrix False = Inr s"
    by (simp add: Summarize_def Choose_pair_matrix Let_def)
  then show ?thesis
    using Summarize_exact [OF s] by (auto simp: pair_matrix_def)
qed

end
