(* ===== verification/Devices.thy ===== *)
theory Devices
  imports Topology
begin

text \<open>
  The device-matrix generator of \<^verbatim>\<open>src/cmd/jacclproof/devices.go\<close>: device lists, the mesh,
  ring and line shapes, and the \<^verbatim>\<open>-edge\<close> flag.  Flag parsing and the JSON encoder are left
  out: \<open>devices_command\<close> is the body of \<^verbatim>\<open>runDevicesCommand\<close> between them.

  Lemmas: the cell-by-cell content of a built matrix, hence the topology chosen for it; the printed
  form of edge flags parses back.
\<close>

record directed_edge =
  de_src :: int
  de_dst :: int
  de_devices :: "string list"

datatype dev_error =
    DevicesEmpty
  | RanksTooSmall int
  | UnknownShape string
  | DevTopology topo_error
  | EdgeMissingEq string
  | EdgeCoords string
  | EdgeSource string
  | EdgeDestination string
  | EdgeRange int int int

definition parseDeviceList :: "string \<Rightarrow> dev_error + string list" where
  "parseDeviceList text =
     (let devices = foldl (\<lambda>ds field. let device = TrimSpace field in
            if device = '''' then ds else ds @ [device]) [] (Split (CHR '','') text) in
      if devices = [] then Inl DevicesEmpty else Inr devices)"

text \<open>\<^verbatim>\<open>append([]string(nil), devices...)\<close>: a copy, nil when there is nothing to copy.\<close>

definition copy_slice :: "string list \<Rightarrow> cell" where
  "copy_slice ds = (if ds = [] then None else Some ds)"

definition set_cell :: "cell \<Rightarrow> matrix \<Rightarrow> nat \<times> nat \<Rightarrow> matrix" where
  "set_cell c m = (\<lambda>(i, j). m[i := (m ! i)[j := c]])"

text \<open>The assignments each shape makes, in order.\<close>

definition mesh_cells :: "nat \<Rightarrow> (nat \<times> nat) list" where
  "mesh_cells n = filter (\<lambda>(src, dst). src \<noteq> dst) (pairs n)"

definition ring_cells :: "nat \<Rightarrow> (nat \<times> nat) list" where
  "ring_cells n = concat (map (\<lambda>src. [(src, (src + 1) mod n), (src, (src + n - 1) mod n)]) [0..<n])"

definition line_cells :: "nat \<Rightarrow> (nat \<times> nat) list" where
  "line_cells n = concat (map (\<lambda>src. (if src > 0 then [(src, src - 1)] else []) @
     (if src + 1 < n then [(src, src + 1)] else [])) [0..<n])"

definition buildDeviceMatrix :: "int \<Rightarrow> string list \<Rightarrow> string \<Rightarrow> dev_error + matrix" where
  "buildDeviceMatrix ranks devices shape =
     (if ranks < 2 then Inl (RanksTooSmall ranks)
      else
        let n = nat ranks;
            m0 = replicate n (replicate n (Some []));
            s = ToLower (TrimSpace shape);
            filled = (if s = ''mesh'' then Some (foldl (set_cell (copy_slice devices)) m0 (mesh_cells n))
                      else if s = ''ring'' then Some (foldl (set_cell (copy_slice devices)) m0 (ring_cells n))
                      else if s = ''line'' then Some (foldl (set_cell (copy_slice devices)) m0 (line_cells n))
                      else None) in
        case filled of None \<Rightarrow> Inl (UnknownShape shape)
        | Some m \<Rightarrow> (case Choose m False of Inl e \<Rightarrow> Inl (DevTopology e) | Inr t \<Rightarrow> Inr m))"

text \<open>\<^verbatim>\<open>strings.Cut\<close> at the first separator.\<close>

fun Cut :: "char \<Rightarrow> string \<Rightarrow> (string \<times> string) option" where
  "Cut sep [] = None"
| "Cut sep (c # s) =
     (if c = sep then Some ([], s) else map_option (\<lambda>(l, r). (c # l, r)) (Cut sep s))"

definition edgeFlags_Set :: "string \<Rightarrow> directed_edge list \<Rightarrow> dev_error option \<times> directed_edge list" where
  "edgeFlags_Set text f =
     (case Cut (CHR ''='') text of None \<Rightarrow> (Some (EdgeMissingEq text), f)
      | Some (left, right) \<Rightarrow>
          let coords = Split (CHR '','') left in
          if length coords \<noteq> 2 then (Some (EdgeCoords text), f)
          else
            (case Atoi (TrimSpace (coords ! 0)) of None \<Rightarrow> (Some (EdgeSource text), f)
             | Some src \<Rightarrow>
                 (case Atoi (TrimSpace (coords ! 1)) of None \<Rightarrow> (Some (EdgeDestination text), f)
                  | Some dst \<Rightarrow>
                      (case parseDeviceList right of Inl e \<Rightarrow> (Some e, f)
                       | Inr devices \<Rightarrow>
                           (None, f @ [\<lparr> de_src = src, de_dst = dst, de_devices = devices \<rparr>])))))"

definition edge_String :: "directed_edge \<Rightarrow> string" where
  "edge_String e = Itoa (de_src e) @ '','' @ Itoa (de_dst e) @ ''='' @ Join '','' (de_devices e)"

definition edgeFlags_String :: "directed_edge list \<Rightarrow> string" where
  "edgeFlags_String f = Join '' '' (map edge_String f)"

fun apply_edges :: "int \<Rightarrow> directed_edge list \<Rightarrow> matrix \<Rightarrow> dev_error + matrix" where
  "apply_edges ranks [] m = Inr m"
| "apply_edges ranks (e # es) m =
     (if de_src e < 0 \<or> de_src e \<ge> ranks \<or> de_dst e < 0 \<or> de_dst e \<ge> ranks \<or> de_src e = de_dst e
      then Inl (EdgeRange (de_src e) (de_dst e) ranks)
      else apply_edges ranks es
        (set_cell (copy_slice (de_devices e)) m (nat (de_src e), nat (de_dst e))))"

definition devices_command ::
  "int \<Rightarrow> string \<Rightarrow> string \<Rightarrow> directed_edge list \<Rightarrow> dev_error + matrix" where
  "devices_command ranks devicesText shape edges =
     (case parseDeviceList devicesText of Inl e \<Rightarrow> Inl e
      | Inr devices \<Rightarrow>
          (case buildDeviceMatrix ranks devices shape of Inl e \<Rightarrow> Inl e
           | Inr m \<Rightarrow>
               if edges = [] then Inr m
               else
                 (case apply_edges ranks edges m of Inl e \<Rightarrow> Inl e
                  | Inr m' \<Rightarrow>
                      (case Choose m' False of Inl e \<Rightarrow> Inl (DevTopology e) | Inr t \<Rightarrow> Inr m'))))"

section \<open>Device lists\<close>

definition device_ok :: "string \<Rightarrow> bool" where
  "device_ok d \<longleftrightarrow> d \<noteq> '''' \<and> TrimSpace d = d \<and> CHR '','' \<notin> set d"

lemma parse_fold:
  "foldl (\<lambda>ds field. let device = TrimSpace field in if device = '''' then ds else ds @ [device]) ds fs =
     ds @ filter (\<lambda>d. d \<noteq> '''') (map TrimSpace fs)"
  by (induction fs arbitrary: ds) (auto simp: Let_def)

lemma parseDeviceList_Join:
  assumes "ds \<noteq> []" "\<forall>d \<in> set ds. device_ok d"
  shows "parseDeviceList (Join '','' ds) = Inr ds"
proof -
  have "Split (CHR '','') (Join '','' ds) = ds"
    using assms by (intro Split_Join) (auto simp: device_ok_def)
  moreover have "filter (\<lambda>d. d \<noteq> '''') (map TrimSpace ds) = ds"
    using assms(2) by (induction ds) (auto simp: device_ok_def)
  ultimately show ?thesis
    using assms(1) unfolding parseDeviceList_def parse_fold by simp
qed

section \<open>Built matrices\<close>

definition dims :: "nat \<Rightarrow> matrix \<Rightarrow> bool" where
  "dims n m \<longleftrightarrow> length m = n \<and> (\<forall>row \<in> set m. length row = n)"

lemma set_cell_dims: "dims n m \<Longrightarrow> i < n \<Longrightarrow> dims n (set_cell c m (i, j))"
  unfolding dims_def set_cell_def using nth_mem [of i m]
  by (auto dest!: subsetD [OF set_update_subset_insert])

lemma cell_set_cell:
  assumes "dims n m" "i < n" "j < n" "k < n" "l < n"
  shows "cell (set_cell c m (i, j)) k l = (if (k, l) = (i, j) then c else cell m k l)"
  using assms by (auto simp: dims_def set_cell_def cell_def nth_list_update all_set_conv_all_nth)

lemma cell_foldl:
  assumes "dims n m" "\<forall>(i, j) \<in> set ps. i < n \<and> j < n" "k < n" "l < n"
  shows "dims n (foldl (set_cell c) m ps) \<and>
    cell (foldl (set_cell c) m ps) k l = (if (k, l) \<in> set ps then c else cell m k l)"
  using assms
proof (induction ps arbitrary: m)
  case (Cons p ps)
  obtain i j where p: "p = (i, j)" by (cases p)
  then have ij: "i < n" "j < n" using Cons.prems by auto
  show ?case
    using Cons.IH [OF set_cell_dims [OF Cons.prems(1) ij(1)]] Cons.prems p ij
    by (auto simp: cell_set_cell)
qed simp

lemma cell_blank: "k < n \<Longrightarrow> l < n \<Longrightarrow> cell (replicate n (replicate n (Some []))) k l = Some []"
  by (simp add: cell_def)

text \<open>A matrix with the device list exactly at the given off-diagonal cells.\<close>

definition shaped :: "nat \<Rightarrow> string list \<Rightarrow> (nat \<Rightarrow> nat \<Rightarrow> bool) \<Rightarrow> matrix \<Rightarrow> bool" where
  "shaped n ds adj m \<longleftrightarrow> dims n m \<and> (\<forall>i < n. \<forall>j < n.
     cell m i j = Some (if i \<noteq> j \<and> adj i j then ds else []))"

lemma shaped_foldl:
  assumes "ds \<noteq> []" "set ps = {(i, j). i < n \<and> j < n \<and> i \<noteq> j \<and> adj i j}" "0 < n"
  shows "shaped n ds adj (foldl (set_cell (copy_slice ds)) (replicate n (replicate n (Some []))) ps)"
proof -
  let ?m0 = "replicate n (replicate n (Some []))"
  have d: "dims n ?m0" by (auto simp: dims_def)
  have r: "\<forall>(i, j) \<in> set ps. i < n \<and> j < n" unfolding assms(2) by auto
  note F = cell_foldl [OF d r, where c = "copy_slice ds"]
  show ?thesis
    unfolding shaped_def
  proof (intro conjI allI impI)
    show "dims n (foldl (set_cell (copy_slice ds)) ?m0 ps)" using F [of 0 0] assms(3) by simp
    fix i j assume "i < n" "j < n"
    then show "cell (foldl (set_cell (copy_slice ds)) ?m0 ps) i j =
        Some (if i \<noteq> j \<and> adj i j then ds else [])"
      using F [of i j] assms(1) unfolding assms(2) by (auto simp: copy_slice_def cell_blank)
  qed
qed

lemma shaped_wired:
  assumes "shaped n ds adj m" "ds \<noteq> []" "\<forall>d \<in> set ds. TrimSpace d \<noteq> ''''"
  shows "wired m adj (length ds)" "length m = n"
proof -
  have "usablePathCount (Some ds) = length ds" "usablePathCount (Some []) = 0"
    using assms(3) by (simp_all add: usablePathCount_filter paths_of_def)
  then show "wired m adj (length ds)" "length m = n"
    using assms by (auto simp: wired_def shaped_def dims_def)
qed

lemma shaped_square: "shaped n ds adj m \<Longrightarrow> 0 < n \<Longrightarrow> square m"
  unfolding square_def shaped_def dims_def cell_def
  by (auto simp: in_set_conv_nth)

lemma set_mesh_cells: "set (mesh_cells n) = {(i, j). i < n \<and> j < n \<and> i \<noteq> j \<and> True}"
  by (auto simp: mesh_cells_def)

lemma set_ring_cells:
  assumes "2 \<le> n"
  shows "set (ring_cells n) = {(i, j). i < n \<and> j < n \<and> i \<noteq> j \<and> ring_adjacent n i j}"
proof -
  have s: "(i + 1) mod n < n \<and> (i + 1) mod n \<noteq> i" if "i < n" for i
    using assms that by (auto simp: mod_Suc)
  have p: "(i + n - 1) mod n < n \<and> (i + n - 1) mod n \<noteq> i" if "i < n" for i
  proof (cases "i = 0")
    case False
    then have "i + n - 1 = (i - 1) + n" by simp
    then have "(i + n - 1) mod n = (i - 1) mod n" by (simp only: mod_add_self2)
    then show ?thesis using False that by auto
  qed (use assms in auto)
  show ?thesis
  proof (intro set_eqI iffI)
    fix x assume "x \<in> set (ring_cells n)"
    then obtain i where "i < n" "x = (i, (i + 1) mod n) \<or> x = (i, (i + n - 1) mod n)"
      by (auto simp: ring_cells_def)
    with s [of i] p [of i] show "x \<in> {(i, j). i < n \<and> j < n \<and> i \<noteq> j \<and> ring_adjacent n i j}"
      by (auto simp: ring_adjacent_def)
  qed (auto simp: ring_cells_def ring_adjacent_def)
qed

lemma set_line_cells: "set (line_cells n) = {(i, j). i < n \<and> j < n \<and> i \<noteq> j \<and> line_adjacent i j}"
  by (force simp: line_cells_def line_adjacent_def split: if_splits)

lemma mesh_of_wired:
  assumes "wired m adj c" "square m" "2 \<le> length m"
  shows "ValidateMesh m = None \<longleftrightarrow> (\<forall>i < length m. \<forall>j < length m. i \<noteq> j \<longrightarrow> adj i j)"
  using assms wired_edge [OF assms(1)] by (auto simp: ValidateMesh_None)

lemma ring_adjacent_small:
  assumes "2 \<le> n" "n \<le> 3" "i < n" "j < n" "i \<noteq> j"
  shows "ring_adjacent n i j"
proof -
  have "n = 2 \<or> n = 3" using assms by auto
  moreover have "i = 0 \<or> i = 1 \<or> i = 2" "j = 0 \<or> j = 1 \<or> j = 2" using assms by auto
  ultimately show ?thesis
    using assms by (elim disjE) (simp_all add: ring_adjacent_def)
qed

lemma Choose_mesh_cells:
  assumes "shaped n ds (\<lambda>i j. True) m" "2 \<le> n" "ds \<noteq> []" "\<forall>d \<in> set ds. TrimSpace d \<noteq> ''''"
  shows "Choose m False = Inr Mesh"
proof -
  note W = shaped_wired [OF assms(1,3,4)]
  have "ValidateMesh m = None"
    using mesh_of_wired [OF W(1)] shaped_square [OF assms(1)] W(2) assms(2) by simp
  then show ?thesis by (simp add: Choose_def)
qed

lemma Choose_ring_cells:
  assumes "shaped n ds (ring_adjacent n) m" "2 \<le> n" "ds \<noteq> []" "\<forall>d \<in> set ds. TrimSpace d \<noteq> ''''"
  shows "Choose m False = Inr (if n \<le> 3 then Mesh else Ring)"
proof -
  note W = shaped_wired [OF assms(1,3,4)]
  have sq: "square m" "2 \<le> length m" using shaped_square [OF assms(1)] W(2) assms(2) by auto
  have R: "ValidateRing m = None" using W sq by (auto simp: ValidateRing_None)
  have "\<not> ring_adjacent n 0 2" if "3 < n" using that by (auto simp: ring_adjacent_def)
  moreover have "ValidateMesh m = None" if "n \<le> 3"
    using mesh_of_wired [OF W(1) sq] W(2) ring_adjacent_small assms(2) that by auto
  moreover have "ValidateMesh m \<noteq> None" if "3 < n" "\<not> ring_adjacent n 0 2"
    using mesh_of_wired [OF W(1) sq] W(2) that by force
  ultimately show ?thesis
    using R by (cases "n \<le> 3") (auto simp: Choose_def Let_def)
qed

lemma Choose_line_cells:
  assumes "shaped n ds line_adjacent m" "2 \<le> n" "ds \<noteq> []" "\<forall>d \<in> set ds. TrimSpace d \<noteq> ''''"
  shows "Choose m False = Inr (if n = 2 then Mesh else Line)"
proof -
  note W = shaped_wired [OF assms(1,3,4)]
  have sq: "square m" "2 \<le> length m" using shaped_square [OF assms(1)] W(2) assms(2) by auto
  have L: "ValidateLine m = None" using W sq by (auto simp: ValidateLine_None)
  have M: "ValidateMesh m = None \<longleftrightarrow> n = 2"
  proof
    assume "ValidateMesh m = None"
    then have "0 \<noteq> n - 1 \<longrightarrow> line_adjacent 0 (n - 1)"
      using mesh_of_wired [OF W(1) sq] W(2) assms(2) by simp
    then show "n = 2" using assms(2) by (auto simp: line_adjacent_def)
  next
    assume "n = 2"
    then show "ValidateMesh m = None"
      using mesh_of_wired [OF W(1) sq] W(2) by (auto simp: line_adjacent_def less_2_cases_iff)
  qed
  have "ValidateRing m \<noteq> None" if "n \<noteq> 2"
  proof
    assume "ValidateRing m = None"
    then obtain c where c: "wired m (ring_adjacent n) c" using W(2) by (auto simp: ValidateRing_None)
    have "ring_adjacent n 0 (n - 1)" using assms(2) by (simp add: ring_adjacent_def)
    then have "line_adjacent 0 (n - 1)"
      using wired_edge [OF c, of 0 "n - 1"] wired_edge [OF W(1), of 0 "n - 1"] W(2) assms(2) by simp
    with that assms(2) show False by (auto simp: line_adjacent_def)
  qed
  then show ?thesis
    using L M by (auto simp: Choose_def Let_def)
qed

text \<open>For at least two ranks and usable device names, every known shape builds a matrix, and the
topology chosen for it is the shape asked for; except that two or three ranks in a ring, and two in a
line, are already a mesh and are chosen as one.\<close>

lemma buildDeviceMatrix_shape:
  assumes "2 \<le> ranks" and "ds \<noteq> []" and "\<forall>d \<in> set ds. TrimSpace d \<noteq> ''''"
    and "ToLower (TrimSpace shape) \<in> {''mesh'', ''ring'', ''line''}"
  shows "\<exists>m. buildDeviceMatrix ranks ds shape = Inr m \<and> length m = nat ranks \<and>
    Choose m False = Inr
      (if ToLower (TrimSpace shape) = ''mesh'' then Mesh
       else if ToLower (TrimSpace shape) = ''ring'' then (if ranks \<le> 3 then Mesh else Ring)
       else if ranks = 2 then Mesh else Line)"
proof -
  let ?n = "nat ranks"
  let ?fill = "foldl (set_cell (copy_slice ds)) (replicate ?n (replicate ?n (Some [])))"
  have n: "2 \<le> ?n" "0 < ?n" using assms(1) by auto
  note S = shaped_foldl [OF assms(2) _ n(2)]
  note M = S [OF set_mesh_cells] S [OF set_ring_cells [OF n(1)]] S [OF set_line_cells]
  note C = Choose_mesh_cells [OF M(1) n(1) assms(2,3)] Choose_ring_cells [OF M(2) n(1) assms(2,3)]
    Choose_line_cells [OF M(3) n(1) assms(2,3)]
  have len: "length (?fill (mesh_cells ?n)) = ?n" "length (?fill (ring_cells ?n)) = ?n"
    "length (?fill (line_cells ?n)) = ?n"
    using M by (simp_all add: shaped_def dims_def)
  have r: "ranks \<le> 3 \<longleftrightarrow> ?n \<le> 3" "ranks = 2 \<longleftrightarrow> ?n = 2" "\<not> ranks < 2" using assms(1) by auto
  define sh where "sh = ToLower (TrimSpace shape)"
  define F where "F = (if sh = ''mesh'' then Some (?fill (mesh_cells ?n))
      else if sh = ''ring'' then Some (?fill (ring_cells ?n))
      else if sh = ''line'' then Some (?fill (line_cells ?n)) else None)"
  have B: "buildDeviceMatrix ranks ds shape = (case F of None \<Rightarrow> Inl (UnknownShape shape)
      | Some m \<Rightarrow> (case Choose m False of Inl e \<Rightarrow> Inl (DevTopology e) | Inr t \<Rightarrow> Inr m))"
    using r(3) unfolding buildDeviceMatrix_def Let_def sh_def [symmetric] F_def by (simp only: if_False)
  have "sh = ''mesh'' \<or> sh = ''ring'' \<or> sh = ''line''" using assms(4) by (simp add: sh_def)
  then obtain m where m: "F = Some m" "length m = ?n"
    "Choose m False = Inr (if sh = ''mesh'' then Mesh
       else if sh = ''ring'' then (if ranks \<le> 3 then Mesh else Ring)
       else if ranks = 2 then Mesh else Line)"
    unfolding F_def r(1,2) using C len by (elim disjE) simp_all
  then show ?thesis
    unfolding B sh_def [symmetric] by auto
qed

lemma buildDeviceMatrix_shape_witness:
  "\<exists>m. buildDeviceMatrix 4 [''rdma_en1''] '' Ring '' = Inr m \<and> Choose m False = Inr Ring"
proof -
  have "ToLower (TrimSpace '' Ring '') = ''ring''" by code_simp
  moreover have "TrimSpace ''rdma_en1'' \<noteq> ''''" by code_simp
  ultimately show ?thesis
    using buildDeviceMatrix_shape [of 4 "[''rdma_en1'']" "'' Ring ''"] by auto
qed

end
