(* ===== verification/Reduce.thy ===== *)
theory Reduce
  imports GoStrings "HOL-Library.Multiset"
begin

text \<open>
  Element-wise reductions, \<^verbatim>\<open>src/internal/reduce\<close>: data types, element sizes and
  \<open>Sum\<close>, \<open>Max\<close>, \<open>Min\<close> on byte buffers.  A buffer is cut into elements of the type's size; the
  reinterpretation of bytes (\<^verbatim>\<open>bytesAs\<close>) is little-endian, as on the supported platforms.
  Integers are words and wrap; comparison of floats is that of IEEE 754 on the bit patterns.  The sum of
  two floats is left to the implementation by the language and is the parameter \<open>fp\<close>.

  The locale \<open>reduction\<close> is the contract collectives rely on: a closed, commutative, associative
  combination.  It is interpreted for booleans and all integer types; its lemmas give results that do
  not depend on the order of the contributions.
\<close>

section \<open>Types\<close>

datatype dtype =
    Bool | Int8 | Int16 | Int32 | Int64 | Uint8 | Uint16 | Uint32 | Uint64
  | Float16 | BFloat16 | Float32 | Float64 | Complex64 | OtherDType int

fun dtype_String :: "dtype \<Rightarrow> string" where
  "dtype_String Bool = ''bool''"
| "dtype_String Int8 = ''int8''"
| "dtype_String Int16 = ''int16''"
| "dtype_String Int32 = ''int32''"
| "dtype_String Int64 = ''int64''"
| "dtype_String Uint8 = ''uint8''"
| "dtype_String Uint16 = ''uint16''"
| "dtype_String Uint32 = ''uint32''"
| "dtype_String Uint64 = ''uint64''"
| "dtype_String Float16 = ''float16''"
| "dtype_String BFloat16 = ''bfloat16''"
| "dtype_String Float32 = ''float32''"
| "dtype_String Float64 = ''float64''"
| "dtype_String Complex64 = ''complex64''"
| "dtype_String (OtherDType d) = ''dtype('' @ Itoa d @ '')''"

datatype reduce_error =
    UnsupportedDType dtype
  | NotMultiple nat nat
  | DestinationShort nat nat
  | UnknownOp int

definition ElementSize :: "dtype \<Rightarrow> reduce_error + nat" where
  "ElementSize dt =
     (case dt of
        Bool \<Rightarrow> Inr 1 | Int8 \<Rightarrow> Inr 1 | Uint8 \<Rightarrow> Inr 1
      | Int16 \<Rightarrow> Inr 2 | Uint16 \<Rightarrow> Inr 2 | Float16 \<Rightarrow> Inr 2 | BFloat16 \<Rightarrow> Inr 2
      | Int32 \<Rightarrow> Inr 4 | Uint32 \<Rightarrow> Inr 4 | Float32 \<Rightarrow> Inr 4
      | Int64 \<Rightarrow> Inr 8 | Uint64 \<Rightarrow> Inr 8 | Float64 \<Rightarrow> Inr 8 | Complex64 \<Rightarrow> Inr 8
      | OtherDType d \<Rightarrow> Inl (UnsupportedDType dt))"

section \<open>Elements\<close>

definition le_val :: "bytes \<Rightarrow> nat" where
  "le_val b = be_val (rev b)"

definition le_bytes :: "nat \<Rightarrow> nat \<Rightarrow> bytes" where
  "le_bytes k n = rev (be_bytes k n)"

definition dec :: "bytes \<Rightarrow> 'a::len word" where
  "dec b = of_nat (le_val b)"

definition enc :: "nat \<Rightarrow> 'a::len word \<Rightarrow> bytes" where
  "enc k w = le_bytes k (unat w)"

datatype op = sumOp | maxOp | minOp

text \<open>One step of \<^verbatim>\<open>applyOrdered\<close>, for any addition and order.\<close>

definition ordered_elem :: "('t \<Rightarrow> 't \<Rightarrow> 't) \<Rightarrow> ('t \<Rightarrow> 't \<Rightarrow> bool) \<Rightarrow> op \<Rightarrow> 't \<Rightarrow> 't \<Rightarrow> 't" where
  "ordered_elem add lt op d v =
     (case op of sumOp \<Rightarrow> add d v
      | maxOp \<Rightarrow> if lt d v then v else d
      | minOp \<Rightarrow> if lt v d then v else d)"

definition bool_elem :: "op \<Rightarrow> bool \<Rightarrow> bool \<Rightarrow> bool" where
  "bool_elem op d v = (case op of minOp \<Rightarrow> d \<and> v | _ \<Rightarrow> d \<or> v)"

text \<open>Float comparison: not a number compares false; otherwise sign and magnitude, with equal zeros.\<close>

definition float_nan :: "nat \<Rightarrow> nat \<Rightarrow> nat \<Rightarrow> bool" where
  "float_nan ebits mbits n \<longleftrightarrow> (2 ^ ebits - 1) * 2 ^ mbits < n mod 2 ^ (ebits + mbits)"

definition float_key :: "nat \<Rightarrow> nat \<Rightarrow> nat \<Rightarrow> int" where
  "float_key ebits mbits n =
     (let mag = int (n mod 2 ^ (ebits + mbits)) in if n div 2 ^ (ebits + mbits) = 0 then mag else - mag)"

definition float_less :: "nat \<Rightarrow> nat \<Rightarrow> nat \<Rightarrow> nat \<Rightarrow> bool" where
  "float_less e m a b \<longleftrightarrow> \<not> float_nan e m a \<and> \<not> float_nan e m b \<and> float_key e m a < float_key e m b"

definition float_eq :: "nat \<Rightarrow> nat \<Rightarrow> nat \<Rightarrow> nat \<Rightarrow> bool" where
  "float_eq e m a b \<longleftrightarrow> \<not> float_nan e m a \<and> \<not> float_nan e m b \<and> float_key e m a = float_key e m b"

record float_ops =
  add32 :: "u32 \<Rightarrow> u32 \<Rightarrow> u32"
  add64f :: "u64 \<Rightarrow> u64 \<Rightarrow> u64"

definition less32 :: "u32 \<Rightarrow> u32 \<Rightarrow> bool" where
  "less32 a b = float_less 8 23 (unat a) (unat b)"

definition less64 :: "u64 \<Rightarrow> u64 \<Rightarrow> bool" where
  "less64 a b = float_less 11 52 (unat a) (unat b)"

definition complexLess :: "u32 \<times> u32 \<Rightarrow> u32 \<times> u32 \<Rightarrow> bool" where
  "complexLess a b \<longleftrightarrow>
     (let ar = fst a; br = fst b in
      less32 ar br \<or> float_eq 8 23 (unat ar) (unat br) \<and> less32 (snd a) (snd b))"

definition on_words :: "nat \<Rightarrow> ('a::len word \<Rightarrow> 'a word \<Rightarrow> 'a word) \<Rightarrow> bytes \<Rightarrow> bytes \<Rightarrow> bytes" where
  "on_words k g d v = enc k (g (dec d) (dec v))"

text \<open>The element operation of each type that \<open>apply\<close> dispatches to.\<close>

fun elem_op :: "float_ops \<Rightarrow> dtype \<Rightarrow> op \<Rightarrow> bytes \<Rightarrow> bytes \<Rightarrow> bytes" where
  "elem_op fp Bool op = (\<lambda>d v. [if bool_elem op (d \<noteq> [0]) (v \<noteq> [0]) then 1 else 0])"
| "elem_op fp Int8 op = on_words 1 (ordered_elem (+) (<s) op :: 8 word \<Rightarrow> _)"
| "elem_op fp Int16 op = on_words 2 (ordered_elem (+) (<s) op :: 16 word \<Rightarrow> _)"
| "elem_op fp Int32 op = on_words 4 (ordered_elem (+) (<s) op :: 32 word \<Rightarrow> _)"
| "elem_op fp Int64 op = on_words 8 (ordered_elem (+) (<s) op :: 64 word \<Rightarrow> _)"
| "elem_op fp Uint8 op = on_words 1 (ordered_elem (+) (<) op :: 8 word \<Rightarrow> _)"
| "elem_op fp Uint16 op = on_words 2 (ordered_elem (+) (<) op :: 16 word \<Rightarrow> _)"
| "elem_op fp Uint32 op = on_words 4 (ordered_elem (+) (<) op :: 32 word \<Rightarrow> _)"
| "elem_op fp Uint64 op = on_words 8 (ordered_elem (+) (<) op :: 64 word \<Rightarrow> _)"
| "elem_op fp Float32 op = on_words 4 (ordered_elem (add32 fp) less32 op)"
| "elem_op fp Float64 op = on_words 8 (ordered_elem (add64f fp) less64 op)"
| "elem_op fp Complex64 op = (\<lambda>d v.
     let a = (dec (take 4 d), dec (drop 4 d)); b = (dec (take 4 v), dec (drop 4 v));
         r = ordered_elem (\<lambda>x y. (add32 fp (fst x) (fst y), add32 fp (snd x) (snd y))) complexLess op a b
     in enc 4 (fst r) @ enc 4 (snd r))"
| "elem_op fp dt op = (\<lambda>d v. d)"

section \<open>Buffers\<close>

text \<open>\<^verbatim>\<open>bytesAs\<close>: the elements of the first \<open>n\<close> bytes.\<close>

function chunks :: "nat \<Rightarrow> bytes \<Rightarrow> bytes list" where
  "chunks k b = (if k = 0 \<or> length b < k then [] else take k b # chunks k (drop k b))"
  by pat_completeness auto
termination
  by (relation "measure (\<lambda>(k, b). length b)") auto

declare chunks.simps [simp del]

definition bytesAs :: "nat \<Rightarrow> bytes \<Rightarrow> nat \<Rightarrow> bytes list" where
  "bytesAs k b n = chunks k (take n b)"

definition apply_op :: "float_ops \<Rightarrow> dtype \<Rightarrow> bytes \<Rightarrow> bytes \<Rightarrow> op \<Rightarrow> reduce_error + bytes" where
  "apply_op fp dt dst src op =
     (case ElementSize dt of Inl e \<Rightarrow> Inl e
      | Inr k \<Rightarrow>
          if length src mod k \<noteq> 0 then Inl (NotMultiple (length src) k)
          else if length dst < length src then Inl (DestinationShort (length dst) (length src))
          else if dt = Float16 \<or> dt = BFloat16 then Inl (UnsupportedDType dt)
          else Inr (concat (map2 (elem_op fp dt op) (bytesAs k dst (length src)) (bytesAs k src (length src)))
                    @ drop (length src) dst))"

definition Sum :: "float_ops \<Rightarrow> dtype \<Rightarrow> bytes \<Rightarrow> bytes \<Rightarrow> reduce_error + bytes" where
  "Sum fp dt dst src = apply_op fp dt dst src sumOp"

definition Max :: "float_ops \<Rightarrow> dtype \<Rightarrow> bytes \<Rightarrow> bytes \<Rightarrow> reduce_error + bytes" where
  "Max fp dt dst src = apply_op fp dt dst src maxOp"

definition Min :: "float_ops \<Rightarrow> dtype \<Rightarrow> bytes \<Rightarrow> bytes \<Rightarrow> reduce_error + bytes" where
  "Min fp dt dst src = apply_op fp dt dst src minOp"

section \<open>Encoding\<close>

lemma length_enc [simp]: "length (enc k w) = k"
  by (simp add: enc_def le_bytes_def)

lemma dec_enc:
  fixes w :: "'a::len word"
  assumes "2 ^ LENGTH('a) \<le> (256 :: nat) ^ k"
  shows "dec (enc k w) = w"
proof -
  have "unat w < 256 ^ k" using unsigned_less [of w] assms by (meson order_less_le_trans)
  then show ?thesis by (simp add: dec_def enc_def le_val_def le_bytes_def be_val_bytes)
qed

section \<open>Cutting buffers\<close>

lemma chunks_Nil [simp]: "chunks k [] = []"
  by (cases k) (simp_all add: chunks.simps [of _ "[]"])

lemma chunks_step: "0 < k \<Longrightarrow> k \<le> length b \<Longrightarrow> chunks k b = take k b # chunks k (drop k b)"
  by (simp add: chunks.simps [of k b])

lemma chunks_append:
  assumes "length c = k" "0 < k"
  shows "chunks k (c @ b) = c # chunks k b"
  using chunks_step [of k "c @ b"] assms by simp

lemma chunks_concat:
  assumes "\<forall>c \<in> set cs. length c = k" "0 < k"
  shows "chunks k (concat cs) = cs"
  using assms(1) by (induction cs) (simp_all add: chunks_append assms(2))

lemma chunks_spec:
  assumes "0 < k" "k dvd length b"
  shows "concat (chunks k b) = b" "\<forall>c \<in> set (chunks k b). length c = k"
    "length (chunks k b) = length b div k"
proof -
  have "concat (chunks k b) = b \<and> (\<forall>c \<in> set (chunks k b). length c = k) \<and>
    length (chunks k b) = length b div k"
    using assms
  proof (induction k b rule: chunks.induct)
    case (1 k b)
    show ?case
    proof (cases "length b < k")
      case True
      then have "b = []" using "1.prems" by (auto dest: dvd_imp_le)
      then show ?thesis by simp
    next
      case False
      have d: "k dvd length (drop k b)" using "1.prems" False by (simp add: dvd_diff_nat)
      have nk: "\<not> (k = 0 \<or> length b < k)" using "1.prems" False by simp
      from "1.IH" [OF nk "1.prems"(1) d] have IH: "concat (chunks k (drop k b)) = drop k b"
        "\<forall>c \<in> set (chunks k (drop k b)). length c = k"
        "length (chunks k (drop k b)) = length (drop k b) div k" by blast+
      have ch: "chunks k b = take k b # chunks k (drop k b)" using nk by (intro chunks_step) auto
      have dv: "length b div k = Suc ((length b - k) div k)"
        using nk by (intro le_div_geq) auto
      show ?thesis
      proof (intro conjI)
        show "concat (chunks k b) = b" unfolding ch concat.simps IH(1) by (rule append_take_drop_id)
        show "\<forall>c \<in> set (chunks k b). length c = k" unfolding ch using IH(2) nk by auto
        show "length (chunks k b) = length b div k" unfolding ch dv list.size IH(3) length_drop by simp
      qed
    qed
  qed
  then show "concat (chunks k b) = b" "\<forall>c \<in> set (chunks k b). length c = k"
    "length (chunks k b) = length b div k" by auto
qed

lemma chunks_nth:
  assumes "0 < k" "i < length (chunks k b)"
  shows "chunks k b ! i = take k (drop (i * k) b)"
  using assms
proof (induction k b arbitrary: i rule: chunks.induct)
  case (1 k b)
  have nk: "\<not> (k = 0 \<or> length b < k)"
    using "1.prems" by (auto simp: chunks.simps [of k b])
  then have c: "chunks k b = take k b # chunks k (drop k b)" by (intro chunks_step) auto
  show ?case
  proof (cases i)
    case (Suc j)
    then show ?thesis using "1.IH" [OF nk, of j] "1.prems" by (simp add: c add.commute)
  qed (simp add: c)
qed

definition supported :: "dtype \<Rightarrow> bool" where
  "supported dt \<longleftrightarrow> (\<exists>k. ElementSize dt = Inr k) \<and> dt \<noteq> Float16 \<and> dt \<noteq> BFloat16"

lemma ElementSize_pos: "ElementSize dt = Inr k \<Longrightarrow> 0 < k"
  by (cases dt) (auto simp: ElementSize_def)

lemma elem_op_length:
  assumes "ElementSize dt = Inr k" "length d = k"
  shows "length (elem_op fp dt op d v) = k"
  using assms by (cases dt) (auto simp: ElementSize_def on_words_def Let_def)

lemma apply_op_Inr:
  assumes "ElementSize dt = Inr k" "supported dt" "k dvd length src" "length src \<le> length dst"
  shows "apply_op fp dt dst src op = Inr (concat (map2 (elem_op fp dt op)
    (chunks k (take (length src) dst)) (chunks k src)) @ drop (length src) dst)"
  using assms by (auto simp: apply_op_def bytesAs_def supported_def)

lemma map2_lengths:
  assumes "ElementSize dt = Inr k" "\<forall>c \<in> set cs. length c = k"
  shows "\<forall>c \<in> set (map2 (elem_op fp dt op) cs ds). length c = k"
  using assms by (auto simp: elem_op_length dest!: set_zip_leftD)

lemma length_concat_const: "\<forall>c \<in> set cs. length c = k \<Longrightarrow> length (concat cs) = length cs * k"
  by (induction cs) auto


definition fp0 :: float_ops where
  "fp0 = \<lparr> add32 = (+), add64f = (+) \<rparr>"


section \<open>Order of contributions\<close>

locale reduction =
  fixes A :: "'a set" and f :: "'a \<Rightarrow> 'a \<Rightarrow> 'a"
  assumes closed: "x \<in> A \<Longrightarrow> y \<in> A \<Longrightarrow> f x y \<in> A"
    and comm: "x \<in> A \<Longrightarrow> y \<in> A \<Longrightarrow> f x y = f y x"
    and assoc: "x \<in> A \<Longrightarrow> y \<in> A \<Longrightarrow> z \<in> A \<Longrightarrow> f (f x y) z = f x (f y z)"
begin

lemma foldl_closed: "x \<in> A \<Longrightarrow> set ys \<subseteq> A \<Longrightarrow> foldl f x ys \<in> A"
  by (induction ys arbitrary: x) (auto simp: closed)

lemma foldl_step: "x \<in> A \<Longrightarrow> y \<in> A \<Longrightarrow> set ys \<subseteq> A \<Longrightarrow> foldl f (f x y) ys = f x (foldl f y ys)"
  by (induction ys arbitrary: y) (auto simp: assoc closed)

lemma foldl_swap:
  assumes "x \<in> A" "y \<in> A" "set ys \<subseteq> A" "set zs \<subseteq> A"
  shows "foldl f x (ys @ y # zs) = foldl f y (x # ys @ zs)"
  using assms
proof (induction ys arbitrary: x)
  case Nil
  then show ?case by (simp add: comm)
next
  case (Cons w ys)
  have "foldl f (f x w) (ys @ y # zs) = foldl f y (f x w # ys @ zs)"
    using Cons by (simp add: closed)
  also have "\<dots> = foldl f (f (f y x) w) (ys @ zs)"
    using Cons.prems by (simp add: assoc)
  finally show ?case by simp
qed

text \<open>The fold over a non-empty list depends only on the multiset of its elements.\<close>

lemma foldl_mset:
  assumes "mset (x # xs) = mset (y # ys)" "set (x # xs) \<subseteq> A"
  shows "foldl f x xs = foldl f y ys"
  using assms
proof (induction "length xs" arbitrary: x xs y ys)
  case 0
  then show ?case by (cases ys) (auto simp: single_is_union)
next
  case (Suc n)
  then obtain w xs' where xs: "xs = w # xs'" by (cases xs) auto
  have set: "set (y # ys) \<subseteq> A" using Suc.prems by (metis set_mset_mset)
  have len: "length (y # ys) = length (x # xs)" using Suc.prems(1) by (metis size_mset)
  then obtain v vs where ys: "ys = v # vs" using xs by (cases ys) auto
  show ?case
  proof (cases "x = y")
    case True
    then have m: "mset (w # xs') = mset (v # vs)" using Suc.prems(1) xs ys by simp
    have "foldl f w xs' = foldl f v vs"
      by (rule Suc.hyps(1) [OF _ m]) (use Suc xs in auto)
    then show ?thesis
      using True xs ys Suc.prems(2) set foldl_step [of x w xs'] foldl_step [of y v vs] by simp
  next
    case False
    have "y \<in> set (x # xs)" using Suc.prems(1) by (metis list.set_intros(1) set_mset_mset)
    then have "y \<in> set xs" using False by simp
    then obtain ps qs where w: "xs = ps @ y # qs" by (meson split_list)
    have pq: "set (ps @ qs) \<subseteq> A" "x \<in> A" "y \<in> A" using Suc.prems(2) w by auto
    have m: "mset (x # ps @ qs) = mset (v # vs)" using Suc.prems(1) w ys by simp
    have "foldl f x xs = f y (foldl f x (ps @ qs))"
      using foldl_swap [of x y ps qs] foldl_step [of y x "ps @ qs"] pq w by simp
    also have "foldl f x (ps @ qs) = foldl f v vs"
      by (rule Suc.hyps(1) [OF _ m]) (use Suc w pq in auto)
    finally show ?thesis
      using ys set foldl_step [of y v vs] by simp
  qed
qed

end

lemma ordered_elem_laws:
  fixes add :: "'t \<Rightarrow> 't \<Rightarrow> 't" and key :: "'t \<Rightarrow> int"
  assumes "\<And>a b. lt a b \<longleftrightarrow> key a < key b" "inj key"
    "\<And>a b. add a b = add b a" "\<And>a b c. add (add a b) c = add a (add b c)"
  shows "ordered_elem add lt op a b = ordered_elem add lt op b a"
    "ordered_elem add lt op (ordered_elem add lt op a b) c =
     ordered_elem add lt op a (ordered_elem add lt op b c)"
proof -
  have k: "a = b" if "\<not> key a < key b" "\<not> key b < key a" for a b
    using that assms(2) by (auto dest: injD)
  show "ordered_elem add lt op a b = ordered_elem add lt op b a"
    using assms(1,3) k [of a b] by (auto simp: ordered_elem_def split: op.splits)
  show "ordered_elem add lt op (ordered_elem add lt op a b) c =
     ordered_elem add lt op a (ordered_elem add lt op b c)"
    using assms(1,4) by (auto simp: ordered_elem_def split: op.splits)
qed

lemma word_elem_laws:
  fixes a b c :: "'a::len word"
  shows "ordered_elem (+) (<) op a b = ordered_elem (+) (<) op b a"
    "ordered_elem (+) (<) op (ordered_elem (+) (<) op a b) c =
     ordered_elem (+) (<) op a (ordered_elem (+) (<) op b c)"
    "ordered_elem (+) (<s) op a b = ordered_elem (+) (<s) op b a"
    "ordered_elem (+) (<s) op (ordered_elem (+) (<s) op a b) c =
     ordered_elem (+) (<s) op a (ordered_elem (+) (<s) op b c)"
proof -
  have u: "inj (uint :: 'a word \<Rightarrow> int)" and s: "inj (sint :: 'a word \<Rightarrow> int)"
    by (rule inj_unsigned inj_signed)+
  note U = ordered_elem_laws [where key = uint and lt = "(<)" and add = "(+)", OF _ u]
    and S = ordered_elem_laws [where key = sint and lt = "(<s)" and add = "(+)", OF _ s]
  show "ordered_elem (+) (<) op a b = ordered_elem (+) (<) op b a"
    "ordered_elem (+) (<) op (ordered_elem (+) (<) op a b) c =
     ordered_elem (+) (<) op a (ordered_elem (+) (<) op b c)"
    "ordered_elem (+) (<s) op a b = ordered_elem (+) (<s) op b a"
    "ordered_elem (+) (<s) op (ordered_elem (+) (<s) op a b) c =
     ordered_elem (+) (<s) op a (ordered_elem (+) (<s) op b c)"
    using U(1) U(2) S(1) S(2) by (simp_all add: word_less_def word_sless_alt algebra_simps)
qed

lemma on_words_reduction:
  fixes g :: "'a::len word \<Rightarrow> 'a word \<Rightarrow> 'a word"
  assumes "2 ^ LENGTH('a) \<le> (256 :: nat) ^ k" "\<And>a b. g a b = g b a"
    "\<And>a b c. g (g a b) c = g a (g b c)"
  shows "reduction {b. length b = k} (on_words k g)"
  using assms(2,3) by unfold_locales (simp_all add: on_words_def dec_enc [OF assms(1)])

lemma word_reduction:
  assumes "2 ^ LENGTH('a::len) \<le> (256 :: nat) ^ k"
  shows "reduction {b. length b = k} (on_words k (ordered_elem (+) (<) op :: 'a word \<Rightarrow> _))"
    "reduction {b. length b = k} (on_words k (ordered_elem (+) (<s) op :: 'a word \<Rightarrow> _))"
  using assms word_elem_laws by (intro on_words_reduction; blast)+

text \<open>The types whose reductions are exact: booleans and integers.\<close>

definition exact :: "dtype \<Rightarrow> bool" where
  "exact dt \<longleftrightarrow> dt \<in> {Bool, Int8, Int16, Int32, Int64, Uint8, Uint16, Uint32, Uint64}"

definition exact_chunks :: "dtype \<Rightarrow> bytes set" where
  "exact_chunks dt = {b. exact dt \<and> ElementSize dt = Inr (length b)}"

lemma exact_chunks_simps:
  "exact_chunks Bool = {b. length b = 1}"
  "exact_chunks Int8 = {b. length b = 1}" "exact_chunks Uint8 = {b. length b = 1}"
  "exact_chunks Int16 = {b. length b = 2}" "exact_chunks Uint16 = {b. length b = 2}"
  "exact_chunks Int32 = {b. length b = 4}" "exact_chunks Uint32 = {b. length b = 4}"
  "exact_chunks Int64 = {b. length b = 8}" "exact_chunks Uint64 = {b. length b = 8}"
  by (auto simp: exact_chunks_def exact_def ElementSize_def)

lemma exact_chunks_empty: "\<not> exact dt \<Longrightarrow> exact_chunks dt = {}"
  by (simp add: exact_chunks_def)

interpretation exact: reduction "exact_chunks dt" "elem_op fp dt op"
proof (cases "exact dt")
  case False
  then show "reduction (exact_chunks dt) (elem_op fp dt op)"
    by (simp add: reduction_def exact_chunks_empty)
next
  case True
  have B: "reduction (exact_chunks Bool) (elem_op fp Bool op)"
    by unfold_locales (auto simp: exact_chunks_simps bool_elem_def split: op.splits)

  show "reduction (exact_chunks dt) (elem_op fp dt op)"
    using True B unfolding exact_def
    by (elim insertE emptyE) (simp_all add: exact_chunks_simps word_reduction)
qed

section \<open>Reducing several buffers\<close>

text \<open>The loop of the collectives: reduce each source into the accumulator, stop at the first error.\<close>

fun reduce_list :: "float_ops \<Rightarrow> dtype \<Rightarrow> op \<Rightarrow> bytes \<Rightarrow> bytes list \<Rightarrow> reduce_error + bytes" where
  "reduce_list fp dt op acc [] = Inr acc"
| "reduce_list fp dt op acc (s # ss) =
     (case apply_op fp dt acc s op of Inl e \<Rightarrow> Inl e | Inr acc' \<Rightarrow> reduce_list fp dt op acc' ss)"

lemma apply_op_chunks:
  assumes "ElementSize dt = Inr k" "supported dt" "k dvd length src" "length dst = length src"
  shows "\<exists>r. apply_op fp dt dst src op = Inr r \<and> length r = length src \<and>
    chunks k r = map2 (elem_op fp dt op) (chunks k dst) (chunks k src)"
proof -
  have k: "0 < k" by (rule ElementSize_pos [OF assms(1)])
  have d: "k dvd length dst" using assms(3,4) by simp
  let ?R = "map2 (elem_op fp dt op) (chunks k dst) (chunks k src)"
  have R: "\<forall>c \<in> set ?R. length c = k" by (rule map2_lengths [OF assms(1) chunks_spec(2) [OF k d]])
  have "length ?R = length src div k"
    using chunks_spec(3) [OF k d] chunks_spec(3) [OF k assms(3)] assms(4) by simp
  then have len: "length (concat ?R) = length src"
    using length_concat_const [OF R] assms(3) by simp
  have "apply_op fp dt dst src op = Inr (concat ?R)"
    using apply_op_Inr [OF assms(1-3), of dst fp op] assms(4) by simp
  then show ?thesis using len chunks_concat [OF R k] by blast
qed

lemma reduce_list_chunks:
  assumes "ElementSize dt = Inr k" "supported dt" "k dvd n" "length acc = n" "\<forall>s \<in> set ss. length s = n"
  shows "\<exists>r. reduce_list fp dt op acc ss = Inr r \<and> length r = n \<and>
    chunks k r = foldl (map2 (elem_op fp dt op)) (chunks k acc) (map (chunks k) ss)"
  using assms(4,5)
proof (induction ss arbitrary: acc)
  case (Cons s ss)
  obtain r where r: "apply_op fp dt acc s op = Inr r" "length r = n"
    "chunks k r = map2 (elem_op fp dt op) (chunks k acc) (chunks k s)"
    using apply_op_chunks [OF assms(1,2), of s acc fp op] Cons.prems assms(3) by auto
  then show ?case using Cons.IH [of r] Cons.prems(2) by simp
qed simp

lemma foldl_map2_nth:
  assumes "length x = m" "\<forall>y \<in> set xs. length y = m" "i < m"
  shows "length (foldl (map2 f) x xs) = m \<and>
    foldl (map2 f) x xs ! i = foldl f (x ! i) (map (\<lambda>y. y ! i) xs)"
  using assms(1,2)
proof (induction xs arbitrary: x)
  case (Cons y ys)
  have "length (map2 f x y) = m" "map2 f x y ! i = f (x ! i) (y ! i)" using Cons.prems assms(3) by auto
  then show ?case using Cons.IH [of "map2 f x y"] Cons.prems(2) by simp
qed simp

lemma supported_exact: "exact dt \<Longrightarrow> supported dt"
  by (auto simp: exact_def supported_def ElementSize_def)

text \<open>Integer and boolean reductions depend only on which buffers are combined, not on their order.\<close>

lemma reduce_list_mset:
  assumes "exact dt" "ElementSize dt = Inr k" "k dvd n" "\<forall>s \<in> set (a # as). length s = n"
    "mset (a # as) = mset (b # bs)"
  shows "reduce_list fp dt op a as = reduce_list fp dt op b bs"
proof -
  have k: "0 < k" by (rule ElementSize_pos [OF assms(2)])
  have B: "\<forall>s \<in> set (b # bs). length s = n" using assms(4,5) by (metis set_mset_mset)
  note S = supported_exact [OF assms(1)]
  obtain r1 where r1: "reduce_list fp dt op a as = Inr r1" "length r1 = n"
    "chunks k r1 = foldl (map2 (elem_op fp dt op)) (chunks k a) (map (chunks k) as)"
    using reduce_list_chunks [OF assms(2) S assms(3), of a as fp op] assms(4) by auto
  obtain r2 where r2: "reduce_list fp dt op b bs = Inr r2" "length r2 = n"
    "chunks k r2 = foldl (map2 (elem_op fp dt op)) (chunks k b) (map (chunks k) bs)"
    using reduce_list_chunks [OF assms(2) S assms(3), of b bs fp op] B by auto
  have cl: "length (chunks k s) = n div k" "\<forall>c \<in> set (chunks k s). length c = k" if "length s = n" for s
    using chunks_spec(2,3) [OF k, of s] that assms(3) by auto
  have "chunks k r1 ! i = chunks k r2 ! i" if i: "i < n div k" for i
  proof -
    have mem: "chunks k s ! i \<in> exact_chunks dt" if "length s = n" for s
      using cl [OF that] i assms(1,2) by (simp add: exact_chunks_def)
    have "chunks k r1 ! i = foldl (elem_op fp dt op) (chunks k a ! i) (map (\<lambda>s. chunks k s ! i) as)"
      using foldl_map2_nth [of "chunks k a" "n div k" "map (chunks k) as" i] cl(1) assms(4) i
      unfolding r1(3) by (simp add: comp_def)
    also have "\<dots> = foldl (elem_op fp dt op) (chunks k b ! i) (map (\<lambda>s. chunks k s ! i) bs)"
    proof (rule exact.foldl_mset)
      show "mset (chunks k a ! i # map (\<lambda>s. chunks k s ! i) as) =
          mset (chunks k b ! i # map (\<lambda>s. chunks k s ! i) bs)"
        using arg_cong [OF assms(5), of "image_mset (\<lambda>s. chunks k s ! i)"] by simp
      show "set (chunks k a ! i # map (\<lambda>s. chunks k s ! i) as) \<subseteq> exact_chunks dt"
        using mem assms(4) by auto
    qed
    also have "\<dots> = chunks k r2 ! i"
      using foldl_map2_nth [of "chunks k b" "n div k" "map (chunks k) bs" i] cl(1) B i
      unfolding r2(3) by (simp add: comp_def)
    finally show ?thesis .
  qed
  then have "chunks k r1 = chunks k r2"
    using cl(1) [OF r1(2)] cl(1) [OF r2(2)] by (intro nth_equalityI) simp_all
  moreover have "concat (chunks k r1) = r1" "concat (chunks k r2) = r2"
    using chunks_spec(1) [OF k] assms(3) r1(2) r2(2) by auto
  ultimately show ?thesis using r1(1) r2(1) by metis
qed

end
