(* ===== verification/Backend.thy ===== *)
theory Backend
  imports Reduce Topology
begin

text \<open>
  The RDMA backend of the library, \<^verbatim>\<open>src/backend.go\<close>: which peers get a connection, the
  staging loops of point-to-point and mesh transfers, the flooding gather used on rings, lines and other
  connected graphs, the reductions built on them, and the locking of connections.

  The RDMA provider is outside the source: what a rank receives is the argument \<open>inbox\<close>, the messages of
  each peer in order.  The properties connect the ranks by giving every rank the messages its peers send.
  \<^verbatim>\<open>PostSend\<close>, \<^verbatim>\<open>PostRecv\<close> and the polls may fail: the argument \<open>net\<close> gives the
  error of each such call, in program order.
\<close>

section \<open>Peers and connections\<close>

definition rdmaStagingBytes :: nat where
  "rdmaStagingBytes = 4096 * 2 ^ 7"

datatype be_error =
    PeerOutOfRange int nat
  | NoConnection nat
  | Provider string
  | GatherTooLarge nat nat
  | PayloadLength nat nat
  | ValueMissing nat
  | ReduceRank nat reduce_error
  | Blocked

definition deviceForPeer :: "matrix \<Rightarrow> nat \<Rightarrow> int \<Rightarrow> string" where
  "deviceForPeer devices rank peer =
     (if peer < 0 \<or> peer \<ge> int (length (devices ! rank)) \<or>
         length (paths_of (cell devices rank (nat peer))) = 0 then ''''
      else paths_of (cell devices rank (nat peer)) ! 0)"

record rdma_conn =
  rc_device :: string
  rc_locked :: bool

record rdma_backend =
  be_rank :: nat
  be_size :: nat
  be_topo :: topology
  be_conns :: "rdma_conn option list"

text \<open>The connections \<open>open\<close> makes when every device opens.\<close>

definition open_conns :: "matrix \<Rightarrow> nat \<Rightarrow> rdma_conn option list" where
  "open_conns devices rank = map (\<lambda>peer.
     if peer = rank then None
     else let device = deviceForPeer devices rank (int peer) in
       if device = '''' then None else Some \<lparr> rc_device = device, rc_locked = False \<rparr>) [0..<length devices]"

definition new_backend :: "matrix \<Rightarrow> bool \<Rightarrow> nat \<Rightarrow> topo_error + rdma_backend" where
  "new_backend devices preferRing rank =
     (case Choose devices preferRing of Inl e \<Rightarrow> Inl e
      | Inr topo \<Rightarrow> Inr \<lparr> be_rank = rank, be_size = length devices, be_topo = topo,
          be_conns = open_conns devices rank \<rparr>)"

definition be_conn :: "rdma_backend \<Rightarrow> int \<Rightarrow> be_error + rdma_conn" where
  "be_conn b peer =
     (if peer < 0 \<or> peer \<ge> int (be_size b) then Inl (PeerOutOfRange peer (be_size b))
      else case be_conns b ! nat peer of None \<Rightarrow> Inl (NoConnection (nat peer)) | Some c \<Rightarrow> Inr c)"

definition graphNeighbors :: "rdma_backend \<Rightarrow> nat list" where
  "graphNeighbors b = filter (\<lambda>peer. peer \<noteq> be_rank b \<and> be_conns b ! peer \<noteq> None) [0..<length (be_conns b)]"

text \<open>\<^verbatim>\<open>kind<<16 | peer\<close>\<close>

definition workID :: "nat \<Rightarrow> nat \<Rightarrow> u64" where
  "workID kind peer = or (push_bit 16 (word_of_nat kind)) (word_of_nat peer)"

section \<open>Staging\<close>

text \<open>\<^verbatim>\<open>copy(dst[off:], src)\<close> for a source that fits.\<close>

definition copy_at :: "bytes \<Rightarrow> nat \<Rightarrow> bytes \<Rightarrow> bytes" where
  "copy_at dst off src = take off dst @ src @ drop (off + length src) dst"

text \<open>
  The send loop: one message per staging buffer.  The result is the error, if any, and the messages that
  were posted; \<open>net\<close> answers the post and the poll of each round.
\<close>

function send_loop ::
  "nat \<Rightarrow> (nat \<Rightarrow> be_error option) \<Rightarrow> bytes \<Rightarrow> nat \<Rightarrow> be_error option \<times> bytes list" where
  "send_loop staging net src off =
     (if staging = 0 \<or> length src \<le> off then (None, [])
      else
        let n = min staging (length src - off) in
        case net 0 of Some e \<Rightarrow> (Some e, [])
        | None \<Rightarrow>
            (case net 1 of Some e \<Rightarrow> (Some e, [take n (drop off src)])
             | None \<Rightarrow>
                 (case send_loop staging (\<lambda>k. net (k + 2)) src (off + staging) of
                   (e, ms) \<Rightarrow> (e, take n (drop off src) # ms))))"
  by pat_completeness auto
termination
  by (relation "measure (\<lambda>(staging, net, src, off). length src - off)") auto

declare send_loop.simps [simp del]

definition be_send ::
  "rdma_backend \<Rightarrow> (nat \<Rightarrow> be_error option) \<Rightarrow> int \<Rightarrow> bytes \<Rightarrow> be_error option \<times> bytes list" where
  "be_send b net dst src =
     (if src = [] then (None, [])
      else case be_conn b dst of Inl e \<Rightarrow> (Some e, [])
      | Inr c \<Rightarrow> send_loop rdmaStagingBytes net src 0)"

text \<open>
  The receive loop.  A message overwrites the start of the staging buffer \<open>buf\<close>; the loop then copies
  \<open>n\<close> bytes of the buffer, whatever the length of the message was.
\<close>

definition deliver :: "bytes \<Rightarrow> bytes \<Rightarrow> bytes" where
  "deliver buf msg = msg @ drop (length msg) buf"

function recv_loop ::
  "nat \<Rightarrow> (nat \<Rightarrow> be_error option) \<Rightarrow> bytes list \<Rightarrow> bytes \<Rightarrow> bytes \<Rightarrow> nat \<Rightarrow> be_error option \<times> bytes" where
  "recv_loop staging net inbox buf dst off =
     (if staging = 0 \<or> length dst \<le> off then (None, dst)
      else
        let n = min staging (length dst - off) in
        case net 0 of Some e \<Rightarrow> (Some e, dst)
        | None \<Rightarrow>
            (case net 1 of Some e \<Rightarrow> (Some e, dst)
             | None \<Rightarrow>
                 (case inbox of [] \<Rightarrow> (Some Blocked, dst)
                  | msg # rest \<Rightarrow>
                      let buf' = deliver buf msg in
                      recv_loop staging (\<lambda>k. net (k + 2)) rest buf' (copy_at dst off (take n buf'))
                        (off + staging))))"
  by pat_completeness auto
termination
proof (relation "measure (\<lambda>(staging, net, inbox, buf, dst, off). length inbox)")
qed auto

declare recv_loop.simps [simp del]

definition be_recv ::
  "rdma_backend \<Rightarrow> (nat \<Rightarrow> be_error option) \<Rightarrow> bytes list \<Rightarrow> int \<Rightarrow> bytes \<Rightarrow> be_error option \<times> bytes" where
  "be_recv b net inbox src dst =
     (if dst = [] then (None, dst)
      else case be_conn b src of Inl e \<Rightarrow> (Some e, dst)
      | Inr c \<Rightarrow> recv_loop rdmaStagingBytes net inbox (replicate rdmaStagingBytes 0) dst 0)"

section \<open>Mesh exchange\<close>

text \<open>
  One staging round of \<open>exchange\<close> stores, for every connected peer, the first \<open>n\<close> bytes of its staging
  buffer at the round's offset of \<^verbatim>\<open>recvs[peer]\<close>; \<open>inbox peer r\<close> is the \<open>r\<close>-th message of a
  peer.  Peers without a connection keep a nil entry.
\<close>

definition exchange_round ::
  "rdma_backend \<Rightarrow> (nat \<Rightarrow> bytes) \<Rightarrow> nat \<Rightarrow> nat \<Rightarrow> bytes option list \<times> bytes list \<Rightarrow>
   bytes option list \<times> bytes list" where
  "exchange_round b inbox off n st =
     foldl (\<lambda>(recvs, bufs) peer.
       if peer = be_rank b \<or> be_conns b ! peer = None then (recvs, bufs)
       else
         let buf = deliver (bufs ! peer) (inbox peer) in
         (recvs[peer := map_option (\<lambda>d. copy_at d off (take n buf)) (recvs ! peer)], bufs[peer := buf]))
       st [0..<length (be_conns b)]"

function exchange_loop ::
  "rdma_backend \<Rightarrow> nat \<Rightarrow> (nat \<Rightarrow> nat \<Rightarrow> bytes) \<Rightarrow> nat \<Rightarrow> nat \<Rightarrow> nat \<Rightarrow> bytes option list \<times> bytes list \<Rightarrow>
   bytes option list \<times> bytes list" where
  "exchange_loop b staging inbox len off r st =
     (if staging = 0 \<or> len \<le> off then st
      else exchange_loop b staging inbox len (off + staging) (Suc r)
        (exchange_round b (\<lambda>p. inbox p r) off (min staging (len - off)) st))"
  by pat_completeness auto
termination
  by (relation "measure (\<lambda>(b, staging, inbox, len, off, r, st). len - off)") auto

declare exchange_loop.simps [simp del]

definition exchange :: "rdma_backend \<Rightarrow> (nat \<Rightarrow> nat \<Rightarrow> bytes) \<Rightarrow> bytes \<Rightarrow> bytes option list" where
  "exchange b inbox src =
     (let recvs = map (\<lambda>peer. if peer = be_rank b \<or> be_conns b ! peer = None then None
            else Some (replicate (length src) 0)) [0..<be_size b];
          bufs = replicate (be_size b) (replicate rdmaStagingBytes 0) in
      fst (exchange_loop b rdmaStagingBytes inbox (length src) 0 0 (recvs, bufs)))"

section \<open>Flooding gather\<close>

definition encodeGraphGatherPayload :: "nat \<Rightarrow> bool list \<Rightarrow> bytes list \<Rightarrow> nat \<Rightarrow> bytes" where
  "encodeGraphGatherPayload psize known values elemLen =
     foldl (\<lambda>p rank. if \<not> known ! rank then p
       else copy_at (p[rank := 1]) (length known + rank * elemLen) (take elemLen (values ! rank)))
       (replicate psize 0) [0..<length known]"

definition mergeGraphGatherPayload ::
  "bool list \<times> bytes list \<Rightarrow> bytes \<Rightarrow> nat \<Rightarrow> be_error + (bool list \<times> bytes list)" where
  "mergeGraphGatherPayload st payload elemLen =
     (let n = length (fst st) in
      if length payload \<noteq> n + n * elemLen then Inl (PayloadLength (length payload) (n + n * elemLen))
      else Inr (foldl (\<lambda>(known, values) rank.
        if payload ! rank = 0 \<or> known ! rank then (known, values)
        else (known[rank := True], values[rank := take elemLen (drop (n + rank * elemLen) payload)]))
        st [0..<n]))"

fun merge_all ::
  "(nat \<Rightarrow> bytes) \<Rightarrow> nat \<Rightarrow> nat list \<Rightarrow> bool list \<times> bytes list \<Rightarrow> be_error + (bool list \<times> bytes list)" where
  "merge_all inbox elemLen [] st = Inr st"
| "merge_all inbox elemLen (p # ps) st =
     (case mergeGraphGatherPayload st (inbox p) elemLen of Inl e \<Rightarrow> Inl e
      | Inr st' \<Rightarrow> merge_all inbox elemLen ps st')"

fun gather_rounds ::
  "(nat \<Rightarrow> nat \<Rightarrow> bytes) \<Rightarrow> nat list \<Rightarrow> nat \<Rightarrow> nat \<Rightarrow> nat \<Rightarrow> bool list \<times> bytes list \<Rightarrow>
   be_error + (bool list \<times> bytes list)" where
  "gather_rounds inbox nbrs elemLen step 0 st = Inr st"
| "gather_rounds inbox nbrs elemLen step (Suc k) st =
     (case merge_all (\<lambda>p. inbox p step) elemLen nbrs st of Inl e \<Rightarrow> Inl e
      | Inr st' \<Rightarrow> gather_rounds inbox nbrs elemLen (Suc step) k st')"

definition gather_init :: "nat \<Rightarrow> nat \<Rightarrow> bytes \<Rightarrow> bool list \<times> bytes list" where
  "gather_init n rank src = ((replicate n False)[rank := True], (replicate n [])[rank := src])"

definition graphGather :: "rdma_backend \<Rightarrow> (nat \<Rightarrow> nat \<Rightarrow> bytes) \<Rightarrow> bytes \<Rightarrow> be_error + bytes list" where
  "graphGather b inbox src =
     (let n = be_size b; payloadSize = n + n * length src in
      if payloadSize > rdmaStagingBytes then Inl (GatherTooLarge payloadSize rdmaStagingBytes)
      else
        case gather_rounds inbox (graphNeighbors b) (length src) 0 (n - 1) (gather_init n (be_rank b) src) of
          Inl e \<Rightarrow> Inl e
        | Inr (known, values) \<Rightarrow>
            (case first_err (\<lambda>peer. if \<not> known ! peer then Some (ValueMissing peer) else None) [0..<n] of
              Some e \<Rightarrow> Inl e
            | None \<Rightarrow> Inr values))"

section \<open>Collectives\<close>

datatype reduction_op = reductionSum | reductionMax | reductionMin | OtherReduction int

definition applyReduction ::
  "float_ops \<Rightarrow> reduction_op \<Rightarrow> dtype \<Rightarrow> bytes \<Rightarrow> bytes \<Rightarrow> reduce_error + bytes" where
  "applyReduction fp rop dt dst src =
     (case rop of reductionSum \<Rightarrow> Sum fp dt dst src | reductionMax \<Rightarrow> Max fp dt dst src
      | reductionMin \<Rightarrow> Min fp dt dst src | OtherReduction i \<Rightarrow> Inl (UnknownOp i))"

fun reduce_peers ::
  "float_ops \<Rightarrow> reduction_op \<Rightarrow> dtype \<Rightarrow> bytes \<Rightarrow> (nat \<times> bytes) list \<Rightarrow> be_error + bytes" where
  "reduce_peers fp rop dt dst [] = Inr dst"
| "reduce_peers fp rop dt dst ((peer, v) # ps) =
     (case applyReduction fp rop dt dst v of Inl e \<Rightarrow> Inl (ReduceRank peer e)
      | Inr dst' \<Rightarrow> reduce_peers fp rop dt dst' ps)"

text \<open>\<^verbatim>\<open>copy(dst, src)\<close>, then the loop over the peers; a nil buffer is empty.\<close>

definition nil_bytes :: "bytes option \<Rightarrow> bytes" where
  "nil_bytes v = (case v of None \<Rightarrow> [] | Some b \<Rightarrow> b)"

definition allReduce ::
  "float_ops \<Rightarrow> rdma_backend \<Rightarrow> (nat \<Rightarrow> nat \<Rightarrow> bytes) \<Rightarrow> reduction_op \<Rightarrow> dtype \<Rightarrow> bytes \<Rightarrow> bytes \<Rightarrow>
   be_error + bytes" where
  "allReduce fp b inbox rop dt dst src =
     (if src = [] then Inr dst
      else if be_topo b \<noteq> Mesh then
        (case graphGather b inbox src of Inl e \<Rightarrow> Inl e
         | Inr values \<Rightarrow> reduce_peers fp rop dt (copy_at dst 0 (take (length dst) src))
             (map (\<lambda>p. (p, values ! p)) (filter (\<lambda>p. p \<noteq> be_rank b) [0..<be_size b])))
      else
        let recvs = exchange b inbox src in
        reduce_peers fp rop dt (copy_at dst 0 (take (length dst) src))
          (map (\<lambda>p. (p, nil_bytes (recvs ! p))) (filter (\<lambda>p. p \<noteq> be_rank b) [0..<be_size b])))"

definition allGather ::
  "rdma_backend \<Rightarrow> (nat \<Rightarrow> nat \<Rightarrow> bytes) \<Rightarrow> bytes \<Rightarrow> bytes \<Rightarrow> be_error + bytes" where
  "allGather b inbox dst src =
     (if src = [] then Inr dst
      else if be_topo b \<noteq> Mesh then
        (case graphGather b inbox src of Inl e \<Rightarrow> Inl e
         | Inr values \<Rightarrow> Inr (foldl (\<lambda>d p. copy_at d (p * length src) (take (length src) (values ! p)))
             dst [0..<length values]))
      else
        let recvs = exchange b inbox src;
            dst' = copy_at dst (be_rank b * length src) src in
        Inr (foldl (\<lambda>d p. copy_at d (p * length src) (take (length src) (nil_bytes (recvs ! p))))
          dst' (filter (\<lambda>p. p \<noteq> be_rank b) [0..<be_size b])))"

section \<open>Locks\<close>

text \<open>
  A mutex that is held blocks the next \<^verbatim>\<open>Lock\<close> for ever: \<open>None\<close>.  The lists are the lock bits
  of the connections, \<open>None\<close> for no connection.
\<close>

definition lock_conn :: "nat \<Rightarrow> bool option list \<Rightarrow> bool option list option" where
  "lock_conn i ls = (if ls ! i = Some True then None else Some (ls[i := Some True]))"

text \<open>\<open>lockConns\<close> skips nil connections and connections it already holds.\<close>

fun lockConns :: "nat list \<Rightarrow> nat list \<Rightarrow> bool option list \<Rightarrow> (nat list \<times> bool option list) option" where
  "lockConns [] locked ls = Some (locked, ls)"
| "lockConns (i # is) locked ls =
     (if ls ! i = None \<or> i \<in> set locked then lockConns is locked ls
      else case lock_conn i ls of None \<Rightarrow> None | Some ls' \<Rightarrow> lockConns is (locked @ [i]) ls')"

definition unlockConns :: "nat list \<Rightarrow> bool option list \<Rightarrow> bool option list" where
  "unlockConns is ls = foldr (\<lambda>i l. l[i := Some False]) is ls"

text \<open>The locks \<open>graphGather\<close> takes and its deferred unlock; those of \<open>send\<close> and \<open>recv\<close>.\<close>

definition graph_locks :: "nat list \<Rightarrow> bool option list \<Rightarrow> bool option list option" where
  "graph_locks nbrs ls = map_option (\<lambda>(locked, ls'). unlockConns locked ls') (lockConns nbrs [] ls)"

definition p2p_locks :: "nat \<Rightarrow> bool option list \<Rightarrow> bool option list option" where
  "p2p_locks peer ls = map_option (unlockConns [peer]) (lock_conn peer ls)"

text \<open>
  \<open>exchange\<close> locks every connection, but its \<^verbatim>\<open>defer unlockConns(locked)\<close> stands before the first
  \<^verbatim>\<open>append\<close>: Go evaluates the argument there, so the deferred call gets the empty slice.
\<close>

fun exchange_lock_loop :: "nat \<Rightarrow> nat list \<Rightarrow> bool option list \<Rightarrow> bool option list option" where
  "exchange_lock_loop rank [] ls = Some ls"
| "exchange_lock_loop rank (peer # peers) ls =
     (if peer = rank \<or> ls ! peer = None then exchange_lock_loop rank peers ls
      else case lock_conn peer ls of None \<Rightarrow> None | Some ls' \<Rightarrow> exchange_lock_loop rank peers ls')"

definition exchange_locks :: "nat \<Rightarrow> bool option list \<Rightarrow> bool option list option" where
  "exchange_locks rank ls = map_option (unlockConns []) (exchange_lock_loop rank [0..<length ls] ls)"

section \<open>Copies and staging\<close>

lemma length_copy_at [simp]: "off + length v \<le> length d \<Longrightarrow> length (copy_at d off v) = length d"
  by (simp add: copy_at_def)

lemma nth_copy_at:
  assumes "off + length v \<le> length d" "i < length d"
  shows "copy_at d off v ! i = (if off \<le> i \<and> i < off + length v then v ! (i - off) else d ! i)"
  using assms by (auto simp: copy_at_def nth_append min_def)

lemma copy_at_whole: "length v = length d \<Longrightarrow> copy_at d 0 v = v"
  by (simp add: copy_at_def)

text \<open>Extending a correct prefix by the next piece.\<close>

lemma copy_at_prefix:
  assumes "length d = length s" "take off d = take off s" "off \<le> length s" "v = take n (drop off s)"
  shows "take (off + n) (copy_at d off v) = take (off + n) s" "length (copy_at d off v) = length s"
proof -
  have l: "off + length v \<le> length d" using assms by simp
  then show "length (copy_at d off v) = length s" using assms(1) by simp
  have e: "copy_at d off v = take (off + n) s @ drop (off + length v) d"
    using assms by (simp add: copy_at_def take_add)
  show "take (off + n) (copy_at d off v) = take (off + n) s"
  proof (cases "off + n \<le> length s")
    case True
    then show ?thesis unfolding e by simp
  next
    case False
    then have "drop (off + length v) d = []" using assms by simp
    then show ?thesis unfolding e using False by simp
  qed
qed

lemma take_deliver: "n \<le> length msg \<Longrightarrow> take n (deliver buf msg) = take n msg"
  by (simp add: deliver_def)

text \<open>What one rank sends, the other receives.\<close>

lemma recv_send_loop:
  assumes "0 < staging" "\<forall>k. net k = None" "\<forall>k. net' k = None" "length dst = length src"
    "take off dst = take off src" "off \<le> length src"
  shows "recv_loop staging net' (snd (send_loop staging net src off)) buf dst off = (None, src)"
  using assms
proof (induction staging net src off arbitrary: dst buf net' rule: send_loop.induct)
  case (1 staging net src off)
  show ?case
  proof (cases "length src \<le> off")
    case True
    then show ?thesis
      using "1.prems" by (subst recv_loop.simps) simp
  next
    case False
    let ?n = "min staging (length src - off)" and ?net = "\<lambda>k. net (k + 2)"
    let ?m = "take ?n (drop off src)"
    have send: "snd (send_loop staging net src off) = ?m # snd (send_loop staging ?net src (off + staging))"
      using "1.prems" False by (simp add: send_loop.simps [of staging net src off] Let_def split: prod.splits)
    have m: "take ?n (deliver buf ?m) = ?m"
      using False by (subst take_deliver) simp_all
    let ?d = "copy_at dst off ?m"
    note P = copy_at_prefix [OF "1.prems"(4,5,6) refl, of ?n]
    have recv: "recv_loop staging net' (snd (send_loop staging net src off)) buf dst off =
      recv_loop staging (\<lambda>k. net' (k + 2)) (snd (send_loop staging ?net src (off + staging)))
        (deliver buf ?m) ?d (off + staging)"
      unfolding send using "1.prems" False m
      by (subst recv_loop.simps) (simp add: Let_def)
    show ?thesis
    proof (cases "off + staging \<le> length src")
      case True
      then have n: "?n = staging" by simp
      show ?thesis
        unfolding recv
        by (rule "1.IH" [OF _ refl]) (use "1.prems" False P True n in auto)
    next
      case last: False
      then have n: "off + ?n = length src" using False by simp
      have "?d = src" using P n by (metis order_refl take_all)
      then show ?thesis
        unfolding recv using last by (subst recv_loop.simps) simp
    qed
  qed
qed

text \<open>C11.  Point-to-point transfers: when no provider call fails, a receive of as many bytes as were
sent, given the messages of the send in order, fills its buffer with exactly the bytes sent, for every
length, however many staging rounds it takes.\<close>

theorem send_recv_roundtrip:
  assumes "be_conn b dst = Inr c" and "be_conn b' src = Inr c'" and "length buf = length data"
  shows "fst (be_send b (\<lambda>_. None) dst data) = None \<and>
    be_recv b' (\<lambda>_. None) (snd (be_send b (\<lambda>_. None) dst data)) src buf = (None, data)"
proof (cases "data = []")
  case True
  then show ?thesis using assms(3) by (simp add: be_send_def be_recv_def)
next
  case False
  have e: "fst (send_loop staging net s off) = None" if "\<forall>k. net k = None" for staging net s off
    using that
  proof (induction staging net s off rule: send_loop.induct)
    case (1 staging net s off)
    show ?case
    proof (cases "staging = 0 \<or> length s \<le> off")
      case False
      have "fst (send_loop staging (\<lambda>k. net (k + 2)) s (off + staging)) = None"
        using "1.IH" [OF False refl] "1.prems" by simp
      then show ?thesis
        using "1.prems" False by (subst send_loop.simps) (simp add: Let_def split_beta)
    qed (simp add: send_loop.simps [of staging net s off])
  qed
  have "buf \<noteq> []" using False assms(3) by auto
  with False assms show ?thesis
    using recv_send_loop [of rdmaStagingBytes "\<lambda>_. None" "\<lambda>_. None" buf data 0] e
    by (simp add: be_send_def be_recv_def rdmaStagingBytes_def)
qed

definition pair_backend :: "nat \<Rightarrow> rdma_backend" where
  "pair_backend r = \<lparr> be_rank = r, be_size = 2, be_topo = Mesh, be_conns = open_conns pair_matrix r \<rparr>"

lemma pair_conns:
  "open_conns pair_matrix 0 = [None, Some \<lparr> rc_device = ''rdma_en1'', rc_locked = False \<rparr>]"
  "open_conns pair_matrix 1 = [Some \<lparr> rc_device = ''rdma_en1'', rc_locked = False \<rparr>, None]"
  by code_simp+

theorem send_recv_roundtrip_witness:
  "be_recv (pair_backend 1) (\<lambda>_. None) (snd (be_send (pair_backend 0) (\<lambda>_. None) 1 [1, 2, 3])) 0 [0, 0, 0] =
     (None, [1, 2, 3])"
proof -
  have c: "be_conn (pair_backend 0) 1 = Inr \<lparr> rc_device = ''rdma_en1'', rc_locked = False \<rparr>"
    "be_conn (pair_backend 1) 0 = Inr \<lparr> rc_device = ''rdma_en1'', rc_locked = False \<rparr>"
    by (simp_all add: be_conn_def pair_backend_def pair_conns [simplified])
  show ?thesis
    using send_recv_roundtrip [OF c, of "[0, 0, 0]" "[1, 2, 3]"] by simp
qed

section \<open>The mesh exchange delivers every peer's bytes\<close>

text \<open>The message of one staging round.\<close>

definition stage_msg :: "nat \<Rightarrow> bytes \<Rightarrow> nat \<Rightarrow> bytes" where
  "stage_msg staging src r = take staging (drop (r * staging) src)"

definition connected_to :: "rdma_backend \<Rightarrow> nat \<Rightarrow> bool" where
  "connected_to b p \<longleftrightarrow> p < length (be_conns b) \<and> p \<noteq> be_rank b \<and> be_conns b ! p \<noteq> None"

lemma exchange_fold:
  assumes "distinct ps" "length recvs = length (be_conns b)" "length bufs = length (be_conns b)"
    "set ps \<subseteq> {..<length (be_conns b)}"
    "foldl (\<lambda>(recvs, bufs) peer.
       if peer = be_rank b \<or> be_conns b ! peer = None then (recvs, bufs)
       else
         let buf = deliver (bufs ! peer) (inbox peer) in
         (recvs[peer := map_option (\<lambda>d. copy_at d off (take n buf)) (recvs ! peer)], bufs[peer := buf]))
       (recvs, bufs) ps = (recvs', bufs')"
  shows "length recvs' = length recvs \<and> length bufs' = length bufs \<and>
    (\<forall>p < length recvs. recvs' ! p = (if p \<in> set ps \<and> connected_to b p
       then map_option (\<lambda>d. copy_at d off (take n (deliver (bufs ! p) (inbox p)))) (recvs ! p)
       else recvs ! p))"
  using assms
proof (induction ps arbitrary: recvs bufs)
  case (Cons q ps)
  show ?case
  proof (cases "q = be_rank b \<or> be_conns b ! q = None")
    case True
    then have "\<not> connected_to b q" by (auto simp: connected_to_def)
    moreover have "\<forall>p < length recvs. recvs' ! p = (if p \<in> set ps \<and> connected_to b p
       then map_option (\<lambda>d. copy_at d off (take n (deliver (bufs ! p) (inbox p)))) (recvs ! p)
       else recvs ! p)" "length recvs' = length recvs \<and> length bufs' = length bufs"
      using Cons.IH [of recvs bufs] Cons.prems True by auto
    ultimately show ?thesis by auto
  next
    case False
    let ?buf = "deliver (bufs ! q) (inbox q)"
    let ?r = "recvs[q := map_option (\<lambda>d. copy_at d off (take n ?buf)) (recvs ! q)]"
    have q: "q < length recvs" "connected_to b q" "q \<notin> set ps"
      using Cons.prems False by (auto simp: connected_to_def)
    have "length recvs' = length ?r \<and> length bufs' = length (bufs[q := ?buf]) \<and>
      (\<forall>p < length ?r. recvs' ! p = (if p \<in> set ps \<and> connected_to b p
       then map_option (\<lambda>d. copy_at d off (take n (deliver (bufs[q := ?buf] ! p) (inbox p)))) (?r ! p)
       else ?r ! p))"
      by (rule Cons.IH) (use Cons.prems False in \<open>auto simp: Let_def\<close>)
    then show ?thesis using q by (auto simp: nth_list_update)
  qed
qed auto

lemma exchange_round_spec:
  assumes "length recvs = length (be_conns b)" "length bufs = length (be_conns b)"
    "exchange_round b inbox off n (recvs, bufs) = (recvs', bufs')"
  shows "length recvs' = length (be_conns b)" "length bufs' = length (be_conns b)"
    "p < length (be_conns b) \<Longrightarrow> recvs' ! p = (if connected_to b p
       then map_option (\<lambda>d. copy_at d off (take n (deliver (bufs ! p) (inbox p)))) (recvs ! p)
       else recvs ! p)"
proof -
  have "set [0..<length (be_conns b)] \<subseteq> {..<length (be_conns b)}" by auto
  note F = exchange_fold [OF distinct_upt assms(1,2) this assms(3) [unfolded exchange_round_def]]
  then show "length recvs' = length (be_conns b)" "length bufs' = length (be_conns b)"
    "p < length (be_conns b) \<Longrightarrow> recvs' ! p = (if connected_to b p
       then map_option (\<lambda>d. copy_at d off (take n (deliver (bufs ! p) (inbox p)))) (recvs ! p)
       else recvs ! p)"
    using assms(1,2) by simp_all
qed

lemma exchange_loop_spec:
  assumes "0 < staging" "length recvs = length (be_conns b)" "length bufs = length (be_conns b)"
    "connected_to b p" "recvs ! p = Some d" "length d = len" "length s = len" "off = r * staging"
    "take off d = take off s" "off \<le> len \<or> d = s" "\<forall>r. inbox p r = stage_msg staging s r"
  shows "fst (exchange_loop b staging inbox len off r (recvs, bufs)) ! p = Some s"
  using assms
proof (induction b staging inbox len off r "(recvs, bufs)" arbitrary: recvs bufs d
    rule: exchange_loop.induct)
  case (1 b staging inbox len off r)
  show ?case
  proof (cases "len \<le> off")
    case True
    then have "d = s" using "1.prems" by auto
    then show ?thesis using "1.prems"(5) True by (subst exchange_loop.simps) simp
  next
    case False
    let ?n = "min staging (len - off)"
    obtain recvs' bufs' where x: "exchange_round b (\<lambda>p. inbox p r) off ?n (recvs, bufs) = (recvs', bufs')"
      by fastforce
    note X = exchange_round_spec [OF "1.prems"(2,3) x]
    have p: "p < length (be_conns b)" using "1.prems"(4) by (simp add: connected_to_def)
    have m: "take ?n (deliver (bufs ! p) (inbox p r)) = take ?n (drop off s)"
      using "1.prems"(7,8,11) False by (subst take_deliver) (auto simp: stage_msg_def min_def)
    let ?d = "copy_at d off (take ?n (drop off s))"
    have r': "recvs' ! p = Some ?d" "length recvs' = length (be_conns b)" "length bufs' = length (be_conns b)"
      using X(1,2) X(3) [OF p] "1.prems"(4,5) m by simp_all
    have l: "length d = length s" "off \<le> length s" using "1.prems" False by auto
    note P = copy_at_prefix [OF l(1) "1.prems"(9) l(2) refl, of ?n]
    have step: "exchange_loop b staging inbox len off r (recvs, bufs) =
        exchange_loop b staging inbox len (off + staging) (Suc r) (recvs', bufs')"
      using x "1.prems"(1) False by (subst exchange_loop.simps) simp
    have pre: "take (off + staging) ?d = take (off + staging) s \<and> (off + staging \<le> len \<or> ?d = s)"
    proof (cases "off + staging \<le> len")
      case True
      then show ?thesis using P(1) by simp
    next
      case last: False
      then have "off + ?n = length s" using False "1.prems"(7) by simp
      then have "?d = s" using P by (metis order_refl take_all)
      then show ?thesis by simp
    qed
    have "fst (exchange_loop b staging inbox len (off + staging) (Suc r) (recvs', bufs')) ! p = Some s"
      using "1.hyps" [of recvs' bufs' ?d] "1.prems" False x r' P(2) pre by (auto simp: add.commute)
    then show ?thesis unfolding step .
  qed
qed

lemma exchange_delivers:
  assumes "connected_to b p" "length (be_conns b) = be_size b" "length s = length src"
    "\<forall>r. inbox p r = stage_msg rdmaStagingBytes s r"
  shows "exchange b inbox src ! p = Some s"
proof -
  have p: "p < be_size b" "p \<noteq> be_rank b" "be_conns b ! p \<noteq> None"
    using assms(1,2) by (auto simp: connected_to_def)
  show ?thesis
    unfolding exchange_def Let_def
    by (rule exchange_loop_spec [where d = "replicate (length src) 0"])
      (use p assms in \<open>auto simp: rdmaStagingBytes_def\<close>)
qed

lemma exchange_loop_nil:
  assumes "length recvs = length (be_conns b)" "length bufs = length (be_conns b)"
    "\<not> connected_to b p" "p < length (be_conns b)"
  shows "fst (exchange_loop b staging inbox len off r (recvs, bufs)) ! p = recvs ! p"
  using assms
proof (induction b staging inbox len off r "(recvs, bufs)" arbitrary: recvs bufs
    rule: exchange_loop.induct)
  case (1 b staging inbox len off r)
  show ?case
  proof (cases "staging = 0 \<or> len \<le> off")
    case True
    then show ?thesis by (subst exchange_loop.simps) simp
  next
    case False
    let ?n = "min staging (len - off)"
    obtain recvs' bufs' where x: "exchange_round b (\<lambda>p. inbox p r) off ?n (recvs, bufs) = (recvs', bufs')"
      by fastforce
    note X = exchange_round_spec [OF "1.prems"(1,2) x]
    have "exchange_loop b staging inbox len off r (recvs, bufs) =
        exchange_loop b staging inbox len (off + staging) (Suc r) (recvs', bufs')"
      using x False by (subst exchange_loop.simps) simp
    moreover have "recvs' ! p = recvs ! p" "length recvs' = length (be_conns b)"
      "length bufs' = length (be_conns b)"
      using X(1,2) X(3) [OF "1.prems"(4)] "1.prems"(3) by simp_all
    ultimately show ?thesis
      using "1.hyps" [of recvs' bufs'] "1.prems"(3,4) False x by auto
  qed
qed

lemma exchange_nil:
  assumes "\<not> connected_to b p" "length (be_conns b) = be_size b" "p < be_size b"
  shows "exchange b inbox src ! p = None"
  unfolding exchange_def Let_def
  by (subst exchange_loop_nil) (use assms in \<open>auto simp: connected_to_def\<close>)

section \<open>Gather payloads\<close>

text \<open>A gather state: one flag and one value per rank, known values having the element length.\<close>

definition gather_ok :: "nat \<Rightarrow> nat \<Rightarrow> bool list \<times> bytes list \<Rightarrow> bool" where
  "gather_ok n e st \<longleftrightarrow> length (fst st) = n \<and> length (snd st) = n \<and>
     (\<forall>r < n. fst st ! r \<longrightarrow> length (snd st ! r) = e)"

lemma slice_bound:
  fixes n r m e t :: nat
  assumes "r < m" "t < e"
  shows "n + r * e + t < n + m * e"
proof -
  have "r * e + e \<le> m * e" using assms(1) by (metis Suc_leI add.commute mult_Suc mult_le_mono1)
  then show ?thesis using assms(2) by simp
qed

lemma encode_fold:
  assumes "gather_ok n e (known, values)" "m \<le> n"
  defines "P \<equiv> foldl (\<lambda>p rank. if \<not> known ! rank then p
       else copy_at (p[rank := 1]) (length known + rank * e) (take e (values ! rank)))
       (replicate (n + n * e) 0) [0..<m]"
  shows "length P = n + n * e \<and> (\<forall>r < n. P ! r = of_bool (r < m \<and> known ! r)) \<and>
    (\<forall>r < m. known ! r \<longrightarrow> (\<forall>t < e. P ! (n + r * e + t) = values ! r ! t))"
  using assms(2) unfolding P_def
proof (induction m)
  case 0
  then show ?case by simp
next
  case (Suc m)
  define F where "F = (\<lambda>p rank. if \<not> known ! rank then p
       else copy_at (p[rank := 1]) (length known + rank * e) (take e (values ! rank)))"
  define Q where "Q = foldl F (replicate (n + n * e) 0) [0..<m]"
  have IH: "length Q = n + n * e" "\<And>r. r < n \<Longrightarrow> Q ! r = of_bool (r < m \<and> known ! r)"
    "\<And>r t. r < m \<Longrightarrow> known ! r \<Longrightarrow> t < e \<Longrightarrow> Q ! (n + r * e + t) = values ! r ! t"
    using Suc by (auto simp: Q_def F_def)
  have n: "length known = n" using assms(1) by (simp add: gather_ok_def)
  have step: "foldl F (replicate (n + n * e) 0) [0..<Suc m] = F Q m" by (simp add: Q_def)
  have "length (F Q m) = n + n * e \<and> (\<forall>r < n. F Q m ! r = of_bool (r < Suc m \<and> known ! r)) \<and>
    (\<forall>r < Suc m. known ! r \<longrightarrow> (\<forall>t < e. F Q m ! (n + r * e + t) = values ! r ! t))"
  proof (cases "known ! m")
    case False
    then have "F Q m = Q" by (simp add: F_def)
    then show ?thesis
      using IH False by (auto simp: less_Suc_eq)
  next
    case True
    have v: "length (values ! m) = e" using assms(1) True Suc.prems by (simp add: gather_ok_def)
    have fit: "n + m * e + length (values ! m) \<le> length (Q[m := 1])"
      using Suc.prems v IH(1) by (metis Suc_leI Suc_le_lessD add.assoc add.commute add_le_cancel_left
          length_list_update mult_Suc mult_le_mono1)
    have Fm: "F Q m = copy_at (Q[m := 1]) (n + m * e) (values ! m)"
      using True v n by (simp add: F_def)
    have nth: "F Q m ! i = (if n + m * e \<le> i \<and> i < n + m * e + e then values ! m ! (i - (n + m * e))
        else Q[m := 1] ! i)" if "i < n + n * e" for i
      unfolding Fm using nth_copy_at [OF fit, of i] that IH(1) v by simp
    have "F Q m ! r = of_bool (r < Suc m \<and> known ! r)" if "r < n" for r
    proof (cases "r = m")
      case eq: True
      then show ?thesis using nth [of r] IH(1) that True by simp
    next
      case False
      then show ?thesis using nth [of r] IH(2) [OF that] that by (simp add: less_Suc_eq)
    qed
    moreover have "F Q m ! (n + r * e + t) = values ! r ! t" if "r < Suc m" "known ! r" "t < e" for r t
    proof -
      have i: "n + r * e + t < n + n * e" using slice_bound [of r n t e n] that Suc.prems by simp
      show ?thesis
      proof (cases "r = m")
        case True
        then show ?thesis using nth [OF i] that by simp
      next
        case False
        then have rm: "r < m" using that by simp
        then have "n + r * e + t < n + m * e" using slice_bound that(3) by blast
        then show ?thesis using nth [OF i] IH(3) [OF rm that(2,3)] Suc.prems by simp
      qed
    qed
    ultimately show ?thesis using Fm fit IH(1) by simp
  qed
  then show ?case unfolding F_def [symmetric] step .
qed

lemma encode_spec:
  assumes "gather_ok n e st"
  defines "P \<equiv> encodeGraphGatherPayload (n + n * e) (fst st) (snd st) e"
  shows "length P = n + n * e" "\<And>r. r < n \<Longrightarrow> P ! r = 0 \<longleftrightarrow> \<not> fst st ! r"
    "\<And>r. r < n \<Longrightarrow> fst st ! r \<Longrightarrow> take e (drop (n + r * e) P) = snd st ! r"
proof -
  have n: "length (fst st) = n" "length (snd st) = n" using assms(1) by (simp_all add: gather_ok_def)
  have E: "length P = n + n * e \<and> (\<forall>r < n. P ! r = of_bool (r < n \<and> fst st ! r)) \<and>
    (\<forall>r < n. fst st ! r \<longrightarrow> (\<forall>t < e. P ! (n + r * e + t) = snd st ! r ! t))"
    using encode_fold [of n e "fst st" "snd st" n] assms(1)
    by (simp add: P_def encodeGraphGatherPayload_def n)
  show L: "length P = n + n * e" "\<And>r. r < n \<Longrightarrow> P ! r = 0 \<longleftrightarrow> \<not> fst st ! r"
    using E by auto
  fix r assume r: "r < n" "fst st ! r"
  have v: "length (snd st ! r) = e" using assms(1) r by (simp add: gather_ok_def)
  have le: "n + r * e + e \<le> n + n * e"
    using r(1) by (metis Suc_leI add.assoc add.commute add_le_cancel_left mult_Suc mult_le_mono1)
  show "take e (drop (n + r * e) P) = snd st ! r"
  proof (rule nth_equalityI)
    show "length (take e (drop (n + r * e) P)) = length (snd st ! r)" using L(1) le v by simp
    fix t assume "t < length (take e (drop (n + r * e) P))"
    then have t: "t < e" by simp
    then show "take e (drop (n + r * e) P) ! t = snd st ! r ! t"
      using E r le L(1) by simp
  qed
qed

text \<open>Merging a payload adds what its sender knew and changes nothing known.\<close>

definition join_states :: "bool list \<times> bytes list \<Rightarrow> bool list \<times> bytes list \<Rightarrow> bool list \<times> bytes list" where
  "join_states a b = (map2 (\<or>) (fst a) (fst b),
     map (\<lambda>r. if fst a ! r then snd a ! r else if fst b ! r then snd b ! r else snd a ! r)
       [0..<length (fst a)])"

lemma merge_fold:
  assumes "length known = n" "length values = n" "m \<le> n"
    "foldl (\<lambda>(known, values) rank.
        if payload ! rank = (0 :: u8) \<or> known ! rank then (known, values)
        else (known[rank := True], values[rank := g rank])) (known, values) [0..<m] = (known', values')"
  shows "length known' = n \<and> length values' = n \<and>
    (\<forall>r < n. known' ! r = (known ! r \<or> r < m \<and> payload ! r \<noteq> 0)) \<and>
    (\<forall>r < n. values' ! r = (if r < m \<and> \<not> known ! r \<and> payload ! r \<noteq> 0 then g r else values ! r))"
  using assms(3,4)
proof (induction m arbitrary: known' values')
  case 0
  then show ?case using assms(1,2) by auto
next
  case (Suc m)
  obtain k v where kv: "foldl (\<lambda>(known, values) rank.
        if payload ! rank = (0 :: u8) \<or> known ! rank then (known, values)
        else (known[rank := True], values[rank := g rank])) (known, values) [0..<m] = (k, v)"
    by fastforce
  have IH: "length k = n \<and> length v = n \<and>
    (\<forall>r < n. k ! r = (known ! r \<or> r < m \<and> payload ! r \<noteq> 0)) \<and>
    (\<forall>r < n. v ! r = (if r < m \<and> \<not> known ! r \<and> payload ! r \<noteq> 0 then g r else values ! r))"
    using Suc.IH [OF _ kv] Suc.prems(1) by simp
  have s: "(known', values') = (if payload ! m = 0 \<or> k ! m then (k, v) else (k[m := True], v[m := g m]))"
    using Suc.prems(2) kv by simp
  show ?case
  proof (cases "payload ! m = 0 \<or> k ! m")
    case True
    then show ?thesis using s IH Suc.prems(1) by (auto simp: less_Suc_eq)
  next
    case False
    then have e: "known' = k[m := True]" "values' = v[m := g m]" using s by simp_all
    show ?thesis
      unfolding e using IH False Suc.prems(1) by (auto simp: less_Suc_eq nth_list_update)
  qed
qed

lemma merge_encode:
  assumes "gather_ok n e a" "gather_ok n e b"
  shows "mergeGraphGatherPayload a (encodeGraphGatherPayload (n + n * e) (fst b) (snd b) e) e =
    Inr (join_states a b)"
proof -
  let ?P = "encodeGraphGatherPayload (n + n * e) (fst b) (snd b) e"
  note E = encode_spec [OF assms(2)]
  have n: "length (fst a) = n" "length (snd a) = n" "length (fst b) = n"
    using assms by (simp_all add: gather_ok_def)
  obtain k v where kv: "foldl (\<lambda>(known, values) rank.
        if ?P ! rank = 0 \<or> known ! rank then (known, values)
        else (known[rank := True], values[rank := take e (drop (n + rank * e) ?P)]))
        (fst a, snd a) [0..<n] = (k, v)" by fastforce
  note M = merge_fold [OF n(1,2) order_refl kv]
  have "k = map2 (\<or>) (fst a) (fst b)"
    using M E(2) n by (intro nth_equalityI) auto
  moreover have "v = map (\<lambda>r. if fst a ! r then snd a ! r else if fst b ! r then snd b ! r else snd a ! r)
       [0..<length (fst a)]"
    using M E(2,3) n by (intro nth_equalityI) auto
  ultimately show ?thesis
    using kv E(1) n by (simp add: mergeGraphGatherPayload_def join_states_def Let_def)
qed

lemma join_ok: "gather_ok n e a \<Longrightarrow> gather_ok n e b \<Longrightarrow> gather_ok n e (join_states a b)"
  by (auto simp: gather_ok_def join_states_def)

section \<open>Flooding reaches every rank\<close>

fun ball :: "(nat \<times> nat) set \<Rightarrow> nat \<Rightarrow> nat \<Rightarrow> nat set" where
  "ball E 0 r = {r}"
| "ball E (Suc k) r = ball E k r \<union> (\<Union>p \<in> E `` {r}. ball E k p)"

lemma ball_forward: "ball E (Suc k) r = ball E k r \<union> E `` ball E k r"
proof (induction k arbitrary: r)
  case 0
  then show ?case by auto
next
  case (Suc k)
  have "ball E (Suc (Suc k)) r = ball E (Suc k) r \<union> (\<Union>p \<in> E `` {r}. ball E (Suc k) p)" by simp
  also have "\<dots> = (ball E k r \<union> E `` ball E k r) \<union> (\<Union>p \<in> E `` {r}. ball E k p \<union> E `` ball E k p)"
    unfolding Suc.IH ..
  also have "\<dots> = ball E (Suc k) r \<union> E `` ball E (Suc k) r" by auto
  finally show ?case .
qed

lemma ball_subset: "E \<subseteq> {..<n} \<times> {..<n} \<Longrightarrow> r < n \<Longrightarrow> ball E k r \<subseteq> {..<n}"
  by (induction k arbitrary: r) auto

lemma ball_root: "r \<in> ball E k r"
  by (induction k) auto

lemma ball_closed:
  assumes "ball E (Suc k) r = ball E k r" "(r, j) \<in> E\<^sup>*"
  shows "j \<in> ball E k r"
  using assms(2)
proof (induction rule: rtrancl_induct)
  case base
  then show ?case by (rule ball_root)
next
  case (step i j)
  then have "j \<in> ball E (Suc k) r" unfolding ball_forward by blast
  then show ?case using assms(1) by (simp only:)
qed

text \<open>Every round before the last reaches at least one more rank, so \<open>n - 1\<close> rounds reach all.\<close>

lemma ball_growth:
  assumes "E \<subseteq> {..<n} \<times> {..<n}" "r < n" "\<forall>j < n. (r, j) \<in> E\<^sup>*"
  shows "ball E k r = {..<n} \<or> Suc k \<le> card (ball E k r)"
proof (induction k)
  case 0
  then show ?case by simp
next
  case (Suc k)
  have sub: "ball E k r \<subseteq> ball E (Suc k) r" "ball E (Suc k) r \<subseteq> {..<n}"
    using ball_subset [OF assms(1,2), of "Suc k"] by (auto simp del: ball.simps(2) simp: ball_forward)
  have fin: "finite (ball E (Suc k) r)" using sub(2) finite_subset by blast
  show ?case
  proof (cases "ball E (Suc k) r = ball E k r")
    case True
    then have "{..<n} \<subseteq> ball E k r" using ball_closed [OF True] assms(3) by blast
    then show ?thesis using True sub by blast
  next
    case False
    then have "card (ball E k r) < card (ball E (Suc k) r)"
      using sub(1) fin by (intro psubset_card_mono) auto
    moreover have "ball E (Suc k) r = {..<n}" if "ball E k r = {..<n}"
      using that sub by blast
    ultimately show ?thesis using Suc.IH by linarith
  qed
qed

lemma ball_all:
  assumes "E \<subseteq> {..<n} \<times> {..<n}" "r < n" "\<forall>j < n. (r, j) \<in> E\<^sup>*"
  shows "ball E (n - 1) r = {..<n}"
proof -
  have "ball E (n - 1) r = {..<n}" if "Suc (n - 1) \<le> card (ball E (n - 1) r)"
    using that assms(2) ball_subset [OF assms(1,2), of "n - 1"]
    by (intro card_subset_eq) (auto intro: antisym dest: card_mono [rotated])
  then show ?thesis using ball_growth [OF assms] by blast
qed

section \<open>The ranks together\<close>

text \<open>What a rank knows after \<open>k\<close> rounds, and the payload it sends in round \<open>k\<close>.\<close>

definition gather_state ::
  "rdma_backend \<Rightarrow> (nat \<Rightarrow> nat \<Rightarrow> bytes) \<Rightarrow> bytes \<Rightarrow> nat \<Rightarrow> be_error + (bool list \<times> bytes list)" where
  "gather_state b inbox src k = gather_rounds inbox (graphNeighbors b) (length src) 0 k
     (gather_init (be_size b) (be_rank b) src)"

definition gather_sent :: "rdma_backend \<Rightarrow> (nat \<Rightarrow> nat \<Rightarrow> bytes) \<Rightarrow> bytes \<Rightarrow> nat \<Rightarrow> bytes" where
  "gather_sent b inbox src k =
     (case gather_state b inbox src k of
        Inr st \<Rightarrow> encodeGraphGatherPayload (be_size b + be_size b * length src) (fst st) (snd st) (length src)
      | Inl e \<Rightarrow> [])"

lemma gather_rounds_Suc:
  "gather_rounds inbox nbrs e s (Suc k) st =
     (case gather_rounds inbox nbrs e s k st of Inl x \<Rightarrow> Inl x
      | Inr st' \<Rightarrow> merge_all (\<lambda>p. inbox p (s + k)) e nbrs st')"
proof (induction k arbitrary: s st)
  case 0
  then show ?case by (simp split: sum.splits)
next
  case (Suc k)
  show ?case
  proof (cases "merge_all (\<lambda>p. inbox p s) e nbrs st")
    case (Inl x)
    then show ?thesis by simp
  next
    case (Inr st')
    have "gather_rounds inbox nbrs e s (Suc (Suc k)) st = gather_rounds inbox nbrs e (Suc s) (Suc k) st'"
      using Inr by simp
    also have "\<dots> = (case gather_rounds inbox nbrs e (Suc s) k st' of Inl x \<Rightarrow> Inl x
      | Inr st'' \<Rightarrow> merge_all (\<lambda>p. inbox p (Suc s + k)) e nbrs st'')" by (rule Suc.IH)
    also have "Suc s + k = s + Suc k" by simp
    also have "gather_rounds inbox nbrs e (Suc s) k st' = gather_rounds inbox nbrs e s (Suc k) st"
      using Inr by simp
    finally show ?thesis .
  qed
qed

lemma merge_all_join:
  assumes "gather_ok n e st" "\<forall>p \<in> set ps. gather_ok n e (S p) \<and>
      inbox p = encodeGraphGatherPayload (n + n * e) (fst (S p)) (snd (S p)) e"
  shows "merge_all inbox e ps st = Inr (foldl (\<lambda>s p. join_states s (S p)) st ps) \<and>
    gather_ok n e (foldl (\<lambda>s p. join_states s (S p)) st ps)"
  using assms
proof (induction ps arbitrary: st)
  case (Cons p ps)
  have "mergeGraphGatherPayload st (inbox p) e = Inr (join_states st (S p))"
    using merge_encode [OF Cons.prems(1)] Cons.prems(2) by simp
  then show ?case
    using Cons.IH [OF join_ok [OF Cons.prems(1)]] Cons.prems by simp
qed simp

text \<open>A state in which the ranks of \<open>K\<close> are known, with the values of \<open>srcs\<close>.\<close>

definition knows :: "nat \<Rightarrow> (nat \<Rightarrow> bytes) \<Rightarrow> nat set \<Rightarrow> bool list \<times> bytes list \<Rightarrow> bool" where
  "knows n srcs K st \<longleftrightarrow> length (fst st) = n \<and> length (snd st) = n \<and>
     (\<forall>j < n. fst st ! j \<longleftrightarrow> j \<in> K) \<and> (\<forall>j < n. j \<in> K \<longrightarrow> snd st ! j = srcs j)"

lemma knows_ok: "knows n srcs K st \<Longrightarrow> \<forall>j < n. length (srcs j) = e \<Longrightarrow> gather_ok n e st"
  by (auto simp: knows_def gather_ok_def)

lemma knows_join: "knows n srcs K a \<Longrightarrow> knows n srcs L b \<Longrightarrow> knows n srcs (K \<union> L) (join_states a b)"
  by (auto simp: knows_def join_states_def)

lemma knows_joins:
  assumes "knows n srcs K st" "\<forall>p \<in> set ps. knows n srcs (L p) (S p)"
  shows "knows n srcs (K \<union> (\<Union>p \<in> set ps. L p)) (foldl (\<lambda>s p. join_states s (S p)) st ps)"
  using assms
proof (induction ps arbitrary: st K)
  case (Cons p ps)
  have "knows n srcs (K \<union> L p) (join_states st (S p))"
    using knows_join Cons.prems by simp
  from Cons.IH [OF this] Cons.prems(2) show ?case by (simp add: Un_assoc)
qed simp

lemma knows_init: "r < n \<Longrightarrow> knows n srcs {r} (gather_init n r (srcs r))"
  by (auto simp: knows_def gather_init_def nth_list_update)

text \<open>The network hands every rank, round by round, what its neighbours send.\<close>

lemma gather_state_knows:
  assumes rank: "\<And>r. r < n \<Longrightarrow> be_rank (bs r) = r \<and> be_size (bs r) = n"
    and nbrs: "\<And>r. r < n \<Longrightarrow> set (graphNeighbors (bs r)) = E `` {r}"
    and E: "E \<subseteq> {..<n} \<times> {..<n}" and len: "\<forall>r < n. length (srcs r) = e"
    and net: "\<And>r p k. r < n \<Longrightarrow> p \<in> E `` {r} \<Longrightarrow> inbox r p k = gather_sent (bs p) (inbox p) (srcs p) k"
    and r: "r < n"
  shows "\<exists>st. gather_state (bs r) (inbox r) (srcs r) k = Inr st \<and> knows n srcs (ball E k r) st"
  using r
proof (induction k arbitrary: r)
  case 0
  then show ?case using knows_init rank by (simp add: gather_state_def)
next
  case (Suc k)
  obtain st where st: "gather_state (bs r) (inbox r) (srcs r) k = Inr st" "knows n srcs (ball E k r) st"
    using Suc by blast
  define S where "S p = (case gather_state (bs p) (inbox p) (srcs p) k of Inr s \<Rightarrow> s | Inl _ \<Rightarrow> ([], []))" for p
  have P: "gather_state (bs p) (inbox p) (srcs p) k = Inr (S p)" "knows n srcs (ball E k p) (S p)"
    "p < n" if "p \<in> E `` {r}" for p
  proof -
    show p: "p < n" using that E by auto
    show "gather_state (bs p) (inbox p) (srcs p) k = Inr (S p)" "knows n srcs (ball E k p) (S p)"
      using Suc.IH [OF p] by (auto simp: S_def)
  qed
  have "\<forall>p \<in> set (graphNeighbors (bs r)). gather_ok n e (S p) \<and>
      inbox r p k = encodeGraphGatherPayload (n + n * e) (fst (S p)) (snd (S p)) e"
  proof
    fix p assume "p \<in> set (graphNeighbors (bs r))"
    then have p: "p \<in> E `` {r}" using nbrs Suc.prems by simp
    have "be_size (bs p) = n" "length (srcs p) = e" using rank len P(3) [OF p] by auto
    then show "gather_ok n e (S p) \<and> inbox r p k = encodeGraphGatherPayload (n + n * e) (fst (S p)) (snd (S p)) e"
      using P(1,2) [OF p] net [OF Suc.prems p] knows_ok len by (auto simp: gather_sent_def)
  qed
  from merge_all_join [OF knows_ok [OF st(2) len] this]
  have m: "merge_all (\<lambda>p. inbox r p k) e (graphNeighbors (bs r)) st =
      Inr (foldl (\<lambda>s p. join_states s (S p)) st (graphNeighbors (bs r)))" by simp
  have "gather_state (bs r) (inbox r) (srcs r) (Suc k) =
      Inr (foldl (\<lambda>s p. join_states s (S p)) st (graphNeighbors (bs r)))"
    using st(1) m len Suc.prems unfolding gather_state_def gather_rounds_Suc by simp
  moreover have "knows n srcs (ball E (Suc k) r) (foldl (\<lambda>s p. join_states s (S p)) st (graphNeighbors (bs r)))"
    using knows_joins [OF st(2), of "graphNeighbors (bs r)" "ball E k" S] P(2) nbrs [OF Suc.prems] by simp
  ultimately show ?case by blast
qed

section \<open>Collectives over a tidy matrix\<close>

text \<open>The first listed device of every used link is usable.\<close>

definition tidy :: "matrix \<Rightarrow> bool" where
  "tidy m \<longleftrightarrow> (\<forall>i < length m. \<forall>j < length m. i \<noteq> j \<longrightarrow> paths_of (cell m i j) \<noteq> [] \<longrightarrow>
     TrimSpace (paths_of (cell m i j) ! 0) \<noteq> '''')"

lemma tidy_device:
  assumes "tidy m" "square m" "i < length m" "j < length m" "i \<noteq> j"
  shows "deviceForPeer m i (int j) \<noteq> '''' \<longleftrightarrow> (i, j) \<in> edge m"
proof (cases "paths_of (cell m i j)")
  case Nil
  then show ?thesis
    by (simp add: deviceForPeer_def edge_def hasPath_def usablePathCount_filter)
next
  case (Cons p ps)
  then have p: "TrimSpace p \<noteq> ''''" using assms by (force simp: tidy_def)
  then have "p \<noteq> ''''" by auto
  moreover have "length (m ! i) = length m" using assms(2,3) by (simp add: square_def)
  ultimately show ?thesis
    using Cons p assms(3-5)
    by (simp add: deviceForPeer_def edge_def hasPath_def usablePathCount_filter)
qed

lemma new_backend_Inr:
  assumes "new_backend m pr r = Inr b" "r < length m"
  shows "be_rank b = r" "be_size b = length m" "length (be_conns b) = length m"
    "Choose m pr = Inr (be_topo b)" "square m"
  using assms Choose_square
  by (auto simp: new_backend_def open_conns_def split: sum.splits)

lemma tidy_connected:
  assumes "new_backend m pr r = Inr b" "r < length m" "tidy m"
  shows "connected_to b p \<longleftrightarrow> (r, p) \<in> edge m"
proof (cases "p < length m \<and> p \<noteq> r")
  case True
  have "be_conns b ! p \<noteq> None \<longleftrightarrow> deviceForPeer m r (int p) \<noteq> ''''"
    using assms(1) True by (auto simp: new_backend_def open_conns_def Let_def split: sum.splits)
  then show ?thesis
    using tidy_device [OF assms(3) new_backend_Inr(5) [OF assms(1,2)] assms(2)] True
      new_backend_Inr [OF assms(1,2)] by (auto simp: connected_to_def)
next
  case False
  then show ?thesis using new_backend_Inr [OF assms(1,2)] by (auto simp: connected_to_def edge_def)
qed

lemma set_graphNeighbors: "set (graphNeighbors b) = {p. connected_to b p}"
  by (auto simp: graphNeighbors_def connected_to_def)

lemma tidy_neighbors:
  assumes "new_backend m pr r = Inr b" "r < length m" "tidy m"
  shows "set (graphNeighbors b) = edge m `` {r}"
  using tidy_connected [OF assms] by (auto simp: set_graphNeighbors)

lemma edge_bounds: "edge m \<subseteq> {..<length m} \<times> {..<length m}"
  by (auto simp: edge_def)

lemma chosen_reachable:
  assumes "Choose m pr = Inr t" "r < length m" "j < length m"
  shows "(r, j) \<in> (edge m)\<^sup>*"
proof -
  have C: "ValidateConnected m = None" using Choose_succeeds assms(1) by blast
  then have s: "\<forall>i j. (i, j) \<in> edge m \<longrightarrow> (j, i) \<in> edge m" and z: "(0, r) \<in> (edge m)\<^sup>*" "(0, j) \<in> (edge m)\<^sup>*"
    using assms by (auto simp: ValidateConnected_None)
  have "sym ((edge m)\<^sup>*)" by (rule sym_rtrancl) (use s in \<open>auto simp: sym_def\<close>)
  then have "(r, 0) \<in> (edge m)\<^sup>*" using z(1) by (auto dest: symD)
  then show ?thesis using z(2) by (rule rtrancl_trans)
qed

text \<open>The ranks of one group, each with its backend, contribution and received messages.\<close>

record group_run =
  gr_backend :: "nat \<Rightarrow> rdma_backend"
  gr_src :: "nat \<Rightarrow> bytes"
  gr_inbox :: "nat \<Rightarrow> nat \<Rightarrow> nat \<Rightarrow> bytes"

text \<open>The message a rank posts to its peers in a round.\<close>

definition round_msg :: "group_run \<Rightarrow> nat \<Rightarrow> nat \<Rightarrow> bytes" where
  "round_msg g p k =
     (if be_topo (gr_backend g p) = Mesh then stage_msg rdmaStagingBytes (gr_src g p) k
      else gather_sent (gr_backend g p) (gr_inbox g p) (gr_src g p) k)"

text \<open>
  A run of a collective: all ranks opened the same matrix, contribute \<open>e\<close> bytes each, and every rank
  receives from every connected peer, in order, the messages that peer posts.
\<close>

definition collective_run :: "matrix \<Rightarrow> bool \<Rightarrow> nat \<Rightarrow> group_run \<Rightarrow> bool" where
  "collective_run m pr e g \<longleftrightarrow>
     (\<forall>r < length m. new_backend m pr r = Inr (gr_backend g r) \<and> length (gr_src g r) = e) \<and>
     (\<forall>r < length m. \<forall>p k. connected_to (gr_backend g r) p \<longrightarrow> gr_inbox g r p k = round_msg g p k)"

lemma collective_gather:
  assumes "collective_run m pr e g" "tidy m" "r < length m" "be_topo (gr_backend g r) \<noteq> Mesh"
    "length m + length m * e \<le> rdmaStagingBytes"
  shows "graphGather (gr_backend g r) (gr_inbox g r) (gr_src g r) = Inr (map (gr_src g) [0..<length m])"
proof -
  let ?n = "length m" and ?b = "gr_backend g"
  have B: "new_backend m pr q = Inr (?b q)" "length (gr_src g q) = e" if "q < ?n" for q
    using assms(1) that by (auto simp: collective_run_def)
  have topo: "be_topo (?b q) = be_topo (?b r)" if "q < ?n" for q
    using new_backend_Inr(4) [OF B(1) [OF that] that] new_backend_Inr(4) [OF B(1) [OF assms(3)] assms(3)] by simp
  have net: "gr_inbox g q p k = gather_sent (?b p) (gr_inbox g p) (gr_src g p) k"
    if "q < ?n" "p \<in> edge m `` {q}" for q p k
  proof -
    have "connected_to (?b q) p" using tidy_connected [OF B(1) [OF that(1)] that(1) assms(2)] that(2) by simp
    moreover have "p < ?n" using that(2) by (auto simp: edge_def)
    ultimately show ?thesis
      using assms(1,4) topo that(1) by (auto simp: collective_run_def round_msg_def)
  qed
  obtain st where st: "gather_state (?b r) (gr_inbox g r) (gr_src g r) (?n - 1) = Inr st"
    "knows ?n (gr_src g) (ball (edge m) (?n - 1) r) st"
    using gather_state_knows [of ?n ?b "edge m" "gr_src g" e "gr_inbox g" r "?n - 1"] new_backend_Inr(1,2) B
      tidy_neighbors [OF B(1)] assms(2,3) edge_bounds net by blast
  have "ball (edge m) (?n - 1) r = {..<?n}"
    using ball_all [OF edge_bounds assms(3)]
      chosen_reachable [OF new_backend_Inr(4) [OF B(1) [OF assms(3)] assms(3)] assms(3)] by blast
  then have K: "\<forall>j < ?n. fst st ! j" "snd st = map (gr_src g) [0..<?n]"
    using st(2) by (auto simp: knows_def intro!: nth_equalityI)
  have N: "be_size (?b r) = ?n" "be_rank (?b r) = r" using new_backend_Inr [OF B(1) [OF assms(3)] assms(3)] by simp_all
  have "first_err (\<lambda>peer. if \<not> fst st ! peer then Some (ValueMissing peer) else None) [0..<?n] = None"
    using K(1) by simp
  then show ?thesis
    using st(1) K(2) B(2) [OF assms(3)] assms(5) N
    by (simp add: graphGather_def gather_state_def Let_def split_beta del: first_err_None)
qed

lemma collective_exchange:
  assumes "collective_run m pr e g" "tidy m" "r < length m" "be_topo (gr_backend g r) = Mesh"
    "p < length m" "p \<noteq> r"
  shows "exchange (gr_backend g r) (gr_inbox g r) (gr_src g r) ! p = Some (gr_src g p)"
proof -
  let ?b = "gr_backend g"
  have B: "new_backend m pr q = Inr (?b q)" "length (gr_src g q) = e" if "q < length m" for q
    using assms(1) that by (auto simp: collective_run_def)
  note R = new_backend_Inr [OF B(1) [OF assms(3)] assms(3)]
  have "ValidateMesh m = None" using Choose_Inr [OF R(4)] assms(4) by (simp add: valid_as_def)
  then have "(r, p) \<in> edge m" using assms(3,5,6) by (auto simp: ValidateMesh_None)
  then have c: "connected_to (?b r) p" using tidy_connected [OF B(1) [OF assms(3)] assms(3,2)] by simp
  have "be_topo (?b p) = Mesh" using new_backend_Inr(4) [OF B(1) [OF assms(5)] assms(5)] R(4) assms(4) by simp
  then have "\<forall>k. gr_inbox g r p k = stage_msg rdmaStagingBytes (gr_src g p) k"
    using assms(1,3) c by (auto simp: collective_run_def round_msg_def)
  then show ?thesis
    using exchange_delivers [OF c] R(2,3) B(2) assms(3,5) by simp
qed

fun rop_op :: "reduction_op \<Rightarrow> op option" where
  "rop_op reductionSum = Some sumOp"
| "rop_op reductionMax = Some maxOp"
| "rop_op reductionMin = Some minOp"
| "rop_op (OtherReduction i) = None"

lemma reduce_peers_list:
  assumes "rop_op rop = Some op" "reduce_list fp dt op dst (map snd ps) = Inr r"
  shows "reduce_peers fp rop dt dst ps = Inr r"
  using assms(2)
proof (induction ps arbitrary: dst)
  case (Cons q ps)
  obtain p v where q: "q = (p, v)" by (cases q)
  have "applyReduction fp rop dt dst v = apply_op fp dt dst v op"
    using assms(1) by (cases rop) (auto simp: applyReduction_def Sum_def Max_def Min_def)
  then show ?case using Cons q by (simp split: sum.splits)
qed simp

lemma mset_ranks:
  assumes "r < n"
  shows "mset (f r # map f (filter (\<lambda>p. p \<noteq> r) [0..<n])) = mset (map f [0..<n])"
proof -
  have "[0..<n] = [0..<r] @ r # [Suc r..<n]"
    using assms upt_add_eq_append [of 0 r "n - r"] upt_conv_Cons [of r n] by simp
  moreover have "filter (\<lambda>p. p \<noteq> r) [0..<r] = [0..<r]" "filter (\<lambda>p. p \<noteq> r) [Suc r..<n] = [Suc r..<n]"
    by (auto intro: filter_True)
  ultimately show ?thesis by simp
qed

lemma collective_reduce:
  assumes "collective_run m pr e g" "tidy m" "r < length m" "0 < e" "length dst = e"
    "be_topo (gr_backend g r) = Mesh \<or> length m + length m * e \<le> rdmaStagingBytes"
    "rop_op rop = Some op"
    "reduce_list fp dt op (gr_src g r) (map (gr_src g) (filter (\<lambda>p. p \<noteq> r) [0..<length m])) = Inr tot"
  shows "allReduce fp (gr_backend g r) (gr_inbox g r) rop dt dst (gr_src g r) = Inr tot"
proof -
  let ?b = "gr_backend g r" and ?ps = "filter (\<lambda>p. p \<noteq> r) [0..<length m]"
  have B: "new_backend m pr r = Inr ?b" "length (gr_src g r) = e"
    using assms(1,3) by (auto simp: collective_run_def)
  note R = new_backend_Inr [OF B(1) assms(3)]
  have ne: "gr_src g r \<noteq> []" using B(2) assms(4) by auto
  have dst: "copy_at dst 0 (take (length dst) (gr_src g r)) = gr_src g r"
    using assms(5) B(2) by (simp add: copy_at_whole)
  have red: "reduce_peers fp rop dt (gr_src g r) (map (\<lambda>p. (p, v p)) ?ps) = Inr tot"
    if "\<forall>p \<in> set ?ps. v p = gr_src g p" for v
  proof -
    have "map snd (map (\<lambda>p. (p, v p)) ?ps) = map (gr_src g) ?ps" using that by simp
    then have "reduce_list fp dt op (gr_src g r) (map snd (map (\<lambda>p. (p, v p)) ?ps)) = Inr tot"
      using assms(8) by (simp only:)
    then show ?thesis by (rule reduce_peers_list [OF assms(7)])
  qed
  show ?thesis
  proof (cases "be_topo ?b = Mesh")
    case True
    have "\<forall>p \<in> set ?ps. nil_bytes (exchange ?b (gr_inbox g r) (gr_src g r) ! p) = gr_src g p"
      using collective_exchange [OF assms(1-3) True] by (simp add: nil_bytes_def)
    from red [OF this] show ?thesis
      using True ne dst R(1,2) by (simp add: allReduce_def Let_def)
  next
    case False
    then have G: "graphGather ?b (gr_inbox g r) (gr_src g r) = Inr (map (gr_src g) [0..<length m])"
      using collective_gather [OF assms(1-3) False] assms(6) by simp
    have "\<forall>p \<in> set ?ps. map (gr_src g) [0..<length m] ! p = gr_src g p" by simp
    from red [OF this] show ?thesis
      using False ne dst R(1,2) G by (simp add: allReduce_def)
  qed
qed


definition pair_run :: group_run where
  "pair_run = \<lparr> gr_backend = pair_backend, gr_src = (\<lambda>r. if r = 0 then [1, 0, 250, 9] else [2, 0, 10, 0]),
     gr_inbox = (\<lambda>r p. stage_msg rdmaStagingBytes (if p = 0 then [1, 0, 250, 9] else [2, 0, 10, 0])) \<rparr>"

lemma pair_run_ok: "collective_run pair_matrix False 4 pair_run" "tidy pair_matrix" "length pair_matrix = 2"
proof -
  show len: "length pair_matrix = 2" by (simp add: pair_matrix_def)
  show "collective_run pair_matrix False 4 pair_run"
    using len Choose_pair_matrix
    by (auto simp: collective_run_def pair_run_def pair_backend_def new_backend_def round_msg_def
        less_2_cases_iff)
  have "TrimSpace ''rdma_en1'' = ''rdma_en1''" by code_simp
  moreover have "length pair_matrix = Suc (Suc 0)" using len by simp
  ultimately show "tidy pair_matrix"
    unfolding tidy_def by (auto simp: less_Suc_eq pair_matrix_def cell_def paths_of_def)
qed


lemma concat_nth:
  assumes "\<forall>i < n. length (v i) = e" "i < n" "t < e"
  shows "concat (map v [0..<n]) ! (i * e + t) = v i ! t" "length (concat (map v [0..<n])) = n * e"
proof -
  have l: "length (concat (map v [0..<k])) = k * e" if "k \<le> n" for k
    using that assms(1) by (induction k) auto
  show "length (concat (map v [0..<n])) = n * e" by (rule l) simp
  have "concat (map v [0..<k]) ! (i * e + t) = v i ! t" if "i < k" "k \<le> n" for k
    using that
  proof (induction k)
    case (Suc k)
    show ?case
    proof (cases "i = k")
      case True
      then show ?thesis using l [of k] Suc.prems by (simp add: nth_append)
    next
      case False
      have "i * e + t < k * e" using slice_bound [of i k t e 0] False Suc.prems assms(3) by simp
      then show ?thesis using Suc False l [of k] by (simp add: nth_append)
    qed
  qed simp
  then show "concat (map v [0..<n]) ! (i * e + t) = v i ! t" using assms(2) by simp
qed

lemma foldl_place:
  assumes "length d = n * e" "\<forall>p \<in> set ps. p < n \<and> length (v p) = e" "i < n" "t < e"
  shows "length (foldl (\<lambda>d p. copy_at d (p * e) (v p)) d ps) = n * e \<and>
    foldl (\<lambda>d p. copy_at d (p * e) (v p)) d ps ! (i * e + t) =
      (if i \<in> set ps then v i ! t else d ! (i * e + t))"
  using assms(1,2)
proof (induction ps arbitrary: d)
  case (Cons p ps)
  have p: "p < n" "length (v p) = e" using Cons.prems by auto
  have fit: "p * e + length (v p) \<le> length d"
    using p Cons.prems(1) by (metis Suc_leI add.commute mult_Suc mult_le_mono1)
  have it: "i * e + t < length d" using slice_bound [of i n t e 0] assms(3,4) Cons.prems(1) by simp
  have "copy_at d (p * e) (v p) ! (i * e + t) = (if i = p then v p ! t else d ! (i * e + t))"
  proof (cases "i = p")
    case True
    then show ?thesis using nth_copy_at [OF fit it] p assms(4) by simp
  next
    case False
    have "\<not> (p * e \<le> i * e + t \<and> i * e + t < p * e + e)"
    proof
      assume a: "p * e \<le> i * e + t \<and> i * e + t < p * e + e"
      then have "(i * e + t) div e = p" using assms(4)
        by (intro div_nat_eqI) (auto simp: mult.commute)
      then show False using False assms(4) by simp
    qed
    then show ?thesis using nth_copy_at [OF fit it] p False by auto
  qed
  then show ?case
    using Cons.IH [of "copy_at d (p * e) (v p)"] Cons.prems fit by auto
qed simp

lemma placed_all:
  assumes "length d = n * e" "0 < e" "\<forall>p < n. length (v p) = e" "length r = n * e"
    "\<And>i t. i < n \<Longrightarrow> t < e \<Longrightarrow> r ! (i * e + t) = v i ! t"
  shows "r = concat (map v [0..<n])"
proof (rule nth_equalityI)
  show l: "length r = length (concat (map v [0..<n]))"
  proof (cases "n = 0")
    case False
    then show ?thesis using concat_nth(2) [of n v e 0 0] assms(2-4) by simp
  qed (use assms(4) in simp)
  fix x assume "x < length r"
  then have x: "x < n * e" using assms(4) by simp
  let ?i = "x div e" and ?t = "x mod e"
  have it: "?i < n" "?t < e" "x = ?i * e + ?t"
    using x assms(2) by (auto simp: less_mult_imp_div_less)
  then show "r ! x = concat (map v [0..<n]) ! x"
    using assms(5) [OF it(1,2)] concat_nth(1) [OF assms(3) it(1,2)] by metis
qed



section \<open>Two defects\<close>

definition blank_matrix :: matrix where
  "blank_matrix = [[Some [], Some ['''', ''rdma_en1'']], [Some ['''', ''rdma_en1''], Some []]]"



lemma exchange_lock_loop_all:
  assumes "exchange_lock_loop rank ps ls = Some ls'" "p \<in> set ps" "p \<noteq> rank" "ls ! p \<noteq> None"
    "p < length ls"
  shows "ls' ! p = Some True"
proof -
  have keep: "exchange_lock_loop rank ps ls = Some ls' \<Longrightarrow> ls ! p = Some True \<Longrightarrow> p < length ls \<Longrightarrow>
      ls' ! p = Some True" for ps ls ls'
  proof (induction ps arbitrary: ls)
    case (Cons q ps)
    have "ls[q := Some True] ! p = Some True" using Cons.prems(2,3) by (cases "q = p") simp_all
    then show ?case
      using Cons by (auto simp: lock_conn_def split: if_splits option.splits)
  qed simp
  from assms show ?thesis
  proof (induction ps arbitrary: ls)
    case (Cons q ps)
    show ?case
    proof (cases "q = rank \<or> ls ! q = None")
      case True
      then show ?thesis using Cons by auto
    next
      case False
      then obtain ls1 where l: "lock_conn q ls = Some ls1" "exchange_lock_loop rank ps ls1 = Some ls'"
        using Cons.prems(1) by (auto split: option.splits)
      then have ls1: "ls1 = ls[q := Some True]" by (simp add: lock_conn_def split: if_splits)
      show ?thesis
      proof (cases "p = q")
        case True
        then show ?thesis using keep [OF l(2)] ls1 Cons.prems(5) by simp
      next
        case False
        then show ?thesis using Cons.IH [OF l(2)] Cons.prems ls1 by simp
      qed
    qed
  qed simp
qed

text \<open>C15.  A mesh exchange never releases the connections it locks: after one that completes, any
later exchange, send or receive on one of its connections blocks for ever.\<close>

theorem exchange_keeps_locks:
  assumes "exchange_locks rank ls = Some ls'" and "p < length ls" and "p \<noteq> rank" and "ls ! p \<noteq> None"
    and "length ls' = length ls"
  shows "exchange_locks rank ls' = None \<and> p2p_locks p ls' = None"
proof -
  have e: "exchange_lock_loop rank [0..<length ls] ls = Some ls'"
    using assms(1) by (simp add: exchange_locks_def unlockConns_def)
  have t: "ls' ! p = Some True"
    by (rule exchange_lock_loop_all [OF e]) (use assms in auto)
  have "exchange_lock_loop rank ps l = None" if "p \<in> set ps" "l ! p = Some True" "p < length l" for ps l
    using that
  proof (induction ps arbitrary: l)
    case (Cons q ps)
    show ?case
    proof (cases "q = p")
      case True
      then show ?thesis using Cons.prems assms(3) by (simp add: lock_conn_def)
    next
      case False
      then show ?thesis using Cons by (auto simp: lock_conn_def)
    qed
  qed simp
  then show ?thesis
    using t assms(2,5) by (simp add: exchange_locks_def p2p_locks_def lock_conn_def)
qed

theorem exchange_keeps_locks_witness:
  "exchange_locks 0 [None, Some False] = Some [None, Some True] \<and> exchange_locks 0 [None, Some True] = None"
proof -
  have e: "exchange_locks 0 [None, Some False] = Some [None, Some True]"
    by (simp add: exchange_locks_def lock_conn_def unlockConns_def upt_rec)
  then show ?thesis using exchange_keeps_locks [OF e, of 1] by simp
qed

end
