(* ===== verification/Keepalive.thy ===== *)
theory Keepalive
  imports Prelude
begin

text \<open>
  The heartbeat tracker, \<^verbatim>\<open>src/internal/keepalive/heartbeat.go\<close>.  The clock is an argument of each
  method; a sender is a name, and what sending to it returns is an argument of \<open>BeatIdle\<close>.  \<open>BeatIdle\<close>
  takes the list of due routes under the mutex and records each outcome under it again; the clock readings
  of the records are a list.  \<open>Run\<close> is driven by the events its \<^verbatim>\<open>select\<close> receives.
\<close>

section \<open>The tracker\<close>

record status =
  ks_LastActivity :: instant
  ks_LastBeat :: instant
  ks_LastError :: string
  ks_Healthy :: bool
  ks_Beats :: u64
  ks_Errors :: u64

record route =
  ro_sender :: string
  ro_status :: status

record tracker =
  tk_interval :: duration
  tk_routes :: "(string \<times> route) list"

datatype beat_error =
    TrackerInterval duration
  | AddEmptyID
  | AddNilSender string
  | BeatCtx ctx_error
  | BeatFailed string string

definition New :: "duration \<Rightarrow> beat_error + tracker" where
  "New interval =
     (if interval \<le> 0 then Inl (TrackerInterval interval)
      else Inr \<lparr> tk_interval = interval, tk_routes = [] \<rparr>)"

definition Add :: "instant \<Rightarrow> string \<Rightarrow> string option \<Rightarrow> tracker \<Rightarrow> beat_error option \<times> tracker" where
  "Add now i sender t =
     (if i = '''' then (Some AddEmptyID, t)
      else case sender of
        None \<Rightarrow> (Some (AddNilSender i), t)
      | Some s \<Rightarrow>
          (None, t\<lparr>tk_routes := AList.update i
             \<lparr> ro_sender = s, ro_status = \<lparr> ks_LastActivity = now, ks_LastBeat = 0, ks_LastError = '''',
                 ks_Healthy = True, ks_Beats = 0, ks_Errors = 0 \<rparr> \<rparr> (tk_routes t)\<rparr>))"

definition Remove :: "string \<Rightarrow> tracker \<Rightarrow> tracker" where
  "Remove i t = t\<lparr>tk_routes := AList.delete i (tk_routes t)\<rparr>"

definition tracker_Touch :: "instant \<Rightarrow> string \<Rightarrow> tracker \<Rightarrow> tracker" where
  "tracker_Touch now i t =
     (case map_of (tk_routes t) i of
        None \<Rightarrow> t
      | Some r \<Rightarrow>
          t\<lparr>tk_routes := AList.update i (r\<lparr>ro_status := (ro_status r)\<lparr>ks_LastActivity := now\<rparr>\<rparr>) (tk_routes t)\<rparr>)"

definition tracker_Status :: "string \<Rightarrow> tracker \<Rightarrow> status option" where
  "tracker_Status i t = map_option ro_status (map_of (tk_routes t) i)"

text \<open>\<^verbatim>\<open>now.Sub(u)\<close> saturates at the bounds of a duration.\<close>

definition time_Sub :: "instant \<Rightarrow> instant \<Rightarrow> duration" where
  "time_Sub t u = max min_int64 (min max_int64 (t - u))"

definition route_due :: "duration \<Rightarrow> instant \<Rightarrow> route \<Rightarrow> bool" where
  "route_due interval now r \<longleftrightarrow>
     ks_Healthy (ro_status r) \<and> interval \<le> time_Sub now (ks_LastActivity (ro_status r))"

definition due_work :: "instant \<Rightarrow> tracker \<Rightarrow> (string \<times> string) list" where
  "due_work now t =
     map (\<lambda>(i, r). (i, ro_sender r)) (filter (\<lambda>(i, r). route_due (tk_interval t) now r) (tk_routes t))"

definition recordBeat :: "instant \<Rightarrow> string \<Rightarrow> string option \<Rightarrow> tracker \<Rightarrow> tracker" where
  "recordBeat now i err t =
     (case map_of (tk_routes t) i of
        None \<Rightarrow> t
      | Some r \<Rightarrow>
          (let s = (ro_status r)\<lparr>ks_LastBeat := now, ks_Beats := ks_Beats (ro_status r) + 1\<rparr>;
               s' = (case err of
                       Some e \<Rightarrow> s\<lparr>ks_LastError := e, ks_Healthy := False, ks_Errors := ks_Errors s + 1\<rparr>
                     | None \<Rightarrow> s\<lparr>ks_LastActivity := now, ks_LastError := '''', ks_Healthy := True\<rparr>) in
           t\<lparr>tk_routes := AList.update i (r\<lparr>ro_status := s'\<rparr>) (tk_routes t)\<rparr>))"

fun beat_loop ::
  "(string \<Rightarrow> string option) \<Rightarrow> (string \<Rightarrow> instant) \<Rightarrow> (string \<times> string) list \<Rightarrow> beat_error option \<times> tracker \<Rightarrow>
   beat_error option \<times> tracker" where
  "beat_loop beat clock [] x = x"
| "beat_loop beat clock ((i, s) # work) (first, t) =
     (let err = beat s;
          t' = recordBeat (clock i) i err t;
          first' = (case err of Some e \<Rightarrow> if first = None then Some (BeatFailed i e) else first | None \<Rightarrow> first) in
      beat_loop beat clock work (first', t'))"

definition BeatIdle ::
  "ctx_error option \<Rightarrow> instant \<Rightarrow> (string \<Rightarrow> string option) \<Rightarrow> (string \<Rightarrow> instant) \<Rightarrow> tracker \<Rightarrow>
   beat_error option \<times> tracker" where
  "BeatIdle ce now beat clock t =
     (case ce of
        Some e \<Rightarrow> (Some (BeatCtx e), t)
      | None \<Rightarrow> beat_loop beat clock (due_work now t) (None, t))"

text \<open>One event of \<open>Run\<close>: the context ends, or the ticker fires; then \<open>BeatIdle\<close> runs with the given
outcomes and the context is asked again when it fails.\<close>

datatype run_event =
    RunDone ctx_error
  | RunTick "ctx_error option" instant "string \<Rightarrow> string option" "string \<Rightarrow> instant" "ctx_error option"

fun tracker_Run :: "run_event list \<Rightarrow> tracker \<Rightarrow> beat_error option \<times> tracker" where
  "tracker_Run [] t = (None, t)"
| "tracker_Run (RunDone e # evs) t = (Some (BeatCtx e), t)"
| "tracker_Run (RunTick ce now beat clock after # evs) t =
     (case BeatIdle ce now beat clock t of
        (Some e, t') \<Rightarrow> if after \<noteq> None then (Some e, t') else tracker_Run evs t'
      | (None, t') \<Rightarrow> tracker_Run evs t')"

section \<open>Lemmas\<close>

text \<open>The status a route has after its outcome was recorded.\<close>

definition beaten :: "instant \<Rightarrow> string option \<Rightarrow> route \<Rightarrow> route" where
  "beaten now err r =
     (let s = (ro_status r)\<lparr>ks_LastBeat := now, ks_Beats := ks_Beats (ro_status r) + 1\<rparr> in
      r\<lparr>ro_status :=
        (case err of
           Some e \<Rightarrow> s\<lparr>ks_LastError := e, ks_Healthy := False, ks_Errors := ks_Errors s + 1\<rparr>
         | None \<Rightarrow> s\<lparr>ks_LastActivity := now, ks_LastError := '''', ks_Healthy := True\<rparr>)\<rparr>)"

lemma recordBeat_routes:
  "map_of (tk_routes (recordBeat now i err t)) j =
     (if j = i then map_option (beaten now err) (map_of (tk_routes t) i) else map_of (tk_routes t) j)"
  by (auto simp: recordBeat_def beaten_def Let_def map_of_update split: option.splits)

lemma recordBeat_keys [simp]:
  "tk_interval (recordBeat now i err t) = tk_interval t"
  "map_ok (tk_routes t) \<Longrightarrow> map_ok (tk_routes (recordBeat now i err t))"
  by (auto simp: recordBeat_def Let_def split: option.splits)

lemma beat_loop_routes:
  assumes "distinct (map fst work)" "beat_loop beat clock work (first, t) = (e, t')"
  shows "map_of (tk_routes t') j = (case map_of work j of None \<Rightarrow> map_of (tk_routes t) j
      | Some s \<Rightarrow> map_option (beaten (clock j) (beat s)) (map_of (tk_routes t) j))"
    "tk_interval t' = tk_interval t" "map_ok (tk_routes t) \<Longrightarrow> map_ok (tk_routes t')"
    "e = None \<longleftrightarrow> first = None \<and> (\<forall>(i, s) \<in> set work. beat s = None)"
proof -
  have "map_of (tk_routes t') j = (case map_of work j of None \<Rightarrow> map_of (tk_routes t) j
      | Some s \<Rightarrow> map_option (beaten (clock j) (beat s)) (map_of (tk_routes t) j)) \<and>
    tk_interval t' = tk_interval t \<and> (map_ok (tk_routes t) \<longrightarrow> map_ok (tk_routes t')) \<and>
    (e = None \<longleftrightarrow> first = None \<and> (\<forall>(i, s) \<in> set work. beat s = None))"
    using assms
  proof (induction beat clock work "(first, t)" arbitrary: first t rule: beat_loop.induct)
    case (2 beat clock i s work first t)
    let ?first = "case beat s of Some e \<Rightarrow> if first = None then Some (BeatFailed i e) else first | None \<Rightarrow> first"
    let ?t = "recordBeat (clock i) i (beat s) t"
    have run: "beat_loop beat clock work (?first, ?t) = (e, t')" "distinct (map fst work)"
      using "2.prems" by (simp_all add: Let_def)
    have "map_of work i = None" using "2.prems"(1) by (simp add: map_of_eq_None_iff)
    moreover have "?first = None \<longleftrightarrow> first = None \<and> beat s = None" by (auto split: option.splits)
    ultimately show ?case
      using "2.hyps" [OF refl refl refl run(2,1)] by (auto simp: recordBeat_routes split: option.splits)
  qed simp
  then show "map_of (tk_routes t') j = (case map_of work j of None \<Rightarrow> map_of (tk_routes t) j
      | Some s \<Rightarrow> map_option (beaten (clock j) (beat s)) (map_of (tk_routes t) j))"
    "tk_interval t' = tk_interval t" "map_ok (tk_routes t) \<Longrightarrow> map_ok (tk_routes t')"
    "e = None \<longleftrightarrow> first = None \<and> (\<forall>(i, s) \<in> set work. beat s = None)" by blast+
qed

lemma due_work_map:
  assumes "map_ok (tk_routes t)"
  shows "distinct (map fst (due_work now t))"
    "map_of (due_work now t) i = (case map_of (tk_routes t) i of None \<Rightarrow> None
       | Some r \<Rightarrow> if route_due (tk_interval t) now r then Some (ro_sender r) else None)"
proof -
  have "distinct (map fst (due_work now t)) \<and> fst ` set (due_work now t) \<subseteq> fst ` set (tk_routes t) \<and>
    map_of (due_work now t) i = (case map_of (tk_routes t) i of None \<Rightarrow> None
       | Some r \<Rightarrow> if route_due (tk_interval t) now r then Some (ro_sender r) else None)"
  proof -
    have "distinct (map fst (map (\<lambda>(i, r). (i, ro_sender r)) (filter (\<lambda>(i, r). route_due v now r) rs))) \<and>
      map_of (map (\<lambda>(i, r). (i, ro_sender r)) (filter (\<lambda>(i, r). route_due v now r) rs)) i =
        (case map_of rs i of None \<Rightarrow> None | Some r \<Rightarrow> if route_due v now r then Some (ro_sender r) else None)"
      if "map_ok rs" for v rs
      using that
    proof (induction rs)
      case (Cons x rs)
      obtain j r where x: "x = (j, r)" by fastforce
      have j: "j \<notin> fst ` set rs" "map_ok rs" using Cons.prems x by (auto simp: map_ok_def)
      then have "map_of (map (\<lambda>(i, r). (i, ro_sender r)) (filter (\<lambda>(i, r). route_due v now r) rs)) j = None"
        "j \<notin> fst ` set (map (\<lambda>(i, r). (i, ro_sender r)) (filter (\<lambda>(i, r). route_due v now r) rs))"
        by (force simp: map_of_eq_None_iff)+
      then show ?case
        using Cons.IH j x by (auto split: option.splits simp: map_of_eq_None_iff' [symmetric])
    qed simp
    from this [OF assms] show ?thesis by (auto simp: due_work_def) (force simp: image_iff)
  qed
  then show "distinct (map fst (due_work now t))"
    "map_of (due_work now t) i = (case map_of (tk_routes t) i of None \<Rightarrow> None
       | Some r \<Rightarrow> if route_due (tk_interval t) now r then Some (ro_sender r) else None)" by blast+
qed

lemma BeatIdle_routes:
  assumes "map_ok (tk_routes t)" and "BeatIdle ce now beat clock t = (e, t')"
  shows "map_of (tk_routes t') i =
      (case map_of (tk_routes t) i of None \<Rightarrow> None
       | Some r \<Rightarrow> Some (if ce = None \<and> route_due (tk_interval t) now r then beaten (clock i) (beat (ro_sender r)) r else r)) \<and>
    map_ok (tk_routes t') \<and> tk_interval t' = tk_interval t \<and>
    (e = None \<longleftrightarrow> ce = None \<and> (\<forall>(j, s) \<in> set (due_work now t). beat s = None))"
proof (cases ce)
  case None
  then have run: "beat_loop beat clock (due_work now t) (None, t) = (e, t')"
    using assms(2) by (simp add: BeatIdle_def)
  note L = beat_loop_routes [OF due_work_map(1) [OF assms(1)] run]
  show ?thesis
    using L(1) [of i] L(2-4) None assms(1) due_work_map(2) [OF assms(1), of now i]
    by (auto split: option.splits)
next
  case (Some x)
  then show ?thesis
    using assms by (auto simp: BeatIdle_def split: option.splits)
qed

section \<open>Properties\<close>

text \<open>A round of heartbeats.  \<open>BeatIdle\<close> sends to exactly the routes that are healthy and have been idle
for the interval, records for each of them the outcome (a success makes it active now, a failure makes it
unhealthy and counts an error), leaves every other route as it was, and reports an error exactly when the
context has ended or a heartbeat failed.\<close>

lemma BeatIdle_exact:
  assumes "map_ok (tk_routes t)" and "BeatIdle ce now beat clock t = (e, t')"
  shows "map_of (tk_routes t') i =
      (case map_of (tk_routes t) i of None \<Rightarrow> None
       | Some r \<Rightarrow> Some (if ce = None \<and> route_due (tk_interval t) now r then beaten (clock i) (beat (ro_sender r)) r else r)) \<and>
    map_ok (tk_routes t') \<and> tk_interval t' = tk_interval t \<and>
    (e = None \<longleftrightarrow> ce = None \<and> (\<forall>(j, s) \<in> set (due_work now t). beat s = None))"
  using BeatIdle_routes [OF assms] .

datatype tracker_op =
    TAdd instant string "string option"
  | TRemove string
  | TTouch instant string
  | TBeat "ctx_error option" instant "string \<Rightarrow> string option" "string \<Rightarrow> instant"

fun tracker_step :: "tracker_op \<Rightarrow> tracker \<Rightarrow> tracker" where
  "tracker_step (TAdd now i s) t = snd (Add now i s t)"
| "tracker_step (TRemove i) t = Remove i t"
| "tracker_step (TTouch now i) t = tracker_Touch now i t"
| "tracker_step (TBeat ce now beat clock) t = snd (BeatIdle ce now beat clock t)"

fun about :: "tracker_op \<Rightarrow> string option" where
  "about (TAdd now i s) = Some i"
| "about (TRemove i) = Some i"
| "about _ = None"

lemma tracker_step_map_ok: "map_ok (tk_routes t) \<Longrightarrow> map_ok (tk_routes (tracker_step op t))"
proof (cases op)
  case (TBeat ce now beat clock)
  obtain e t' where "BeatIdle ce now beat clock t = (e, t')" by fastforce
  moreover assume "map_ok (tk_routes t)"
  ultimately show ?thesis using TBeat BeatIdle_routes [of t ce now beat clock] by simp
qed (auto simp: Add_def Remove_def tracker_Touch_def split: option.splits)

lemma unhealthy_step:
  assumes "map_ok (tk_routes t)" "map_of (tk_routes t) i = Some r" "\<not> ks_Healthy (ro_status r)"
    "about op \<noteq> Some i"
  shows "\<exists>r'. map_of (tk_routes (tracker_step op t)) i = Some r' \<and> \<not> ks_Healthy (ro_status r') \<and>
    ks_Beats (ro_status r') = ks_Beats (ro_status r)"
proof (cases op)
  case (TBeat ce now beat clock)
  obtain e t' where b: "BeatIdle ce now beat clock t = (e, t')" by fastforce
  have "\<not> route_due (tk_interval t) now r" using assms(3) by (simp add: route_due_def)
  then show ?thesis
    using BeatIdle_routes [OF assms(1) b, of i] assms(2,3) TBeat b by simp
qed (use assms in \<open>auto simp: Add_def Remove_def tracker_Touch_def map_of_update map_of_delete
    split: option.splits\<close>)


section \<open>A small tracker\<close>

definition tracker2 :: tracker where
  "tracker2 = snd (Add 10 ''b'' (Some ''sb'') (snd (Add 1 ''a'' (Some ''sa'') \<lparr> tk_interval = 5, tk_routes = [] \<rparr>)))"

lemma tracker2_routes:
  "map_ok (tk_routes tracker2)" "tk_interval tracker2 = 5"
  "\<exists>r. map_of (tk_routes tracker2) ''a'' = Some r \<and> ro_sender r = ''sa'' \<and> ks_LastActivity (ro_status r) = 1 \<and>
     ks_Healthy (ro_status r)"
  by (simp_all add: tracker2_def Add_def map_ok_def)

definition beat_sa_fails :: "string \<Rightarrow> string option" where
  "beat_sa_fails s = (if s = ''sa'' then Some ''lost'' else None)"

lemma round2:
  "\<exists>e t' r. BeatIdle None 12 beat_sa_fails (\<lambda>_. 12) tracker2 = (Some e, t') \<and> map_ok (tk_routes t') \<and>
     map_of (tk_routes t') ''a'' = Some r \<and> \<not> ks_Healthy (ro_status r) \<and> ks_Beats (ro_status r) = 1"
  by (simp add: tracker2_def Add_def BeatIdle_def due_work_def route_due_def time_Sub_def int64_defs
      beat_sa_fails_def recordBeat_def map_ok_def)

lemma BeatIdle_exact_witness:
  "\<exists>e t' r. BeatIdle None 12 beat_sa_fails (\<lambda>_. 12) tracker2 = (e, t') \<and> map_of (tk_routes tracker2) ''a'' = Some r \<and>
    map_of (tk_routes t') ''a'' = Some (beaten 12 (Some ''lost'') r)"
proof -
  obtain r where r: "map_of (tk_routes tracker2) ''a'' = Some r" "ro_sender r = ''sa''"
    "ks_LastActivity (ro_status r) = 1" "ks_Healthy (ro_status r)" using tracker2_routes(3) by blast
  obtain e t' where b: "BeatIdle None 12 beat_sa_fails (\<lambda>_. 12) tracker2 = (e, t')" by fastforce
  have "route_due (tk_interval tracker2) 12 r"
    using r tracker2_routes(2) by (simp add: route_due_def time_Sub_def int64_defs)
  with BeatIdle_exact [OF tracker2_routes(1) b, of "''a''"] r b show ?thesis
    by (auto simp: beat_sa_fails_def)
qed


end
