(* ===== verification/Transport.thy ===== *)
theory Transport
  imports Backend Keepalive Resource
begin

text \<open>
  The daemon's data transport, \<^verbatim>\<open>src/cmd/jaccld/transport.go\<close>: ranges of registered memory,
  heartbeat leases, polling for completions, point-to-point transfers.

  The provider is outside: \<open>dc_polls\<close> is what the polls of a connection's completion queue return, in
  order (an error, or a batch of completed work); when it runs out the call is still polling.  What a post
  returns is a function of the post.  Posted work is collected in the result.
\<close>

section \<open>Data\<close>

definition daemonTransferBytes :: int where
  "daemonTransferBytes = 4096 * 2 ^ 7"

definition daemonWorkSend :: int where "daemonWorkSend = 1"
definition daemonWorkRecv :: int where "daemonWorkRecv = 2"
definition daemonWorkWrite :: int where "daemonWorkWrite = 3"
definition daemonWorkHeartbeatRecv :: int where "daemonWorkHeartbeatRecv = 4"
definition daemonWorkHeartbeatSend :: int where "daemonWorkHeartbeatSend = 5"

lemmas work_kinds = daemonWorkSend_def daemonWorkRecv_def daemonWorkWrite_def
  daemonWorkHeartbeatRecv_def daemonWorkHeartbeatSend_def

record hb_lease =
  hl_MR :: heartbeat_mr
  hl_ExpiresAt :: instant

definition zero_hb_lease :: hb_lease where
  "zero_hb_lease = \<lparr> hl_MR = zero_heartbeat, hl_ExpiresAt = 0 \<rparr>"

text \<open>The address of a queue pair (\<^verbatim>\<open>rdma.Destination\<close>) and what a daemon publishes to a peer.\<close>

record destination =
  de_LID :: u16
  de_QPN :: u32
  de_PSN :: u32
  de_GIDIndex :: int
  de_GID :: bytes

record daemon_destination =
  dd_QP :: destination
  dd_HeartbeatMR :: heartbeat_mr
  dd_HeartbeatTTL :: duration

datatype transport_error =
    TransportClosed
  | RangeInvalid int int
  | RangeOutsideMR int int nat
  | RankOutOfRange int int
  | NoRDMAConnection int
  | Poisoned int string
  | PostFailed string
  | PollFailed string
  | UnexpectedCompletion u64
  | PendingCompletions int nat
  | MaintenanceSlot int
  | SideChannel string
  | NilSideChannel
  | MaintenanceRunning
  | AdmissionCtx ctx_error
  | HeartbeatTTLError duration
  | MissingAddress
  | NegativeOffset int
  | AddressOverflow
  | NilMemoryRegion
  | SourceBeforeBase u64 u64
  | SourceOverflow
  | HeartbeatContract res_error
  | DestinationTooShort int int
  | SizeNotPositive int
  | SizeOverflow
  | ScratchAlloc slab_error
  | NilExchange
  | ReduceFailed int reduce_error
  | ElementSizeError int
  | NotMultipleOf int int
  | TransportCtx ctx_error
  | NilSlab

record work_request =
  wr_ID :: u64
  wr_Opcode :: int
  wr_Bytes :: int
  wr_Status :: int

record daemon_conn =
  dc_pending :: "work_request list"
  dc_polls :: "(string + work_request list) list"
  dc_poison :: "string option"
  dc_remote :: hb_lease
  dc_hbWrites :: u64
  dc_hbErrors :: u64
  dc_maintOps :: u64
  dc_maintErrs :: u64

record memory_region =
  mr_addr :: u64
  mr_buf :: bytes

record daemon_transport =
  dt_rank :: int
  dt_size :: int
  dt_slab :: "slab option"
  dt_mr :: "memory_region option"
  dt_side :: bool
  dt_tracker :: "tracker option"
  dt_maintenanceLease :: lease
  dt_heartbeatLease :: hb_lease
  dt_conns :: "daemon_conn option list"

section \<open>Work identifiers\<close>

definition transportWorkID :: "int \<Rightarrow> int \<Rightarrow> u64" where
  "transportWorkID kind peer = word_of_int (or (push_bit 16 kind) peer)"

definition transportWorkKind :: "u64 \<Rightarrow> int" where
  "transportWorkKind i = sint (drop_bit 16 i)"

definition transportWorkPeer :: "u64 \<Rightarrow> int" where
  "transportWorkPeer i = sint (and i 0xffff)"

section \<open>Ranges\<close>

definition dt_bytes :: "daemon_transport option \<Rightarrow> bytes option" where
  "dt_bytes t =
     (case t of None \<Rightarrow> None
      | Some t \<Rightarrow>
          (case dt_slab t of
             Some s \<Rightarrow> slab_Bytes (Some s)
           | None \<Rightarrow> (case dt_mr t of Some m \<Rightarrow> Some (mr_buf m) | None \<Rightarrow> None)))"

definition rangeInMR :: "daemon_transport \<Rightarrow> int \<Rightarrow> int \<Rightarrow> transport_error + int \<times> int" where
  "rangeInMR t off len =
     (case dt_bytes (Some t) of
        None \<Rightarrow> Inl TransportClosed
      | Some buf \<Rightarrow>
          if off < 0 \<or> len < 0 then Inl (RangeInvalid off (add64 off len))
          else
            let fin = add64 off len in
            if fin < off \<or> fin > int (length buf) then Inl (RangeOutsideMR off fin (length buf))
            else Inr (off, len))"

definition peerOffset :: "int \<Rightarrow> int \<Rightarrow> int \<Rightarrow> int" where
  "peerOffset base peer len = add64 base (mul64 peer len)"

section \<open>Heartbeat leases\<close>

text \<open>\<^verbatim>\<open>UnixNano\<close> of an instant counted in nanoseconds from the year 1, and the default lifetime.\<close>

definition UnixNano :: "instant \<Rightarrow> int" where
  "UnixNano now = wrap64 (now - 62135596800 * 1000000000)"

definition defaultHeartbeatLeaseTTL :: duration where
  "defaultHeartbeatLeaseTTL = 24 * 3600 * 1000000000"

definition heartbeatMR :: "u64 \<Rightarrow> u32 \<Rightarrow> lease \<Rightarrow> u64 \<Rightarrow> transport_error + heartbeat_mr" where
  "heartbeatMR base rkey l epoch =
     (if base = 0 then Inl MissingAddress
      else if lease_Offset l < 0 then Inl (NegativeOffset (lease_Offset l))
      else
        let addr = base + word_of_int (lease_Offset l) in
        if addr < base then Inl AddressOverflow
        else
          let hb = \<lparr> hb_Addr = addr, hb_RKey = rkey, hb_Length = lease_Length l, hb_Epoch = epoch \<rparr> in
          case ValidateForRDMA hb of Some e \<Rightarrow> Inl (HeartbeatContract e) | None \<Rightarrow> Inr hb)"

definition localHeartbeatLease ::
  "bool \<Rightarrow> u64 \<Rightarrow> u32 \<Rightarrow> lease \<Rightarrow> duration \<Rightarrow> instant \<Rightarrow> transport_error + hb_lease \<times> duration" where
  "localHeartbeatLease enabled base rkey l ttl now =
     (if \<not> enabled then Inr (zero_hb_lease, 0)
      else
        let ttl' = (if ttl = 0 then defaultHeartbeatLeaseTTL else ttl) in
        if ttl' \<le> 0 then Inl (HeartbeatTTLError ttl')
        else
          let epoch = (word_of_int (UnixNano now) :: u64);
              epoch' = (if epoch = 0 then lease_ID l else epoch) in
          case heartbeatMR base rkey l epoch' of
            Inl e \<Rightarrow> Inl e
          | Inr hb \<Rightarrow> Inr (\<lparr> hl_MR = hb, hl_ExpiresAt = now + ttl' \<rparr>, ttl'))"

definition validateRemoteHeartbeatDestination ::
  "daemon_destination \<Rightarrow> instant \<Rightarrow> u64 \<Rightarrow> transport_error + hb_lease" where
  "validateRemoteHeartbeatDestination dst now lastEpoch =
     (case ValidateForRDMA (dd_HeartbeatMR dst) of
        Some e \<Rightarrow> Inl (HeartbeatContract e)
      | None \<Rightarrow>
          if dd_HeartbeatTTL dst \<le> 0
          then Inl (HeartbeatContract (ErrInvalidRequest (HeartbeatTTL (dd_HeartbeatTTL dst))))
          else if lastEpoch \<noteq> 0 \<and> hb_Epoch (dd_HeartbeatMR dst) \<le> lastEpoch
          then Inl (HeartbeatContract (ErrInvalidRequest (StaleEpoch (hb_Epoch (dd_HeartbeatMR dst)) lastEpoch)))
          else Inr \<lparr> hl_MR = dd_HeartbeatMR dst, hl_ExpiresAt = now + dd_HeartbeatTTL dst \<rparr>)"

text \<open>\<^verbatim>\<open>daemonHeartbeatLease.RDMA\<close>\<close>

definition lease_RDMA :: "hb_lease \<Rightarrow> instant \<Rightarrow> transport_error + heartbeat_mr" where
  "lease_RDMA l now =
     (case ValidateForRDMA (hl_MR l) of
        Some e \<Rightarrow> Inl (HeartbeatContract e)
      | None \<Rightarrow>
          if hl_ExpiresAt l = 0 then Inl (HeartbeatContract (ErrInvalidRequest HeartbeatDeadlineZero))
          else if \<not> now < hl_ExpiresAt l then Inl (HeartbeatContract ErrExpired)
          else Inr (hl_MR l))"

definition localHeartbeatOffset :: "daemon_transport \<Rightarrow> transport_error + int" where
  "localHeartbeatOffset t =
     (case dt_mr t of
        None \<Rightarrow> Inl NilMemoryRegion
      | Some m \<Rightarrow>
          let loc = hl_MR (dt_heartbeatLease t) in
          case ValidateForRDMA loc of
            Some e \<Rightarrow> Inl (HeartbeatContract e)
          | None \<Rightarrow>
              if mr_addr m = 0 then Inl MissingAddress
              else if hb_Addr loc < mr_addr m then Inl (SourceBeforeBase (hb_Addr loc) (mr_addr m))
              else
                let off = hb_Addr loc - mr_addr m in
                if uint off > max_int64 then Inl SourceOverflow else Inr (uint off))"

section \<open>Completions\<close>

text \<open>\<open>takePending\<close> removes the first pending completion with the identifier.\<close>

fun takePending :: "u64 \<Rightarrow> work_request list \<Rightarrow> work_request list option" where
  "takePending i [] = None"
| "takePending i (wr # p) =
     (if wr_ID wr \<noteq> i then map_option ((#) wr) (takePending i p) else Some p)"

text \<open>The map \<^verbatim>\<open>want\<close> of identifiers to the number still expected.\<close>

definition want_of :: "u64 list \<Rightarrow> (u64 \<times> nat) list" where
  "want_of ids = foldl (\<lambda>w i. AList.update i (Suc (case map_of w i of None \<Rightarrow> 0 | Some n \<Rightarrow> n)) w) [] ids"

fun take_all :: "u64 \<Rightarrow> nat \<Rightarrow> work_request list \<Rightarrow> nat \<times> work_request list" where
  "take_all i 0 p = (0, p)"
| "take_all i (Suc n) p = (case takePending i p of None \<Rightarrow> (Suc n, p) | Some p' \<Rightarrow> take_all i n p')"

fun take_wanted :: "(u64 \<times> nat) list \<Rightarrow> work_request list \<Rightarrow> (u64 \<times> nat) list \<times> work_request list" where
  "take_wanted [] p = ([], p)"
| "take_wanted ((i, n) # w) p =
     (case take_all i n p of (n', p') \<Rightarrow>
        (case take_wanted w p' of (w', p'') \<Rightarrow> (if n' = 0 then w' else (i, n') # w', p'')))"

fun absorb :: "work_request list \<Rightarrow> (u64 \<times> nat) list \<times> work_request list \<Rightarrow>
    (u64 \<times> nat) list \<times> work_request list" where
  "absorb [] x = x"
| "absorb (wr # wrs) (w, p) =
     (case map_of w (wr_ID wr) of
        Some (Suc n) \<Rightarrow>
          absorb wrs (if n = 0 then AList.delete (wr_ID wr) w else AList.update (wr_ID wr) n w, p)
      | _ \<Rightarrow> absorb wrs (w, p @ [wr]))"

datatype poll_result =
    PollOk "work_request list" "(string + work_request list) list"
  | PollErr string "work_request list" "(string + work_request list) list"
  | PollWaiting "work_request list"

fun poll_loop ::
  "(string + work_request list) list \<Rightarrow> (u64 \<times> nat) list \<Rightarrow> work_request list \<Rightarrow> poll_result" where
  "poll_loop polls want pending =
     (if want = [] then PollOk pending polls
      else
        case take_wanted want pending of (w, p) \<Rightarrow>
          if w = [] then PollOk p polls
          else
            (case polls of
               [] \<Rightarrow> PollWaiting p
             | Inl e # polls' \<Rightarrow> PollErr e p polls'
             | Inr wrs # polls' \<Rightarrow> (case absorb wrs (w, p) of (w', p') \<Rightarrow> poll_loop polls' w' p')))"

declare poll_loop.simps [simp del]

definition pollExpected :: "u64 list \<Rightarrow> daemon_conn \<Rightarrow> poll_result" where
  "pollExpected ids c =
     (if ids = [] then PollOk (dc_pending c) (dc_polls c)
      else poll_loop (dc_polls c) (want_of ids) (dc_pending c))"

section \<open>Polling conserves completions\<close>

definition want_mset :: "(u64 \<times> nat) list \<Rightarrow> u64 multiset" where
  "want_mset w = (\<Sum>(i, n) \<leftarrow> w. replicate_mset n i)"

definition want_ok :: "(u64 \<times> nat) list \<Rightarrow> bool" where
  "want_ok w \<longleftrightarrow> map_ok w \<and> (\<forall>(i, n) \<in> set w. 0 < n)"

lemma want_ok_map: "want_ok w \<longleftrightarrow> map_ok w \<and> (\<forall>i n. map_of w i = Some n \<longrightarrow> 0 < n)"
  by (auto simp: want_ok_def mem_iff_map_of)

abbreviation work_ids :: "work_request multiset \<Rightarrow> u64 multiset" where
  "work_ids \<equiv> image_mset wr_ID"

lemma want_mset_simps [simp]:
  "want_mset [] = {#}" "want_mset ((i, n) # w) = replicate_mset n i + want_mset w"
  by (simp_all add: want_mset_def)

lemma want_mset_delete:
  "map_ok w \<Longrightarrow> map_of w i = Some n \<Longrightarrow> want_mset w = replicate_mset n i + want_mset (AList.delete i w)"
proof (induction w)
  case (Cons x w)
  obtain j m where x: "x = (j, m)" by fastforce
  show ?case
  proof (cases "j = i")
    case True
    then have "AList.delete i w = w" using Cons.prems(1) x by (intro delete_fresh) (simp add: map_ok_def)
    then show ?thesis using True x Cons.prems(2) by simp
  next
    case False
    then show ?thesis using Cons x by (simp add: map_ok_def)
  qed
qed simp

lemma want_mset_update:
  assumes "map_ok w" "map_of w i = Some n"
  shows "want_mset (AList.update i m w) + replicate_mset n i = want_mset w + replicate_mset m i"
  using assms
proof (induction w)
  case (Cons x w)
  obtain j k where x: "x = (j, k)" by fastforce
  show ?case
  proof (cases "j = i")
    case True
    then show ?thesis using Cons.prems x by (simp add: ac_simps)
  next
    case False
    then have "want_mset (AList.update i m w) + replicate_mset n i = want_mset w + replicate_mset m i"
      using Cons x by (simp add: map_ok_def)
    then show ?thesis using False x by (simp add: ac_simps)
  qed
qed simp

lemma takePending_spec:
  "case takePending i p of
     None \<Rightarrow> \<forall>wr \<in> set p. wr_ID wr \<noteq> i
   | Some p' \<Rightarrow> \<exists>wr. wr_ID wr = i \<and> mset p = add_mset wr (mset p')"
  by (induction i p rule: takePending.induct) (auto split: option.splits)

lemma take_all_spec:
  "take_all i n p = (n', p') \<Longrightarrow> \<exists>u. mset p = u + mset p' \<and> replicate_mset n i = work_ids u + replicate_mset n' i \<and>
     (n' = 0 \<or> (\<forall>wr \<in> set p'. wr_ID wr \<noteq> i))"
proof (induction i n p rule: take_all.induct)
  case (2 i n p)
  show ?case
  proof (cases "takePending i p")
    case None
    then show ?thesis using "2.prems" takePending_spec [where i = i and p = p] by (intro exI [of _ "{#}"]) auto
  next
    case (Some q)
    then obtain wr where wr: "wr_ID wr = i" "mset p = add_mset wr (mset q)"
      using takePending_spec [where i = i and p = p] by auto
    from "2.IH" [OF Some] "2.prems" Some obtain u where "mset q = u + mset p'"
      "replicate_mset n i = work_ids u + replicate_mset n' i" "n' = 0 \<or> (\<forall>wr \<in> set p'. wr_ID wr \<noteq> i)" by auto
    then show ?thesis using wr by (intro exI [of _ "add_mset wr u"]) auto
  qed
qed simp

lemma takePending_subset: "takePending i p = Some p' \<Longrightarrow> set p' \<subseteq> set p"
  by (induction i p arbitrary: p' rule: takePending.induct) (auto split: if_splits)

lemma take_all_subset: "take_all i n p = (n', p') \<Longrightarrow> set p' \<subseteq> set p"
  by (induction i n p rule: take_all.induct) (auto split: option.splits dest: takePending_subset)

lemma take_wanted_subset: "take_wanted w p = (w', p') \<Longrightarrow> set p' \<subseteq> set p"
  by (induction w p arbitrary: w' p' rule: take_wanted.induct)
    (auto split: prod.splits dest!: take_all_subset)

lemma take_wanted_spec:
  "take_wanted w p = (w', p') \<Longrightarrow> map_ok w \<Longrightarrow> \<exists>u. mset p = u + mset p' \<and>
     want_mset w = work_ids u + want_mset w' \<and> want_ok w' \<and> fst ` set w' \<subseteq> fst ` set w \<and>
     (\<forall>(i, n) \<in> set w'. \<forall>wr \<in> set p'. wr_ID wr \<noteq> i)"
proof (induction w p arbitrary: w' p' rule: take_wanted.induct)
  case (1 p)
  then show ?case by (auto simp: want_ok_def)
next
  case (2 i n w p)
  obtain n1 p1 where a: "take_all i n p = (n1, p1)" by fastforce
  obtain w2 p2 where b: "take_wanted w p1 = (w2, p2)" by fastforce
  from take_all_spec [OF a] obtain u where u: "mset p = u + mset p1"
    "replicate_mset n i = work_ids u + replicate_mset n1 i" "n1 = 0 \<or> (\<forall>wr \<in> set p1. wr_ID wr \<noteq> i)" by blast
  have ok: "map_ok w" "i \<notin> fst ` set w" using "2.prems"(2) by (auto simp: map_ok_def)
  from "2.IH" [OF a [symmetric] b ok(1)] obtain v where v: "mset p1 = v + mset p2"
    "want_mset w = work_ids v + want_mset w2" "want_ok w2" "fst ` set w2 \<subseteq> fst ` set w"
    "\<forall>(i, n) \<in> set w2. \<forall>wr \<in> set p2. wr_ID wr \<noteq> i" by blast
  have r: "w' = (if n1 = 0 then w2 else (i, n1) # w2)" "p' = p2" using "2.prems"(1) a b by auto
  have "want_ok w'" using v(3,4) ok(2) r by (auto simp: want_ok_def map_ok_def)
  moreover have "\<forall>(i, n) \<in> set w'. \<forall>wr \<in> set p'. wr_ID wr \<noteq> i"
    using v(5) u(3) take_wanted_subset [OF b] r by auto
  ultimately show ?case
    using u v r by (intro exI [of _ "u + v"]) (auto simp: ac_simps)
qed

lemma absorb_spec:
  "absorb wrs (w, p) = (w', p') \<Longrightarrow> want_ok w \<Longrightarrow> \<exists>u. mset p + mset wrs = u + mset p' \<and>
     want_mset w = work_ids u + want_mset w' \<and> want_ok w'"
proof (induction wrs "(w, p)" arbitrary: w p w' p' rule: absorb.induct)
  case (1 w p)
  then show ?case by auto
next
  case (2 wr wrs w p)
  have ok: "map_ok w" using "2.prems"(2) by (simp add: want_ok_def)
  show ?case
  proof (cases "map_of w (wr_ID wr)")
    case None
    with "2.hyps"(1) "2.prems" obtain u where "mset (p @ [wr]) + mset wrs = u + mset p'"
      "want_mset w = work_ids u + want_mset w'" "want_ok w'" by fastforce
    then show ?thesis by (intro exI [of _ u]) simp
  next
    case (Some k)
    then have "0 < k" using "2.prems"(2) by (auto simp: want_ok_def dest!: map_of_SomeD)
    then obtain n where k: "map_of w (wr_ID wr) = Some (Suc n)" using Some by (cases k) auto
    let ?w = "if n = 0 then AList.delete (wr_ID wr) w else AList.update (wr_ID wr) n w"
    have wok: "want_ok ?w"
      using "2.prems"(2) by (auto simp: want_ok_map map_of_update map_of_delete split: if_splits)
    have "want_mset w = add_mset (wr_ID wr) (want_mset ?w)"
    proof (cases "n = 0")
      case True
      then show ?thesis using want_mset_delete [OF ok k] by simp
    next
      case False
      then show ?thesis using want_mset_update [OF ok k, of n] by simp
    qed
    moreover have "absorb wrs (?w, p) = (w', p')" using "2.prems"(1) k by simp
    from "2.hyps"(3) [OF k refl this wok] obtain u where "mset p + mset wrs = u + mset p'"
      "want_mset ?w = work_ids u + want_mset w'" "want_ok w'" by blast
    ultimately show ?thesis by (intro exI [of _ "add_mset wr u"]) simp
  qed
qed

lemma poll_loop_ok:
  "poll_loop polls w p = PollOk p' polls' \<Longrightarrow> want_ok w \<Longrightarrow>
   \<exists>batches u. polls = map Inr batches @ polls' \<and> mset p + mset (concat batches) = u + mset p' \<and>
     work_ids u = want_mset w"
proof (induction polls w p arbitrary: p' polls' rule: poll_loop.induct)
  case (1 polls w p)
  show ?case
  proof (cases "w = []")
    case True
    then show ?thesis using "1.prems" by (subst (asm) poll_loop.simps) (auto intro!: exI [of _ "[]"])
  next
    case False
    obtain w1 p1 where t: "take_wanted w p = (w1, p1)" by fastforce
    have "map_ok w" using "1.prems"(2) by (simp add: want_ok_def)
    from take_wanted_spec [OF t this] obtain u where u: "mset p = u + mset p1"
      "want_mset w = work_ids u + want_mset w1" "want_ok w1" by blast
    show ?thesis
    proof (cases "w1 = []")
      case True
      then show ?thesis
        using "1.prems"(1) False t u by (subst (asm) poll_loop.simps) (auto intro!: exI [of _ "[]"] exI [of _ u])
    next
      case w1: False
      from "1.prems"(1) False t w1 obtain wrs rest where polls: "polls = Inr wrs # rest"
        by (subst (asm) poll_loop.simps) (auto split: list.splits sum.splits)
      obtain w2 p2 where a: "absorb wrs (w1, p1) = (w2, p2)" by fastforce
      from absorb_spec [OF a u(3)] obtain v where v: "mset p1 + mset wrs = v + mset p2"
        "want_mset w1 = work_ids v + want_mset w2" "want_ok w2" by blast
      have run: "poll_loop rest w2 p2 = PollOk p' polls'"
        using "1.prems"(1) False t w1 polls a by (subst (asm) poll_loop.simps) auto
      from "1.IH" [OF False t [symmetric] w1 polls refl a [symmetric] run v(3)] obtain batches x where x:
        "rest = map Inr batches @ polls'" "mset p2 + mset (concat batches) = x + mset p'" "work_ids x = want_mset w2"
        by blast
      have "mset p + mset (concat (wrs # batches)) = (u + v + x) + mset p'"
        using u(1) v(1) x(2) by (metis (no_types, lifting) add.assoc add.commute concat.simps(2) mset_append)
      moreover have "work_ids (u + v + x) = want_mset w" using u(2) v(2) x(3) by simp
      ultimately show ?thesis
        using polls x(1) by (intro exI [of _ "wrs # batches"] exI [of _ "u + v + x"]) simp
    qed
  qed
qed

lemma poll_loop_returns:
  "want_ok w \<Longrightarrow> want_mset w \<subseteq># work_ids (mset p + mset (concat batches)) \<Longrightarrow>
   \<exists>p' b'. poll_loop (map Inr batches @ rest) w p = PollOk p' (map Inr b' @ rest)"
proof (induction batches arbitrary: w p)
  case Nil
  obtain w1 p1 where t: "take_wanted w p = (w1, p1)" by fastforce
  have "map_ok w" using Nil.prems(1) by (simp add: want_ok_def)
  from take_wanted_spec [OF t this] obtain u where u: "mset p = u + mset p1"
    "want_mset w = work_ids u + want_mset w1" "want_ok w1"
    "\<forall>(i, n) \<in> set w1. \<forall>wr \<in> set p1. wr_ID wr \<noteq> i" by blast
  have sub: "want_mset w1 \<subseteq># work_ids (mset p1)" using Nil.prems(2) u(1,2) by simp
  have "w1 = []"
  proof (cases w1)
    case (Cons x w2)
    obtain i n where x: "x = (i, n)" by fastforce
    then have "i \<in># want_mset w1" using u(3) Cons by (simp add: want_ok_def)
    then have "i \<in> wr_ID ` set p1" using mset_subset_eqD [OF sub] by fastforce
    then show ?thesis using u(4) Cons x by auto
  qed
  then show ?case using t by (subst poll_loop.simps) (auto intro!: exI [of _ "[]"])
next
  case (Cons b batches)
  show ?case
  proof (cases "w = []")
    case True
    then show ?thesis by (subst poll_loop.simps) (auto intro!: exI [of _ "b # batches"])
  next
    case False
    obtain w1 p1 where t: "take_wanted w p = (w1, p1)" by fastforce
    have "map_ok w" using Cons.prems(1) by (simp add: want_ok_def)
    from take_wanted_spec [OF t this] obtain u where u: "mset p = u + mset p1"
      "want_mset w = work_ids u + want_mset w1" "want_ok w1" by blast
    obtain w2 p2 where a: "absorb b (w1, p1) = (w2, p2)" by fastforce
    from absorb_spec [OF a u(3)] obtain v where v: "mset p1 + mset b = v + mset p2"
      "want_mset w1 = work_ids v + want_mset w2" "want_ok w2" by blast
    have "work_ids (mset p + mset (concat (b # batches))) =
        work_ids u + work_ids v + work_ids (mset p2 + mset (concat batches))"
    proof -
      have "mset p + mset (concat (b # batches)) = u + (mset p1 + mset b) + mset (concat batches)"
        using u(1) by (simp add: ac_simps)
      also have "\<dots> = u + v + (mset p2 + mset (concat batches))"
        unfolding v(1) by (simp add: ac_simps)
      finally show ?thesis by (simp only: image_mset_union)
    qed
    with Cons.prems(2) have "want_mset w \<subseteq># work_ids u + work_ids v + work_ids (mset p2 + mset (concat batches))"
      by (simp only:)
    moreover have "want_mset w = work_ids u + work_ids v + want_mset w2"
      using u(2) v(2) by (simp add: ac_simps)
    ultimately have "want_mset w2 \<subseteq># work_ids (mset p2 + mset (concat batches))"
      by (simp only: mset_subset_eq_mono_add_left_cancel)
    from Cons.IH [OF v(3) this] show ?thesis
      using False t a by (cases "w1 = []") (subst poll_loop.simps; auto intro!: exI [of _ "b # batches"])+
  qed
qed

lemma want_of_spec: "want_ok (want_of ids) \<and> want_mset (want_of ids) = mset ids"
proof (induction ids rule: rev_induct)
  case (snoc i ids)
  let ?w = "want_of ids"
  have ok: "map_ok ?w" using snoc by (simp add: want_ok_def)
  have w: "want_of (ids @ [i]) = AList.update i (Suc (case map_of ?w i of None \<Rightarrow> 0 | Some n \<Rightarrow> n)) ?w"
    by (simp add: want_of_def)
  have "want_ok (want_of (ids @ [i]))"
    unfolding w using snoc by (auto simp: want_ok_map map_of_update split: if_splits)
  moreover have "want_mset (want_of (ids @ [i])) = add_mset i (want_mset ?w)"
  proof (cases "map_of ?w i")
    case None
    then have "i \<notin> fst ` set ?w" by (simp add: map_of_eq_None_iff)
    moreover have "want_mset (xs @ [(i, Suc 0)]) = add_mset i (want_mset xs)" for xs
      by (induction xs) (auto simp: want_mset_def)
    ultimately show ?thesis unfolding w None by (simp add: update_fresh)
  next
    case (Some n)
    then show ?thesis unfolding w using want_mset_update [OF ok Some, of "Suc n"] by simp
  qed
  ultimately show ?case using snoc by simp
qed (simp add: want_of_def want_ok_def)

section \<open>Point-to-point transfers\<close>

definition dt_conn :: "daemon_transport \<Rightarrow> int \<Rightarrow> transport_error + daemon_conn" where
  "dt_conn t peer =
     (if peer < 0 \<or> peer \<ge> dt_size t then Inl (RankOutOfRange peer (dt_size t))
      else case dt_conns t ! nat peer of None \<Rightarrow> Inl (NoRDMAConnection peer) | Some c \<Rightarrow> Inr c)"

definition checkReady :: "int \<Rightarrow> daemon_conn option \<Rightarrow> transport_error option" where
  "checkReady peer c =
     (case c of
        None \<Rightarrow> Some (NoRDMAConnection peer)
      | Some c \<Rightarrow> (case dc_poison c of Some e \<Rightarrow> Some (Poisoned peer e) | None \<Rightarrow> None))"

definition routeID :: "int \<Rightarrow> string" where
  "routeID peer = ''rank-'' @ Itoa peer"

definition dt_touch :: "instant \<Rightarrow> int \<Rightarrow> daemon_transport \<Rightarrow> daemon_transport" where
  "dt_touch now peer t =
     t\<lparr>dt_tracker := map_option (tracker_Touch now (routeID peer)) (dt_tracker t)\<rparr>"

definition set_conn :: "int \<Rightarrow> daemon_conn \<Rightarrow> daemon_transport \<Rightarrow> daemon_transport" where
  "set_conn peer c t = t\<lparr>dt_conns := (dt_conns t)[nat peer := Some c]\<rparr>"

text \<open>A post: the side, the peer, the offset and length in registered memory and the work identifier.\<close>

datatype post_side = PostSend | PostRecv | PostWrite

record post =
  po_side :: post_side
  po_peer :: int
  po_offset :: int
  po_length :: int
  po_id :: u64

datatype 'a outcome = Returned 'a | Failed transport_error | Polling

definition poll_conn :: "u64 list \<Rightarrow> int \<Rightarrow> daemon_conn \<Rightarrow> daemon_transport \<Rightarrow> unit outcome \<times> daemon_transport" where
  "poll_conn ids peer c t =
     (case pollExpected ids c of
        PollOk p polls \<Rightarrow> (Returned (), set_conn peer (c\<lparr>dc_pending := p, dc_polls := polls\<rparr>) t)
      | PollErr e p polls \<Rightarrow> (Failed (PollFailed e), set_conn peer (c\<lparr>dc_pending := p, dc_polls := polls\<rparr>) t)
      | PollWaiting p \<Rightarrow> (Polling, set_conn peer (c\<lparr>dc_pending := p, dc_polls := []\<rparr>) t))"

text \<open>
  The loop of \<open>Send\<close> and \<open>Recv\<close>: one post and one poll per transfer unit.  \<open>try_post\<close> is what the
  provider answers to a post.  Offsets stay below the length of a slice, so they do not wrap.
\<close>

function xfer_loop ::
  "(post \<Rightarrow> string option) \<Rightarrow> instant \<Rightarrow> post_side \<Rightarrow> int \<Rightarrow> int \<Rightarrow> int \<Rightarrow> int \<Rightarrow> int \<Rightarrow> daemon_transport \<Rightarrow>
   unit outcome \<times> post list \<times> daemon_transport" where
  "xfer_loop try_post now side kind peer start n off t =
     (if n \<le> off then (Returned (), [], t)
      else
        case dt_conns t ! nat peer of None \<Rightarrow> (Failed (NoRDMAConnection peer), [], t)
        | Some c \<Rightarrow>
            (let chunk = min daemonTransferBytes (n - off);
                 i = transportWorkID kind peer;
                 po = \<lparr> po_side = side, po_peer = peer, po_offset = start + off, po_length = chunk, po_id = i \<rparr> in
             case try_post po of Some e \<Rightarrow> (Failed (PostFailed e), [], t)
             | None \<Rightarrow>
                 (case poll_conn [i] peer c t of
                    (Returned _, t') \<Rightarrow>
                      (case xfer_loop try_post now side kind peer start n (off + daemonTransferBytes)
                              (dt_touch now peer t') of
                         (r, pos, t'') \<Rightarrow> (r, po # pos, t''))
                  | (r, t') \<Rightarrow> (r, [po], t'))))"
  by pat_completeness auto
termination
  by (relation "measure (\<lambda>(f, now, side, kind, peer, start, n, off, t). nat (n - off))")
    (auto simp: daemonTransferBytes_def)

declare xfer_loop.simps [simp del]

text \<open>\<open>enter\<close> is what the admission gate answers.  The second \<open>checkReady\<close> repeats the first under the
connection's mutex.\<close>

definition dt_transfer ::
  "post_side \<Rightarrow> int \<Rightarrow> (post \<Rightarrow> string option) \<Rightarrow> transport_error option \<Rightarrow> instant \<Rightarrow> int \<Rightarrow> int \<Rightarrow> int \<Rightarrow>
   daemon_transport \<Rightarrow> unit outcome \<times> post list \<times> daemon_transport" where
  "dt_transfer side kind try_post enter now peer off len t =
     (case rangeInMR t off len of Inl e \<Rightarrow> (Failed e, [], t)
      | Inr (start, n) \<Rightarrow>
          if n = 0 then (Returned (), [], t)
          else
            (case enter of Some e \<Rightarrow> (Failed e, [], t)
             | None \<Rightarrow>
                 (case dt_conn t peer of Inl e \<Rightarrow> (Failed e, [], t)
                  | Inr c \<Rightarrow>
                      (case checkReady peer (Some c) of Some e \<Rightarrow> (Failed e, [], t)
                       | None \<Rightarrow> xfer_loop try_post now side kind peer start n 0 t))))"

definition dt_Send where
  "dt_Send = dt_transfer PostSend daemonWorkSend"

definition dt_Recv where
  "dt_Recv = dt_transfer PostRecv daemonWorkRecv"

text \<open>\<open>bar\<close> is what the side channel's barrier answers.\<close>

definition dt_Barrier ::
  "transport_error option \<Rightarrow> string option \<Rightarrow> daemon_transport option \<Rightarrow> transport_error option" where
  "dt_Barrier enter bar t =
     (case t of None \<Rightarrow> Some TransportClosed
      | Some t \<Rightarrow>
          if \<not> dt_side t then Some TransportClosed
          else case enter of Some e \<Rightarrow> Some e | None \<Rightarrow> map_option SideChannel bar)"

section \<open>Recording heartbeats and maintenance\<close>

definition poisonHeartbeat :: "string \<Rightarrow> daemon_conn \<Rightarrow> daemon_conn" where
  "poisonHeartbeat e c = (if dc_poison c = None then c\<lparr>dc_poison := Some e\<rparr> else c)"

definition recordHeartbeat :: "string option \<Rightarrow> daemon_conn \<Rightarrow> daemon_conn" where
  "recordHeartbeat err c =
     (case err of
        Some e \<Rightarrow> (poisonHeartbeat e c)\<lparr>dc_hbErrors := dc_hbErrors c + 1\<rparr>
      | None \<Rightarrow> c\<lparr>dc_hbWrites := dc_hbWrites c + 1\<rparr>)"

definition recordMaintenance :: "string option \<Rightarrow> daemon_conn \<Rightarrow> daemon_conn" where
  "recordMaintenance err c =
     (case err of
        Some e \<Rightarrow> (poisonHeartbeat e c)\<lparr>dc_maintErrs := dc_maintErrs c + 1\<rparr>
      | None \<Rightarrow> c\<lparr>dc_maintOps := dc_maintOps c + 1\<rparr>)"

text \<open>
  \<open>heartbeat\<close>: a one-byte write to the peer's leased memory.  \<open>free\<close> is whether the connection's mutex
  can be taken at once; a busy connection is skipped.  \<open>msg\<close> is the text of an error.
\<close>

definition dt_heartbeat ::
  "(post \<Rightarrow> string option) \<Rightarrow> (transport_error \<Rightarrow> string) \<Rightarrow> bool \<Rightarrow> instant \<Rightarrow> int \<Rightarrow> daemon_transport \<Rightarrow>
   unit outcome \<times> (post \<times> heartbeat_mr) list \<times> daemon_transport" where
  "dt_heartbeat try_post msg free now peer t =
     (case dt_conn t peer of Inl e \<Rightarrow> (Failed e, [], t)
      | Inr c \<Rightarrow>
          (let give_up = (\<lambda>e pos c'. (Failed e, pos, set_conn peer (recordHeartbeat (Some (msg e)) c') t)) in
           case checkReady peer (Some c) of Some e \<Rightarrow> (Failed e, [], t)
           | None \<Rightarrow>
               (case localHeartbeatOffset t of Inl e \<Rightarrow> give_up e [] c
                | Inr off \<Rightarrow>
                    (case rangeInMR t off 1 of Inl e \<Rightarrow> give_up e [] c
                     | Inr (start, _) \<Rightarrow>
                         (case lease_RDMA (dc_remote c) now of Inl e \<Rightarrow> give_up e [] c
                          | Inr remote \<Rightarrow>
                              if \<not> free then (Returned (), [], t)
                              else
                                let i = transportWorkID daemonWorkWrite peer;
                                    po = \<lparr> po_side = PostWrite, po_peer = peer, po_offset = start,
                                           po_length = 1, po_id = i \<rparr> in
                                case try_post po of Some e \<Rightarrow> give_up (PostFailed e) [] c
                                | None \<Rightarrow>
                                    (case pollExpected [i] c of
                                       PollOk p polls \<Rightarrow>
                                         (Returned (), [(po, remote)],
                                          set_conn peer (recordHeartbeat None (c\<lparr>dc_pending := p, dc_polls := polls\<rparr>)) t)
                                     | PollErr e p polls \<Rightarrow>
                                         give_up (PollFailed e) [(po, remote)] (c\<lparr>dc_pending := p, dc_polls := polls\<rparr>)
                                     | PollWaiting p \<Rightarrow>
                                         (Polling, [(po, remote)], set_conn peer (c\<lparr>dc_pending := p, dc_polls := []\<rparr>) t)))))))"

section \<open>Properties\<close>

text \<open>C24.  Waiting for completions.  When \<open>pollExpected\<close> returns it has consumed exactly the expected
identifiers, with their multiplicity, from the completions pending before and the batches it polled; every
other completion is still pending, none is lost or counted twice.  And it does return, without a further
poll, once the polled batches together with the pending completions contain the expected identifiers.\<close>

theorem pollExpected_conserves:
  "(\<forall>p polls'. pollExpected ids c = PollOk p polls' \<longrightarrow>
      (\<exists>batches used. dc_polls c = map Inr batches @ polls' \<and> work_ids used = mset ids \<and>
         mset (dc_pending c) + mset (concat batches) = used + mset p)) \<and>
   (\<forall>batches rest. dc_polls c = map Inr batches @ rest \<and>
      mset ids \<subseteq># work_ids (mset (dc_pending c) + mset (concat batches)) \<longrightarrow>
      (\<exists>p polls'. pollExpected ids c = PollOk p polls'))"
proof (cases "ids = []")
  case True
  then show ?thesis
    by (auto simp: pollExpected_def intro!: exI [of _ "[]"] exI [of _ "{#}"])
next
  case False
  have w: "want_ok (want_of ids)" "want_mset (want_of ids) = mset ids" using want_of_spec [of ids] by simp_all
  show ?thesis
    using poll_loop_ok [OF _ w(1)] poll_loop_returns [OF w(1)] False w(2)
    by (fastforce simp: pollExpected_def)
qed

definition wr :: "u64 \<Rightarrow> work_request" where
  "wr i = \<lparr> wr_ID = i, wr_Opcode = 0, wr_Bytes = 0, wr_Status = 0 \<rparr>"

definition conn0 :: daemon_conn where
  "conn0 = \<lparr> dc_pending = [wr 7], dc_polls = [Inr [wr 8], Inr [wr 9, wr 5]], dc_poison = None, dc_remote = zero_hb_lease,
     dc_hbWrites = 0, dc_hbErrors = 0, dc_maintOps = 0, dc_maintErrs = 0 \<rparr>"

theorem pollExpected_conserves_witness:
  "\<exists>p polls'. pollExpected [7, 9] conn0 = PollOk p polls'"
proof -
  have "mset [7, 9] \<subseteq># work_ids (mset (dc_pending conn0) + mset (concat [[wr 8], [wr 9, wr 5]]))"
    by (simp add: conn0_def wr_def)
  moreover have "dc_polls conn0 = map Inr [[wr 8], [wr 9, wr 5]] @ []" by (simp add: conn0_def)
  ultimately show ?thesis using pollExpected_conserves [of "[7, 9]" conn0] by blast
qed

text \<open>Heartbeat leases make the round trip.  The lease a daemon publishes for a range of its slab points
back to exactly that range when the daemon itself looks up its heartbeat source; a peer that has seen no
later epoch accepts the published destination, may use it until the lifetime it was published with is over,
and refuses it from then on.\<close>

lemma heartbeat_lease_roundtrip:
  assumes "localHeartbeatLease True base rkey l ttl now = Inr (hb, ttl')"
    and "lease_Offset l \<le> max_int64" and "dt_mr t = Some m" and "mr_addr m = base"
    and "dt_heartbeatLease t = hb" and "lastEpoch = 0 \<or> lastEpoch < hb_Epoch (hl_MR hb)"
    and "0 < seen"
  shows "localHeartbeatOffset t = Inr (lease_Offset l) \<and>
    (\<exists>r. validateRemoteHeartbeatDestination \<lparr> dd_QP = q, dd_HeartbeatMR = hl_MR hb, dd_HeartbeatTTL = ttl' \<rparr> seen lastEpoch = Inr r \<and>
      (\<forall>at. lease_RDMA r at = (if at < seen + ttl' then Inr (hl_MR hb) else Inl (HeartbeatContract ErrExpired))))"
proof -
  from assms(1) obtain epoch where h: "heartbeatMR base rkey l epoch = Inr (hl_MR hb)" and ttl: "0 < ttl'"
    by (auto simp: localHeartbeatLease_def Let_def split: if_splits sum.splits)
  then have b: "base \<noteq> 0" "0 \<le> lease_Offset l" "\<not> base + word_of_int (lease_Offset l) < base"
    and hb: "hl_MR hb = \<lparr> hb_Addr = base + word_of_int (lease_Offset l), hb_RKey = rkey,
      hb_Length = lease_Length l, hb_Epoch = epoch \<rparr>" and v: "ValidateForRDMA (hl_MR hb) = None"
    by (auto simp: heartbeatMR_def Let_def split: if_splits option.splits)
  have u: "uint (word_of_int (lease_Offset l) :: u64) = lease_Offset l"
    using b(2) assms(2) by (simp add: max_int64_def uint_word_of_int take_bit_eq_mod)
  have "localHeartbeatOffset t = Inr (lease_Offset l)"
    using assms(2-5) b v hb u by (simp add: localHeartbeatOffset_def Let_def not_less)
  moreover have "validateRemoteHeartbeatDestination \<lparr> dd_QP = q, dd_HeartbeatMR = hl_MR hb, dd_HeartbeatTTL = ttl' \<rparr> seen lastEpoch =
      Inr \<lparr> hl_MR = hl_MR hb, hl_ExpiresAt = seen + ttl' \<rparr>"
    using v ttl assms(6) by (auto simp: validateRemoteHeartbeatDestination_def)
  moreover have "lease_RDMA \<lparr> hl_MR = hl_MR hb, hl_ExpiresAt = seen + ttl' \<rparr> at =
      (if at < seen + ttl' then Inr (hl_MR hb) else Inl (HeartbeatContract ErrExpired))" for at
    using v ttl assms(7) by (simp add: lease_RDMA_def)
  ultimately show ?thesis by blast
qed

definition lease_hb :: lease where
  "lease_hb = \<lparr> lease_ID = 1, lease_Offset = 64, lease_Length = 4 \<rparr>"

definition transport_hb :: "hb_lease \<Rightarrow> daemon_transport" where
  "transport_hb hb = \<lparr> dt_rank = 0, dt_size = 2, dt_slab = None, dt_mr = Some \<lparr> mr_addr = 4096, mr_buf = replicate 128 0 \<rparr>,
     dt_side = True, dt_tracker = None, dt_maintenanceLease = lease_hb, dt_heartbeatLease = hb, dt_conns = [] \<rparr>"

lemma heartbeat_lease_roundtrip_witness:
  "\<exists>hb. localHeartbeatLease True 4096 3 lease_hb 10 (62135596800 * 1000000000 + 5) = Inr (hb, 10) \<and>
    localHeartbeatOffset (transport_hb hb) = Inr 64"
proof -
  let ?now = "62135596800 * 1000000000 + 5 :: int"
  obtain hb where l: "localHeartbeatLease True 4096 3 lease_hb 10 ?now = Inr (hb, 10)"
    by (auto simp: localHeartbeatLease_def lease_hb_def heartbeatMR_def ValidateForRDMA_def UnixNano_def
        wrap64_def Let_def word_less_nat_alt)
  from heartbeat_lease_roundtrip [OF l, of "transport_hb hb" "\<lparr> mr_addr = 4096, mr_buf = replicate 128 0 \<rparr>" 0 1] l show ?thesis
    by (auto simp: transport_hb_def lease_hb_def max_int64_def)
qed

end
