(* ===== verification/Mesh.thy ===== *)
theory Mesh
  imports Transport
begin

text \<open>
  The daemon's collectives, \<^verbatim>\<open>src/cmd/jaccld/transport.go\<close>: the full-mesh exchange and the
  reduction and gather built on it.  The source passes the exchange to both as a function; the locale
  \<open>mesh_exchange\<close> is what they rely on, and the interpretation shows that the daemon's own exchange
  provides it.

  A receive that has completed has put the peer's next message at the offset it was posted with;
  \<open>inbox peer r\<close> is the \<open>r\<close>-th message of a peer.
\<close>

section \<open>Memory\<close>

definition dt_mem :: "daemon_transport \<Rightarrow> bytes" where
  "dt_mem t = (case dt_bytes (Some t) of None \<Rightarrow> [] | Some b \<Rightarrow> b)"

definition set_mem :: "bytes \<Rightarrow> daemon_transport \<Rightarrow> daemon_transport" where
  "set_mem b t =
     (case dt_slab t of
        Some s \<Rightarrow> t\<lparr>dt_slab := Some (s\<lparr>sl_data := Some b\<rparr>)\<rparr>
      | None \<Rightarrow> t\<lparr>dt_mr := map_option (\<lambda>m. m\<lparr>mr_buf := b\<rparr>) (dt_mr t)\<rparr>)"

definition mem_slice :: "bytes \<Rightarrow> int \<Rightarrow> int \<Rightarrow> bytes" where
  "mem_slice b off n = take (nat n) (drop (nat off) b)"

section \<open>Exchange\<close>

text \<open>\<open>lockConns\<close>: every other rank must have a connection; the mutexes of these are taken in rank order
and given back by the deferred \<open>unlockDaemonConns\<close>.\<close>

definition daemon_lockConns :: "daemon_transport \<Rightarrow> transport_error + int list" where
  "daemon_lockConns t =
     (let peers = filter (\<lambda>p. p \<noteq> dt_rank t) (map int [0..<nat (dt_size t)]) in
      case first_err (\<lambda>p. case dt_conn t p of Inl e \<Rightarrow> Some e | Inr c \<Rightarrow> None) peers of
        Some e \<Rightarrow> Inl e
      | None \<Rightarrow> Inr peers)"

text \<open>The peers the loops over \<^verbatim>\<open>t.conns\<close> do not skip.\<close>

definition live_peers :: "daemon_transport \<Rightarrow> int list" where
  "live_peers t = filter (\<lambda>p. p \<noteq> dt_rank t \<and> dt_conns t ! nat p \<noteq> None) (map int [0..<length (dt_conns t)])"

fun post_recvs ::
  "(post \<Rightarrow> string option) \<Rightarrow> daemon_transport \<Rightarrow> int \<Rightarrow> int \<Rightarrow> int \<Rightarrow> int \<Rightarrow> int list \<Rightarrow>
   transport_error option \<times> post list" where
  "post_recvs try_post t dstBase n off chunk [] = (None, [])"
| "post_recvs try_post t dstBase n off chunk (p # ps) =
     (case rangeInMR t (add64 (peerOffset dstBase p n) off) chunk of
        Inl e \<Rightarrow> (Some e, [])
      | Inr (start, _) \<Rightarrow>
          (let po = \<lparr> po_side = PostRecv, po_peer = p, po_offset = start, po_length = chunk,
                      po_id = transportWorkID daemonWorkRecv p \<rparr> in
           case try_post po of
             Some e \<Rightarrow> (Some (PostFailed e), [])
           | None \<Rightarrow> (case post_recvs try_post t dstBase n off chunk ps of (e, pos) \<Rightarrow> (e, po # pos))))"

fun post_sends ::
  "(post \<Rightarrow> string option) \<Rightarrow> int \<Rightarrow> int \<Rightarrow> int list \<Rightarrow> transport_error option \<times> post list" where
  "post_sends try_post start chunk [] = (None, [])"
| "post_sends try_post start chunk (p # ps) =
     (let po = \<lparr> po_side = PostSend, po_peer = p, po_offset = start, po_length = chunk,
                 po_id = transportWorkID daemonWorkSend p \<rparr> in
      case try_post po of
        Some e \<Rightarrow> (Some (PostFailed e), [])
      | None \<Rightarrow> (case post_sends try_post start chunk ps of (e, pos) \<Rightarrow> (e, po # pos)))"

text \<open>The polls of one round; a completed receive has written its message.\<close>

fun poll_peers ::
  "(int \<Rightarrow> bytes) \<Rightarrow> instant \<Rightarrow> int \<Rightarrow> int \<Rightarrow> int \<Rightarrow> int \<Rightarrow> int list \<Rightarrow> daemon_transport \<Rightarrow>
   unit outcome \<times> daemon_transport" where
  "poll_peers inbox now dstBase n off chunk [] t = (Returned (), t)"
| "poll_peers inbox now dstBase n off chunk (p # ps) t =
     (case dt_conns t ! nat p of None \<Rightarrow> (Failed (NoRDMAConnection p), t)
      | Some c \<Rightarrow>
          (case poll_conn [transportWorkID daemonWorkRecv p, transportWorkID daemonWorkSend p] p c t of
             (Returned _, t') \<Rightarrow>
               (let at = nat (add64 (peerOffset dstBase p n) off);
                    t'' = set_mem (copy_at (dt_mem t') at (take (nat chunk) (inbox p))) t' in
                poll_peers inbox now dstBase n off chunk ps (dt_touch now p t''))
           | (r, t') \<Rightarrow> (r, t')))"

function exchange_rounds ::
  "(post \<Rightarrow> string option) \<Rightarrow> (int \<Rightarrow> nat \<Rightarrow> bytes) \<Rightarrow> instant \<Rightarrow> int \<Rightarrow> int \<Rightarrow> int \<Rightarrow> int \<Rightarrow> nat \<Rightarrow>
   daemon_transport \<Rightarrow> unit outcome \<times> post list \<times> daemon_transport" where
  "exchange_rounds try_post inbox now dstBase srcStart n off r t =
     (if n \<le> off then (Returned (), [], t)
      else
        let chunk = min daemonTransferBytes (n - off); peers = live_peers t in
        case post_recvs try_post t dstBase n off chunk peers of
          (Some e, pos) \<Rightarrow> (Failed e, pos, t)
        | (None, pos) \<Rightarrow>
            (case post_sends try_post (srcStart + off) chunk peers of
               (Some e, pos') \<Rightarrow> (Failed e, pos @ pos', t)
             | (None, pos') \<Rightarrow>
                 (case poll_peers (\<lambda>p. inbox p r) now dstBase n off chunk peers t of
                    (Returned _, t') \<Rightarrow>
                      (case exchange_rounds try_post inbox now dstBase srcStart n (off + daemonTransferBytes)
                              (Suc r) t' of
                         (res, later, t'') \<Rightarrow> (res, pos @ pos' @ later, t''))
                  | (res, t') \<Rightarrow> (res, pos @ pos', t'))))"
  by pat_completeness auto
termination
  by (relation "measure (\<lambda>(f, inbox, now, b, s, n, off, r, t). nat (n - off))")
    (auto simp: daemonTransferBytes_def)

declare exchange_rounds.simps [simp del]

definition daemon_exchange ::
  "(post \<Rightarrow> string option) \<Rightarrow> (int \<Rightarrow> nat \<Rightarrow> bytes) \<Rightarrow> instant \<Rightarrow> int \<Rightarrow> int \<Rightarrow> int \<Rightarrow> daemon_transport \<Rightarrow>
   unit outcome \<times> post list \<times> daemon_transport" where
  "daemon_exchange try_post inbox now dstBase srcOffset len t =
     (case rangeInMR t srcOffset len of Inl e \<Rightarrow> (Failed e, [], t)
      | Inr (srcStart, n) \<Rightarrow>
          if n = 0 then (Returned (), [], t)
          else
            (case daemon_lockConns t of Inl e \<Rightarrow> (Failed e, [], t)
             | Inr locked \<Rightarrow>
                 (case first_err (\<lambda>p. checkReady p (dt_conns t ! nat p)) (live_peers t) of
                    Some e \<Rightarrow> (Failed e, [], t)
                  | None \<Rightarrow> exchange_rounds try_post inbox now dstBase srcStart n 0 0 t)))"

section \<open>Reduction and gather\<close>

type_synonym exchange_fun =
  "int \<Rightarrow> int \<Rightarrow> int \<Rightarrow> daemon_transport \<Rightarrow> unit outcome \<times> post list \<times> daemon_transport"

definition applyDaemonReduction ::
  "float_ops \<Rightarrow> int \<Rightarrow> dtype \<Rightarrow> bytes \<Rightarrow> bytes \<Rightarrow> reduce_error + bytes" where
  "applyDaemonReduction fp rop dt dst src =
     (if rop = 0 then Sum fp dt dst src
      else if rop = 1 then Max fp dt dst src
      else if rop = 2 then Min fp dt dst src
      else Inl (UnknownOp rop))"

fun reduce_scratch ::
  "float_ops \<Rightarrow> int \<Rightarrow> dtype \<Rightarrow> int \<Rightarrow> int \<Rightarrow> int \<Rightarrow> int list \<Rightarrow> daemon_transport \<Rightarrow>
   unit outcome \<times> daemon_transport" where
  "reduce_scratch fp rop dt scratch dstStart n [] t = (Returned (), t)"
| "reduce_scratch fp rop dt scratch dstStart n (p # ps) t =
     (case rangeInMR t (peerOffset scratch p n) n of Inl e \<Rightarrow> (Failed e, t)
      | Inr (start, m) \<Rightarrow>
          (case applyDaemonReduction fp rop dt (mem_slice (dt_mem t) dstStart n) (mem_slice (dt_mem t) start m) of
             Inl e \<Rightarrow> (Failed (ReduceFailed p e), t)
           | Inr v \<Rightarrow>
               reduce_scratch fp rop dt scratch dstStart n ps (set_mem (copy_at (dt_mem t) (nat dstStart) v) t)))"

text \<open>The scratch lease is freed on every return.\<close>

definition free_scratch ::
  "u64 \<Rightarrow> unit outcome \<times> post list \<times> daemon_transport \<Rightarrow> unit outcome \<times> post list \<times> daemon_transport" where
  "free_scratch i x =
     (case x of
        (Polling, pos, t) \<Rightarrow> (Polling, pos, t)
      | (r, pos, t) \<Rightarrow> (r, pos, t\<lparr>dt_slab := map_option (\<lambda>s. snd (Free i s)) (dt_slab t)\<rparr>))"

definition runMeshReduce ::
  "float_ops \<Rightarrow> ctx_error option \<Rightarrow> int \<Rightarrow> dtype \<Rightarrow> int \<Rightarrow> int \<Rightarrow> int \<Rightarrow> int \<Rightarrow> exchange_fun option \<Rightarrow>
   daemon_transport \<Rightarrow> unit outcome \<times> post list \<times> daemon_transport" where
  "runMeshReduce fp ce rop dt dstOffset dstLength srcOffset srcLength exch t =
     (case ce of Some e \<Rightarrow> (Failed (TransportCtx e), [], t)
      | None \<Rightarrow>
      if srcLength = 0 then (Returned (), [], t)
      else case dt_slab t of None \<Rightarrow> (Failed NilSlab, [], t)
      | Some slab \<Rightarrow>
      (case rangeInMR t dstOffset dstLength of Inl e \<Rightarrow> (Failed e, [], t)
       | Inr (dstStart, _) \<Rightarrow>
      (case rangeInMR t srcOffset srcLength of Inl e \<Rightarrow> (Failed e, [], t)
       | Inr (srcStart, srcN) \<Rightarrow>
      if dstLength < srcLength then (Failed (DestinationTooShort dstLength srcLength), [], t)
      else if dt_size t \<le> 0 then (Failed (SizeNotPositive (dt_size t)), [], t)
      else if srcLength > max_int64 div dt_size t then (Failed SizeOverflow, [], t)
      else (case Alloc (mul64 srcLength (dt_size t)) slab of
        (Inl e, slab') \<Rightarrow> (Failed (ScratchAlloc e), [], t\<lparr>dt_slab := Some slab'\<rparr>)
      | (Inr scratch, slab') \<Rightarrow>
          free_scratch (lease_ID scratch)
            (let t1 = t\<lparr>dt_slab := Some slab'\<rparr>;
                 t2 = set_mem (copy_at (dt_mem t1) (nat dstStart) (mem_slice (dt_mem t1) srcStart srcN)) t1 in
             if dt_size t > 1 then
               (case exch of None \<Rightarrow> (Failed NilExchange, [], t2)
                | Some f \<Rightarrow>
                    (case f (lease_Offset scratch) srcOffset srcLength t2 of
                       (Returned _, pos, t3) \<Rightarrow>
                         (case reduce_scratch fp rop dt (lease_Offset scratch) dstStart srcLength
                                 (filter (\<lambda>p. p \<noteq> dt_rank t) (map int [0..<nat (dt_size t)])) t3 of
                            (r, t4) \<Rightarrow> (r, pos, t4))
                     | x \<Rightarrow> x))
             else (Returned (), [], t2))))))"

definition runMeshGather ::
  "ctx_error option \<Rightarrow> int \<Rightarrow> int \<Rightarrow> int \<Rightarrow> int \<Rightarrow> int \<Rightarrow> exchange_fun option \<Rightarrow> daemon_transport \<Rightarrow>
   unit outcome \<times> post list \<times> daemon_transport" where
  "runMeshGather ce elemSize dstOffset dstLength srcOffset srcLength exch t =
     (case ce of Some e \<Rightarrow> (Failed (TransportCtx e), [], t)
      | None \<Rightarrow>
      if srcLength = 0 then (Returned (), [], t)
      else if elemSize \<le> 0 then (Failed (ElementSizeError elemSize), [], t)
      else if srcLength mod elemSize \<noteq> 0 then (Failed (NotMultipleOf srcLength elemSize), [], t)
      else if dt_size t \<le> 0 then (Failed (SizeNotPositive (dt_size t)), [], t)
      else if srcLength > max_int64 div dt_size t then (Failed SizeOverflow, [], t)
      else
        let want = mul64 srcLength (dt_size t) in
        if dstLength < want then (Failed (DestinationTooShort dstLength want), [], t)
        else case rangeInMR t dstOffset dstLength of Inl e \<Rightarrow> (Failed e, [], t)
        | Inr (dstStart, _) \<Rightarrow>
        (case rangeInMR t srcOffset srcLength of Inl e \<Rightarrow> (Failed e, [], t)
         | Inr (srcStart, srcN) \<Rightarrow>
             let localStart = dstStart + dt_rank t * srcN;
                 t1 = set_mem (copy_at (dt_mem t) (nat localStart) (mem_slice (dt_mem t) srcStart srcN)) t in
             if dt_size t = 1 then (Returned (), [], t1)
             else case exch of None \<Rightarrow> (Failed NilExchange, [], t1)
             | Some f \<Rightarrow> f dstOffset srcOffset srcLength t1))"

text \<open>The transport's entry points: pass the admission gate, then run.  A rank lies below the size, which
the configuration checks, so the local block is inside the destination.\<close>

definition dt_AllReduce where
  "dt_AllReduce fp enter try_post inbox now ce rop dt dstOffset dstLength srcOffset srcLength t =
     (case enter of Some e \<Rightarrow> (Failed e, [], t)
      | None \<Rightarrow>
          runMeshReduce fp ce rop dt dstOffset dstLength srcOffset srcLength
            (Some (daemon_exchange try_post inbox now)) t)"

definition dt_AllGather where
  "dt_AllGather enter try_post inbox now ce elemSize dstOffset dstLength srcOffset srcLength t =
     (case enter of Some e \<Rightarrow> (Failed e, [], t)
      | None \<Rightarrow>
          runMeshGather ce elemSize dstOffset dstLength srcOffset srcLength
            (Some (daemon_exchange try_post inbox now)) t)"

section \<open>What an exchange delivers\<close>

text \<open>The first \<open>k\<close> bytes of each block of \<open>ps\<close> hold the peer's bytes; nothing else changes.\<close>

definition delivered :: "nat \<Rightarrow> nat \<Rightarrow> int list \<Rightarrow> (int \<Rightarrow> bytes) \<Rightarrow> nat \<Rightarrow> bytes \<Rightarrow> bytes \<Rightarrow> bool" where
  "delivered base n ps srcs k b b' \<longleftrightarrow> length b' = length b \<and>
     (\<forall>p \<in> set ps. \<forall>i < k. b' ! (base + nat p * n + i) = srcs p ! i) \<and>
     (\<forall>x < length b. (\<forall>p \<in> set ps. x \<notin> {base + nat p * n ..< base + nat p * n + k}) \<longrightarrow> b' ! x = b ! x)"

lemma delivered_0 [simp]: "delivered base n ps srcs 0 b b"
  by (simp add: delivered_def)

lemma block_disjoint:
  assumes "nat p \<noteq> nat q" "i < n" "j < n"
  shows "base + nat p * n + i \<noteq> base + nat q * n + j"
proof
  assume "base + nat p * n + i = base + nat q * n + j"
  then have "(nat p * n + i) div n = (nat q * n + j) div n" by simp
  then show False using assms by simp
qed

text \<open>Copying one piece into every block.\<close>

lemma nth_foldl_copy:
  assumes "distinct (map nat ps)" "\<forall>p \<in> set ps. length (f p) + o' \<le> n \<and> base + nat p * n + n \<le> length b"
  shows "length (foldl (\<lambda>b p. copy_at b (base + nat p * n + o') (f p)) b ps) = length b"
    "p \<in> set ps \<Longrightarrow> i < length (f p) \<Longrightarrow>
      foldl (\<lambda>b p. copy_at b (base + nat p * n + o') (f p)) b ps ! (base + nat p * n + o' + i) = f p ! i"
    "x < length b \<Longrightarrow> \<forall>p \<in> set ps. x \<notin> {base + nat p * n + o' ..< base + nat p * n + o' + length (f p)} \<Longrightarrow>
      foldl (\<lambda>b p. copy_at b (base + nat p * n + o') (f p)) b ps ! x = b ! x"
proof -
  let ?F = "foldl (\<lambda>b p. copy_at b (base + nat p * n + o') (f p))"
  have "length (?F b ps) = length b \<and>
    (\<forall>p \<in> set ps. \<forall>i < length (f p). ?F b ps ! (base + nat p * n + o' + i) = f p ! i) \<and>
    (\<forall>x < length b. (\<forall>p \<in> set ps. x \<notin> {base + nat p * n + o' ..< base + nat p * n + o' + length (f p)}) \<longrightarrow>
       ?F b ps ! x = b ! x)"
    using assms
  proof (induction ps arbitrary: b)
    case (Cons q ps)
    let ?b = "copy_at b (base + nat q * n + o') (f q)"
    have fit: "base + nat q * n + o' + length (f q) \<le> length b" using Cons.prems(2) by auto
    then have lb: "length ?b = length b" by simp
    have q: "nat q \<notin> nat ` set ps" "distinct (map nat ps)" using Cons.prems(1) by auto
    have IH: "length (?F ?b ps) = length b"
      "\<And>p i. p \<in> set ps \<Longrightarrow> i < length (f p) \<Longrightarrow> ?F ?b ps ! (base + nat p * n + o' + i) = f p ! i"
      "\<And>x. x < length b \<Longrightarrow> (\<forall>p \<in> set ps. x \<notin> {base + nat p * n + o' ..< base + nat p * n + o' + length (f p)}) \<Longrightarrow>
         ?F ?b ps ! x = ?b ! x"
      using Cons.IH [of ?b] q(2) Cons.prems(2) lb by auto
    have own: "?F ?b ps ! (base + nat q * n + o' + i) = f q ! i" if "i < length (f q)" for i
    proof -
      have x: "base + nat q * n + o' + i < length b" using fit that by simp
      have "base + nat q * n + o' + i \<notin> {base + nat p * n + o' ..< base + nat p * n + o' + length (f p)}"
        if p: "p \<in> set ps" for p
      proof
        assume "base + nat q * n + o' + i \<in> {base + nat p * n + o' ..< base + nat p * n + o' + length (f p)}"
        then obtain j where j: "j < length (f p)" "base + nat q * n + (o' + i) = base + nat p * n + (o' + j)"
          by (auto simp: le_iff_add)
        have "nat q \<noteq> nat p" using q(1) p by auto
        moreover have "o' + i < n" "o' + j < n" using Cons.prems(2) p j(1) \<open>i < length (f q)\<close> by force+
        ultimately show False using block_disjoint j(2) by blast
      qed
      then show ?thesis using IH(3) [OF x] nth_copy_at [OF fit x] that by simp
    qed
    have "?F b (q # ps) = ?F ?b ps" by simp
    moreover have "?F ?b ps ! x = b ! x" if "x < length b"
      "\<forall>p \<in> set (q # ps). x \<notin> {base + nat p * n + o' ..< base + nat p * n + o' + length (f p)}" for x
      using IH(3) [OF that(1)] that nth_copy_at [OF fit that(1)] by auto
    ultimately show ?case using IH(1,2) own by auto
  qed simp
  then show "length (?F b ps) = length b"
    "p \<in> set ps \<Longrightarrow> i < length (f p) \<Longrightarrow> ?F b ps ! (base + nat p * n + o' + i) = f p ! i"
    "x < length b \<Longrightarrow> \<forall>p \<in> set ps. x \<notin> {base + nat p * n + o' ..< base + nat p * n + o' + length (f p)} \<Longrightarrow>
      ?F b ps ! x = b ! x" by blast+
qed

text \<open>One round of an exchange extends what is delivered.\<close>

lemma delivered_round:
  assumes "delivered base n ps srcs o' b0 b" "o' + c \<le> n" "distinct (map nat ps)"
    "\<forall>p \<in> set ps. length (srcs p) = n \<and> base + nat p * n + n \<le> length b0"
    "b' = foldl (\<lambda>b p. copy_at b (base + nat p * n + o') (take c (drop o' (srcs p)))) b ps"
  shows "delivered base n ps srcs (o' + c) b0 b'"
proof -
  have l: "length b = length b0" using assms(1) by (simp add: delivered_def)
  let ?f = "\<lambda>p. take c (drop o' (srcs p))"
  have len: "length (?f p) = c" if "p \<in> set ps" for p using assms(2,4) that by simp
  have fits: "\<forall>p \<in> set ps. length (?f p) + o' \<le> n \<and> base + nat p * n + n \<le> length b"
    using assms(2,4) len l by simp
  note F = nth_foldl_copy [OF assms(3) fits, folded assms(5)]
  have got: "b' ! (base + nat p * n + i) = srcs p ! i" if p: "p \<in> set ps" and i: "i < o' + c" for p i
  proof (cases "i < o'")
    case True
    have "base + nat p * n + i \<notin> {base + nat q * n + o' ..< base + nat q * n + o' + length (?f q)}"
      if q: "q \<in> set ps" for q
    proof
      assume a: "base + nat p * n + i \<in> {base + nat q * n + o' ..< base + nat q * n + o' + length (?f q)}"
      then obtain j where j: "j < c" "base + nat p * n + i = base + nat q * n + (o' + j)"
        using len [OF q] by (auto simp: le_iff_add)
      show False
      proof (cases "nat p = nat q")
        case True
        then show ?thesis using j \<open>i < o'\<close> by simp
      next
        case False
        then show ?thesis using block_disjoint [OF False, of i n "o' + j" base] j assms(2) \<open>i < o'\<close> by simp
      qed
    qed
    moreover have "base + nat p * n + i < length b" using assms(2,4) p l True by fastforce
    ultimately have "b' ! (base + nat p * n + i) = b ! (base + nat p * n + i)" using F(3) by blast
    then show ?thesis using assms(1) p True by (simp add: delivered_def)
  next
    case False
    then obtain j where j: "i = o' + j" "j < c" using i by (metis le_iff_add not_less nat_add_left_cancel_less)
    have "b' ! (base + nat p * n + o' + j) = ?f p ! j" using F(2) [OF p] len [OF p] j(2) by simp
    then show ?thesis using j assms(2,4) p by (simp add: add.assoc)
  qed
  have keep: "b' ! x = b0 ! x" if x: "x < length b0"
    "\<forall>p \<in> set ps. x \<notin> {base + nat p * n ..< base + nat p * n + (o' + c)}" for x
  proof -
    have "\<forall>p \<in> set ps. x \<notin> {base + nat p * n + o' ..< base + nat p * n + o' + length (?f p)}"
      "\<forall>p \<in> set ps. x \<notin> {base + nat p * n ..< base + nat p * n + o'}"
      using x(2) len by fastforce+
    then show ?thesis using F(3) [of x] x(1) l assms(1) by (simp add: delivered_def)
  qed
  show ?thesis unfolding delivered_def using F(1) l got keep by simp
qed

section \<open>The daemon's exchange\<close>

text \<open>Completions a connection has or will get without an error.\<close>

definition supplied :: "daemon_conn \<Rightarrow> u64 multiset \<Rightarrow> bool" where
  "supplied c m \<longleftrightarrow> (\<exists>batches rest. dc_polls c = map Inr batches @ rest \<and>
     m \<subseteq># work_ids (mset (dc_pending c) + mset (concat batches)))"

lemma pollExpected_supply:
  assumes "supplied c (mset ids + m)"
  shows "\<exists>p polls. pollExpected ids c = PollOk p polls \<and> supplied (c\<lparr>dc_pending := p, dc_polls := polls\<rparr>) m"
proof (cases "ids = []")
  case True
  then show ?thesis using assms by (simp add: pollExpected_def supplied_def)
next
  case False
  from assms obtain batches rest where s: "dc_polls c = map Inr batches @ rest"
    "mset ids + m \<subseteq># work_ids (mset (dc_pending c) + mset (concat batches))" by (auto simp: supplied_def)
  have w: "want_ok (want_of ids)" "want_mset (want_of ids) = mset ids" using want_of_spec [of ids] by simp_all
  have "want_mset (want_of ids) \<subseteq># work_ids (mset (dc_pending c) + mset (concat batches))"
    using s(2) w(2) mset_subset_eq_add_left subset_mset.trans by metis
  from poll_loop_returns [OF w(1) this, of rest] obtain p b' where r:
    "poll_loop (dc_polls c) (want_of ids) (dc_pending c) = PollOk p (map Inr b' @ rest)" using s(1) by auto
  from poll_loop_ok [OF r w(1)] obtain b u where u: "dc_polls c = map Inr b @ map Inr b' @ rest"
    "mset (dc_pending c) + mset (concat b) = u + mset p" "work_ids u = want_mset (want_of ids)" by blast
  have "map Inr batches = (map Inr b @ map Inr b' :: (string + work_request list) list)"
    using u(1) s(1) by (metis append.assoc append_same_eq)
  then have bb: "batches = b @ b'" by (metis inj_map_eq_map inj_Inr map_append)
  then have "work_ids (mset (dc_pending c) + mset (concat batches)) = mset ids + work_ids (mset p + mset (concat b'))"
    using u(2,3) w(2) by (metis (no_types, lifting) add.assoc concat_append image_mset_union mset_append)
  then have "m \<subseteq># work_ids (mset p + mset (concat b'))" using s(2) by simp
  then show ?thesis using False r by (auto simp: pollExpected_def supplied_def)
qed

definition stocked :: "(int \<Rightarrow> u64 multiset) \<Rightarrow> daemon_transport \<Rightarrow> int \<Rightarrow> bool" where
  "stocked m t p \<longleftrightarrow> 0 \<le> p \<and> nat p < length (dt_conns t) \<and>
     (\<exists>c. dt_conns t ! nat p = Some c \<and> dc_poison c = None \<and> supplied c (m p))"

text \<open>What an exchange leaves alone.\<close>

definition same_shape :: "daemon_transport \<Rightarrow> daemon_transport \<Rightarrow> bool" where
  "same_shape t t' \<longleftrightarrow> dt_rank t' = dt_rank t \<and> dt_size t' = dt_size t \<and>
     map (\<lambda>c. c = None) (dt_conns t') = map (\<lambda>c. c = None) (dt_conns t) \<and>
     (\<exists>s. dt_slab t = Some s \<and> dt_slab t' = Some (s\<lparr>sl_data := Some (dt_mem t')\<rparr>))"

lemma same_shape_refl: "dt_slab t = Some s \<Longrightarrow> sl_data s = Some b \<Longrightarrow> same_shape t t"
  by (auto simp: same_shape_def dt_mem_def dt_bytes_def slab_Bytes_def)

lemma same_shape_slab: "same_shape t t' \<Longrightarrow> \<exists>s'. dt_slab t' = Some s' \<and> sl_data s' = Some (dt_mem t')"
  unfolding same_shape_def by (elim conjE exE) (drule sym, simp)

lemma same_shape_trans: "same_shape t u \<Longrightarrow> same_shape u v \<Longrightarrow> same_shape t v"
  by (auto simp: same_shape_def)

lemma same_shape_conns:
  assumes "same_shape t t'"
  shows "length (dt_conns t') = length (dt_conns t)" "live_peers t' = live_peers t"
proof -
  have m: "map (\<lambda>c. c = None) (dt_conns t') = map (\<lambda>c. c = None) (dt_conns t)" "dt_rank t' = dt_rank t"
    using assms by (auto simp: same_shape_def)
  then show l: "length (dt_conns t') = length (dt_conns t)" using map_eq_imp_length_eq by blast
  have "(dt_conns t' ! i = None) = (dt_conns t ! i = None)" if i: "i < length (dt_conns t)" for i
    using arg_cong [OF m(1), of "\<lambda>xs. xs ! i"] i l by simp
  then have "(dt_conns t' ! nat p \<noteq> None) = (dt_conns t ! nat p \<noteq> None)"
    if "p \<in> set (map int [0..<length (dt_conns t)])" for p
    using that by (metis atLeastLessThan_iff imageE list.set_map nat_int set_upt)
  then have "(p \<noteq> dt_rank t \<and> dt_conns t' ! nat p \<noteq> None) = (p \<noteq> dt_rank t \<and> dt_conns t ! nat p \<noteq> None)"
    if "p \<in> set (map int [0..<length (dt_conns t)])" for p
    using that by blast
  then show "live_peers t' = live_peers t"
    unfolding live_peers_def m(2) l by (rule filter_cong [OF refl])
qed

lemma mem_slab [simp]:
  "dt_slab t = Some s \<Longrightarrow> sl_data s = Some b \<Longrightarrow> dt_mem t = b"
  "dt_slab t = Some s \<Longrightarrow> dt_slab (set_mem b t) = Some (s\<lparr>sl_data := Some b\<rparr>)"
  "dt_slab t = Some s \<Longrightarrow> dt_mem (set_mem b t) = b"
  by (simp_all add: dt_mem_def dt_bytes_def set_mem_def slab_Bytes_def)

lemma set_mem_simps [simp]:
  "dt_conns (set_mem b t) = dt_conns t" "dt_rank (set_mem b t) = dt_rank t" "dt_size (set_mem b t) = dt_size t"
  by (simp_all add: set_mem_def split: option.splits)

lemma touch_simps [simp]:
  "dt_conns (dt_touch now p t) = dt_conns t" "dt_slab (dt_touch now p t) = dt_slab t"
  "dt_rank (dt_touch now p t) = dt_rank t" "dt_size (dt_touch now p t) = dt_size t"
  "dt_mem (dt_touch now p t) = dt_mem t"
  by (simp_all add: dt_touch_def dt_mem_def dt_bytes_def split: option.splits)

lemma set_conn_simps [simp]:
  "dt_conns (set_conn p c t) = (dt_conns t)[nat p := Some c]" "dt_slab (set_conn p c t) = dt_slab t"
  "dt_rank (set_conn p c t) = dt_rank t" "dt_size (set_conn p c t) = dt_size t" "dt_mem (set_conn p c t) = dt_mem t"
  by (simp_all add: set_conn_def dt_mem_def dt_bytes_def split: option.splits)

abbreviation pair_ids :: "int \<Rightarrow> u64 multiset" where
  "pair_ids p \<equiv> {# transportWorkID daemonWorkRecv p, transportWorkID daemonWorkSend p #}"

text \<open>The polls of one round.\<close>

lemma poll_peers_spec:
  assumes "\<forall>p \<in> set ps. stocked (\<lambda>p. pair_ids p + m p) t p" "distinct (map nat ps)"
    "dt_slab t = Some s" "sl_data s = Some b"
  shows "\<exists>t'. poll_peers inbox now base n off chunk ps t = (Returned (), t') \<and> same_shape t t' \<and>
    (\<forall>p \<in> set ps. stocked m t' p) \<and> (\<forall>i. i \<notin> nat ` set ps \<longrightarrow> dt_conns t' ! i = dt_conns t ! i) \<and>
    dt_mem t' = foldl (\<lambda>b p. copy_at b (nat (add64 (peerOffset base p n) off)) (take (nat chunk) (inbox p))) b ps"
  using assms
proof (induction ps arbitrary: t s b)
  case Nil
  then show ?case by (auto intro: same_shape_refl)
next
  case (Cons p ps)
  let ?at = "nat (add64 (peerOffset base p n) off)"
  from Cons.prems(1) obtain c where c: "0 \<le> p" "nat p < length (dt_conns t)" "dt_conns t ! nat p = Some c"
    "dc_poison c = None" "supplied c (pair_ids p + m p)" by (auto simp: stocked_def)
  have "supplied c (mset [transportWorkID daemonWorkRecv p, transportWorkID daemonWorkSend p] + m p)"
    using c(5) by simp
  from pollExpected_supply [OF this] obtain pd pl where p:
    "pollExpected [transportWorkID daemonWorkRecv p, transportWorkID daemonWorkSend p] c = PollOk pd pl"
    "supplied (c\<lparr>dc_pending := pd, dc_polls := pl\<rparr>) (m p)" by blast
  let ?c = "c\<lparr>dc_pending := pd, dc_polls := pl\<rparr>"
  let ?b = "copy_at b ?at (take (nat chunk) (inbox p))"
  let ?t = "dt_touch now p (set_mem ?b (set_conn p ?c t))"
  have mem: "dt_mem (set_conn p ?c t) = b" using Cons.prems(3,4) by (simp add: mem_slab(1))
  have step: "poll_peers inbox now base n off chunk (p # ps) t = poll_peers inbox now base n off chunk ps ?t"
    using c(3) p(1) mem by (simp add: poll_conn_def Let_def)
  have sl: "dt_slab ?t = Some (s\<lparr>sl_data := Some ?b\<rparr>)" using Cons.prems(3) by simp
  have other: "dt_conns ?t ! i = dt_conns t ! i" if "i \<noteq> nat p" for i using that by simp
  have st: "\<forall>q \<in> set ps. stocked (\<lambda>p. pair_ids p + m p) ?t q"
  proof
    fix q assume q: "q \<in> set ps"
    then have "nat q \<in> nat ` set ps" by simp
    then have "nat q \<noteq> nat p" using Cons.prems(2) by (metis distinct.simps(2) list.set_map list.simps(9))
    moreover have "stocked (\<lambda>p. pair_ids p + m p) t q" using Cons.prems(1) q by simp
    ultimately show "stocked (\<lambda>p. pair_ids p + m p) ?t q" by (simp add: stocked_def)
  qed
  have sh: "same_shape t ?t"
    using Cons.prems(3) sl c(2,3)
    by (auto simp: same_shape_def mem_slab(1) map_update [symmetric] list_eq_iff_nth_eq nth_list_update)
  from Cons.IH [OF st _ sl, of ?b] Cons.prems(2) obtain t' where t':
    "poll_peers inbox now base n off chunk ps ?t = (Returned (), t')" "same_shape ?t t'"
    "\<forall>q \<in> set ps. stocked m t' q" "\<forall>i. i \<notin> nat ` set ps \<longrightarrow> dt_conns t' ! i = dt_conns ?t ! i"
    "dt_mem t' = foldl (\<lambda>b p. copy_at b (nat (add64 (peerOffset base p n) off)) (take (nat chunk) (inbox p))) ?b ps"
    by auto
  have "nat p \<notin> nat ` set ps" using Cons.prems(2) by simp
  then have "dt_conns t' ! nat p = Some ?c" using t'(4) c(2) by simp
  then have "stocked m t' p"
    using c p(2) same_shape_conns(1) [OF t'(2)] by (auto simp: stocked_def)
  moreover have "\<forall>i. i \<notin> nat ` set (p # ps) \<longrightarrow> dt_conns t' ! i = dt_conns t ! i"
    using t'(4) other by auto
  ultimately show ?case
    using t'(1,3,5) step same_shape_trans [OF sh t'(2)] by auto
qed


text \<open>The ranges an exchange posts, and the rounds it takes.\<close>

definition ranges_of :: "post_side \<Rightarrow> int \<Rightarrow> post list \<Rightarrow> (int \<times> int) list" where
  "ranges_of side p pos =
     map (\<lambda>po. (po_offset po, po_length po)) (filter (\<lambda>po. po_side po = side \<and> po_peer po = p) pos)"

lemma ranges_of_append [simp]: "ranges_of side p (a @ b) = ranges_of side p a @ ranges_of side p b"
  by (simp add: ranges_of_def)

function pieces :: "int \<Rightarrow> int \<Rightarrow> int \<Rightarrow> (int \<times> int) list" where
  "pieces start n off =
     (if n \<le> off then []
      else (start + off, min daemonTransferBytes (n - off)) # pieces start n (off + daemonTransferBytes))"
  by pat_completeness auto
termination
  by (relation "measure (\<lambda>(start, n, off). nat (n - off))") (auto simp: daemonTransferBytes_def)

declare pieces.simps [simp del]

lemma rangeInMR_ok:
  assumes "dt_slab t = Some s" "sl_data s = Some b" "int (length b) \<le> max_int64"
    "0 \<le> off" "0 \<le> len" "off + len \<le> int (length b)"
  shows "rangeInMR t off len = Inr (off, len)"
  using assms by (simp add: rangeInMR_def dt_bytes_def slab_Bytes_def add64_id Let_def)

lemma peerOffset_ok:
  assumes "0 \<le> base" "0 \<le> p" "0 \<le> off" "off \<le> n" "base + p * n + n \<le> max_int64"
  shows "peerOffset base p n = base + p * n" "add64 (peerOffset base p n) off = base + p * n + off"
proof -
  have "0 \<le> p * n" "p * n \<le> max_int64" using assms by (auto simp: max_int64_def)
  then have m: "mul64 p n = p * n" by (simp add: mul64_id)
  then show "peerOffset base p n = base + p * n"
    using assms \<open>0 \<le> p * n\<close> by (simp add: peerOffset_def add64_id)
  then show "add64 (peerOffset base p n) off = base + p * n + off"
    using assms \<open>0 \<le> p * n\<close> by (simp add: add64_id)
qed

lemma post_recvs_ok:
  assumes "dt_slab t = Some s" "sl_data s = Some b" "int (length b) \<le> max_int64" "0 \<le> base"
    "0 \<le> off" "0 \<le> chunk" "off + chunk \<le> n" "distinct ps"
    "\<forall>p \<in> set ps. 0 \<le> p \<and> base + p * n + n \<le> int (length b)"
  shows "\<exists>pos. post_recvs (\<lambda>_. None) t base n off chunk ps = (None, pos) \<and>
    (\<forall>p. ranges_of PostRecv p pos = (if p \<in> set ps then [(base + p * n + off, chunk)] else []) \<and>
       ranges_of PostSend p pos = [])"
  using assms(8,9)
proof (induction ps)
  case Nil
  then show ?case by (simp add: ranges_of_def)
next
  case (Cons q ps)
  then obtain pos where pos: "post_recvs (\<lambda>_. None) t base n off chunk ps = (None, pos)"
    "\<forall>p. ranges_of PostRecv p pos = (if p \<in> set ps then [(base + p * n + off, chunk)] else []) \<and>
       ranges_of PostSend p pos = []" by auto
  have q: "0 \<le> q" "base + q * n + n \<le> int (length b)" using Cons.prems by auto
  have "0 \<le> q * n" using q(1) assms(5-7) by simp
  then have "rangeInMR t (add64 (peerOffset base q n) off) chunk = Inr (base + q * n + off, chunk)"
    using peerOffset_ok [of base q off n] rangeInMR_ok [OF assms(1-3), of "base + q * n + off" chunk] q assms by simp
  then show ?case using pos Cons.prems(1) by (auto simp: Let_def ranges_of_def)
qed

lemma post_sends_ok:
  "distinct ps \<Longrightarrow> \<exists>pos. post_sends (\<lambda>_. None) start chunk ps = (None, pos) \<and>
    (\<forall>p. ranges_of PostSend p pos = (if p \<in> set ps then [(start, chunk)] else []) \<and> ranges_of PostRecv p pos = [])"
proof (induction ps)
  case Nil
  then show ?case by (simp add: ranges_of_def)
next
  case (Cons q ps)
  then obtain pos where "post_sends (\<lambda>_. None) start chunk ps = (None, pos)"
    "\<forall>p. ranges_of PostSend p pos = (if p \<in> set ps then [(start, chunk)] else []) \<and> ranges_of PostRecv p pos = []"
    by auto
  then show ?case using Cons.prems by (auto simp: Let_def ranges_of_def)
qed


definition rounds :: "int \<Rightarrow> int \<Rightarrow> nat" where
  "rounds n off = length (pieces 0 n off)"

lemma rounds_step: "off < n \<Longrightarrow> rounds n off = Suc (rounds n (off + daemonTransferBytes))"
  by (simp add: rounds_def pieces.simps [of 0 n off])

lemma live_peers_distinct: "distinct (live_peers t)" "distinct (map nat (live_peers t))" "p \<in> set (live_peers t) \<Longrightarrow> 0 \<le> p"
proof -
  show d: "distinct (live_peers t)" by (simp add: live_peers_def distinct_map)
  show nn: "0 \<le> p" if "p \<in> set (live_peers t)" for p using that by (auto simp: live_peers_def)
  have "inj_on nat (set (live_peers t))" using nn by (metis inj_onI eq_nat_nat_iff)
  then show "distinct (map nat (live_peers t))" using d by (simp add: distinct_map)
qed

lemma exchange_rounds_delivers:
  assumes "off = int r * daemonTransferBytes" "dt_slab t = Some s" "sl_data s = Some b" "int (length b) \<le> max_int64"
    "0 \<le> base" "0 \<le> n" "\<forall>p \<in> set (live_peers t). base + p * n + n \<le> int (length b)"
    "\<forall>p \<in> set (live_peers t). length (srcs p) = nat n \<and>
       (\<forall>k. inbox p k = stage_msg (nat daemonTransferBytes) (srcs p) k)"
    "\<forall>p \<in> set (live_peers t). stocked (\<lambda>p. repeat_mset (rounds n off) (pair_ids p)) t p"
    "delivered (nat base) (nat n) (live_peers t) srcs (nat (min off n)) b0 b"
  shows "\<exists>pos t'. exchange_rounds (\<lambda>_. None) inbox now base src n off r t = (Returned (), pos, t') \<and>
    same_shape t t' \<and> delivered (nat base) (nat n) (live_peers t) srcs (nat n) b0 (dt_mem t') \<and>
    (\<forall>p \<in> set (live_peers t). ranges_of PostSend p pos = pieces src n off \<and>
       ranges_of PostRecv p pos = pieces (base + p * n) n off)"
  using assms
proof (induction "nat (n - off)" arbitrary: off r t s b rule: less_induct)
  case less
  let ?ps = "live_peers t" and ?T = daemonTransferBytes
  have T: "0 < ?T" by (simp add: daemonTransferBytes_def)
  have off: "0 \<le> off" using less.prems(1) T by simp
  show ?case
  proof (cases "n \<le> off")
    case True
    have "same_shape t t" using less.prems(2,3) by (rule same_shape_refl)
    then show ?thesis
      using True less.prems(2,3,10) by (simp add: exchange_rounds.simps pieces.simps ranges_of_def min_absorb2)
  next
    case False
    let ?c = "min ?T (n - off)" and ?v = "\<lambda>p. take (nat (min ?T (n - off))) (drop (nat off) (srcs p))"
    note lp = live_peers_distinct [where t = t]
    have c: "0 \<le> ?c" "off + ?c \<le> n" using False T by auto
    from post_recvs_ok [OF less.prems(2-5) off c lp(1)] less.prems(7) lp(3) obtain pr where pr:
      "post_recvs (\<lambda>_. None) t base n off ?c ?ps = (None, pr)"
      "\<forall>p. ranges_of PostRecv p pr = (if p \<in> set ?ps then [(base + p * n + off, ?c)] else []) \<and>
         ranges_of PostSend p pr = []" by blast
    from post_sends_ok [OF lp(1)] obtain ps where ps: "post_sends (\<lambda>_. None) (src + off) ?c ?ps = (None, ps)"
      "\<forall>p. ranges_of PostSend p ps = (if p \<in> set ?ps then [(src + off, ?c)] else []) \<and> ranges_of PostRecv p ps = []"
      by blast
    have rs: "rounds n off = Suc (rounds n (off + ?T))" using False by (simp add: rounds_step)
    have "\<forall>p \<in> set ?ps. stocked (\<lambda>p. pair_ids p + repeat_mset (rounds n (off + ?T)) (pair_ids p)) t p"
      using less.prems(9) unfolding rs by (simp add: add_mset_commute)
    from poll_peers_spec [OF this lp(2) less.prems(2,3), of "\<lambda>p. inbox p r" now base n off ?c] obtain t1 where t1:
      "poll_peers (\<lambda>p. inbox p r) now base n off ?c ?ps t = (Returned (), t1)" "same_shape t t1"
      "\<forall>p \<in> set ?ps. stocked (\<lambda>p. repeat_mset (rounds n (off + ?T)) (pair_ids p)) t1 p"
      "dt_mem t1 = foldl (\<lambda>b p. copy_at b (nat (add64 (peerOffset base p n) off)) (take (nat ?c) (inbox p r))) b ?ps"
      by blast
    obtain s1 where s1: "dt_slab t1 = Some s1" "sl_data s1 = Some (dt_mem t1)"
      using same_shape_slab [OF t1(2)] by blast
    have live: "live_peers t1 = ?ps" using same_shape_conns(2) [OF t1(2)] .
    have piece: "take (nat ?c) (inbox p r) = ?v p" if "p \<in> set ?ps" for p
    proof -
      have "inbox p r = take (nat ?T) (drop (nat off) (srcs p))"
        using less.prems(1,8) that T by (simp add: stage_msg_def nat_mult_distrib)
      then show ?thesis using T by (simp add: min_def nat_mono)
    qed
    have place: "nat (add64 (peerOffset base p n) off) = nat base + nat p * nat n + nat off" if "p \<in> set ?ps" for p
      using peerOffset_ok(2) [of base p off n] that less.prems(4-7) off False lp(3)
      by (fastforce simp: nat_add_distrib nat_mult_distrib)
    have mem: "dt_mem t1 = foldl (\<lambda>b p. copy_at b (nat base + nat p * nat n + nat off) (?v p)) b ?ps"
      unfolding t1(4) by (rule foldl_cong) (simp_all add: piece place)
    have b0: "length b = length b0" using less.prems(10) by (simp add: delivered_def)
    have fit: "\<forall>p \<in> set ?ps. length (srcs p) = nat n \<and> nat base + nat p * nat n + nat n \<le> length b0"
    proof
      fix p assume p: "p \<in> set ?ps"
      then have "base + p * n + n \<le> int (length b0)" "0 \<le> p" using less.prems(7) b0 lp(3) by auto
      then have "nat base + nat p * nat n + nat n \<le> length b0"
        using less.prems(5,6) by (simp flip: nat_mult_distrib nat_add_distrib)
      then show "length (srcs p) = nat n \<and> nat base + nat p * nat n + nat n \<le> length b0"
        using less.prems(8) p by simp
    qed
    have "delivered (nat base) (nat n) ?ps srcs (nat off + nat ?c) b0 (dt_mem t1)"
      using delivered_round [OF _ _ lp(2) fit mem] less.prems(10) False c off by (simp add: min_def)
    moreover have "nat off + nat ?c = nat (min (off + ?T) n)" using off c by auto
    ultimately have dl: "delivered (nat base) (nat n) ?ps srcs (nat (min (off + ?T) n)) b0 (dt_mem t1)" by simp
    then have len: "length (dt_mem t1) = length b" using b0 by (simp add: delivered_def)
    have m: "nat (n - (off + ?T)) < nat (n - off)" using False T by simp
    have o': "off + ?T = int (Suc r) * ?T" using less.prems(1) by (simp add: algebra_simps)
    note hyp = less.hyps [OF m o' s1, unfolded len live, OF less.prems(4-8) t1(3) dl]
    from hyp obtain pos t2 where t2:
      "exchange_rounds (\<lambda>_. None) inbox now base src n (off + ?T) (Suc r) t1 = (Returned (), pos, t2)"
      "same_shape t1 t2" "delivered (nat base) (nat n) ?ps srcs (nat n) b0 (dt_mem t2)"
      "\<forall>p \<in> set ?ps. ranges_of PostSend p pos = pieces src n (off + ?T) \<and>
         ranges_of PostRecv p pos = pieces (base + p * n) n (off + ?T)"
      by blast
    have "exchange_rounds (\<lambda>_. None) inbox now base src n off r t = (Returned (), pr @ ps @ pos, t2)"
      unfolding exchange_rounds.simps [of _ _ _ _ _ _ off] using False pr(1) ps(1) t1(1) t2(1) by (simp add: Let_def)
    moreover have "\<forall>p \<in> set ?ps. ranges_of PostSend p (pr @ ps @ pos) = pieces src n off \<and>
        ranges_of PostRecv p (pr @ ps @ pos) = pieces (base + p * n) n off"
      using pr(2) ps(2) t2(4) False by (simp add: pieces.simps [of _ n off])
    ultimately show ?thesis using same_shape_trans [OF t1(2) t2(2)] t2(3) by blast
  qed
qed


section \<open>The interface of an exchange\<close>

definition other_ranks :: "daemon_transport \<Rightarrow> int list" where
  "other_ranks t = filter (\<lambda>p. p \<noteq> dt_rank t) (map int [0..<nat (dt_size t)])"

text \<open>Every peer is sent the source and received into its block, piece by piece.\<close>

definition posted :: "int \<Rightarrow> int \<Rightarrow> int \<Rightarrow> int list \<Rightarrow> post list \<Rightarrow> bool" where
  "posted base src len ps pos \<longleftrightarrow> (\<forall>p \<in> set ps. ranges_of PostSend p pos = pieces src len 0 \<and>
     ranges_of PostRecv p pos = pieces (base + p * len) len 0)"

text \<open>
  What \<open>runMeshReduce\<close> and \<open>runMeshGather\<close> expect of the function they are given: when it is ready for a
  length it returns, changes nothing but the memory blocks of the other ranks, and leaves there what these
  ranks sent.
\<close>

locale mesh_exchange =
  fixes exch :: exchange_fun and ready :: "daemon_transport \<Rightarrow> int \<Rightarrow> bool" and srcs :: "int \<Rightarrow> bytes"
  assumes exch_delivers: "ready t len \<Longrightarrow> dt_slab t = Some s \<Longrightarrow> sl_data s = Some b \<Longrightarrow>
      int (length b) \<le> max_int64 \<Longrightarrow> 0 \<le> base \<Longrightarrow> base + dt_size t * len \<le> int (length b) \<Longrightarrow> 0 < len \<Longrightarrow>
      0 \<le> src \<Longrightarrow> src + len \<le> int (length b) \<Longrightarrow>
      \<exists>pos t'. exch base src len t = (Returned (), pos, t') \<and> same_shape t t' \<and>
        delivered (nat base) (nat len) (other_ranks t) srcs (nat len) b (dt_mem t') \<and>
        posted base src len (other_ranks t) pos"
    and ready_slab: "ready t len \<Longrightarrow> ready (t\<lparr>dt_slab := x\<rparr>) len"
    and ready_srcs: "ready t len \<Longrightarrow> p \<in> set (other_ranks t) \<Longrightarrow> length (srcs p) = nat len"
    and ready_rank: "ready t len \<Longrightarrow> 0 \<le> dt_rank t \<and> dt_rank t < dt_size t"

text \<open>
  The daemon's exchange is ready when it has a sound connection to every other rank, the provider will
  complete one receive and one send per round, and the messages of a peer are the pieces of its source.
\<close>

definition mesh_ready ::
  "(int \<Rightarrow> bytes) \<Rightarrow> (int \<Rightarrow> nat \<Rightarrow> bytes) \<Rightarrow> daemon_transport \<Rightarrow> int \<Rightarrow> bool" where
  "mesh_ready srcs inbox t len \<longleftrightarrow> 0 \<le> dt_rank t \<and> dt_rank t < dt_size t \<and>
     int (length (dt_conns t)) = dt_size t \<and>
     (\<forall>p \<in> set (other_ranks t). stocked (\<lambda>p. repeat_mset (rounds len 0) (pair_ids p)) t p \<and>
        length (srcs p) = nat len \<and> (\<forall>k. inbox p k = stage_msg (nat daemonTransferBytes) (srcs p) k))"

lemma mem_other_ranks: "p \<in> set (other_ranks t) \<longleftrightarrow> 0 \<le> p \<and> p < dt_size t \<and> p \<noteq> dt_rank t"
proof
  assume "0 \<le> p \<and> p < dt_size t \<and> p \<noteq> dt_rank t"
  moreover from this have "p \<in> int ` {0..<nat (dt_size t)}" by (intro image_eqI [of _ _ "nat p"]) auto
  ultimately show "p \<in> set (other_ranks t)" by (auto simp: other_ranks_def)
qed (auto simp: other_ranks_def)

lemma mesh_ready_live:
  assumes "mesh_ready srcs inbox t len"
  shows "live_peers t = other_ranks t"
proof -
  have n: "nat (dt_size t) = length (dt_conns t)" using assms by (auto simp: mesh_ready_def)
  have "(p \<noteq> dt_rank t \<and> dt_conns t ! nat p \<noteq> None) = (p \<noteq> dt_rank t)"
    if "p \<in> set (map int [0..<length (dt_conns t)])" for p
  proof -
    have "0 \<le> p" "p < dt_size t" using that assms by (auto simp: mesh_ready_def)
    then have "p \<noteq> dt_rank t \<Longrightarrow> stocked (\<lambda>p. repeat_mset (rounds len 0) (pair_ids p)) t p"
      using assms mem_other_ranks by (auto simp: mesh_ready_def)
    then show ?thesis by (auto simp: stocked_def)
  qed
  then show ?thesis unfolding live_peers_def other_ranks_def n by (rule filter_cong [OF refl])
qed

lemma daemon_exchange_delivers:
  assumes "mesh_ready srcs inbox t len" "dt_slab t = Some s" "sl_data s = Some b" "int (length b) \<le> max_int64"
    "0 \<le> base" "base + dt_size t * len \<le> int (length b)" "0 < len" "0 \<le> src" "src + len \<le> int (length b)"
  shows "\<exists>pos t'. daemon_exchange (\<lambda>_. None) inbox now base src len t = (Returned (), pos, t') \<and> same_shape t t' \<and>
    delivered (nat base) (nat len) (other_ranks t) srcs (nat len) b (dt_mem t') \<and>
    posted base src len (other_ranks t) pos"
proof -
  note live = mesh_ready_live [OF assms(1)]
  have peer: "stocked (\<lambda>p. repeat_mset (rounds len 0) (pair_ids p)) t p" "length (srcs p) = nat len"
    "\<forall>k. inbox p k = stage_msg (nat daemonTransferBytes) (srcs p) k" if "p \<in> set (other_ranks t)" for p
    using assms(1) that by (auto simp: mesh_ready_def)
  have conn: "\<exists>c. dt_conns t ! nat p = Some c \<and> dc_poison c = None" if "p \<in> set (other_ranks t)" for p
    using peer(1) [OF that] by (auto simp: stocked_def)
  have "daemon_lockConns t = Inr (other_ranks t)"
    using conn mem_other_ranks
    by (fastforce simp: daemon_lockConns_def dt_conn_def other_ranks_def [symmetric] Let_def split: option.splits)
  moreover have "first_err (\<lambda>p. checkReady p (dt_conns t ! nat p)) (live_peers t) = None"
    using conn live by (fastforce simp: checkReady_def split: option.splits)
  moreover have fit: "base + p * len + len \<le> int (length b)" if "p \<in> set (other_ranks t)" for p
  proof -
    have "(p + 1) * len \<le> dt_size t * len" using that assms(7) by (intro mult_right_mono) (auto simp: mem_other_ranks)
    then show ?thesis using assms(6) by (simp add: algebra_simps)
  qed
  moreover have "\<exists>pos t'. exchange_rounds (\<lambda>_. None) inbox now base src len 0 0 t = (Returned (), pos, t') \<and>
      same_shape t t' \<and> delivered (nat base) (nat len) (live_peers t) srcs (nat len) b (dt_mem t') \<and>
      (\<forall>p \<in> set (live_peers t). ranges_of PostSend p pos = pieces src len 0 \<and>
         ranges_of PostRecv p pos = pieces (base + p * len) len 0)"
    using assms(5,7) peer fit live
    by (intro exchange_rounds_delivers [OF _ assms(2-4)]) (auto simp: min_def)
  ultimately show ?thesis
    using rangeInMR_ok [OF assms(2-4), of src len] assms(7-9)
    by (auto simp: daemon_exchange_def posted_def live simp del: first_err_None)
qed

interpretation daemon_mesh: mesh_exchange "daemon_exchange (\<lambda>_. None) inbox now" "mesh_ready srcs inbox" srcs
  for inbox now srcs
proof
  show "mesh_ready srcs inbox (t\<lparr>dt_slab := x\<rparr>) len" if "mesh_ready srcs inbox t len" for t len x
    using that by (simp add: mesh_ready_def stocked_def other_ranks_def)
qed (use daemon_exchange_delivers in \<open>auto simp: mesh_ready_def\<close>)

end
