(* ===== verification/Collectives.thy ===== *)
theory Collectives
  imports Mesh
begin

text \<open>
  The daemon's gather and reduction over any exchange that keeps the contract \<open>mesh_exchange\<close>, and over
  the daemon's own.
\<close>

section \<open>Slices\<close>

lemma mem_slice_nth:
  assumes "0 \<le> off" "0 \<le> n" "off + n \<le> int (length b)" "i < nat n"
  shows "mem_slice b off n ! i = b ! (nat off + i)"
  using assms by (simp add: mem_slice_def)

lemma length_mem_slice:
  assumes "0 \<le> off" "0 \<le> n" "off + n \<le> int (length b)"
  shows "length (mem_slice b off n) = nat n"
  using assms by (simp add: mem_slice_def)

lemma mem_slice_cong:
  assumes "0 \<le> off" "0 \<le> n" "off + n \<le> int (length b)" "length b' = length b"
    "\<And>x. off \<le> int x \<Longrightarrow> int x < off + n \<Longrightarrow> b' ! x = b ! x"
  shows "mem_slice b' off n = mem_slice b off n"
proof (rule nth_equalityI)
  show "length (mem_slice b' off n) = length (mem_slice b off n)" using assms by (simp add: length_mem_slice)
  fix i assume "i < length (mem_slice b' off n)"
  then have i: "i < nat n" using assms by (simp add: length_mem_slice)
  then show "mem_slice b' off n ! i = mem_slice b off n ! i"
    using assms(5) [of "nat off + i"] assms(1-4) by (simp add: mem_slice_nth)
qed

text \<open>Blocks placed side by side.\<close>

lemma mem_slice_blocks:
  assumes "0 \<le> base" "0 < len" "0 \<le> k" "base + k * len \<le> int (length b)"
    "\<And>p. p < nat k \<Longrightarrow> length (v (int p)) = nat len"
    "\<And>p i. p < nat k \<Longrightarrow> i < nat len \<Longrightarrow> b ! (nat base + p * nat len + i) = v (int p) ! i"
  shows "mem_slice b base (k * len) = concat (map (\<lambda>p. v (int p)) [0..<nat k])"
proof (rule placed_all)
  have m: "nat (k * len) = nat k * nat len" using assms(2,3) by (simp add: nat_mult_distrib)
  have z: "0 \<le> k * len" using assms(2,3) by simp
  show "length (replicate (nat k * nat len) (0::8 word)) = nat k * nat len" "0 < nat len"
    "\<forall>p < nat k. length (v (int p)) = nat len" using assms(2,5) by simp_all
  show "length (mem_slice b base (k * len)) = nat k * nat len"
    using length_mem_slice [OF assms(1) z assms(4)] m by simp
  show "mem_slice b base (k * len) ! (i * nat len + t) = v (int i) ! t" if "i < nat k" "t < nat len" for i t
  proof -
    have "i * nat len + t < nat k * nat len" using slice_bound [of i "nat k" t "nat len" 0] that by simp
    then show ?thesis
      using mem_slice_nth [OF assms(1) z assms(4), of "i * nat len + t"] m assms(6) [OF that] by (simp add: add.assoc)
  qed
qed

lemma total_size:
  assumes "k * len \<le> max_int64" "0 < len" "0 < k"
  shows "len \<le> max_int64 div k" "mul64 len k = len * k"
proof -
  have "0 \<le> k * len" using assms(2,3) by simp
  then show "mul64 len k = len * k" using assms(1) by (simp add: mul64_id mult.commute)
  show "len \<le> max_int64 div k" using zdiv_mono1 [OF assms(1), of k] assms(3) by simp
qed

section \<open>Gather\<close>

text \<open>The own block copied, the others delivered.\<close>

lemma block_outside:
  assumes "0 < len" "0 \<le> dst" "0 \<le> q" "q < k" "int x \<notin> {dst ..< dst + k * len}"
  shows "x \<notin> {nat dst + nat q * nat len ..< nat dst + nat q * nat len + nat len}"
proof -
  have "(q + 1) * len \<le> k * len" "0 \<le> q * len" using assms(1,3,4) by (auto intro: mult_right_mono)
  then have "int (nat dst + nat q * nat len + nat len) \<le> dst + k * len" "dst \<le> int (nat dst + nat q * nat len)"
    using assms(1-3) by (auto simp: algebra_simps)
  then show ?thesis using assms(5) by (auto simp del: of_nat_add of_nat_mult)
qed

lemma delivered_gather:
  assumes D: "delivered (nat dst) (nat len) (other_ranks t) srcs (nat len) (copy_at b (nat dst + nat (dt_rank t) * nat len) v) b'"
    and r: "0 \<le> dt_rank t" "dt_rank t < dt_size t" and "0 < len" "0 \<le> dst" "dst + dt_size t * len \<le> int (length b)"
    "length v = nat len" "\<And>p. p \<in> set (other_ranks t) \<Longrightarrow> length (srcs p) = nat len"
  shows "length b' = length b"
    "mem_slice b' dst (dt_size t * len) =
       concat (map (\<lambda>p. if int p = dt_rank t then v else srcs (int p)) [0..<nat (dt_size t)])"
    "x < length b \<Longrightarrow> int x \<notin> {dst ..< dst + dt_size t * len} \<Longrightarrow> b' ! x = b ! x"
proof -
  let ?k = "dt_size t" and ?r = "dt_rank t"
  let ?at = "nat dst + nat ?r * nat len"
  have "(?r + 1) * len \<le> ?k * len" "0 \<le> ?r * len" using r assms(4) by (auto intro: mult_right_mono)
  then have "int (?at + nat len) \<le> int (length b)" using r assms(4-6) by (simp add: algebra_simps)
  then have fit: "?at + length v \<le> length b" unfolding assms(7) of_nat_le_iff .
  have l1: "length (copy_at b ?at v) = length b" using fit by simp
  note D = D [unfolded delivered_def l1]
  show "length b' = length b" using D by simp
  let ?w = "\<lambda>p. if p = ?r then v else srcs p"
  have got: "b' ! (nat dst + p * nat len + i) = ?w (int p) ! i" if p: "p < nat ?k" and i: "i < nat len" for p i
  proof (cases "int p = ?r")
    case True
    have "?at + i \<notin> {nat dst + nat q * nat len ..< nat dst + nat q * nat len + nat len}"
      if "q \<in> set (other_ranks t)" for q
    proof
      assume "?at + i \<in> {nat dst + nat q * nat len ..< nat dst + nat q * nat len + nat len}"
      then obtain j where "j < nat len" "nat dst + nat ?r * nat len + i = nat dst + nat q * nat len + j"
        by (auto simp: le_iff_add)
      moreover have "nat ?r \<noteq> nat q" using that r by (auto simp: mem_other_ranks)
      ultimately show False using block_disjoint i by blast
    qed
    moreover have "?at + i < length b" using fit assms(7) i by simp
    ultimately have "b' ! (?at + i) = copy_at b ?at v ! (?at + i)" using D by blast
    also have "\<dots> = v ! i" using nth_copy_at [OF fit, of "?at + i"] fit i assms(7) by simp
    finally have "b' ! (?at + i) = v ! i" .
    moreover have "nat dst + p * nat len + i = ?at + i" using True by auto
    ultimately show ?thesis using True by presburger
  next
    case False
    then have "int p \<in> set (other_ranks t)" using p by (simp add: mem_other_ranks)
    then have "b' ! (nat dst + nat (int p) * nat len + i) = srcs (int p) ! i" using D i by blast
    then show ?thesis using False by simp
  qed
  show "mem_slice b' dst (?k * len) = concat (map (\<lambda>p. ?w (int p)) [0..<nat ?k])"
    using r D assms(4-8) by (intro mem_slice_blocks [OF _ _ _ _ _ got]) (auto simp: mem_other_ranks)
  assume x: "x < length b" "int x \<notin> {dst ..< dst + ?k * len}"
  note out = block_outside [OF assms(4,5) _ _ x(2)]
  have "b' ! x = copy_at b ?at v ! x" using D x(1) out by (auto simp: mem_other_ranks)
  then show "b' ! x = b ! x" using nth_copy_at [OF fit x(1)] out [OF r] assms(7) by auto
qed

context mesh_exchange
begin

lemma exch_after:
  assumes "ready t len" "dt_slab t = Some s" "dt_mem t' = b" "t' = set_mem b t"
    "int (length b) \<le> max_int64" "0 \<le> base" "base + dt_size t * len \<le> int (length b)" "0 < len"
    "0 \<le> src" "src + len \<le> int (length b)"
  shows "\<exists>pos u. exch base src len t' = (Returned (), pos, u) \<and> same_shape t' u \<and>
    delivered (nat base) (nat len) (other_ranks t) srcs (nat len) b (dt_mem u) \<and>
    posted base src len (other_ranks t) pos"
proof -
  have t': "t' = t\<lparr>dt_slab := Some (s\<lparr>sl_data := Some b\<rparr>)\<rparr>" using assms(2,4) by (simp add: set_mem_def)
  then have "ready t' len" using ready_slab assms(1) by blast
  from exch_delivers [OF this, of "s\<lparr>sl_data := Some b\<rparr>" b base src] t' assms(5-10) show ?thesis
    by (simp add: other_ranks_def)
qed

lemma gather_blocks:
  assumes "ready t len" "dt_slab t = Some s" "sl_data s = Some b" "int (length b) \<le> max_int64"
    "0 < elem" "elem dvd len" "0 < len" "0 \<le> dst" "dst + dstLen \<le> int (length b)" "dt_size t * len \<le> dstLen"
    "0 \<le> src" "src + len \<le> int (length b)"
  shows "\<exists>pos t'. runMeshGather None elem dst dstLen src len (Some exch) t = (Returned (), pos, t') \<and>
    same_shape t t' \<and> length (dt_mem t') = length b \<and> (1 < dt_size t \<longrightarrow> posted dst src len (other_ranks t) pos) \<and>
    mem_slice (dt_mem t') dst (dt_size t * len) =
      concat (map (\<lambda>p. if int p = dt_rank t then mem_slice b src len else srcs (int p)) [0..<nat (dt_size t)]) \<and>
    (\<forall>x < length b. int x \<notin> {dst ..< dst + dt_size t * len} \<longrightarrow> dt_mem t' ! x = b ! x)"
proof -
  let ?k = "dt_size t" and ?r = "dt_rank t"
  have r: "0 \<le> ?r" "?r < ?k" using ready_rank [OF assms(1)] by auto
  have rl: "0 \<le> ?r * len" "?r * len + len \<le> ?k * len"
    using r assms(7) mult_right_mono [of "?r + 1" ?k len] by (simp_all add: algebra_simps)
  have "?k * len \<le> max_int64" "0 \<le> dstLen" using assms rl by linarith+
  note kl = total_size [OF this(1) assms(7)] this(2)
  let ?v = "mem_slice b src len"
  let ?at = "nat dst + nat ?r * nat len"
  have at: "nat (dst + ?r * len) = ?at" using assms(7,8) r by (simp add: nat_add_distrib nat_mult_distrib)
  have lv: "length ?v = nat len" using assms(7,11,12) by (simp add: length_mem_slice)
  have fit: "?at + length ?v \<le> length b"
  proof -
    have "dst + ?r * len + len \<le> int (length b)" using rl assms by linarith
    then show ?thesis using lv at assms(7,8) rl by linarith
  qed
  let ?b1 = "copy_at b ?at ?v"
  let ?t1 = "set_mem ?b1 t"
  have mem: "dt_mem t = b" using assms(2,3) by simp
  have l1: "length ?b1 = length b" using fit by simp
  have run: "runMeshGather None elem dst dstLen src len (Some exch) t =
      (if ?k = 1 then (Returned (), [], ?t1) else exch dst src len ?t1)"
    using rangeInMR_ok [OF assms(2-4), of dst dstLen] rangeInMR_ok [OF assms(2-4), of src len] kl assms r mem at
    by (simp add: runMeshGather_def Let_def mult.commute)
  have sh1: "same_shape t ?t1" using assms(2) by (simp add: same_shape_def)
  have "\<exists>pos t'. runMeshGather None elem dst dstLen src len (Some exch) t = (Returned (), pos, t') \<and>
      same_shape t t' \<and> (1 < ?k \<longrightarrow> posted dst src len (other_ranks t) pos) \<and>
      delivered (nat dst) (nat len) (other_ranks t) srcs (nat len) ?b1 (dt_mem t')"
  proof (cases "?k = 1")
    case True
    then have "other_ranks t = []" using r by (simp add: other_ranks_def)
    then show ?thesis using True run sh1 assms(2) by (simp add: delivered_def)
  next
    case False
    have mem1: "dt_mem ?t1 = ?b1" using assms(2) by simp
    have "dst + ?k * len \<le> int (length ?b1)" using l1 assms(9,10) by simp
    from exch_after [OF assms(1,2) mem1 refl _ assms(8) this assms(7,11)] l1 assms(4,12) obtain pos u where
      "exch dst src len ?t1 = (Returned (), pos, u)" "same_shape ?t1 u" "posted dst src len (other_ranks t) pos"
      "delivered (nat dst) (nat len) (other_ranks t) srcs (nat len) ?b1 (dt_mem u)" by auto
    then show ?thesis using run False same_shape_trans [OF sh1] by auto
  qed
  then obtain pos t' where t': "runMeshGather None elem dst dstLen src len (Some exch) t = (Returned (), pos, t')"
    "same_shape t t'" "1 < ?k \<longrightarrow> posted dst src len (other_ranks t) pos"
    "delivered (nat dst) (nat len) (other_ranks t) srcs (nat len) ?b1 (dt_mem t')" by blast
  have rs: "\<And>p. p \<in> set (other_ranks t) \<Longrightarrow> length (srcs p) = nat len" using ready_srcs [OF assms(1)] .
  have "dst + ?k * len \<le> int (length b)" using assms(9,10) by simp
  note D = delivered_gather [OF t'(4) r assms(7,8) this lv rs]
  show ?thesis using t' D by (auto intro!: exI)
qed

end

section \<open>Reduction\<close>

definition daemon_op :: "int \<Rightarrow> op option" where
  "daemon_op rop = (if rop = 0 then Some sumOp else if rop = 1 then Some maxOp else if rop = 2 then Some minOp else None)"

lemma applyDaemonReduction_op:
  "daemon_op rop = Some op \<Longrightarrow> applyDaemonReduction fp rop dt d v = apply_op fp dt d v op"
  by (auto simp: daemon_op_def applyDaemonReduction_def Sum_def Max_def Min_def split: if_splits)

lemma apply_op_length:
  assumes "apply_op fp dt d v op = Inr r" "length v = length d"
  shows "length r = length d"
proof -
  obtain k where k: "ElementSize dt = Inr k" using assms(1) by (auto simp: apply_op_def split: sum.splits)
  then have "supported dt" "k dvd length v"
    using assms(1) by (auto simp: apply_op_def supported_def mod_eq_0_iff_dvd split: if_splits)
  from apply_op_chunks [OF k this assms(2) [symmetric], of fp op] show ?thesis using assms by auto
qed

text \<open>What the loop over the scratch blocks leaves: the reduction at the destination, all else as it was.\<close>

definition reduced :: "int \<Rightarrow> int \<Rightarrow> bytes \<Rightarrow> bytes \<Rightarrow> bool" where
  "reduced dst len b b' \<longleftrightarrow> length b' = length b \<and>
     (\<forall>x < length b. int x \<notin> {dst ..< dst + len} \<longrightarrow> b' ! x = b ! x)"

lemma reduced_copy:
  assumes "0 \<le> dst" "length v = nat len" "0 \<le> len" "dst + len \<le> int (length b)"
  shows "reduced dst len b (copy_at b (nat dst) v)" "mem_slice (copy_at b (nat dst) v) dst len = v"
proof -
  have fit: "nat dst + length v \<le> length b" using assms by linarith
  have "copy_at b (nat dst) v ! x = b ! x" if "x < length b" "int x \<notin> {dst ..< dst + len}" for x
    using nth_copy_at [OF fit that(1)] that(2) assms by auto
  then show "reduced dst len b (copy_at b (nat dst) v)" using fit by (simp add: reduced_def)
  show "mem_slice (copy_at b (nat dst) v) dst len = v"
    using fit assms by (simp add: mem_slice_def copy_at_def)
qed

lemma reduced_trans: "reduced dst len a b \<Longrightarrow> reduced dst len b c \<Longrightarrow> reduced dst len a c"
  by (auto simp: reduced_def)

lemma reduced_slice:
  assumes "reduced dst len b b'" "0 \<le> off" "0 \<le> n" "off + n \<le> int (length b)"
    "{off ..< off + n} \<inter> {dst ..< dst + len} = {}"
  shows "mem_slice b' off n = mem_slice b off n"
proof (rule mem_slice_cong)
  fix x assume x: "off \<le> int x" "int x < off + n"
  then have "int x \<in> {off ..< off + n}" by simp
  then have "int x \<notin> {dst ..< dst + len}" using assms(5) by blast
  moreover have "x < length b" using x assms(4) by simp
  ultimately show "b' ! x = b ! x" using assms(1) by (simp add: reduced_def)
qed (use assms in \<open>auto simp: reduced_def\<close>)

lemma reduce_scratch_spec:
  assumes "daemon_op rop = Some op" "dt_slab t = Some s" "sl_data s = Some b" "int (length b) \<le> max_int64"
    "0 < len" "0 \<le> dst" "dst + len \<le> int (length b)" "0 \<le> base"
    "\<forall>p \<in> set ps. 0 \<le> p \<and> base + p * len + len \<le> int (length b) \<and> mem_slice b (base + p * len) len = srcs p \<and>
       {base + p * len ..< base + p * len + len} \<inter> {dst ..< dst + len} = {}"
  shows "\<exists>r t'. reduce_scratch fp rop dt base dst len ps t = (r, t') \<and> same_shape t t' \<and> reduced dst len b (dt_mem t') \<and>
    (case reduce_list fp dt op (mem_slice b dst len) (map srcs ps) of
       Inr v \<Rightarrow> r = Returned () \<and> mem_slice (dt_mem t') dst len = v
     | Inl e \<Rightarrow> \<exists>p \<in> set ps. r = Failed (ReduceFailed p e))"
  using assms(2-4,7,9)
proof (induction ps arbitrary: t s b)
  case Nil
  then show ?case by (auto simp: reduced_def intro: same_shape_refl)
next
  case (Cons p ps)
  have p: "0 \<le> p" "base + p * len + len \<le> int (length b)" "mem_slice b (base + p * len) len = srcs p"
    using Cons.prems(5) by auto
  have pl: "0 \<le> p * len" using p(1) assms(5) by simp
  have at: "rangeInMR t (peerOffset base p len) len = Inr (base + p * len, len)"
    using peerOffset_ok(1) [of base p 0 len] rangeInMR_ok [OF Cons.prems(1-3), of "base + p * len" len]
      p(1,2) pl assms(5,8) Cons.prems(3) by simp
  have mem: "dt_mem t = b" using Cons.prems(1,2) by simp
  let ?d = "mem_slice b dst len"
  have sp: "length (srcs p) = nat len" "length ?d = nat len"
    using p pl assms(5,6,8) Cons.prems(4) length_mem_slice by (metis add_nonneg_nonneg less_imp_le)+
  show ?case
  proof (cases "apply_op fp dt ?d (srcs p) op")
    case (Inl e)
    then show ?thesis
      using at mem p(3) applyDaemonReduction_op [OF assms(1)] same_shape_refl [OF Cons.prems(1,2)]
      by (auto simp: reduced_def)
  next
    case (Inr v)
    let ?b = "copy_at b (nat dst) v"
    let ?t = "set_mem ?b t"
    have lv: "length v = nat len" using apply_op_length [OF Inr] sp by simp
    have z: "0 \<le> len" using assms(5) by simp
    note R = reduced_copy [OF assms(6) lv z Cons.prems(4)]
    have lb: "length ?b = length b" using R(1) by (simp add: reduced_def)
    have sl: "dt_slab ?t = Some (s\<lparr>sl_data := Some ?b\<rparr>)" using Cons.prems(1) by simp
    have blk: "\<forall>q \<in> set ps. 0 \<le> q \<and> base + q * len + len \<le> int (length ?b) \<and> mem_slice ?b (base + q * len) len = srcs q \<and>
        {base + q * len ..< base + q * len + len} \<inter> {dst ..< dst + len} = {}"
    proof
      fix q assume "q \<in> set ps"
      then have q: "0 \<le> q" "base + q * len + len \<le> int (length b)" "mem_slice b (base + q * len) len = srcs q"
        "{base + q * len ..< base + q * len + len} \<inter> {dst ..< dst + len} = {}" using Cons.prems(5) by auto
      have "0 \<le> base + q * len" using q(1) assms(5,8) by simp
      from reduced_slice [OF R(1) this z q(2,4)] q show
        "0 \<le> q \<and> base + q * len + len \<le> int (length ?b) \<and> mem_slice ?b (base + q * len) len = srcs q \<and>
        {base + q * len ..< base + q * len + len} \<inter> {dst ..< dst + len} = {}" unfolding lb by simp
    qed
    have fits: "int (length ?b) \<le> max_int64" "dst + len \<le> int (length ?b)" using Cons.prems(3,4) unfolding lb .
    have sh: "same_shape t ?t" using Cons.prems(1) by (simp add: same_shape_def)
    have step: "reduce_scratch fp rop dt base dst len (p # ps) t = reduce_scratch fp rop dt base dst len ps ?t"
      using at mem p(3) Inr applyDaemonReduction_op [OF assms(1)] by simp
    have dt: "sl_data (s\<lparr>sl_data := Some ?b\<rparr>) = Some ?b" by simp
    from Cons.IH [OF sl dt fits blk] obtain r t' where t': "reduce_scratch fp rop dt base dst len ps ?t = (r, t')"
      "same_shape ?t t'" "reduced dst len ?b (dt_mem t')"
      "case reduce_list fp dt op v (map srcs ps) of
         Inr v \<Rightarrow> r = Returned () \<and> mem_slice (dt_mem t') dst len = v
       | Inl e \<Rightarrow> \<exists>p \<in> set ps. r = Failed (ReduceFailed p e)" unfolding R(2) by blast
    have "case reduce_list fp dt op ?d (map srcs (p # ps)) of
         Inr v \<Rightarrow> r = Returned () \<and> mem_slice (dt_mem t') dst len = v
       | Inl e \<Rightarrow> \<exists>p \<in> set (p # ps). r = Failed (ReduceFailed p e)"
      using t'(4) Inr by (auto split: sum.splits)
    then show ?thesis
      unfolding step using t'(1) same_shape_trans [OF sh t'(2)] reduced_trans [OF R(1) t'(3)] by blast
  qed
qed


text \<open>A delivered block is the peer's contribution; bytes outside all blocks are kept.\<close>

lemma delivered_block:
  assumes "delivered (nat base) (nat len) ps srcs (nat len) b b'" "p \<in> set ps" "0 \<le> p" "0 \<le> base" "0 \<le> len"
    "base + p * len + len \<le> int (length b)" "length (srcs p) = nat len"
  shows "mem_slice b' (base + p * len) len = srcs p"
proof (rule nth_equalityI)
  have z: "0 \<le> base + p * len" "base + p * len + len \<le> int (length b')"
    using assms by (auto simp: delivered_def)
  show "length (mem_slice b' (base + p * len) len) = length (srcs p)"
    using length_mem_slice [OF z(1) assms(5) z(2)] assms(7) by simp
  fix i assume "i < length (mem_slice b' (base + p * len) len)"
  then have i: "i < nat len" using length_mem_slice [OF z(1) assms(5) z(2)] by simp
  have "nat (base + p * len) = nat base + nat p * nat len"
    using assms(3-5) by (simp add: nat_add_distrib nat_mult_distrib)
  then show "mem_slice b' (base + p * len) len ! i = srcs p ! i"
    using mem_slice_nth [OF z(1) assms(5) z(2) i] assms(1,2) i by (simp add: delivered_def)
qed

lemma delivered_outside:
  assumes "delivered (nat base) (nat len) (other_ranks t) srcs (nat len) b b'" "0 < len" "0 \<le> base"
    "x < length b" "int x \<notin> {base ..< base + dt_size t * len}"
  shows "b' ! x = b ! x"
  using assms(1,4) block_outside [OF assms(2,3) _ _ assms(5)] by (auto simp: delivered_def mem_other_ranks)

lemma block_inside:
  assumes "p \<in> set (other_ranks t)" "0 < len"
  shows "0 \<le> p * len" "p * len + len \<le> dt_size t * len"
  using assms mult_right_mono [of "p + 1" "dt_size t" len] by (auto simp: mem_other_ranks algebra_simps)

context mesh_exchange
begin

lemma reduce_body:
  assumes "ready t len" "dt_slab t = Some s" "sl_data s = Some b" "int (length b) \<le> max_int64"
    "0 < len" "0 \<le> dst" "dst + len \<le> int (length b)" "0 \<le> base" "base + dt_size t * len \<le> int (length b)"
    "{base ..< base + dt_size t * len} \<inter> {dst ..< dst + len} = {}" "0 \<le> src" "src + len \<le> int (length b)"
    "daemon_op rop = Some op"
  shows "\<exists>r pos t3 t4. exch base src len t = (Returned (), pos, t3) \<and>
    reduce_scratch fp rop dt base dst len (other_ranks t) t3 = (r, t4) \<and> same_shape t t4 \<and>
    posted base src len (other_ranks t) pos \<and> length (dt_mem t4) = length b \<and>
    (\<forall>x < length b. int x \<notin> {dst ..< dst + len} \<and> int x \<notin> {base ..< base + dt_size t * len} \<longrightarrow> dt_mem t4 ! x = b ! x) \<and>
    (case reduce_list fp dt op (mem_slice b dst len) (map srcs (other_ranks t)) of
       Inr v \<Rightarrow> r = Returned () \<and> mem_slice (dt_mem t4) dst len = v
     | Inl e \<Rightarrow> \<exists>p \<in> set (other_ranks t). r = Failed (ReduceFailed p e))"
proof -
  from exch_delivers [OF assms(1-4,8,9,5,11,12)] obtain pos t3 where t3: "exch base src len t = (Returned (), pos, t3)"
    "same_shape t t3" "delivered (nat base) (nat len) (other_ranks t) srcs (nat len) b (dt_mem t3)"
    "posted base src len (other_ranks t) pos" by blast
  have l3: "length (dt_mem t3) = length b" using t3(3) by (simp add: delivered_def)
  obtain s3 where s3: "dt_slab t3 = Some s3" "sl_data s3 = Some (dt_mem t3)" using same_shape_slab [OF t3(2)] by blast
  note out = delivered_outside [OF t3(3) assms(5,8)]
  have dst: "mem_slice (dt_mem t3) dst len = mem_slice b dst len"
  proof (rule mem_slice_cong)
    fix x assume x: "dst \<le> int x" "int x < dst + len"
    then have "int x \<notin> {base ..< base + dt_size t * len}" using assms(10) by (metis atLeastLessThan_iff disjoint_iff)
    then show "dt_mem t3 ! x = b ! x" using out x assms(7) by simp
  qed (use assms l3 in auto)
  have "\<forall>p \<in> set (other_ranks t). 0 \<le> p \<and> base + p * len + len \<le> int (length (dt_mem t3)) \<and>
      mem_slice (dt_mem t3) (base + p * len) len = srcs p \<and>
      {base + p * len ..< base + p * len + len} \<inter> {dst ..< dst + len} = {}"
  proof
    fix p assume p: "p \<in> set (other_ranks t)"
    note i = block_inside [OF p assms(5)]
    have "0 \<le> p" using p by (simp add: mem_other_ranks)
    moreover have "base + p * len + len \<le> int (length b)" using i assms(9) by simp
    moreover have "{base + p * len ..< base + p * len + len} \<subseteq> {base ..< base + dt_size t * len}" using i by auto
    then have "{base + p * len ..< base + p * len + len} \<inter> {dst ..< dst + len} = {}" using assms(10) by blast
    ultimately show "0 \<le> p \<and> base + p * len + len \<le> int (length (dt_mem t3)) \<and>
      mem_slice (dt_mem t3) (base + p * len) len = srcs p \<and>
      {base + p * len ..< base + p * len + len} \<inter> {dst ..< dst + len} = {}"
      using delivered_block [OF t3(3) p] assms(5,8) l3 ready_srcs [OF assms(1) p] by simp
  qed
  from reduce_scratch_spec [OF assms(13) s3 _ assms(5,6) _ assms(8) this, of fp dt] assms(4,7) l3 dst
  obtain r t4 where t4: "reduce_scratch fp rop dt base dst len (other_ranks t) t3 = (r, t4)" "same_shape t3 t4"
    "reduced dst len (dt_mem t3) (dt_mem t4)"
    "case reduce_list fp dt op (mem_slice b dst len) (map srcs (other_ranks t)) of
       Inr v \<Rightarrow> r = Returned () \<and> mem_slice (dt_mem t4) dst len = v
     | Inl e \<Rightarrow> \<exists>p \<in> set (other_ranks t). r = Failed (ReduceFailed p e)" by auto
  have "\<forall>x < length b. int x \<notin> {dst ..< dst + len} \<and> int x \<notin> {base ..< base + dt_size t * len} \<longrightarrow> dt_mem t4 ! x = b ! x"
    using t4(3) out l3 by (auto simp: reduced_def)
  moreover have "length (dt_mem t4) = length b" using t4(3) l3 by (simp add: reduced_def)
  ultimately show ?thesis using t3(1,4) t4(1,4) same_shape_trans [OF t3(2) t4(2)] by blast
qed

end


lemma slab_inv_data:
  assumes "slab_inv s" "sl_data s = Some b" "length b' = length b"
  shows "slab_inv (s\<lparr>sl_data := Some b'\<rparr>)" "held (s\<lparr>sl_data := x\<rparr>) = held s" "\<not> sl_closed s"
proof -
  show "\<not> sl_closed s" using assms(1,2) by (auto simp: slab_inv_def split: if_splits)
  then show "slab_inv (s\<lparr>sl_data := Some b'\<rparr>)" using assms by (simp add: slab_inv_def)
qed (simp add: held_def)

lemma Free_data [simp]: "sl_data (snd (Free i s)) = sl_data s"
  by (simp add: Free_def split: option.splits)

text \<open>Scratch space taken for a reduction is clear of everything leased before, and freeing it restores the leases.\<close>

lemma scratch_lease:
  assumes "slab_inv s" "id_room s" "sl_data s = Some b" "Alloc n s = (Inr l, s')"
  shows "sl_data s' = Some b" "0 \<le> lease_Offset l" "lease_Offset l + n \<le> int (length b)"
    "held s i = Some a \<Longrightarrow> {lease_Offset l ..< lease_Offset l + n} \<inter> span_set a = {}"
    "length b' = length b \<Longrightarrow> slab_inv (snd (Free (lease_ID l) (s'\<lparr>sl_data := Some b'\<rparr>))) \<and>
       held (snd (Free (lease_ID l) (s'\<lparr>sl_data := Some b'\<rparr>))) = held s"
proof -
  note H = Alloc_held [OF assms(1,2,4)]
  from assms(4) show d: "sl_data s' = Some b" by (rule Alloc_cases) (simp add: assms(3))
  have inv: "slab_inv s'" using Alloc_inv [OF assms(1,2,4)] .
  have "sl_size s' = int (length b)" using inv d by (auto simp: slab_inv_def split: if_splits)
  moreover have "held s' (lease_ID l) = Some (lease_span l)" using H(2) by simp
  ultimately show "0 \<le> lease_Offset l" "lease_Offset l + n \<le> int (length b)"
    using slab_lease_range [OF inv, of "lease_ID l"] H(3) by (auto simp: lease_span_def)
  show "{lease_Offset l ..< lease_Offset l + n} \<inter> span_set a = {}" if "held s i = Some a"
    using slab_alloc.alloc_disjoint [OF assms(1,2,4) that] H(3) by (simp add: span_set_def lease_span_def)
  assume b': "length b' = length b"
  note I = slab_inv_data [OF inv d b']
  have "held (s'\<lparr>sl_data := Some b'\<rparr>) (lease_ID l) = Some (lease_span l)" using I(2) H(2) by simp
  then show "slab_inv (snd (Free (lease_ID l) (s'\<lparr>sl_data := Some b'\<rparr>))) \<and>
      held (snd (Free (lease_ID l) (s'\<lparr>sl_data := Some b'\<rparr>))) = held s"
    using Free_inv [OF I(1)] held_Free(1) [of "s'\<lparr>sl_data := Some b'\<rparr>"] H(1,2,5) I(2) by auto
qed


lemma same_shape_data: "same_shape t t' \<Longrightarrow> dt_slab t = Some s \<Longrightarrow> dt_slab t' = Some (s\<lparr>sl_data := Some (dt_mem t')\<rparr>)"
  unfolding same_shape_def by (metis option.inject)

text \<open>Past its checks the reduction copies the own contribution, exchanges, and reduces the scratch blocks.\<close>

lemma runMeshReduce_run:
  assumes "dt_slab t = Some s" "sl_data s = Some b" "int (length b) \<le> max_int64"
    "Alloc (len * dt_size t) s = (Inr l, s1)" "sl_data s1 = Some b"
    "len \<le> max_int64 div dt_size t" "mul64 len (dt_size t) = len * dt_size t" "0 < dt_size t"
    "0 < len" "0 \<le> dst" "len \<le> dstLen" "dst + dstLen \<le> int (length b)" "0 \<le> src" "src + len \<le> int (length b)"
  shows "runMeshReduce fp None rop dt dst dstLen src len (Some exch) t =
    free_scratch (lease_ID l)
      (let t2 = t\<lparr>dt_slab := Some (s1\<lparr>sl_data := Some (copy_at b (nat dst) (mem_slice b src len))\<rparr>)\<rparr> in
       if 1 < dt_size t then
         (case exch (lease_Offset l) src len t2 of
            (Returned _, pos, t3) \<Rightarrow>
              (case reduce_scratch fp rop dt (lease_Offset l) dst len (other_ranks t) t3 of (r, t4) \<Rightarrow> (r, pos, t4))
          | x \<Rightarrow> x)
       else (Returned (), [], t2))"
  unfolding other_ranks_def
  using rangeInMR_ok [OF assms(1-3), of dst dstLen] rangeInMR_ok [OF assms(1-3), of src len] assms
  by (simp add: runMeshReduce_def Let_def set_mem_def dt_mem_def dt_bytes_def slab_Bytes_def)

context mesh_exchange
begin

text \<open>The whole reduction, with the scratch lease.\<close>

lemma reduce_run:
  assumes "ready t len" "dt_slab t = Some s" "sl_data s = Some b" "slab_inv s" "id_room s"
    "Alloc (len * dt_size t) s = (Inr l, s1)" "0 < len" "0 \<le> dst" "len \<le> dstLen" "dst + dstLen \<le> int (length b)"
    "0 \<le> src" "src + len \<le> int (length b)" "daemon_op rop = Some op"
    "held s i = Some a" "{dst ..< dst + len} \<subseteq> span_set a"
  shows "\<exists>r pos t' s'. runMeshReduce fp None rop dt dst dstLen src len (Some exch) t = (r, pos, t') \<and>
    dt_slab t' = Some s' \<and> slab_inv s' \<and> held s' = held s \<and>
    (1 < dt_size t \<longrightarrow> posted (lease_Offset l) src len (other_ranks t) pos) \<and>
    (\<forall>j c x. held s j = Some c \<and> int x \<in> span_set c \<and> int x \<notin> {dst ..< dst + len} \<longrightarrow> dt_mem t' ! x = b ! x) \<and>
    (case reduce_list fp dt op (mem_slice b src len) (map srcs (other_ranks t)) of
       Inr v \<Rightarrow> r = Returned () \<and> mem_slice (dt_mem t') dst len = v
     | Inl e \<Rightarrow> \<exists>p \<in> set (other_ranks t). r = Failed (ReduceFailed p e))"
proof -
  let ?k = "dt_size t" and ?o = "lease_Offset l"
  have r: "0 \<le> dt_rank t" "dt_rank t < ?k" using ready_rank [OF assms(1)] by auto
  have sz: "sl_size s = int (length b)" "int (length b) \<le> max_int64"
    using assms(3,4) by (auto simp: slab_inv_def split: if_splits)
  note L = scratch_lease [OF assms(4,5,3,6)]
  have off: "0 \<le> ?o" "?o + ?k * len \<le> int (length b)" using L(2,3) by (auto simp: mult.commute)
  then have "?k * len \<le> max_int64" using sz(2) by linarith
  have k0: "0 < ?k" using r by simp
  note kl = total_size [OF \<open>?k * len \<le> max_int64\<close> assms(7) k0]
  define v0 where "v0 = mem_slice b src len"
  define b2 where "b2 = copy_at b (nat dst) v0"
  define t2 where "t2 = t\<lparr>dt_slab := Some (s1\<lparr>sl_data := Some b2\<rparr>)\<rparr>"
  have v0: "length v0 = nat len" unfolding v0_def using assms(7,11,12) by (simp add: length_mem_slice)
  have z: "0 \<le> len" "dst + len \<le> int (length b)" using assms(7,9,10) by auto
  note R = reduced_copy [OF assms(8) v0 z, folded b2_def]
  have lb: "length b2 = length b" using R(1) by (simp add: reduced_def)
  have t2: "dt_size t2 = ?k" "other_ranks t2 = other_ranks t" "dt_mem t2 = b2"
    by (simp_all add: t2_def other_ranks_def dt_mem_def dt_bytes_def slab_Bytes_def)
  note run = runMeshReduce_run [OF assms(2,3) sz(2) assms(6) L(1) kl k0 assms(7-12),
      where exch = exch and fp = fp and rop = rop and dt = dt, folded v0_def, folded b2_def, folded t2_def,
      unfolded Let_def]
  have "\<exists>r pos t4. runMeshReduce fp None rop dt dst dstLen src len (Some exch) t = free_scratch (lease_ID l) (r, pos, t4) \<and>
      same_shape t2 t4 \<and> (1 < ?k \<longrightarrow> posted ?o src len (other_ranks t) pos) \<and> length (dt_mem t4) = length b \<and>
      (\<forall>x < length b. int x \<notin> {dst ..< dst + len} \<and> int x \<notin> {?o ..< ?o + ?k * len} \<longrightarrow> dt_mem t4 ! x = b2 ! x) \<and>
      (case reduce_list fp dt op v0 (map srcs (other_ranks t)) of
         Inr v \<Rightarrow> r = Returned () \<and> mem_slice (dt_mem t4) dst len = v
       | Inl e \<Rightarrow> \<exists>p \<in> set (other_ranks t). r = Failed (ReduceFailed p e))"
  proof (cases "?k > 1")
    case True
    have "ready t2 len" unfolding t2_def using ready_slab [OF assms(1)] .
    moreover have "{?o ..< ?o + ?k * len} \<inter> {dst ..< dst + len} = {}"
      using L(4) [OF assms(14), unfolded mult.commute [of len]] assms(15) by blast
    ultimately obtain r pos t3 t4 where "exch ?o src len t2 = (Returned (), pos, t3)"
      "reduce_scratch fp rop dt ?o dst len (other_ranks t) t3 = (r, t4)" "same_shape t2 t4"
      "posted ?o src len (other_ranks t) pos" "length (dt_mem t4) = length b"
      "\<forall>x < length b. int x \<notin> {dst ..< dst + len} \<and> int x \<notin> {?o ..< ?o + ?k * len} \<longrightarrow> dt_mem t4 ! x = b2 ! x"
      "case reduce_list fp dt op v0 (map srcs (other_ranks t)) of
         Inr v \<Rightarrow> r = Returned () \<and> mem_slice (dt_mem t4) dst len = v
       | Inl e \<Rightarrow> \<exists>p \<in> set (other_ranks t). r = Failed (ReduceFailed p e)"
      using reduce_body [of t2 len "s1\<lparr>sl_data := Some b2\<rparr>" b2 dst ?o src rop op fp dt, unfolded t2 R(2) lb]
        sz(2) assms(7,8,11-13) z(2) off by (auto simp: t2_def)
    then show ?thesis using run True r by auto
  next
    case False
    then have "?k = 1" using r by simp
    then have "other_ranks t = []" using r by (simp add: other_ranks_def)
    moreover have "same_shape t2 t2" using same_shape_refl t2(3) by (simp add: t2_def same_shape_def)
    ultimately show ?thesis
      using run False R(2) lb t2(3) by (intro exI [of _ "Returned ()"] exI [of _ "[]"] exI [of _ t2]) simp
  qed
  then obtain r pos t4 where t4: "runMeshReduce fp None rop dt dst dstLen src len (Some exch) t = free_scratch (lease_ID l) (r, pos, t4)"
    "same_shape t2 t4" "1 < ?k \<longrightarrow> posted ?o src len (other_ranks t) pos" "length (dt_mem t4) = length b"
    "\<forall>x < length b. int x \<notin> {dst ..< dst + len} \<and> int x \<notin> {?o ..< ?o + ?k * len} \<longrightarrow> dt_mem t4 ! x = b2 ! x"
    "case reduce_list fp dt op v0 (map srcs (other_ranks t)) of
       Inr v \<Rightarrow> r = Returned () \<and> mem_slice (dt_mem t4) dst len = v
     | Inl e \<Rightarrow> \<exists>p \<in> set (other_ranks t). r = Failed (ReduceFailed p e)" by blast
  let ?s' = "snd (Free (lease_ID l) (s1\<lparr>sl_data := Some (dt_mem t4)\<rparr>))"
  have sl4: "dt_slab t4 = Some (s1\<lparr>sl_data := Some (dt_mem t4)\<rparr>)" using same_shape_data [OF t4(2)] by (simp add: t2_def del: mem_slab)
  have "r \<noteq> Polling" using t4(6) by (auto split: sum.splits)
  then have run': "runMeshReduce fp None rop dt dst dstLen src len (Some exch) t = (r, pos, t4\<lparr>dt_slab := Some ?s'\<rparr>)"
    using t4(1) sl4 by (cases r) (simp_all add: free_scratch_def del: mem_slab)
  have mem: "dt_mem (t4\<lparr>dt_slab := Some ?s'\<rparr>) = dt_mem t4" by (simp add: dt_mem_def dt_bytes_def slab_Bytes_def)
  have keep: "dt_mem t4 ! x = b ! x"
    if x: "held s j = Some c" "int x \<in> span_set c" "int x \<notin> {dst ..< dst + len}" for j c x
  proof -
    have "int x \<notin> {?o ..< ?o + ?k * len}" using L(4) [OF x(1), unfolded mult.commute [of len]] x(2) by blast
    moreover have "x < length b" using slab_lease_range [OF assms(4) x(1)] x(2) sz(1) by (auto simp: span_set_def)
    ultimately show ?thesis using t4(5) R(1) x(3) by (simp add: reduced_def)
  qed
  show ?thesis
    using run' L(5) [OF t4(4)] t4(3,6) keep unfolding v0_def
    by (intro exI [of _ r] exI [of _ pos] exI [of _ "t4\<lparr>dt_slab := Some ?s'\<rparr>"] exI [of _ ?s']) (simp only: mem, simp del: mem_slab, blast)
qed

end


section \<open>Properties\<close>

text \<open>C25.  The daemon's all-reduce refines the reduction of buffers.  With sound connections whose provider
completes the posted work, an accepted source and destination, a destination inside a leased range and room
for the scratch, \<open>AllReduce\<close> computes exactly \<open>reduce_list\<close> of the own contribution and those of the other
ranks in rank order and leaves it at the destination; where that reduction fails, the call fails with its
error.  On both paths the scratch is given back, so the leases are those from before, every other byte
of every lease is untouched, and each peer has been sent exactly the source, piece by piece.\<close>

theorem AllReduce_refines:
  assumes "mesh_ready srcs inbox t len" and "dt_slab t = Some s" and "sl_data s = Some b" and "slab_inv s"
    and "id_room s" and "Alloc (len * dt_size t) s = (Inr l, s1)" and "0 < len" and "0 \<le> dst" and "len \<le> dstLen"
    and "dst + dstLen \<le> int (length b)" and "0 \<le> src" and "src + len \<le> int (length b)"
    and "daemon_op rop = Some op" and "held s i = Some a" and "{dst ..< dst + len} \<subseteq> span_set a"
  shows "\<exists>r pos t' s'. dt_AllReduce fp None (\<lambda>_. None) inbox now None rop dt dst dstLen src len t = (r, pos, t') \<and>
    dt_slab t' = Some s' \<and> slab_inv s' \<and> held s' = held s \<and>
    (1 < dt_size t \<longrightarrow> posted (lease_Offset l) src len (other_ranks t) pos) \<and>
    (\<forall>j c x. held s j = Some c \<and> int x \<in> span_set c \<and> int x \<notin> {dst ..< dst + len} \<longrightarrow> dt_mem t' ! x = b ! x) \<and>
    (case reduce_list fp dt op (mem_slice b src len) (map srcs (other_ranks t)) of
       Inr v \<Rightarrow> r = Returned () \<and> mem_slice (dt_mem t') dst len = v
     | Inl e \<Rightarrow> \<exists>p \<in> set (other_ranks t). r = Failed (ReduceFailed p e))"
  unfolding dt_AllReduce_def option.case by (rule daemon_mesh.reduce_run [OF assms])

definition conn_pair :: daemon_conn where
  "conn_pair = \<lparr> dc_pending = [], dc_polls = [Inr [wr (transportWorkID daemonWorkRecv 1)], Inr [wr (transportWorkID daemonWorkSend 1)]],
     dc_poison = None, dc_remote = zero_hb_lease, dc_hbWrites = 0, dc_hbErrors = 0, dc_maintOps = 0, dc_maintErrs = 0 \<rparr>"

definition transport_pair :: "slab \<Rightarrow> daemon_transport" where
  "transport_pair s = \<lparr> dt_rank = 0, dt_size = 2, dt_slab = Some s, dt_mr = None, dt_side = True, dt_tracker = None,
     dt_maintenanceLease = lease_hb, dt_heartbeatLease = zero_hb_lease, dt_conns = [None, Some conn_pair] \<rparr>"

definition slab_leased :: slab where
  "slab_leased = snd (Alloc 4 (slab16\<lparr>sl_data := Some ([1, 2, 3, 4] @ replicate 12 0)\<rparr>))"

lemma transport_pair_other: "other_ranks (transport_pair s) = [1]"
  by (simp add: other_ranks_def transport_pair_def upt_conv_Cons numeral_2_eq_2)

lemma transport_pair_ready:
  "mesh_ready (\<lambda>_. [5, 6, 7, 8]) (\<lambda>_. stage_msg (nat daemonTransferBytes) [5, 6, 7, 8]) (transport_pair s) 4"
proof -
  have "pieces 0 4 0 = [(0, 4)]" by (simp add: pieces.simps daemonTransferBytes_def)
  then have "rounds 4 0 = 1" by (simp add: rounds_def)
  moreover have "supplied conn_pair (pair_ids 1)" unfolding supplied_def
    by (intro exI [of _ "[[wr (transportWorkID daemonWorkRecv 1)], [wr (transportWorkID daemonWorkSend 1)]]"] exI [of _ "[]"])
      (simp add: conn_pair_def wr_def)
  ultimately have "stocked (\<lambda>p. repeat_mset (rounds 4 0) (pair_ids p)) (transport_pair s) 1"
    by (simp add: stocked_def transport_pair_def add_mset_commute) (simp add: conn_pair_def)
  then show ?thesis by (simp add: mesh_ready_def transport_pair_other) (simp add: transport_pair_def)
qed

lemma slab_leased_ok:
  "slab_inv slab_leased" "id_room slab_leased" "sl_data slab_leased = Some ([1, 2, 3, 4] @ replicate 12 0)"
  "held slab_leased 1 = Some \<lparr> sp_off = 0, sp_n = 4 \<rparr>"
proof -
  let ?s = "slab16\<lparr>sl_data := Some ([1, 2, 3, 4] @ replicate 12 0)\<rparr>"
  have "slab_inv ?s" by (rule slab_inv_data(1) [OF slab16_simps(1), of "replicate 16 0"]) (simp_all add: slab16_def)
  moreover have "id_room ?s" using slab16_simps(2) by (simp add: id_room_def)
  moreover obtain l where "Alloc 4 ?s = (Inr l, slab_leased)"
    by (simp add: slab_leased_def Alloc_def slab_next_def slab16_def)
  ultimately show "slab_inv slab_leased" using Alloc_inv by blast
  show "id_room slab_leased" "sl_data slab_leased = Some ([1, 2, 3, 4] @ replicate 12 0)"
    "held slab_leased 1 = Some \<lparr> sp_off = 0, sp_n = 4 \<rparr>"
    by (simp_all add: slab_leased_def Alloc_def slab_next_def slab16_def id_room_def held_def)
qed

theorem AllReduce_refines_witness:
  "\<exists>pos t'. dt_AllReduce fp0 None (\<lambda>_. None) (\<lambda>_. stage_msg (nat daemonTransferBytes) [5, 6, 7, 8]) 0 None 0 Uint8 0 4 0 4
      (transport_pair slab_leased) = (Returned (), pos, t') \<and> mem_slice (dt_mem t') 0 4 = [6, 8, 10, 12]"
proof -
  let ?t = "transport_pair slab_leased"
  obtain l s1 where A: "Alloc (4 * dt_size ?t) slab_leased = (Inr l, s1)"
    by (simp add: transport_pair_def slab_leased_def Alloc_def slab_next_def slab16_def add64_def sub64_def wrap64_def)
  have r: "reduce_list fp0 Uint8 sumOp (mem_slice ([1, 2, 3, 4] @ replicate 12 0) 0 4) (map (\<lambda>_. [5, 6, 7, 8]) (other_ranks ?t)) =
      Inr [6, 8, 10, 12]"
    by (simp add: transport_pair_other mem_slice_def) (simp add: apply_op_def bytesAs_def chunks.simps ElementSize_def on_words_def enc_def dec_def ordered_elem_def
        le_val_def le_bytes_def be_val_def)
  have sl: "dt_slab ?t = Some slab_leased" by (simp add: transport_pair_def)
  show ?thesis
    using AllReduce_refines [OF transport_pair_ready sl slab_leased_ok(3,1,2) A, of 0 4 0 0 sumOp 1 "\<lparr> sp_off = 0, sp_n = 4 \<rparr>" fp0 0 Uint8]
      slab_leased_ok(4) r by (auto simp: daemon_op_def span_set_def)
qed


text \<open>The daemon's all-gather is complete.  Under the same conditions on the connections and for a source
of whole elements and a destination with room for one block per rank, \<open>AllGather\<close> returns with the
contributions of all ranks, in rank order, at the destination: the own source copied, the others as they
were sent.  No byte outside these blocks changes, and each peer has been sent exactly the source.\<close>

lemma AllGather_complete:
  assumes "mesh_ready srcs inbox t len" and "dt_slab t = Some s" and "sl_data s = Some b"
    and "int (length b) \<le> max_int64" and "0 < elem" and "elem dvd len" and "0 < len" and "0 \<le> dst"
    and "dst + dstLen \<le> int (length b)" and "dt_size t * len \<le> dstLen" and "0 \<le> src" and "src + len \<le> int (length b)"
  shows "\<exists>pos t'. dt_AllGather None (\<lambda>_. None) inbox now None elem dst dstLen src len t = (Returned (), pos, t') \<and>
    same_shape t t' \<and> length (dt_mem t') = length b \<and> (1 < dt_size t \<longrightarrow> posted dst src len (other_ranks t) pos) \<and>
    mem_slice (dt_mem t') dst (dt_size t * len) =
      concat (map (\<lambda>p. if int p = dt_rank t then mem_slice b src len else srcs (int p)) [0..<nat (dt_size t)]) \<and>
    (\<forall>x < length b. int x \<notin> {dst ..< dst + dt_size t * len} \<longrightarrow> dt_mem t' ! x = b ! x)"
  unfolding dt_AllGather_def option.case by (rule daemon_mesh.gather_blocks [OF assms])

lemma AllGather_complete_witness:
  "\<exists>pos t'. dt_AllGather None (\<lambda>_. None) (\<lambda>_. stage_msg (nat daemonTransferBytes) [5, 6, 7, 8]) 0 None 2 4 8 0 4
      (transport_pair slab_leased) = (Returned (), pos, t') \<and> mem_slice (dt_mem t') 4 8 = [1, 2, 3, 4, 5, 6, 7, 8]"
proof -
  let ?t = "transport_pair slab_leased"
  have sl: "dt_slab ?t = Some slab_leased" and k: "dt_size ?t = 2" and r: "dt_rank ?t = 0"
    by (simp_all add: transport_pair_def)
  show ?thesis
    using AllGather_complete [OF transport_pair_ready sl slab_leased_ok(3), of 2 4 8 0 0]
    by (auto simp: max_int64_def k r mem_slice_def upt_conv_Cons numeral_2_eq_2)
qed

end
