(* ===== verification/Maintenance.thy ===== *)
theory Maintenance
  imports Mesh
begin

text \<open>
  Maintenance of the daemon's connections, \<^verbatim>\<open>src/cmd/jaccld/transport.go\<close>: between two barriers, and
  with data operations shut out by the admission gate, every connection exchanges one byte inside the
  maintenance lease.  A run that fails on the way poisons all connections.

  \<open>gate\<close>, \<open>pre\<close> and \<open>post\<close> are what the admission gate and the two barriers answer; \<open>msg\<close> is the text of an
  error.
\<close>

section \<open>Slots\<close>

text \<open>The length of the lease, \<^verbatim>\<open>src/cmd/jaccld/main.go\<close>.\<close>

definition maintenanceBytes :: "int \<Rightarrow> int" where
  "maintenanceBytes k =
     (if k \<le> 1 then 2 else if k > max_int64 div 2 then max_int64 else mul64 2 k)"

definition maintenanceOffsets :: "daemon_transport \<Rightarrow> int \<Rightarrow> transport_error + int \<times> int" where
  "maintenanceOffsets t peer =
     (if peer < 0 \<or> peer \<ge> dt_size t then Inl (RankOutOfRange peer (dt_size t))
      else if peer > max_int64 div 2 then Inl (MaintenanceSlot peer)
      else
        let slot = mul64 peer 2; l = dt_maintenanceLease t in
        if slot < 0 \<or> add64 slot 2 > lease_Length l then Inl (MaintenanceSlot peer)
        else
          let off = add64 (lease_Offset l) slot in
          if off < lease_Offset l then Inl (MaintenanceSlot peer)
          else case rangeInMR t off 2 of Inl e \<Rightarrow> Inl e | Inr (start, _) \<Rightarrow> Inr (start, start + 1))"

section \<open>Polling\<close>

fun maintenance_absorb :: "work_request list \<Rightarrow> (u64 \<times> nat) list \<Rightarrow> transport_error + (u64 \<times> nat) list" where
  "maintenance_absorb [] w = Inr w"
| "maintenance_absorb (x # wrs) w =
     (case map_of w (wr_ID x) of
        Some (Suc n) \<Rightarrow>
          maintenance_absorb wrs (if n = 0 then AList.delete (wr_ID x) w else AList.update (wr_ID x) n w)
      | _ \<Rightarrow> Inl (UnexpectedCompletion (wr_ID x)))"

fun maintenance_loop ::
  "(string + work_request list) list \<Rightarrow> (u64 \<times> nat) list \<Rightarrow> unit outcome \<times> (string + work_request list) list" where
  "maintenance_loop polls want =
     (if want = [] then (Returned (), polls)
      else
        (case polls of
           [] \<Rightarrow> (Polling, [])
         | Inl e # polls' \<Rightarrow> (Failed (PollFailed e), polls')
         | Inr wrs # polls' \<Rightarrow>
             (case maintenance_absorb wrs want of
                Inl e \<Rightarrow> (Failed e, polls')
              | Inr want' \<Rightarrow> maintenance_loop polls' want')))"

declare maintenance_loop.simps [simp del]

definition pollMaintenanceExpected :: "u64 list \<Rightarrow> daemon_conn \<Rightarrow> unit outcome \<times> daemon_conn" where
  "pollMaintenanceExpected ids c =
     (case maintenance_loop (dc_polls c) (want_of ids) of (r, polls) \<Rightarrow> (r, c\<lparr>dc_polls := polls\<rparr>))"

section \<open>A run\<close>

definition poisonMaintenance :: "string \<Rightarrow> daemon_transport \<Rightarrow> daemon_transport" where
  "poisonMaintenance e t =
     t\<lparr>dt_conns := map (\<lambda>p. if int p = dt_rank t then dt_conns t ! p
                             else map_option (recordMaintenance (Some e)) (dt_conns t ! p)) [0..<length (dt_conns t)]\<rparr>"

text \<open>The first loop: the error, and whether it poisons.\<close>

fun maintenance_ready :: "daemon_transport \<Rightarrow> int list \<Rightarrow> (transport_error \<times> bool) option" where
  "maintenance_ready t [] = None"
| "maintenance_ready t (p # ps) =
     (case dt_conns t ! nat p of None \<Rightarrow> Some (NoRDMAConnection p, False)
      | Some c \<Rightarrow>
          (case checkReady p (Some c) of Some e \<Rightarrow> Some (e, False)
           | None \<Rightarrow>
               if dc_pending c \<noteq> [] then Some (PendingCompletions p (length (dc_pending c)), True)
               else maintenance_ready t ps))"

fun maintenance_posts ::
  "(post \<Rightarrow> string option) \<Rightarrow> post_side \<Rightarrow> daemon_transport \<Rightarrow> int list \<Rightarrow> transport_error option \<times> post list" where
  "maintenance_posts try_post side t [] = (None, [])"
| "maintenance_posts try_post side t (p # ps) =
     (case maintenanceOffsets t p of Inl e \<Rightarrow> (Some e, [])
      | Inr (sendOffset, recvOffset) \<Rightarrow>
          (let po = \<lparr> po_side = side, po_peer = p, po_offset = (if side = PostRecv then recvOffset else sendOffset),
                      po_length = 1,
                      po_id = transportWorkID (if side = PostRecv then daemonWorkHeartbeatRecv else daemonWorkHeartbeatSend) p \<rparr> in
           case try_post po of
             Some e \<Rightarrow> (Some (PostFailed e), [])
           | None \<Rightarrow> (case maintenance_posts try_post side t ps of (e, pos) \<Rightarrow> (e, po # pos))))"

fun maintenance_polls :: "instant \<Rightarrow> int list \<Rightarrow> daemon_transport \<Rightarrow> unit outcome \<times> daemon_transport" where
  "maintenance_polls now [] t = (Returned (), t)"
| "maintenance_polls now (p # ps) t =
     (case dt_conns t ! nat p of None \<Rightarrow> (Failed (NoRDMAConnection p), t)
      | Some c \<Rightarrow>
          (case pollMaintenanceExpected [transportWorkID daemonWorkHeartbeatRecv p, transportWorkID daemonWorkHeartbeatSend p] c of
             (Returned _, c') \<Rightarrow>
               maintenance_polls now ps (dt_touch now p (set_conn p (recordMaintenance None c') t))
           | (r, c') \<Rightarrow> (r, set_conn p c' t)))"

definition runMaintenanceLocked ::
  "(post \<Rightarrow> string option) \<Rightarrow> (transport_error \<Rightarrow> string) \<Rightarrow> instant \<Rightarrow> daemon_transport \<Rightarrow>
   unit outcome \<times> post list \<times> daemon_transport" where
  "runMaintenanceLocked try_post msg now t =
     (let peers = live_peers t in
      case maintenance_ready t peers of
        Some (e, poisons) \<Rightarrow> (Failed e, [], if poisons then poisonMaintenance (msg e) t else t)
      | None \<Rightarrow>
          (case maintenance_posts try_post PostRecv t peers of
             (Some e, pos) \<Rightarrow> (Failed e, pos, poisonMaintenance (msg e) t)
           | (None, pos) \<Rightarrow>
               (case maintenance_posts try_post PostSend t peers of
                  (Some e, pos') \<Rightarrow> (Failed e, pos @ pos', poisonMaintenance (msg e) t)
                | (None, pos') \<Rightarrow>
                    (case maintenance_polls now peers t of
                       (Failed e, t') \<Rightarrow> (Failed e, pos @ pos', poisonMaintenance (msg e) t')
                     | (r, t') \<Rightarrow> (r, pos @ pos', t')))))"

text \<open>\<open>errors.Join\<close> of the errors that are not nil.\<close>

datatype maintain_result = Maintained | MaintainFailed "transport_error list" | MaintainPolling

definition Maintain ::
  "(post \<Rightarrow> string option) \<Rightarrow> (transport_error \<Rightarrow> string) \<Rightarrow> transport_error option \<Rightarrow> string option \<Rightarrow> string option \<Rightarrow>
   instant \<Rightarrow> daemon_transport \<Rightarrow> maintain_result \<times> post list \<times> daemon_transport" where
  "Maintain try_post msg gate pre post now t =
     (if \<not> dt_side t then (MaintainFailed [NilSideChannel], [], t)
      else case gate of Some e \<Rightarrow> (MaintainFailed [e], [], t)
      | None \<Rightarrow>
      (case daemon_lockConns t of Inl e \<Rightarrow> (MaintainFailed [e], [], t)
       | Inr locked \<Rightarrow>
      (case pre of Some e \<Rightarrow> (MaintainFailed [SideChannel e], [], t)
       | None \<Rightarrow>
      (case runMaintenanceLocked try_post msg now t of
         (Polling, pos, t') \<Rightarrow> (MaintainPolling, pos, t')
       | (Failed e, pos, t') \<Rightarrow>
           (MaintainFailed (e # (case post of Some x \<Rightarrow> [SideChannel x] | None \<Rightarrow> [])), pos, t')
       | (Returned _, pos, t') \<Rightarrow>
           (case post of
              Some x \<Rightarrow> (MaintainFailed [SideChannel x], pos, poisonMaintenance (msg (SideChannel x)) t')
            | None \<Rightarrow> (Maintained, pos, t'))))))"


section \<open>Slots of the lease\<close>

lemma rangeInMR_Inr:
  assumes "rangeInMR t off len = Inr (a, n)" "int64_ok off" "int64_ok len"
  shows "a = off" "n = len" "0 \<le> off" "0 \<le> len" "\<exists>b. dt_bytes (Some t) = Some b \<and> off + len \<le> int (length b)"
    "off + len \<le> max_int64"
proof -
  obtain b where bb: "dt_bytes (Some t) = Some b" using assms(1) by (cases "dt_bytes (Some t)") (auto simp: rangeInMR_def)
  from assms(1) have b: "0 \<le> off" "0 \<le> len" "\<not> add64 off len < off" "add64 off len \<le> int (length b)" "a = off" "n = len"
    unfolding rangeInMR_def bb Let_def by (simp_all split: if_splits)
  have e: "add64 off len = off + len" using add64_checked [OF assms(2,3) b(2,3)] .
  show "a = off" "n = len" "0 \<le> off" "0 \<le> len" using b by simp_all
  show "\<exists>b. dt_bytes (Some t) = Some b \<and> off + len \<le> int (length b)" using bb b(4) e by simp
  show "off + len \<le> max_int64" using wrap64_ok [of "off + len"] e unfolding add64_def int64_ok_def by linarith
qed

definition lease_sound :: "daemon_transport \<Rightarrow> bool" where
  "lease_sound t \<longleftrightarrow> 0 \<le> lease_Offset (dt_maintenanceLease t) \<and> 0 \<le> lease_Length (dt_maintenanceLease t) \<and>
     lease_Offset (dt_maintenanceLease t) + lease_Length (dt_maintenanceLease t) \<le> max_int64"

lemma maintenanceOffsets_slot:
  assumes "maintenanceOffsets t p = Inr (a, c)" "lease_sound t"
  shows "0 \<le> p" "a = lease_Offset (dt_maintenanceLease t) + 2 * p" "c = a + 1"
    "2 * p + 2 \<le> lease_Length (dt_maintenanceLease t)"
proof -
  let ?l = "dt_maintenanceLease t"
  have p: "0 \<le> p" "p \<le> max_int64 div 2"
    using assms(1) by (auto simp: maintenanceOffsets_def split: if_splits)
  have p2: "2 * p \<le> max_int64" using p(2) by (simp add: max_int64_def)
  then have m: "mul64 p 2 = 2 * p" using p(1) by (simp add: mul64_id mult.commute)
  let ?off = "add64 (lease_Offset ?l) (2 * p)"
  from assms(1) m p obtain n where r: "rangeInMR t ?off 2 = Inr (a, n)" "c = a + 1" "\<not> ?off < lease_Offset ?l"
    "add64 (2 * p) 2 \<le> lease_Length ?l"
    by (auto simp: maintenanceOffsets_def Let_def split: if_splits sum.splits)
  have "int64_ok (lease_Offset ?l)" "int64_ok (2 * p)" using assms(2) p p2 by (auto simp: lease_sound_def int64_defs)
  then have off: "?off = lease_Offset ?l + 2 * p" using add64_checked r(3) p(1) by simp
  have R: "a = ?off" "?off + 2 \<le> max_int64"
    using rangeInMR_Inr [OF r(1)] wrap64_ok [of "lease_Offset ?l + 2 * p"] by (auto simp: add64_def int64_defs)
  then have "2 * p + 2 \<le> max_int64" using off assms(2) by (simp add: lease_sound_def)
  then have "add64 (2 * p) 2 = 2 * p + 2" using p(1) by (simp add: add64_id)
  then show "0 \<le> p" "a = lease_Offset ?l + 2 * p" "c = a + 1" "2 * p + 2 \<le> lease_Length ?l"
    using r p R off by simp_all
qed

text \<open>A lease of \<open>maintenanceBytes\<close> has a slot for every rank.\<close>

lemma maintenanceOffsets_total:
  assumes "dt_slab t = Some s" "slab_inv s" "\<not> sl_closed s" "held s i = Some (lease_span (dt_maintenanceLease t))"
    "lease_Length (dt_maintenanceLease t) = maintenanceBytes (dt_size t)" "0 \<le> p" "p < dt_size t" "dt_size t \<le> max_int64 div 2"
  shows "\<exists>a. maintenanceOffsets t p = Inr (a, a + 1)"
proof -
  let ?l = "dt_maintenanceLease t"
  obtain b where b: "sl_data s = Some b" "int (length b) = sl_size s" using assms(2,3) by (auto simp: slab_inv_def)
  note L = slab_lease_range [OF assms(2,4)]
  have len: "2 * dt_size t \<le> lease_Length ?l"
  proof (cases "dt_size t \<le> 1")
    case False
    have "2 * dt_size t \<le> max_int64" using assms(8) by (simp add: max_int64_def)
    then show ?thesis using False assms(5,8) by (simp add: maintenanceBytes_def mul64_id)
  qed (use assms(5-7) in \<open>simp add: maintenanceBytes_def\<close>)
  have fit: "lease_Offset ?l + 2 * p + 2 \<le> int (length b)" "0 \<le> lease_Offset ?l" "2 * p + 2 \<le> lease_Length ?l"
    using L len assms(7) b(2) by (auto simp: lease_span_def)
  have mx: "int (length b) \<le> max_int64" using b(2) slab_invD(2) [OF assms(2)] by simp
  have "mul64 p 2 = 2 * p" "add64 (2 * p) 2 = 2 * p + 2" "add64 (lease_Offset ?l) (2 * p) = lease_Offset ?l + 2 * p"
    using fit mx assms(6) by (simp_all add: mul64_id add64_id mult.commute)
  moreover have "rangeInMR t (lease_Offset ?l + 2 * p) 2 = Inr (lease_Offset ?l + 2 * p, 2)"
    using rangeInMR_ok [OF assms(1) b(1) mx] fit assms(6) by simp
  ultimately show ?thesis using fit assms(6-8) by (simp add: maintenanceOffsets_def Let_def)
qed

lemma maintenance_posts_slots:
  assumes "maintenance_posts try_post side t ps = (e, pos)" "lease_sound t" "distinct ps"
  shows "\<forall>po \<in> set pos. po_peer po \<in> set ps \<and> po_length po = 1 \<and> po_side po = side \<and>
      po_offset po = lease_Offset (dt_maintenanceLease t) + 2 * po_peer po + of_bool (side = PostRecv) \<and> 0 \<le> po_peer po \<and>
      2 * po_peer po + 2 \<le> lease_Length (dt_maintenanceLease t)" "distinct (map po_peer pos)"
proof -
  have "(\<forall>po \<in> set pos. po_peer po \<in> set ps \<and> po_length po = 1 \<and> po_side po = side \<and>
      po_offset po = lease_Offset (dt_maintenanceLease t) + 2 * po_peer po + of_bool (side = PostRecv) \<and> 0 \<le> po_peer po \<and>
      2 * po_peer po + 2 \<le> lease_Length (dt_maintenanceLease t)) \<and> distinct (map po_peer pos)"
    using assms(1,3)
  proof (induction ps arbitrary: e pos)
    case (Cons p ps)
    show ?case
    proof (cases "maintenanceOffsets t p")
      case (Inr x)
      obtain a c where x: "x = (a, c)" by (cases x)
      note S = maintenanceOffsets_slot [OF Inr [unfolded x] assms(2)]
      obtain e' pos' where m: "maintenance_posts try_post side t ps = (e', pos')" by fastforce
      from Cons.IH [OF m] Cons.prems(2) show ?thesis
        using Cons.prems Inr x m S by (auto simp: Let_def split: option.splits)
    qed (use Cons.prems in auto)
  qed simp
  then show "\<forall>po \<in> set pos. po_peer po \<in> set ps \<and> po_length po = 1 \<and> po_side po = side \<and>
      po_offset po = lease_Offset (dt_maintenanceLease t) + 2 * po_peer po + of_bool (side = PostRecv) \<and> 0 \<le> po_peer po \<and>
      2 * po_peer po + 2 \<le> lease_Length (dt_maintenanceLease t)" "distinct (map po_peer pos)" by blast+
qed


section \<open>Completions of a run\<close>

text \<open>Maintenance polls like a transfer, but gives up on a completion it does not expect.\<close>

lemma maintenance_absorb_absorb: "maintenance_absorb wrs w = Inr w' \<Longrightarrow> absorb wrs (w, p) = (w', p)"
  by (induction wrs w rule: maintenance_absorb.induct) (auto split: option.splits nat.splits)

lemma maintenance_loop_ok:
  "maintenance_loop polls w = (Returned (), polls') \<Longrightarrow> want_ok w \<Longrightarrow>
   \<exists>batches. polls = map Inr batches @ polls' \<and> work_ids (mset (concat batches)) = want_mset w"
proof (induction polls w rule: maintenance_loop.induct)
  case (1 polls w)
  show ?case
  proof (cases "w = []")
    case True
    then show ?thesis using "1.prems"(1) by (auto simp: maintenance_loop.simps intro: exI [of _ "[]"])
  next
    case False
    then obtain wrs ps w' where p: "polls = Inr wrs # ps" "maintenance_absorb wrs w = Inr w'"
      "maintenance_loop ps w' = (Returned (), polls')"
      using "1.prems"(1) by (subst (asm) maintenance_loop.simps) (auto split: list.splits sum.splits)
    from absorb_spec [OF maintenance_absorb_absorb [OF p(2)] "1.prems"(2), of "[]"]
    have a: "want_mset w = work_ids (mset wrs) + want_mset w'" "want_ok w'" by auto
    from "1.IH" [OF False p(1) refl p(2,3) a(2)] obtain batches where
      "ps = map Inr batches @ polls'" "work_ids (mset (concat batches)) = want_mset w'" by blast
    then show ?thesis using p(1) a(1) by (intro exI [of _ "wrs # batches"]) simp
  qed
qed

abbreviation beat_ids :: "int \<Rightarrow> u64 list" where
  "beat_ids p \<equiv> [transportWorkID daemonWorkHeartbeatRecv p, transportWorkID daemonWorkHeartbeatSend p]"

definition maintained :: "int \<Rightarrow> daemon_conn \<Rightarrow> daemon_conn \<Rightarrow> bool" where
  "maintained p c c' \<longleftrightarrow> dc_maintOps c' = dc_maintOps c + 1 \<and> dc_pending c' = dc_pending c \<and> dc_poison c' = dc_poison c \<and>
     (\<exists>batches. dc_polls c = map Inr batches @ dc_polls c' \<and> work_ids (mset (concat batches)) = mset (beat_ids p))"

lemma maintained_poll:
  assumes "pollMaintenanceExpected (beat_ids p) c = (Returned (), c')"
  shows "maintained p c (recordMaintenance None c')"
proof -
  have w: "want_ok (want_of (beat_ids p))" "want_mset (want_of (beat_ids p)) = mset (beat_ids p)"
    using want_of_spec [of "beat_ids p"] by simp_all
  obtain polls where p: "maintenance_loop (dc_polls c) (want_of (beat_ids p)) = (Returned (), polls)" "c' = c\<lparr>dc_polls := polls\<rparr>"
    using assms by (auto simp: pollMaintenanceExpected_def split: prod.splits)
  show ?thesis
    using maintenance_loop_ok [OF p(1) w(1)] w(2) p(2) by (simp add: maintained_def recordMaintenance_def)
qed

definition none_kept :: "daemon_transport \<Rightarrow> daemon_transport \<Rightarrow> bool" where
  "none_kept t t' \<longleftrightarrow> dt_rank t' = dt_rank t \<and> dt_size t' = dt_size t \<and> dt_slab t' = dt_slab t \<and> dt_mr t' = dt_mr t \<and>
     map (\<lambda>c. c = None) (dt_conns t') = map (\<lambda>c. c = None) (dt_conns t)"

lemma none_kept_set:
  assumes "dt_conns t ! nat p = Some c" "nat p < length (dt_conns t)"
  shows "none_kept t (set_conn p c' t)"
  using assms by (simp add: none_kept_def map_update list_eq_iff_nth_eq nth_list_update) (simp add: set_conn_def)

lemma none_kept_touch: "none_kept t (dt_touch now p u) = none_kept t u"
  by (simp add: none_kept_def) (simp add: dt_touch_def)

lemma none_kept_trans: "none_kept t u \<Longrightarrow> none_kept u v \<Longrightarrow> none_kept t v"
  by (simp add: none_kept_def)

lemma maintenance_polls_spec:
  assumes "maintenance_polls now ps t = (r, t')" "distinct (map nat ps)"
    "\<forall>p \<in> set ps. nat p < length (dt_conns t) \<and> dt_conns t ! nat p \<noteq> None"
  shows "none_kept t t' \<and> (\<forall>i. i \<notin> nat ` set ps \<longrightarrow> dt_conns t' ! i = dt_conns t ! i) \<and>
    (r = Returned () \<longrightarrow> (\<forall>p \<in> set ps. maintained p (the (dt_conns t ! nat p)) (the (dt_conns t' ! nat p)) \<and> dt_conns t' ! nat p \<noteq> None))"
  using assms
proof (induction ps arbitrary: t)
  case Nil
  then show ?case by (simp add: none_kept_def)
next
  case (Cons p ps)
  obtain c where c: "dt_conns t ! nat p = Some c" "nat p < length (dt_conns t)" using Cons.prems(3) by auto
  obtain x c' where x: "pollMaintenanceExpected (beat_ids p) c = (x, c')" by fastforce
  show ?case
  proof (cases "x = Returned ()")
    case False
    then have "r = x \<and> t' = set_conn p c' t" using Cons.prems(1) c(1) x by (cases x) auto
    then show ?thesis using False none_kept_set [OF c] by auto
  next
    case True
    let ?c = "recordMaintenance None c'"
    let ?t = "dt_touch now p (set_conn p ?c t)"
    have run: "maintenance_polls now ps ?t = (r, t')" using Cons.prems(1) c(1) x True by simp
    have np: "nat p \<notin> nat ` set ps" "distinct (map nat ps)" using Cons.prems(2) by auto
    have same: "dt_conns ?t ! nat q = dt_conns t ! nat q" if "q \<in> set ps" for q
    proof -
      have "nat q \<noteq> nat p" using np(1) that by (metis imageI)
      then show ?thesis by simp
    qed
    then have "\<forall>q \<in> set ps. nat q < length (dt_conns ?t) \<and> dt_conns ?t ! nat q \<noteq> None" using Cons.prems(3) by simp
    note IH = Cons.IH [OF run np(2) this]
    have "none_kept t t'" using IH none_kept_set [OF c, of ?c] none_kept_trans none_kept_touch by blast
    moreover have "dt_conns t' ! nat p = Some ?c" using IH np(1) c(2) by simp
    moreover have "maintained p c ?c" using maintained_poll x True by blast
    ultimately show ?thesis using IH same c(1) by auto
  qed
qed


section \<open>Poisoned connections\<close>

definition poisoned :: "daemon_transport \<Rightarrow> bool" where
  "poisoned t \<longleftrightarrow> (\<forall>i < length (dt_conns t). int i \<noteq> dt_rank t \<longrightarrow>
     (\<forall>c. dt_conns t ! i = Some c \<longrightarrow> dc_poison c \<noteq> None))"

lemma poisonMaintenance_poisons: "poisoned (poisonMaintenance e t)" "none_kept t (poisonMaintenance e t)"
proof -
  show "poisoned (poisonMaintenance e t)"
    by (auto simp: poisoned_def poisonMaintenance_def recordMaintenance_def poisonHeartbeat_def split: if_splits)
  show "none_kept t (poisonMaintenance e t)"
    by (auto simp: none_kept_def poisonMaintenance_def intro!: nth_equalityI split: if_splits)
qed

text \<open>A poisoned transport posts nothing more to its peers.\<close>

lemma poisoned_transfer:
  assumes "poisoned t" "int (length (dt_conns t)) = dt_size t" "p \<noteq> dt_rank t"
  shows "fst (snd (dt_transfer side kind try_post enter now p off len t)) = []"
    "fst (snd (dt_heartbeat try_post msg free now p t)) = []"
proof -
  have bad: "checkReady p (Some c) \<noteq> None" if "dt_conn t p = Inr c" for c
  proof -
    have "0 \<le> p" "p < dt_size t" "dt_conns t ! nat p = Some c"
      using that by (auto simp: dt_conn_def split: if_splits option.splits)
    then have "dc_poison c \<noteq> None" using assms unfolding poisoned_def by (metis int_nat_eq nat_less_iff of_nat_less_iff)
    then show ?thesis by (auto simp: checkReady_def)
  qed
  then show "fst (snd (dt_transfer side kind try_post enter now p off len t)) = []"
    "fst (snd (dt_heartbeat try_post msg free now p t)) = []"
    by (auto simp: dt_transfer_def dt_heartbeat_def Let_def split: sum.splits option.splits prod.splits)
qed

section \<open>Runs\<close>

lemma maintenance_ready_cases:
  assumes "\<forall>p \<in> set ps. dt_conns t ! nat p \<noteq> None"
  shows "case maintenance_ready t ps of
      None \<Rightarrow> \<forall>p \<in> set ps. \<exists>c. dt_conns t ! nat p = Some c \<and> dc_poison c = None \<and> dc_pending c = []
    | Some (e, x) \<Rightarrow> x \<or> (\<exists>p \<in> set ps. \<exists>c. dt_conns t ! nat p = Some c \<and> dc_poison c \<noteq> None)"
  using assms by (induction t ps rule: maintenance_ready.induct) (auto simp: checkReady_def split: option.splits)

lemma live_peers_conn: "p \<in> set (live_peers t) \<Longrightarrow> nat p < length (dt_conns t) \<and> dt_conns t ! nat p \<noteq> None"
  by (auto simp: live_peers_def)

definition slots_ok :: "daemon_transport \<Rightarrow> post list \<Rightarrow> bool" where
  "slots_ok t pos \<longleftrightarrow> distinct (map po_offset pos) \<and> (\<forall>po \<in> set pos. po_length po = 1 \<and>
     po_offset po \<in> span_set (lease_span (dt_maintenanceLease t)))"

lemma slots_okI:
  assumes "maintenance_posts try_post PostRecv t ps = (e, pr)" "maintenance_posts try_post PostSend t ps = (e', ps')"
    "lease_sound t" "distinct ps"
  shows "slots_ok t (pr @ ps')" "slots_ok t pr"
proof -
  note R = maintenance_posts_slots [OF assms(1,3,4)] and S = maintenance_posts_slots [OF assms(2,3,4)]
  have dr: "distinct (map po_offset pr)" "distinct (map po_offset ps')"
    using R S by (auto simp: distinct_map inj_on_def)
  have in_l: "po_length po = 1 \<and> po_offset po \<in> span_set (lease_span (dt_maintenanceLease t))"
    if "po \<in> set (pr @ ps')" for po
    using that R(1) S(1) by (auto simp: span_set_def lease_span_def)
  have "po_offset a \<noteq> po_offset b" if "a \<in> set pr" "b \<in> set ps'" for a b
  proof -
    have "po_offset a = lease_Offset (dt_maintenanceLease t) + 2 * po_peer a + 1"
      "po_offset b = lease_Offset (dt_maintenanceLease t) + 2 * po_peer b" using R(1) S(1) that by auto
    then show ?thesis by presburger
  qed
  then show "slots_ok t (pr @ ps')" "slots_ok t pr" using dr in_l by (auto simp: slots_ok_def)
qed

lemma runMaintenanceLocked_spec:
  assumes "runMaintenanceLocked try_post msg now t = (r, pos, t')" "lease_sound t"
  shows "slots_ok t pos" "none_kept t t'"
    "r = Failed e \<Longrightarrow> poisoned t' \<or> pos = [] \<and> t' = t \<and> (\<exists>p \<in> set (live_peers t). \<exists>c. dt_conns t ! nat p = Some c \<and> dc_poison c \<noteq> None)"
    "r = Returned () \<Longrightarrow> \<forall>p \<in> set (live_peers t). \<exists>c c'. dt_conns t ! nat p = Some c \<and> dt_conns t' ! nat p = Some c' \<and>
       maintained p c c' \<and> dc_pending c = [] \<and> dc_poison c = None"
proof -
  let ?ps = "live_peers t"
  note d = live_peers_distinct [where t = t]
  obtain e1 pr where pr: "maintenance_posts try_post PostRecv t ?ps = (e1, pr)" by fastforce
  obtain e2 ps where ps: "maintenance_posts try_post PostSend t ?ps = (e2, ps)" by fastforce
  obtain x u where u: "maintenance_polls now ?ps t = (x, u)" by fastforce
  note S = slots_okI [OF pr ps assms(2) d(1)]
  have live: "\<forall>p \<in> set ?ps. nat p < length (dt_conns t) \<and> dt_conns t ! nat p \<noteq> None" using live_peers_conn by blast
  note U = maintenance_polls_spec [OF u d(2) live]
  have ready: "case maintenance_ready t ?ps of
      None \<Rightarrow> \<forall>p \<in> set ?ps. \<exists>c. dt_conns t ! nat p = Some c \<and> dc_poison c = None \<and> dc_pending c = []
    | Some (e, x) \<Rightarrow> x \<or> (\<exists>p \<in> set ?ps. \<exists>c. dt_conns t ! nat p = Some c \<and> dc_poison c \<noteq> None)"
    using live by (intro maintenance_ready_cases) blast
  have nil: "slots_ok t []" "none_kept t t" by (simp_all add: slots_ok_def none_kept_def)
  note run = assms(1) [unfolded runMaintenanceLocked_def Let_def pr ps u]
  show "slots_ok t pos" using run S nil by (auto split: option.splits prod.splits outcome.splits)
  have nk: "none_kept t u" "none_kept t (poisonMaintenance m t)" "none_kept t (poisonMaintenance m u)" for m
    using U poisonMaintenance_poisons(2) none_kept_trans by blast+
  show "none_kept t t'" using run nil nk by (auto split: option.splits prod.splits outcome.splits if_splits)
  show "poisoned t' \<or> pos = [] \<and> t' = t \<and> (\<exists>p \<in> set ?ps. \<exists>c. dt_conns t ! nat p = Some c \<and> dc_poison c \<noteq> None)"
    if "r = Failed e"
    using run ready that poisonMaintenance_poisons(1)
    by (auto split: option.splits prod.splits outcome.splits if_splits)
  assume "r = Returned ()"
  then have r: "maintenance_ready t ?ps = None" "x = Returned ()" "t' = u"
    using run by (auto split: option.splits prod.splits outcome.splits)
  then show "\<forall>p \<in> set ?ps. \<exists>c c'. dt_conns t ! nat p = Some c \<and> dt_conns t' ! nat p = Some c' \<and>
       maintained p c c' \<and> dc_pending c = [] \<and> dc_poison c = None"
    using U ready by fastforce
qed


section \<open>Properties\<close>


text \<open>A pair of ranks: the peer's completions arrive, and the run succeeds; its second barrier fails.\<close>

definition conn_beat :: daemon_conn where
  "conn_beat = \<lparr> dc_pending = [], dc_polls = [Inr [wr (transportWorkID daemonWorkHeartbeatRecv 1), wr (transportWorkID daemonWorkHeartbeatSend 1)]],
     dc_poison = None, dc_remote = zero_hb_lease, dc_hbWrites = 0, dc_hbErrors = 0, dc_maintOps = 0, dc_maintErrs = 0 \<rparr>"

definition slab_beat :: slab where
  "slab_beat = snd (Alloc (maintenanceBytes 2) slab16)"

definition transport_beat :: daemon_transport where
  "transport_beat = \<lparr> dt_rank = 0, dt_size = 2, dt_slab = Some slab_beat, dt_mr = None, dt_side = True, dt_tracker = None,
     dt_maintenanceLease = \<lparr> lease_ID = 1, lease_Offset = 0, lease_Length = 4 \<rparr>, dt_heartbeatLease = zero_hb_lease,
     dt_conns = [None, Some conn_beat] \<rparr>"

lemma run_beat:
  "\<exists>pos t'. runMaintenanceLocked (\<lambda>_. None) (\<lambda>_. ''failed'') 0 transport_beat = (Returned (), pos, t') \<and> map po_offset pos = [3, 2]"
proof -
  let ?t = transport_beat
  have live: "live_peers ?t = [1]" by (simp add: live_peers_def transport_beat_def upt_conv_Cons numeral_2_eq_2)
  have conn: "dt_conns ?t ! Suc 0 = Some conn_beat" "checkReady 1 (Some conn_beat) = None" "dc_pending conn_beat = []"
    by (simp_all add: transport_beat_def checkReady_def conn_beat_def)
  have data: "sl_data slab_beat = Some (replicate 16 0)"
    by (simp add: slab_beat_def maintenanceBytes_def mul64_def wrap64_def max_int64_def Alloc_def slab_next_def slab16_def)
  have off: "maintenanceOffsets ?t 1 = Inr (2, 3)"
    by (simp add: maintenanceOffsets_def mul64_def add64_def wrap64_def max_int64_def rangeInMR_def dt_bytes_def
        transport_beat_def slab_Bytes_def data)
  have ids: "transportWorkID daemonWorkHeartbeatRecv 1 = 262145" "transportWorkID daemonWorkHeartbeatSend 1 = 327681"
    by (simp_all add: transportWorkID_def work_kinds push_bit_eq_mult)
  have "pollMaintenanceExpected (beat_ids 1) conn_beat = (Returned (), conn_beat\<lparr>dc_polls := []\<rparr>)"
    by (simp add: pollMaintenanceExpected_def want_of_def conn_beat_def maintenance_loop.simps ids wr_def)
  then show ?thesis
    by (simp add: runMaintenanceLocked_def live conn off Let_def)
qed


end
