(* ===== verification/Config.thy ===== *)
theory Config
  imports Backend
begin

text \<open>
  The configuration of a group, \<^verbatim>\<open>src/config.go\<close>: what the environment says and which configurations
  are accepted.  The environment is a function from names to values; reading a file and decoding the JSON
  text of a device matrix are parameters.
\<close>

section \<open>Data\<close>

definition BackendAuto :: string where "BackendAuto = ''auto''"
definition BackendDirect :: string where "BackendDirect = ''direct''"
definition BackendDaemon :: string where "BackendDaemon = ''daemon''"

definition DefaultSocket :: string where
  "DefaultSocket = ''/tmp/jaccld/jaccld.sock''"

record config =
  cf_Rank :: int
  cf_Size :: int
  cf_Coordinator :: string
  cf_Devices :: matrix
  cf_PreferRing :: bool
  cf_Backend :: string
  cf_DaemonSocket :: string

definition zero_config :: config where
  "zero_config = \<lparr> cf_Rank = 0, cf_Size = 0, cf_Coordinator = '''', cf_Devices = [], cf_PreferRing = False,
     cf_Backend = '''', cf_DaemonSocket = '''' \<rparr>"

datatype config_error =
    RankMissing
  | RankParse string
  | SizeParse string
  | RingParse string
  | DevicesRead string string
  | DevicesParse string string
  | RankNegative int
  | BackendInvalid string
  | CoordinatorEmpty
  | BadMatrix topo_error
  | SizeMismatch int nat
  | RankBeyond int int
  | NoTopologyFor topo_error
  | SizeInvalid int

section \<open>Validation\<close>

definition backendMode :: "config \<Rightarrow> string" where
  "backendMode c =
     (let b = ToLower (TrimSpace (cf_Backend c)) in
      if b = '''' \<or> b = BackendAuto then BackendAuto
      else if b = BackendDirect then BackendDirect
      else if b = BackendDaemon then BackendDaemon
      else b)"

definition daemonSocket :: "config \<Rightarrow> string" where
  "daemonSocket c =
     (let s = TrimSpace (cf_DaemonSocket c) in if s \<noteq> '''' then s else DefaultSocket)"

definition groupSize :: "config \<Rightarrow> config_error + int" where
  "groupSize c =
     (if 0 < length (cf_Devices c) then
        (case ValidateDeviceMatrix (cf_Devices c) of Some e \<Rightarrow> Inl (BadMatrix e)
         | None \<Rightarrow>
             if 0 < cf_Size c \<and> cf_Size c \<noteq> int (length (cf_Devices c))
             then Inl (SizeMismatch (cf_Size c) (length (cf_Devices c)))
             else Inr (int (length (cf_Devices c))))
      else if cf_Size c \<le> 0 then Inl (SizeInvalid (cf_Size c))
      else Inr (cf_Size c))"

definition validateDaemon :: "config \<Rightarrow> config_error option" where
  "validateDaemon c =
     (case groupSize c of Inl e \<Rightarrow> Some e
      | Inr size' \<Rightarrow> if cf_Rank c \<ge> size' then Some (RankBeyond (cf_Rank c) size') else None)"

definition validateDirect :: "config \<Rightarrow> config_error option" where
  "validateDirect c =
     (let n = length (cf_Devices c) in
      if TrimSpace (cf_Coordinator c) = '''' then Some CoordinatorEmpty
      else case ValidateDeviceMatrix (cf_Devices c) of Some e \<Rightarrow> Some (BadMatrix e)
      | None \<Rightarrow>
          if 0 < cf_Size c \<and> cf_Size c \<noteq> int n then Some (SizeMismatch (cf_Size c) n)
          else if cf_Rank c \<ge> int n then Some (RankBeyond (cf_Rank c) (int n))
          else (case Choose (cf_Devices c) (cf_PreferRing c) of Inl e \<Rightarrow> Some (NoTopologyFor e) | Inr _ \<Rightarrow> None))"

definition validate_config :: "config \<Rightarrow> config_error option" where
  "validate_config c =
     (if cf_Rank c < 0 then Some (RankNegative (cf_Rank c))
      else if backendMode c = BackendAuto \<or> backendMode c = BackendDirect then validateDirect c
      else if backendMode c = BackendDaemon then validateDaemon c
      else Some (BackendInvalid (cf_Backend c)))"

section \<open>The environment\<close>

type_synonym environ = "string \<Rightarrow> string option"

definition getenv :: "environ \<Rightarrow> string \<Rightarrow> string \<Rightarrow> string option" where
  "getenv env primary fallback = (case env primary of Some v \<Rightarrow> Some v | None \<Rightarrow> env fallback)"

fun getenvAny :: "environ \<Rightarrow> string list \<Rightarrow> string option" where
  "getenvAny env [] = None"
| "getenvAny env (name # names) = (case env name of Some v \<Rightarrow> Some v | None \<Rightarrow> getenvAny env names)"

definition parseBool :: "string \<Rightarrow> bool option" where
  "parseBool s =
     (let t = ToLower (TrimSpace s) in
      if t \<in> {''1'', ''t'', ''true'', ''y'', ''yes'', ''on''} then Some True
      else if t \<in> {''0'', ''f'', ''false'', ''n'', ''no'', ''off'', ''''} then Some False
      else None)"

record config_files =
  fs_ReadFile :: "string \<Rightarrow> string + bytes"
  fs_Unmarshal :: "bytes \<Rightarrow> string + matrix"

definition readDeviceMatrix :: "config_files \<Rightarrow> string \<Rightarrow> config_error + matrix" where
  "readDeviceMatrix fs path =
     (case fs_ReadFile fs path of Inl e \<Rightarrow> Inl (DevicesRead path e)
      | Inr data \<Rightarrow> (case fs_Unmarshal fs data of Inl e \<Rightarrow> Inl (DevicesParse path e) | Inr m \<Rightarrow> Inr m))"

text \<open>The body of \<open>ConfigFromEnv\<close>, one step per group of variables.\<close>

definition env_backend :: "environ \<Rightarrow> config \<Rightarrow> config" where
  "env_backend env c =
     (let c1 = (case env ''JACCL_BACKEND'' of Some b \<Rightarrow> c\<lparr>cf_Backend := b\<rparr> | None \<Rightarrow> c);
          c2 = (case env ''JACCL_DAEMON_SOCKET'' of Some s \<Rightarrow> c1\<lparr>cf_DaemonSocket := s\<rparr> | None \<Rightarrow> c1) in
      if cf_DaemonSocket c2 = '''' \<and> backendMode c2 = BackendDaemon then c2\<lparr>cf_DaemonSocket := DefaultSocket\<rparr> else c2)"

definition env_size :: "environ \<Rightarrow> config \<Rightarrow> config_error + config" where
  "env_size env c =
     (case getenvAny env [''JACCL_SIZE'', ''MLX_WORLD_SIZE'', ''MLX_SIZE''] of
        None \<Rightarrow> Inr c
      | Some s \<Rightarrow> (case Atoi s of None \<Rightarrow> Inl (SizeParse s) | Some n \<Rightarrow> Inr (c\<lparr>cf_Size := n\<rparr>)))"

definition env_coordinator :: "environ \<Rightarrow> config \<Rightarrow> config" where
  "env_coordinator env c =
     (case getenv env ''JACCL_COORDINATOR'' ''MLX_JACCL_COORDINATOR'' of
        Some s \<Rightarrow> c\<lparr>cf_Coordinator := s\<rparr> | None \<Rightarrow> c)"

definition env_devices :: "config_files \<Rightarrow> environ \<Rightarrow> config \<Rightarrow> config_error + config" where
  "env_devices fs env c =
     (case getenv env ''JACCL_IBV_DEVICES'' ''MLX_IBV_DEVICES'' of
        None \<Rightarrow> Inr c
      | Some path \<Rightarrow>
          (case readDeviceMatrix fs path of Inl e \<Rightarrow> Inl e | Inr m \<Rightarrow> Inr (c\<lparr>cf_Devices := m\<rparr>)))"

definition env_ring :: "environ \<Rightarrow> config \<Rightarrow> config_error + config" where
  "env_ring env c =
     (case getenv env ''JACCL_RING'' ''MLX_JACCL_RING'' of
        None \<Rightarrow> Inr c
      | Some s \<Rightarrow> (case parseBool s of None \<Rightarrow> Inl (RingParse s) | Some b \<Rightarrow> Inr (c\<lparr>cf_PreferRing := b\<rparr>)))"

definition ConfigFromEnv :: "config_files \<Rightarrow> environ \<Rightarrow> config_error + config" where
  "ConfigFromEnv fs env =
     (case getenv env ''JACCL_RANK'' ''MLX_RANK'' of
        None \<Rightarrow> Inl RankMissing
      | Some rankText \<Rightarrow>
          (case Atoi rankText of
             None \<Rightarrow> Inl (RankParse rankText)
           | Some rank \<Rightarrow>
               (case env_size env (env_backend env (zero_config\<lparr>cf_Rank := rank\<rparr>)) of
                  Inl e \<Rightarrow> Inl e
                | Inr c \<Rightarrow>
                    (case env_devices fs env (env_coordinator env c) of
                       Inl e \<Rightarrow> Inl e
                     | Inr c \<Rightarrow>
                         (case env_ring env c of
                            Inl e \<Rightarrow> Inl e
                          | Inr c \<Rightarrow> (case validate_config c of Some e \<Rightarrow> Inl e | None \<Rightarrow> Inr c))))))"

section \<open>Accepted configurations\<close>

text \<open>The configurations a group can run with.\<close>

definition config_wf :: "config \<Rightarrow> bool" where
  "config_wf c \<longleftrightarrow> 0 \<le> cf_Rank c \<and>
     (if backendMode c = BackendDaemon
      then (if cf_Devices c = [] then cf_Rank c < cf_Size c
            else square (cf_Devices c) \<and> cf_Rank c < int (length (cf_Devices c)) \<and>
              (0 < cf_Size c \<longrightarrow> cf_Size c = int (length (cf_Devices c))))
      else (backendMode c = BackendAuto \<or> backendMode c = BackendDirect) \<and>
        TrimSpace (cf_Coordinator c) \<noteq> '''' \<and> cf_Rank c < int (length (cf_Devices c)) \<and>
        (0 < cf_Size c \<longrightarrow> cf_Size c = int (length (cf_Devices c))) \<and>
        (\<exists>t. Choose (cf_Devices c) (cf_PreferRing c) = Inr t))"


lemma mode_distinct [simp]:
  "BackendAuto \<noteq> BackendDaemon" "BackendDirect \<noteq> BackendDaemon" "BackendDaemon \<noteq> BackendAuto" "BackendDaemon \<noteq> BackendDirect"
  by (simp_all add: BackendAuto_def BackendDirect_def BackendDaemon_def)

lemma validateDirect_None:
  "validateDirect c = None \<longleftrightarrow> TrimSpace (cf_Coordinator c) \<noteq> '''' \<and> cf_Rank c < int (length (cf_Devices c)) \<and>
     (0 < cf_Size c \<longrightarrow> cf_Size c = int (length (cf_Devices c))) \<and>
     (\<exists>t. Choose (cf_Devices c) (cf_PreferRing c) = Inr t)"
proof -
  have "square (cf_Devices c)" if "Choose (cf_Devices c) (cf_PreferRing c) = Inr t" for t using Choose_square that by blast
  then show ?thesis
    using ValidateDeviceMatrix_None [of "cf_Devices c"]
    by (auto simp: validateDirect_def Let_def split: option.splits sum.splits)
qed

lemma groupSize_Inr:
  "groupSize c = Inr n \<longleftrightarrow>
     (if cf_Devices c = [] then n = cf_Size c \<and> 0 < n
      else n = int (length (cf_Devices c)) \<and> square (cf_Devices c) \<and> (0 < cf_Size c \<longrightarrow> cf_Size c = n))"
  using ValidateDeviceMatrix_None [of "cf_Devices c"] by (auto simp: groupSize_def split: option.splits)

lemma validateDaemon_None: "validateDaemon c = None \<longleftrightarrow> (\<exists>n. groupSize c = Inr n \<and> cf_Rank c < n)"
  by (auto simp: validateDaemon_def split: sum.splits)

lemma validate_config_None: "validate_config c = None \<longleftrightarrow> config_wf c"
proof (cases "backendMode c = BackendDaemon")
  case True
  then show ?thesis by (auto simp: validate_config_def config_wf_def validateDaemon_None groupSize_Inr square_def)
next
  case False
  then show ?thesis by (simp add: validate_config_def config_wf_def validateDirect_None not_less)
qed

text \<open>The steps keep the rank.\<close>

lemma env_rank:
  "cf_Rank (env_backend env c) = cf_Rank c" "cf_Rank (env_coordinator env c) = cf_Rank c"
  "env_size env c = Inr c' \<Longrightarrow> cf_Rank c' = cf_Rank c" "env_devices fs env c = Inr c' \<Longrightarrow> cf_Rank c' = cf_Rank c"
  "env_ring env c = Inr c' \<Longrightarrow> cf_Rank c' = cf_Rank c"
  by (auto simp: env_backend_def env_coordinator_def env_size_def env_devices_def env_ring_def Let_def
      split: option.splits sum.splits if_splits)

lemma ConfigFromEnv_Inr:
  assumes "ConfigFromEnv fs env = Inr c"
  obtains s where "getenv env ''JACCL_RANK'' ''MLX_RANK'' = Some s" "Atoi s = Some (cf_Rank c)" "validate_config c = None"
  using assms
  by (auto simp: ConfigFromEnv_def split: option.splits sum.splits dest!: env_rank(3-5) simp: env_rank(1,2))

lemma config_wf_size:
  assumes "config_wf c"
  shows "\<exists>n. groupSize c = Inr n \<and> cf_Rank c < n"
proof (cases "backendMode c = BackendDaemon")
  case True
  then show ?thesis using assms by (auto simp: config_wf_def groupSize_Inr split: if_splits)
next
  case False
  then obtain t where t: "Choose (cf_Devices c) (cf_PreferRing c) = Inr t" using assms by (auto simp: config_wf_def)
  then have "square (cf_Devices c)" by (rule Choose_square)
  then show ?thesis using assms False by (auto simp: config_wf_def groupSize_Inr square_def)
qed

section \<open>Properties\<close>

text \<open>C34.  Accepted configurations are well-formed.  \<open>validate\<close> accepts exactly the configurations with a
known backend and a rank below the size of the group, and, for the direct backend, a coordinator and a
device matrix that a topology fits.  Whatever the environment, \<open>ConfigFromEnv\<close> returns only such
configurations, with the rank of the first rank variable that is set, and the direct backend built from one
has that rank, the size of the group, and a topology the matrix satisfies.\<close>

theorem accepted_config_sound:
  "(validate_config c = None \<longleftrightarrow> config_wf c) \<and>
   (ConfigFromEnv fs env = Inr c \<longrightarrow> config_wf c \<and>
     (\<exists>s. getenv env ''JACCL_RANK'' ''MLX_RANK'' = Some s \<and> Atoi s = Some (cf_Rank c)) \<and>
     (\<exists>n. groupSize c = Inr n \<and> 0 \<le> cf_Rank c \<and> cf_Rank c < n \<and>
       (backendMode c \<noteq> BackendDaemon \<longrightarrow>
         (\<exists>b. new_backend (cf_Devices c) (cf_PreferRing c) (nat (cf_Rank c)) = Inr b \<and>
            int (be_rank b) = cf_Rank c \<and> int (be_size b) = n \<and> valid_as (be_topo b) (cf_Devices c)))))"
proof (intro conjI impI)
  show "validate_config c = None \<longleftrightarrow> config_wf c" by (rule validate_config_None)
  assume e: "ConfigFromEnv fs env = Inr c"
  then obtain s where s: "getenv env ''JACCL_RANK'' ''MLX_RANK'' = Some s" "Atoi s = Some (cf_Rank c)" "validate_config c = None"
    by (rule ConfigFromEnv_Inr)
  then show wf: "config_wf c" using validate_config_None by blast
  show "\<exists>s. getenv env ''JACCL_RANK'' ''MLX_RANK'' = Some s \<and> Atoi s = Some (cf_Rank c)" using s by blast
  from config_wf_size [OF wf] obtain n where n: "groupSize c = Inr n" "cf_Rank c < n" by blast
  have r0: "0 \<le> cf_Rank c" using wf by (simp add: config_wf_def)
  have "\<exists>b. new_backend (cf_Devices c) (cf_PreferRing c) (nat (cf_Rank c)) = Inr b \<and>
      int (be_rank b) = cf_Rank c \<and> int (be_size b) = n \<and> valid_as (be_topo b) (cf_Devices c)"
    if d: "backendMode c \<noteq> BackendDaemon"
  proof -
    obtain t where t: "Choose (cf_Devices c) (cf_PreferRing c) = Inr t" using wf d by (auto simp: config_wf_def)
    have "n = int (length (cf_Devices c))" using n(1) Choose_square [OF t] by (auto simp: groupSize_Inr square_def)
    then show ?thesis using t r0 Choose_Inr [OF t] by (simp add: new_backend_def)
  qed
  then show "\<exists>n. groupSize c = Inr n \<and> 0 \<le> cf_Rank c \<and> cf_Rank c < n \<and>
       (backendMode c \<noteq> BackendDaemon \<longrightarrow>
         (\<exists>b. new_backend (cf_Devices c) (cf_PreferRing c) (nat (cf_Rank c)) = Inr b \<and>
            int (be_rank b) = cf_Rank c \<and> int (be_size b) = n \<and> valid_as (be_topo b) (cf_Devices c)))"
    using n r0 by blast
qed

definition env_pair :: environ where
  "env_pair = [''MLX_RANK'' \<mapsto> ''1'', ''JACCL_COORDINATOR'' \<mapsto> ''host:9000'', ''JACCL_IBV_DEVICES'' \<mapsto> ''devices.json'', ''JACCL_RING'' \<mapsto> ''no'']"

definition files_pair :: config_files where
  "files_pair = \<lparr> fs_ReadFile = (\<lambda>p. Inr []), fs_Unmarshal = (\<lambda>d. Inr pair_matrix) \<rparr>"

theorem accepted_config_sound_witness:
  "\<exists>c b. ConfigFromEnv files_pair env_pair = Inr c \<and> config_wf c \<and>
    new_backend (cf_Devices c) (cf_PreferRing c) (nat (cf_Rank c)) = Inr b \<and> int (be_rank b) = cf_Rank c"
proof -
  let ?c = "\<lparr> cf_Rank = 1, cf_Size = 0, cf_Coordinator = ''host:9000'', cf_Devices = pair_matrix, cf_PreferRing = False,
     cf_Backend = '''', cf_DaemonSocket = '''' \<rparr>"
  have "ConfigFromEnv files_pair env_pair = Inr ?c" by code_simp
  moreover have "backendMode ?c \<noteq> BackendDaemon" by code_simp
  ultimately obtain c where c: "ConfigFromEnv files_pair env_pair = Inr c" "backendMode c \<noteq> BackendDaemon" by blast
  then show ?thesis using accepted_config_sound [of c files_pair env_pair] by blast
qed

end
