(* ===== verification/Client.thy ===== *)
theory Client
  imports Connections
begin

text \<open>
  The control client, \<^verbatim>\<open>src/internal/ipc/client.go\<close>, joined to the daemon's request loop: a request is
  answered by \<open>serve_request\<close>, and the answer waits in the socket until the client reads it.

  A \<open>link\<close> is one client's connection: the daemon's server and connection state, the answers written but not
  read, the descriptors received and not closed, and the shared memory.  \<open>client_env\<close> says how the world
  treats the \<open>n\<close>-th call: what \<^verbatim>\<open>ctx.Err()\<close> returns, whether the write and the read succeed, which work
  has ended by then, and which bytes of the memory the daemon's transport writes meanwhile.  Other clients are
  not in this picture.
\<close>

section \<open>Calls\<close>

text \<open>A read returns what the socket holds: \<open>Reads n\<close> takes \<open>n\<close> answers at once, and only one decodes.\<close>

datatype read_outcome = Reads nat | ReadTimeout string

record client_env =
  ce_ctx :: "ctx_error option"
  ce_write :: "string option"
  ce_read :: read_outcome
  ce_srv :: env
  ce_works :: "u64 \<Rightarrow> string option option"
  ce_mem :: "nat \<Rightarrow> u8 option"

record link =
  lk_env :: "nat \<Rightarrow> client_env"
  lk_calls :: nat
  lk_nil :: bool
  lk_shut :: bool
  lk_server :: server
  lk_conn :: conn
  lk_pending :: "response list"
  lk_fds :: "int list"
  lk_mem :: bytes
  lk_mapped :: "int option"

datatype client_error =
    ClientCtx ctx_error
  | ClientClosed
  | WriteRequest string
  | ReadResponse string
  | DecodeResponse
  | Remote ipc_error
  | WorkFailed string
  | MapDescriptors nat
  | MapSize int
  | MapFailed string
  | MappingClosed
  | LeaseInvalid u64 int int
  | LeaseOutside u64 int int nat

definition zero_peer :: peer_spec where
  "zero_peer = \<lparr> peer_Rank = 0, peer_QueuePairNumber = 0, peer_PacketSequenceNumber = 0, peer_LocalID = 0,
     peer_GlobalID = '''', peer_MTU = 0, peer_Memory = \<lparr> rm_Addr = 0, rm_RKey = 0 \<rparr> \<rparr>"

definition empty_request :: request where
  "empty_request = \<lparr> rq_op = '''', rq_size = 0, rq_lease_id = 0, rq_peer = 0, rq_offset = 0, rq_length = 0,
     rq_client_id = '''', rq_session_peer = zero_peer, rq_deadline = 0,
     rq_heartbeat_mr = zero_heartbeat, rq_heartbeat = 0, rq_session_id = 0,
     rq_work_id = 0, rq_reduction_op = 0, rq_dtype = 0, rq_element_size = 0, rq_dst_offset = 0,
     rq_dst_length = 0, rq_dst_lease_id = 0, rq_src_offset = 0, rq_src_length = 0, rq_src_lease_id = 0 \<rparr>"

text \<open>Work that has ended by the time of a call.\<close>

definition finish_work :: "(u64 \<Rightarrow> string option option) \<Rightarrow> conn \<Rightarrow> conn" where
  "finish_work f c = c\<lparr>cn_work := map (\<lambda>(i, w). (i, if wk_done w = None then w\<lparr>wk_done := f i\<rparr> else w)) (cn_work c)\<rparr>"

definition response_fds :: "response \<Rightarrow> int list" where
  "response_fds r = (case rp_fd r of None \<Rightarrow> [] | Some fd \<Rightarrow> [fd])"

definition daemon_writes :: "(nat \<Rightarrow> u8 option) \<Rightarrow> bytes \<Rightarrow> bytes" where
  "daemon_writes f m = map (\<lambda>i. case f i of None \<Rightarrow> m ! i | Some b \<Rightarrow> b) [0..<length m]"

definition this_env :: "link \<Rightarrow> client_env" where
  "this_env lk = lk_env lk (lk_calls lk)"

text \<open>\<open>readResponse\<close>: the descriptors of answers that do not decode are received, but not returned.\<close>

definition readResponse :: "read_outcome \<Rightarrow> link \<Rightarrow> (client_error + response) \<times> int list \<times> link" where
  "readResponse out lk =
     (case out of ReadTimeout e \<Rightarrow> (Inl (ReadResponse e), [], lk)
      | Reads n \<Rightarrow>
          let taken = take n (lk_pending lk);
              lk' = lk\<lparr>lk_pending := drop n (lk_pending lk), lk_fds := lk_fds lk @ concat (map response_fds taken)\<rparr> in
          (case taken of [r] \<Rightarrow> (Inr r, response_fds r, lk') | _ \<Rightarrow> (Inl DecodeResponse, [], lk')))"

text \<open>\<open>do\<close>; \<open>bg\<close> says that the caller passes a background context.\<close>

definition client_do :: "bool \<Rightarrow> request \<Rightarrow> link \<Rightarrow> (client_error + response) \<times> int list \<times> link" where
  "client_do bg req lk =
     (let en = this_env lk; lk0 = lk\<lparr>lk_calls := lk_calls lk + 1\<rparr> in
      case (if bg then None else ce_ctx en) of Some e \<Rightarrow> (Inl (ClientCtx e), [], lk0)
      | None \<Rightarrow>
          if lk_nil lk then (Inl ClientClosed, [], lk0)
          else (case (if lk_shut lk then Some ''use of closed network connection'' else ce_write en) of Some e \<Rightarrow> (Inl (WriteRequest e), [], lk0)
                | None \<Rightarrow>
                    (case serve_request (ce_srv en) req (lk_server lk, finish_work (ce_works en) (lk_conn lk)) of
                       (resp, sv, c) \<Rightarrow>
                         (case readResponse (ce_read en) (lk0\<lparr>lk_server := sv, lk_conn := c,
                                 lk_pending := lk_pending lk @ [resp], lk_mem := daemon_writes (ce_mem en) (lk_mem lk)\<rparr>) of
                            (Inl e, fds, lk') \<Rightarrow> (Inl e, fds, lk')
                          | (Inr r, fds, lk') \<Rightarrow>
                              (case response_err r of Some e \<Rightarrow> (Inl (Remote e), fds, lk')
                               | None \<Rightarrow> (Inr r, fds, lk'))))))"

definition closeFDs :: "int list \<Rightarrow> link \<Rightarrow> link" where
  "closeFDs fds lk = lk\<lparr>lk_fds := filter (\<lambda>fd. fd \<notin> set fds) (lk_fds lk)\<rparr>"

definition client_call :: "bool \<Rightarrow> request \<Rightarrow> link \<Rightarrow> (client_error + response) \<times> link" where
  "client_call bg req lk = (case client_do bg req lk of (r, fds, lk') \<Rightarrow> (r, closeFDs fds lk'))"

definition call_error :: "(client_error + response) \<times> link \<Rightarrow> client_error option \<times> link" where
  "call_error x = (case x of (Inl e, lk) \<Rightarrow> (Some e, lk) | (Inr r, lk) \<Rightarrow> (None, lk))"

definition call_result :: "(response \<Rightarrow> 'r) \<Rightarrow> (client_error + response) \<times> link \<Rightarrow> (client_error + 'r) \<times> link" where
  "call_result f x = (case x of (Inl e, lk) \<Rightarrow> (Inl e, lk) | (Inr r, lk) \<Rightarrow> (Inr (f r), lk))"

section \<open>Operations\<close>

definition zero_lease :: lease where
  "zero_lease = \<lparr> lease_ID = 0, lease_Offset = 0, lease_Length = 0 \<rparr>"

definition lease_of :: "response \<Rightarrow> lease" where
  "lease_of r = (case rp_lease r of None \<Rightarrow> zero_lease | Some l \<Rightarrow> l)"

definition client_Alloc where
  "client_Alloc n lk = call_result lease_of (client_call False (empty_request\<lparr>rq_op := ''alloc'', rq_size := n\<rparr>) lk)"

definition client_Free where
  "client_Free bg i lk = call_error (client_call bg (empty_request\<lparr>rq_op := ''free'', rq_lease_id := i\<rparr>) lk)"

definition client_Barrier where
  "client_Barrier lk = call_error (client_call False (empty_request\<lparr>rq_op := ''barrier''\<rparr>) lk)"

definition client_Maintain where
  "client_Maintain lk = call_error (client_call False (empty_request\<lparr>rq_op := ''maintain''\<rparr>) lk)"

definition range_request :: "string \<Rightarrow> int \<Rightarrow> lease \<Rightarrow> request" where
  "range_request op' peer l = empty_request\<lparr>rq_op := op', rq_lease_id := lease_ID l, rq_peer := peer,
     rq_offset := lease_Offset l, rq_length := lease_Length l\<rparr>"

definition client_Send where
  "client_Send peer l lk = call_error (client_call False (range_request ''send'' peer l) lk)"

definition client_Recv where
  "client_Recv peer l lk = call_error (client_call False (range_request ''recv'' peer l) lk)"

definition submit_request :: "string \<Rightarrow> lease \<Rightarrow> lease \<Rightarrow> request" where
  "submit_request op' dst src = empty_request\<lparr>rq_op := op', rq_dst_lease_id := lease_ID dst,
     rq_dst_offset := lease_Offset dst, rq_dst_length := lease_Length dst, rq_src_lease_id := lease_ID src,
     rq_src_offset := lease_Offset src, rq_src_length := lease_Length src\<rparr>"

definition SubmitReduce where
  "SubmitReduce rop dt dst src lk = call_result rp_work_id (client_call False
     ((submit_request ''submit_reduce'' dst src)\<lparr>rq_reduction_op := rop, rq_dtype := dt\<rparr>) lk)"

definition SubmitGather where
  "SubmitGather elemSize dst src lk = call_result rp_work_id (client_call False
     ((submit_request ''submit_gather'' dst src)\<lparr>rq_element_size := elemSize\<rparr>) lk)"

text \<open>\<open>WaitWork\<close> polls under a background context; its own context is consulted before each poll.\<close>

partial_function (option) WaitWork :: "u64 \<Rightarrow> link \<Rightarrow> (client_error option \<times> link) option" where
  "WaitWork i lk =
     (case ce_ctx (this_env lk) of Some e \<Rightarrow> Some (Some (ClientCtx e), lk)
      | None \<Rightarrow>
          (case client_call True (empty_request\<lparr>rq_op := ''wait_work'', rq_work_id := i\<rparr>) lk of
             (Inl e, lk') \<Rightarrow> Some (Some e, lk')
           | (Inr r, lk') \<Rightarrow>
               if rp_ready r
               then Some (case rp_work_error r of None \<Rightarrow> None | Some e \<Rightarrow> if e = '''' then None else Some (WorkFailed e), lk')
               else WaitWork i lk'))"

declare WaitWork.simps [code]

definition client_Stats where
  "client_Stats lk = call_result rp_stats (client_call False (empty_request\<lparr>rq_op := ''stats''\<rparr>) lk)"

definition OpenSession where
  "OpenSession req lk = call_result rp_session (client_call False (empty_request\<lparr>rq_op := ''session_open'',
     rq_client_id := rq_ClientID req, rq_session_peer := rq_Peer req, rq_size := rq_Size req, rq_deadline := rq_Deadline req,
     rq_heartbeat_mr := rq_HeartbeatMR req, rq_heartbeat := rq_Heartbeat req\<rparr>) lk)"

definition RefreshSession where
  "RefreshSession i deadline lk = call_result rp_session (client_call False
     (empty_request\<lparr>rq_op := ''session_refresh'', rq_session_id := i, rq_deadline := deadline\<rparr>) lk)"

definition LookupSession where
  "LookupSession i lk = call_result rp_session (client_call False
     (empty_request\<lparr>rq_op := ''session_lookup'', rq_session_id := i\<rparr>) lk)"

definition CloseSession where
  "CloseSession i lk = call_error (client_call False (empty_request\<lparr>rq_op := ''session_close'', rq_session_id := i\<rparr>) lk)"

definition ResourceStats where
  "ResourceStats lk = call_result rp_resource_stats (client_call False (empty_request\<lparr>rq_op := ''session_stats''\<rparr>) lk)"

text \<open>\<open>Map\<close>; \<open>mm\<close> is what \<^verbatim>\<open>mmap\<close> returns.\<close>

definition client_Map :: "string + bytes \<Rightarrow> link \<Rightarrow> (client_error + int) \<times> link" where
  "client_Map mm lk =
     (case client_do False (empty_request\<lparr>rq_op := ''map''\<rparr>) lk of
        (Inl e, fds, lk') \<Rightarrow> (Inl e, closeFDs fds lk')
      | (Inr r, fds, lk') \<Rightarrow>
          if length fds \<noteq> 1 then (Inl (MapDescriptors (length fds)), closeFDs fds lk')
          else if rp_slab_size r \<le> 0 then (Inl (MapSize (rp_slab_size r)), closeFDs fds lk')
          else (case mm of Inl e \<Rightarrow> (Inl (MapFailed e), closeFDs fds lk')
                | Inr data \<Rightarrow> (Inr (fds ! 0), lk'\<lparr>lk_mem := data, lk_mapped := Some (fds ! 0)\<rparr>)))"

text \<open>\<open>Mapping.Close\<close> and \<open>Client.Close\<close>; \<open>mu\<close>, \<open>cl\<close> and \<open>hu\<close> are the errors of \<^verbatim>\<open>munmap\<close>, of closing the
descriptor and of closing the connection.  A closed mapping has no bytes and the descriptor -1.\<close>

definition mapping_Close :: "client_error option \<Rightarrow> client_error option \<Rightarrow> link \<Rightarrow> client_error option \<times> link" where
  "mapping_Close mu cl lk =
     (case lk_mapped lk of None \<Rightarrow> (None, lk)
      | Some fd \<Rightarrow>
          if fd < 0 then (None, lk)
          else (first_error mu cl, (closeFDs [fd] lk)\<lparr>lk_mem := [], lk_mapped := Some (- 1)\<rparr>))"

definition client_Close :: "client_error option \<Rightarrow> link \<Rightarrow> client_error option \<times> link" where
  "client_Close hu lk = (if lk_nil lk then (None, lk) else (hu, lk\<lparr>lk_shut := True\<rparr>))"

section \<open>Calls over a working connection\<close>

text \<open>A connection that is open, holds no unread answer, and whose every write and read succeeds.\<close>

definition link_live :: "link \<Rightarrow> bool" where
  "link_live lk \<longleftrightarrow> \<not> lk_nil lk \<and> \<not> lk_shut lk \<and> lk_pending lk = [] \<and>
     (\<forall>n. ce_write (lk_env lk n) = None \<and> ce_read (lk_env lk n) = Reads 1)"

text \<open>Whatever work is running, there is always a later call by which it has ended.\<close>

definition work_ends :: "link \<Rightarrow> bool" where
  "work_ends lk \<longleftrightarrow> (\<forall>m. \<exists>n \<ge> m. \<forall>i. ce_works (lk_env lk n) i \<noteq> None)"

lemma finish_work_simps [simp]:
  "cn_leases (finish_work f c) = cn_leases c" "cn_nextWork (finish_work f c) = cn_nextWork c"
  by (simp_all add: finish_work_def)

lemma map_of_finish_work:
  "map_of (cn_work (finish_work f c)) i =
   map_option (\<lambda>w. if wk_done w = None then w\<lparr>wk_done := f i\<rparr> else w) (map_of (cn_work c) i)"
proof -
  have "map_of (map (\<lambda>(j, w). (j, if wk_done w = None then w\<lparr>wk_done := f j\<rparr> else w)) ws) i =
      map_option (\<lambda>w. if wk_done w = None then w\<lparr>wk_done := f i\<rparr> else w) (map_of ws i)" for ws
    by (induction ws) auto
  then show ?thesis by (simp add: finish_work_def)
qed

text \<open>On a working connection a call either stops at its context or is one request served.\<close>

definition served :: "request \<Rightarrow> link \<Rightarrow> response \<times> server \<times> conn" where
  "served req lk = serve_request (ce_srv (this_env lk)) req
     (lk_server lk, finish_work (ce_works (this_env lk)) (lk_conn lk))"

lemma client_call_live:
  assumes live: "link_live lk" and c: "client_call bg req lk = (r, lk')"
  shows "link_live lk' \<and> lk_env lk' = lk_env lk \<and> lk_calls lk' = Suc (lk_calls lk)"
    and "(\<exists>e. \<not> bg \<and> r = Inl (ClientCtx e) \<and> lk_server lk' = lk_server lk \<and> lk_conn lk' = lk_conn lk) \<or>
         (r = (case response_err (fst (served req lk)) of Some e \<Rightarrow> Inl (Remote e) | None \<Rightarrow> Inr (fst (served req lk))) \<and>
          lk_server lk' = fst (snd (served req lk)) \<and> lk_conn lk' = snd (snd (served req lk)))"
proof -
  have L: "\<not> lk_nil lk" "\<not> lk_shut lk" "lk_pending lk = []" "ce_write (this_env lk) = None" "ce_read (this_env lk) = Reads 1"
    using live by (simp_all add: link_live_def this_env_def)
  obtain resp sv cn where S: "served req lk = (resp, sv, cn)"
    using prod_cases3 by blast
  note D = client_call_def client_do_def readResponse_def closeFDs_def Let_def served_def [symmetric]
  show "link_live lk' \<and> lk_env lk' = lk_env lk \<and> lk_calls lk' = Suc (lk_calls lk)"
    using c live L S by (auto simp: D link_live_def split: option.splits if_splits)
  show "(\<exists>e. \<not> bg \<and> r = Inl (ClientCtx e) \<and> lk_server lk' = lk_server lk \<and> lk_conn lk' = lk_conn lk) \<or>
         (r = (case response_err (fst (served req lk)) of Some e \<Rightarrow> Inl (Remote e) | None \<Rightarrow> Inr (fst (served req lk))) \<and>
          lk_server lk' = fst (snd (served req lk)) \<and> lk_conn lk' = snd (snd (served req lk)))"
    using c L S by (auto simp: D split: option.splits if_splits)
qed

text \<open>A request that neither allocates nor frees leaves the slab and the connection's leases alone.\<close>

definition quiet_ops :: "string list" where
  "quiet_ops = [''send'', ''recv'', ''submit_reduce'', ''submit_gather'', ''wait_work'']"

lemma serve_quiet:
  assumes "rq_op req \<in> set quiet_ops" "serve_request en req (sv, c) = (resp, sv', c')"
  shows "sv' = sv" "cn_leases c' = cn_leases c"
  using assms
  by (auto simp: quiet_ops_def serve_request_def handle_send_def handle_recv_def handle_submit_def handle_wait_def
      Let_def split: option.splits if_splits)

lemma client_call_quiet:
  assumes live: "link_live lk" and c: "client_call bg req lk = (r, lk')" and q: "rq_op req \<in> set quiet_ops"
  shows "lk_server lk' = lk_server lk" "cn_leases (lk_conn lk') = cn_leases (lk_conn lk)"
proof -
  obtain resp sv cn where S: "served req lk = (resp, sv, cn)" using prod_cases3 by blast
  then have "sv = lk_server lk" "cn_leases cn = cn_leases (lk_conn lk)"
    using serve_quiet [OF q S [unfolded served_def]] by simp_all
  then show "lk_server lk' = lk_server lk" "cn_leases (lk_conn lk') = cn_leases (lk_conn lk)"
    using client_call_live(2) [OF live c] S by auto
qed

lemma wait_call_done:
  assumes live: "link_live lk" and w: "ce_works (this_env lk) i \<noteq> None"
    and c: "client_call True (empty_request\<lparr>rq_op := ''wait_work'', rq_work_id := i\<rparr>) lk = (Inr r, lk')"
  shows "rp_ready r"
proof -
  let ?req = "empty_request\<lparr>rq_op := ''wait_work'', rq_work_id := i\<rparr>"
  let ?w = "map_of (cn_work (finish_work (ce_works (this_env lk)) (lk_conn lk))) i"
  have s: "fst (served ?req lk) = (case ?w of None \<Rightarrow> error_response (UnknownWork i)
      | Some w \<Rightarrow> (case wk_done w of None \<Rightarrow> ok_response | Some e \<Rightarrow> ok_response\<lparr>rp_ready := True, rp_work_error := e\<rparr>))"
    by (simp add: served_def serve_request_def handle_wait_def Let_def split: option.splits)
  have d: "wk_done v \<noteq> None" if "?w = Some v" for v
    using that w by (auto simp: map_of_finish_work)
  from client_call_live(2) [OF live c]
  have r: "response_err (fst (served ?req lk)) = None" "r = fst (served ?req lk)" by (auto split: option.splits)
  then show ?thesis using s d
    by (cases ?w) (auto simp: response_err_def error_response_def split: option.splits)
qed

text \<open>\<open>WaitWork\<close> returns, and frees nothing.\<close>

lemma WaitWork_returns:
  assumes live: "link_live lk" and n: "lk_calls lk \<le> n" "ce_works (lk_env lk n) i \<noteq> None"
  shows "\<exists>e lk'. WaitWork i lk = Some (e, lk') \<and> link_live lk' \<and> lk_env lk' = lk_env lk \<and>
    lk_server lk' = lk_server lk \<and> cn_leases (lk_conn lk') = cn_leases (lk_conn lk)"
  using live n
proof (induction "n - lk_calls lk" arbitrary: lk rule: less_induct)
  case less
  let ?req = "empty_request\<lparr>rq_op := ''wait_work'', rq_work_id := i\<rparr>"
  show ?case
  proof (cases "ce_ctx (this_env lk)")
    case (Some e)
    then show ?thesis using less.prems by (subst WaitWork.simps) auto
  next
    case None
    obtain x lk1 where c: "client_call True ?req lk = (x, lk1)" by fastforce
    note L = client_call_live(1) [OF less.prems(1) c]
    have q: "rq_op ?req \<in> set quiet_ops" by (simp add: quiet_ops_def)
    note Q = client_call_quiet [OF less.prems(1) c q]
    show ?thesis
    proof (cases "\<exists>r. x = Inr r \<and> \<not> rp_ready r")
      case False
      then show ?thesis using None c L Q by (subst WaitWork.simps) (auto split: sum.splits)
    next
      case True
      then obtain r where r: "x = Inr r" "\<not> rp_ready r" by auto
      have ne: "lk_calls lk \<noteq> n"
        using wait_call_done [OF less.prems(1), of i r lk1] c r less.prems(3) by (auto simp: this_env_def)
      have "\<exists>e lk'. WaitWork i lk1 = Some (e, lk') \<and> link_live lk' \<and> lk_env lk' = lk_env lk1 \<and>
          lk_server lk' = lk_server lk1 \<and> cn_leases (lk_conn lk') = cn_leases (lk_conn lk1)"
        using less.prems ne L by (intro less.hyps) auto
      then show ?thesis using None c L Q r by (subst WaitWork.simps) auto
    qed
  qed
qed

text \<open>A call whose context is live is served, and sees what the daemon wrote meanwhile.\<close>

lemma client_call_served:
  assumes live: "link_live lk" and ctx: "bg \<or> ce_ctx (this_env lk) = None" and s: "served req lk = (resp, sv, cn)"
  obtains lk' where
    "client_call bg req lk = (case response_err resp of Some e \<Rightarrow> Inl (Remote e) | None \<Rightarrow> Inr resp, lk')"
    "link_live lk'" "lk_env lk' = lk_env lk" "lk_calls lk' = Suc (lk_calls lk)" "lk_server lk' = sv" "lk_conn lk' = cn"
    "lk_mem lk' = daemon_writes (ce_mem (this_env lk)) (lk_mem lk)" "lk_mapped lk' = lk_mapped lk"
proof -
  have L: "\<not> lk_nil lk" "\<not> lk_shut lk" "lk_pending lk = []" "ce_write (this_env lk) = None" "ce_read (this_env lk) = Reads 1"
    using live by (simp_all add: link_live_def this_env_def)
  let ?lk = "snd (client_call bg req lk)"
  note D = client_call_def client_do_def readResponse_def closeFDs_def Let_def served_def [symmetric]
  have c: "client_call bg req lk = (case response_err resp of Some e \<Rightarrow> Inl (Remote e) | None \<Rightarrow> Inr resp, ?lk)"
    "lk_server ?lk = sv" "lk_conn ?lk = cn" "lk_mem ?lk = daemon_writes (ce_mem (this_env lk)) (lk_mem lk)"
    "lk_mapped ?lk = lk_mapped lk"
    using ctx L s by (auto simp: D split: option.splits)
  with client_call_live(1) [OF live c(1)] show thesis using that by blast
qed

end
