(* ===== verification/Group.thy ===== *)
theory Group
  imports Config Client
begin

text \<open>
  The communicator, \<^verbatim>\<open>src/group.go\<close>, \<^verbatim>\<open>p2p.go\<close>, \<^verbatim>\<open>collective.go\<close> and
  \<^verbatim>\<open>errors.go\<close>.  The channel \<^verbatim>\<open>op\<close> of capacity one is a token: an operation holds it from
  \<open>begin\<close> to \<open>release\<close>.  A \<^verbatim>\<open>select\<close> takes any of the cases that are ready, so \<open>acquire\<close> has the
  case it takes as an argument, and the step relation of any number of tasks allows each.

  A backend is the record of its methods on a state of its own.  A typed slice is its address, its length
  and its bytes.
\<close>

section \<open>Errors\<close>

datatype jaccl_error =
    ErrClosed
  | CtxError ctx_error
  | OpError int string jaccl_error
  | RankOutside int int
  | PeerIsSelf int
  | DestinationLength int int
  | SlicesOverlap
  | BadConfig config_error
  | BackendError be_error
  | DaemonError client_error
  | OtherError string
  | ChunkNotPositive int
  | FrameSizeNotPositive int
  | FrameTooLong u64 int
  | ErrShortWrite
  | ErrEOF

definition wrapError :: "int \<Rightarrow> string \<Rightarrow> jaccl_error option \<Rightarrow> jaccl_error option" where
  "wrapError rank op err =
     (case err of None \<Rightarrow> None
      | Some e \<Rightarrow> Some (OpError rank (if op = '''' then ''operation'' else op) e))"

fun Unwrap :: "jaccl_error \<Rightarrow> jaccl_error option" where
  "Unwrap (OpError rank op e) = Some e"
| "Unwrap e = None"

section \<open>Groups\<close>

record group =
  gr_rank :: int
  gr_size :: int
  gr_b :: bool
  gr_op :: bool
  gr_closed :: bool

definition group_Rank :: "group option \<Rightarrow> int" where
  "group_Rank g = (case g of None \<Rightarrow> - 1 | Some g \<Rightarrow> gr_rank g)"

definition group_Size :: "group option \<Rightarrow> int" where
  "group_Size g = (case g of None \<Rightarrow> 0 | Some g \<Rightarrow> gr_size g)"

text \<open>\<open>NewGroup\<close> for given constructors of the two backends; \<open>ce\<close> is what \<^verbatim>\<open>ctx.Err()\<close> returns.\<close>

definition newBackend :: "(config \<Rightarrow> jaccl_error + 'b) \<Rightarrow> (config \<Rightarrow> jaccl_error + 'b) \<Rightarrow> config \<Rightarrow> jaccl_error + 'b" where
  "newBackend mk_daemon mk_direct cfg =
     (if backendMode cfg = BackendDaemon then mk_daemon cfg else mk_direct cfg)"

definition NewGroup ::
  "(config \<Rightarrow> jaccl_error + 'b) \<Rightarrow> (config \<Rightarrow> jaccl_error + 'b) \<Rightarrow> ctx_error option \<Rightarrow> config \<Rightarrow> jaccl_error + group \<times> 'b" where
  "NewGroup mk_daemon mk_direct ce cfg =
     (let fail = (\<lambda>e. Inl (OpError (cf_Rank cfg) ''new group'' e)) in
      case validate_config cfg of Some e \<Rightarrow> fail (BadConfig e)
      | None \<Rightarrow>
          (case groupSize cfg of Inl e \<Rightarrow> fail (BadConfig e)
           | Inr n \<Rightarrow>
               (case ce of Some e \<Rightarrow> fail (CtxError e)
                | None \<Rightarrow>
                    (case newBackend mk_daemon mk_direct cfg of Inl e \<Rightarrow> fail e
                     | Inr b \<Rightarrow>
                         Inr (\<lparr> gr_rank = cf_Rank cfg, gr_size = n, gr_b = True, gr_op = False, gr_closed = False \<rparr>, b)))))"

definition NewGroupFromEnv where
  "NewGroupFromEnv mk_daemon mk_direct fs env ce =
     (case ConfigFromEnv fs env of Inl e \<Rightarrow> Inl (OpError (- 1) ''new group from env'' (BadConfig e))
      | Inr cfg \<Rightarrow>
          (case NewGroup mk_daemon mk_direct ce cfg of
             Inl e \<Rightarrow> Inl (OpError (cf_Rank cfg) ''new group from env'' e)
           | Inr x \<Rightarrow> Inr x))"

section \<open>Operations\<close>

definition group_release :: "group \<Rightarrow> group" where
  "group_release g = g\<lparr>gr_op := False\<rparr>"

text \<open>The three selects of \<open>acquire\<close>.  \<open>select_ready\<close> lists the cases of the second that are ready.\<close>

datatype pick = PickOp | PickDone | PickClosed

definition acquire_first :: "group \<Rightarrow> jaccl_error option" where
  "acquire_first g = (if gr_closed g then Some ErrClosed else None)"

definition select_ready :: "ctx_error option \<Rightarrow> group \<Rightarrow> pick set" where
  "select_ready ce g = (if gr_op g then {} else {PickOp}) \<union> (if ce = None then {} else {PickDone}) \<union>
     (if gr_closed g then {PickClosed} else {})"

fun acquire_second :: "ctx_error option \<Rightarrow> pick \<Rightarrow> group \<Rightarrow> jaccl_error option \<times> group" where
  "acquire_second ce PickOp g = (None, g\<lparr>gr_op := True\<rparr>)"
| "acquire_second ce PickDone g = (Some (CtxError (the ce)), g)"
| "acquire_second ce PickClosed g = (Some ErrClosed, g)"

definition acquire_third :: "group \<Rightarrow> jaccl_error option \<times> group" where
  "acquire_third g = (if gr_closed g then (Some ErrClosed, group_release g) else (None, g))"

text \<open>\<open>acquire\<close> without interference: \<open>None\<close> when the case is not ready.\<close>

definition acquire :: "ctx_error option \<Rightarrow> pick \<Rightarrow> group \<Rightarrow> (jaccl_error option \<times> group) option" where
  "acquire ce p g =
     (case acquire_first g of Some e \<Rightarrow> Some (Some e, g)
      | None \<Rightarrow>
          if p \<notin> select_ready ce g then None
          else (case acquire_second ce p g of
                  (Some e, g') \<Rightarrow> Some (Some e, g')
                | (None, g') \<Rightarrow> Some (acquire_third g')))"

record group_operation =
  op_name :: string
  op_released :: bool

definition begin_op :: "ctx_error option \<Rightarrow> pick \<Rightarrow> string \<Rightarrow> group option \<Rightarrow> ((jaccl_error + group_operation) \<times> group option) option" where
  "begin_op ce p name g =
     (case g of None \<Rightarrow> Some (Inl (OpError (- 1) name ErrClosed), None)
      | Some g \<Rightarrow>
          (case acquire ce p g of None \<Rightarrow> None
           | Some (Some e, g') \<Rightarrow> Some (Inl (OpError (gr_rank g) name e), Some g')
           | Some (None, g') \<Rightarrow>
               if \<not> gr_b g' then Some (Inl (OpError (gr_rank g) name ErrClosed), Some (group_release g'))
               else Some (Inr \<lparr> op_name = name, op_released = False \<rparr>, Some g')))"

definition op_do ::
  "group_operation \<Rightarrow> group \<Rightarrow> ('s \<Rightarrow> jaccl_error option \<times> 's) \<Rightarrow> 's \<Rightarrow> jaccl_error option \<times> 's" where
  "op_do op g fn s =
     (if op_released op \<or> \<not> gr_b g then (Some (OpError (- 1) ''operation'' ErrClosed), s)
      else case fn s of (e, s') \<Rightarrow> (wrapError (gr_rank g) (op_name op) e, s'))"

definition op_release :: "group_operation \<Rightarrow> group \<Rightarrow> group_operation \<times> group" where
  "op_release op g = (if op_released op then (op, g) else (op\<lparr>op_released := True\<rparr>, group_release g))"

definition group_do ::
  "ctx_error option \<Rightarrow> pick \<Rightarrow> string \<Rightarrow> ('s \<Rightarrow> jaccl_error option \<times> 's) \<Rightarrow> group option \<Rightarrow> 's \<Rightarrow>
   (jaccl_error option \<times> group option \<times> 's) option" where
  "group_do ce p name fn g s =
     (case begin_op ce p name g of None \<Rightarrow> None
      | Some (Inl e, g') \<Rightarrow> Some (Some e, g', s)
      | Some (Inr op, None) \<Rightarrow> Some (None, None, s)
      | Some (Inr op, Some g') \<Rightarrow>
          (case op_do op g' fn s of (e, s') \<Rightarrow> Some (e, Some (snd (op_release op g')), s')))"

text \<open>\<open>Close\<close>; \<open>bclose\<close> is what closing the backend returns.\<close>

definition group_Close :: "('s \<Rightarrow> jaccl_error option \<times> 's) \<Rightarrow> group option \<Rightarrow> 's \<Rightarrow> jaccl_error option \<times> group option \<times> 's" where
  "group_Close bclose g s =
     (case g of None \<Rightarrow> (None, None, s)
      | Some g \<Rightarrow>
          if gr_closed g then (None, Some g, s)
          else if \<not> gr_b g then (None, Some (g\<lparr>gr_closed := True\<rparr>), s)
          else (case bclose s of (e, s') \<Rightarrow> (wrapError (gr_rank g) ''close'' e, Some (g\<lparr>gr_closed := True\<rparr>), s')))"

section \<open>Point-to-point calls and collectives\<close>

record 's backend =
  bk_barrier :: "'s \<Rightarrow> jaccl_error option \<times> 's"
  bk_send :: "int \<Rightarrow> bytes \<Rightarrow> 's \<Rightarrow> jaccl_error option \<times> 's"
  bk_recv :: "int \<Rightarrow> bytes \<Rightarrow> 's \<Rightarrow> (jaccl_error option \<times> bytes) \<times> 's"
  bk_allReduce :: "reduction_op \<Rightarrow> dtype \<Rightarrow> bytes \<Rightarrow> bytes \<Rightarrow> 's \<Rightarrow> (jaccl_error option \<times> bytes) \<times> 's"
  bk_allGather :: "nat \<Rightarrow> bytes \<Rightarrow> bytes \<Rightarrow> 's \<Rightarrow> (jaccl_error option \<times> bytes) \<times> 's"
  bk_close :: "'s \<Rightarrow> jaccl_error option \<times> 's"

definition checkRank :: "string \<Rightarrow> int \<Rightarrow> group option \<Rightarrow> jaccl_error option" where
  "checkRank op rank g =
     (case g of None \<Rightarrow> Some (OpError (- 1) op ErrClosed)
      | Some g \<Rightarrow>
          if rank < 0 \<or> rank \<ge> gr_size g then Some (OpError (gr_rank g) op (RankOutside rank (gr_size g)))
          else if rank = gr_rank g then Some (OpError (gr_rank g) op (PeerIsSelf rank))
          else None)"

text \<open>A call that fills a buffer threads it through the backend's state.\<close>

definition with_buffer ::
  "(bytes \<Rightarrow> 's \<Rightarrow> (jaccl_error option \<times> bytes) \<times> 's) \<Rightarrow> bytes \<times> 's \<Rightarrow> jaccl_error option \<times> bytes \<times> 's" where
  "with_buffer f = (\<lambda>(d, s). case f d s of ((e, d'), s') \<Rightarrow> (e, d', s'))"

definition group_Barrier where
  "group_Barrier bk ce p g s = group_do ce p ''barrier'' (bk_barrier bk) g s"

definition group_Send ::
  "'s backend \<Rightarrow> ctx_error option \<Rightarrow> pick \<Rightarrow> int \<Rightarrow> bytes \<Rightarrow> group option \<Rightarrow> 's \<Rightarrow>
   (jaccl_error option \<times> group option \<times> 's) option" where
  "group_Send bk ce p dst src g s =
     (case checkRank ''send'' dst g of Some e \<Rightarrow> Some (Some e, g, s)
      | None \<Rightarrow> group_do ce p ''send'' (bk_send bk dst src) g s)"

definition group_Recv ::
  "'s backend \<Rightarrow> ctx_error option \<Rightarrow> pick \<Rightarrow> int \<Rightarrow> bytes \<Rightarrow> group option \<Rightarrow> 's \<Rightarrow>
   (jaccl_error option \<times> group option \<times> bytes \<times> 's) option" where
  "group_Recv bk ce p src dst g s =
     (case checkRank ''recv'' src g of Some e \<Rightarrow> Some (Some e, g, dst, s)
      | None \<Rightarrow> group_do ce p ''recv'' (with_buffer (bk_recv bk src)) g (dst, s))"

record gslice =
  gs_addr :: u64
  gs_len :: nat
  gs_bytes :: bytes

text \<open>\<^verbatim>\<open>unsafe.Sizeof\<close> of the element type.\<close>

definition elementSize :: "dtype \<Rightarrow> nat" where
  "elementSize dt = (case ElementSize dt of Inr k \<Rightarrow> k | Inl _ \<Rightarrow> 0)"

definition slicesOverlap :: "dtype \<Rightarrow> gslice \<Rightarrow> gslice \<Rightarrow> bool" where
  "slicesOverlap dt a b =
     (if gs_len a = 0 \<or> gs_len b = 0 then False
      else
        let k = word_of_nat (elementSize dt) :: u64;
            a1 = gs_addr a + word_of_nat (gs_len a) * k; b1 = gs_addr b + word_of_nat (gs_len b) * k in
        gs_addr a < b1 \<and> gs_addr b < a1)"

definition group_allReduce ::
  "'s backend \<Rightarrow> ctx_error option \<Rightarrow> pick \<Rightarrow> string \<Rightarrow> reduction_op \<Rightarrow> dtype \<Rightarrow> gslice \<Rightarrow> gslice \<Rightarrow> group option \<Rightarrow> 's \<Rightarrow>
   (jaccl_error option \<times> group option \<times> bytes \<times> 's) option" where
  "group_allReduce bk ce p name rop dt dst src g s =
     (case g of None \<Rightarrow> Some (Some (OpError (- 1) name ErrClosed), None, gs_bytes dst, s)
      | Some g' \<Rightarrow>
          if gs_len dst \<noteq> gs_len src
          then Some (Some (OpError (gr_rank g') name (DestinationLength (int (gs_len dst)) (int (gs_len src)))), g, gs_bytes dst, s)
          else group_do ce p name (with_buffer (\<lambda>d. bk_allReduce bk rop dt d (gs_bytes src))) g (gs_bytes dst, s))"

definition AllSum where "AllSum bk ce p = group_allReduce bk ce p ''all sum'' reductionSum"
definition AllMax where "AllMax bk ce p = group_allReduce bk ce p ''all max'' reductionMax"
definition AllMin where "AllMin bk ce p = group_allReduce bk ce p ''all min'' reductionMin"

definition AllGather ::
  "'s backend \<Rightarrow> ctx_error option \<Rightarrow> pick \<Rightarrow> dtype \<Rightarrow> gslice \<Rightarrow> gslice \<Rightarrow> group option \<Rightarrow> 's \<Rightarrow>
   (jaccl_error option \<times> group option \<times> bytes \<times> 's) option" where
  "AllGather bk ce p dt dst src g s =
     (case g of None \<Rightarrow> Some (Some (OpError (- 1) ''all gather'' ErrClosed), None, gs_bytes dst, s)
      | Some g' \<Rightarrow>
          let want = mul64 (gr_size g') (int (gs_len src)) in
          if int (gs_len dst) \<noteq> want
          then Some (Some (OpError (gr_rank g') ''all gather'' (DestinationLength (int (gs_len dst)) want)), g, gs_bytes dst, s)
          else if slicesOverlap dt dst src
          then Some (Some (OpError (gr_rank g') ''all gather'' SlicesOverlap), g, gs_bytes dst, s)
          else group_do ce p ''all gather'' (with_buffer (\<lambda>d. bk_allGather bk (elementSize dt) d (gs_bytes src))) g (gs_bytes dst, s))"

section \<open>The direct backend behind the interface\<close>

text \<open>
  The state of the direct backend: the lock bits of its connections, the messages posted to each peer, the
  messages of each peer that no receive has taken, and the answers of the provider and the rounds of each
  call, by the number of the call.  \<open>Blocked\<close> marks a call that never returns.  The side channel's
  \<open>Barrier\<close> and the release of the provider objects are parameters.
\<close>

record direct_state =
  ds_backend :: rdma_backend
  ds_locks :: "bool option list"
  ds_out :: "int \<Rightarrow> bytes list"
  ds_in :: "int \<Rightarrow> bytes list"
  ds_net :: "nat \<Rightarrow> nat \<Rightarrow> be_error option"
  ds_rounds :: "nat \<Rightarrow> nat \<Rightarrow> nat \<Rightarrow> bytes"
  ds_calls :: nat

definition called :: "bool option list \<Rightarrow> direct_state \<Rightarrow> direct_state" where
  "called ls s = s\<lparr>ds_locks := ls, ds_calls := ds_calls s + 1\<rparr>"

text \<open>The locks around a call: a point-to-point call on no bytes or without a connection takes none.\<close>

definition p2p_guard :: "int \<Rightarrow> bytes \<Rightarrow> direct_state \<Rightarrow> bool option list option" where
  "p2p_guard peer data s =
     (if data = [] \<or> isl (be_conn (ds_backend s) peer) then Some (ds_locks s) else p2p_locks (nat peer) (ds_locks s))"

definition collective_guard :: "bytes \<Rightarrow> direct_state \<Rightarrow> bool option list option" where
  "collective_guard src s =
     (let b = ds_backend s in
      if src = [] then Some (ds_locks s)
      else if be_topo b = Mesh then exchange_locks (be_rank b) (ds_locks s)
      else if be_size b + be_size b * length src > rdmaStagingBytes then Some (ds_locks s)
      else graph_locks (graphNeighbors b) (ds_locks s))"

text \<open>The messages a receive of \<open>n\<close> bytes takes: one per round that neither the post nor the poll failed.\<close>

definition message_count :: "nat \<Rightarrow> nat" where
  "message_count n = (n + rdmaStagingBytes - 1) div rdmaStagingBytes"

definition recv_taken :: "(nat \<Rightarrow> be_error option) \<Rightarrow> nat \<Rightarrow> nat" where
  "recv_taken net n = length (takeWhile (\<lambda>k. net (2 * k) = None \<and> net (2 * k + 1) = None) [0..<message_count n])"

definition direct_send :: "int \<Rightarrow> bytes \<Rightarrow> direct_state \<Rightarrow> jaccl_error option \<times> direct_state" where
  "direct_send dst src s =
     (case p2p_guard dst src s of None \<Rightarrow> (Some (BackendError Blocked), s)
      | Some ls \<Rightarrow>
          (case be_send (ds_backend s) (ds_net s (ds_calls s)) dst src of
             (e, ms) \<Rightarrow> (map_option BackendError e, (called ls s)\<lparr>ds_out := (ds_out s)(dst := ds_out s dst @ ms)\<rparr>)))"

definition direct_recv :: "int \<Rightarrow> bytes \<Rightarrow> direct_state \<Rightarrow> (jaccl_error option \<times> bytes) \<times> direct_state" where
  "direct_recv src dst s =
     (case p2p_guard src dst s of None \<Rightarrow> ((Some (BackendError Blocked), dst), s)
      | Some ls \<Rightarrow>
          (let net = ds_net s (ds_calls s);
               k = (if isl (be_conn (ds_backend s) src) then 0 else recv_taken net (length dst)) in
           case be_recv (ds_backend s) net (ds_in s src) src dst of
             (e, d) \<Rightarrow> ((map_option BackendError e, d), (called ls s)\<lparr>ds_in := (ds_in s)(src := drop k (ds_in s src))\<rparr>)))"

definition direct_result :: "bytes \<Rightarrow> be_error + bytes \<Rightarrow> jaccl_error option \<times> bytes" where
  "direct_result dst r = (case r of Inl e \<Rightarrow> (Some (BackendError e), dst) | Inr d \<Rightarrow> (None, d))"

definition direct_collective ::
  "((nat \<Rightarrow> nat \<Rightarrow> bytes) \<Rightarrow> be_error + bytes) \<Rightarrow> bytes \<Rightarrow> bytes \<Rightarrow> direct_state \<Rightarrow>
   (jaccl_error option \<times> bytes) \<times> direct_state" where
  "direct_collective f dst src s =
     (case collective_guard src s of None \<Rightarrow> ((Some (BackendError Blocked), dst), s)
      | Some ls \<Rightarrow> (direct_result dst (f (ds_rounds s (ds_calls s))), called ls s))"

definition direct_backend ::
  "float_ops \<Rightarrow> (direct_state \<Rightarrow> jaccl_error option \<times> direct_state) \<Rightarrow>
   (direct_state \<Rightarrow> jaccl_error option \<times> direct_state) \<Rightarrow> direct_state backend" where
  "direct_backend fp side_barrier release_all =
     \<lparr> bk_barrier = side_barrier, bk_send = direct_send, bk_recv = direct_recv,
       bk_allReduce = (\<lambda>rop dt dst src s. direct_collective (\<lambda>rounds. allReduce fp (ds_backend s) rounds rop dt dst src) dst src s),
       bk_allGather = (\<lambda>k dst src s. direct_collective (\<lambda>rounds. allGather (ds_backend s) rounds dst src) dst src s),
       bk_close = release_all \<rparr>"

section \<open>Calls side by side\<close>

text \<open>Where a call is: about to acquire, at the second select, past it, in its operation (or past it), refused.\<close>

datatype call =
    Calling
  | Selecting
  | Holding
  | Running group_operation
  | Refused jaccl_error

text \<open>The end of \<open>begin\<close>: the third select and the test of the backend.\<close>

definition admit :: "string \<Rightarrow> group \<Rightarrow> group \<times> call" where
  "admit name g =
     (case acquire_third g of (Some e, g') \<Rightarrow> (g', Refused e)
      | (None, g') \<Rightarrow>
          if \<not> gr_b g' then (group_release g', Refused ErrClosed)
          else (g', Running \<lparr> op_name = name, op_released = False \<rparr>))"

inductive call_step :: "group \<Rightarrow> call \<Rightarrow> group \<Rightarrow> call \<Rightarrow> bool" where
  refuse: "acquire_first g = Some e \<Longrightarrow> call_step g Calling g (Refused e)"
| queue: "acquire_first g = None \<Longrightarrow> call_step g Calling g Selecting"
| select: "p \<in> select_ready ce g \<Longrightarrow> acquire_second ce p g = (r, g') \<Longrightarrow>
    call_step g Selecting g' (case r of None \<Rightarrow> Holding | Some e \<Rightarrow> Refused e)"
| recheck: "admit name g = (g', c) \<Longrightarrow> call_step g Holding g' c"
| leave: "op_release op g = (op', g') \<Longrightarrow> call_step g (Running op) g' (Running op')"

inductive group_step :: "group \<times> call list \<Rightarrow> group \<times> call list \<Rightarrow> bool" where
  act: "i < length cs \<Longrightarrow> call_step g (cs ! i) g' c \<Longrightarrow> group_step (g, cs) (g', cs[i := c])"
| shut: "group_Close (\<lambda>_::unit. (e, ())) (Some g) () = (r, Some g', ()) \<Longrightarrow> group_step (g, cs) (g', cs)"

inductive group_reach :: "group \<times> call list \<Rightarrow> bool" where
  start: "NewGroup (\<lambda>_. Inr ()) (\<lambda>_. Inr ()) None cfg = Inr (g, ()) \<Longrightarrow> set cs \<subseteq> {Calling} \<Longrightarrow> group_reach (g, cs)"
| step: "group_reach s \<Longrightarrow> group_step s s' \<Longrightarrow> group_reach s'"

inductive_cases call_stepE:
  "call_step g Calling g' c" "call_step g Selecting g' c" "call_step g Holding g' c"
  "call_step g (Running op) g' c" "call_step g (Refused e) g' c"

inductive_cases group_stepE: "group_step (g, cs) s'"

text \<open>The calls that hold the token, and those of them inside their operation.\<close>

fun running :: "call \<Rightarrow> bool" where
  "running (Running op) = (\<not> op_released op)"
| "running _ = False"

definition holds :: "call \<Rightarrow> bool" where
  "holds c = (c = Holding \<or> running c)"

definition group_inv :: "group \<times> call list \<Rightarrow> bool" where
  "group_inv s = (case s of (g, cs) \<Rightarrow> length (filter holds cs) = of_bool (gr_op g) \<and> gr_b g)"


section \<open>The token\<close>

lemma not_holds [simp]: "\<not> holds Calling" "\<not> holds Selecting" "\<not> holds (Refused e)" "holds Holding"
  "holds (Running op) = (\<not> op_released op)"
  by (simp_all add: holds_def)

lemma call_step_token:
  assumes "call_step g c g' c'"
  shows "gr_op g' = (if holds c \<noteq> holds c' then holds c' else gr_op g) \<and> gr_b g' = gr_b g \<and>
    gr_closed g' = gr_closed g \<and> (\<not> holds c \<and> holds c' \<longrightarrow> \<not> gr_op g)"
  using assms
proof cases
  case (select p ce r)
  then show ?thesis by (cases p) (auto simp: select_ready_def split: if_splits)
next
  case (recheck name)
  then show ?thesis
    by (auto simp: admit_def acquire_third_def group_release_def split: if_splits)
next
  case (leave op op')
  then show ?thesis by (auto simp: op_release_def group_release_def split: if_splits)
qed auto

lemma group_Close_group:
  "group_Close f (Some g) s = (r, Some g', s') \<Longrightarrow> g' = g\<lparr>gr_closed := True\<rparr>"
  by (auto simp: group_Close_def split: if_splits prod.splits)

lemma group_step_inv:
  assumes "group_step s s'" and "group_inv s"
  shows "group_inv s'"
  using assms(1)
proof cases
  case (act i cs g g' c)
  then show ?thesis
    using assms(2) call_step_token [OF act(4)] filter_length_update [OF act(3), of holds c]
    by (cases "gr_op g") (auto simp: group_inv_def split: if_splits)
next
  case (shut e g r g' cs)
  then show ?thesis
    using assms(2) group_Close_group [OF shut(3)] by (simp add: group_inv_def)
qed

lemma NewGroup_open:
  assumes "NewGroup mkd mkr ce cfg = Inr (g, b)"
  shows "\<not> gr_op g \<and> \<not> gr_closed g \<and> gr_b g \<and> gr_rank g = cf_Rank cfg \<and> groupSize cfg = Inr (gr_size g) \<and>
    validate_config cfg = None \<and> ce = None"
  using assms by (auto simp: NewGroup_def Let_def split: option.splits sum.splits)

lemma group_reach_inv: "group_reach s \<Longrightarrow> group_inv s"
proof (induction rule: group_reach.induct)
  case (start cfg g cs)
  then have "filter holds cs = []" by (auto simp: filter_empty_conv)
  then show ?case using NewGroup_open [OF start(1)] by (simp add: group_inv_def)
next
  case (step s s')
  then show ?case by (blast intro: group_step_inv)
qed

text \<open>In a list with at most one element of a kind, that element has one position.\<close>

lemma unique_position:
  assumes "length (filter P cs) \<le> 1" "i < length cs" "j < length cs" "P (cs ! i)" "P (cs ! j)"
  shows "i = j"
proof (rule ccontr)
  assume "i \<noteq> j"
  then have two: "card {i, j} = 2" and sub: "{i, j} \<subseteq> {k. k < length cs \<and> P (cs ! k)}" using assms by auto
  have "2 \<le> length (filter P cs)"
    using card_mono [OF _ sub] two by (simp add: length_filter_conv_card)
  then show False using assms(1) by simp
qed

lemma closed_admits_none:
  assumes "call_step g c g' c'" "gr_closed g" "running c'"
  shows "running c"
  using assms
proof cases
  case (select p ce r)
  then show ?thesis using assms(3) by (auto split: option.splits)
qed (auto simp: admit_def acquire_third_def op_release_def split: if_splits)

definition demo_config :: config where
  "demo_config = zero_config\<lparr>cf_Size := 2, cf_Backend := ''daemon''\<rparr>"

definition demo_group :: group where
  "demo_group = \<lparr> gr_rank = 0, gr_size = 2, gr_b = True, gr_op = False, gr_closed = False \<rparr>"

lemma demo_NewGroup: "NewGroup (\<lambda>_. Inr ()) (\<lambda>_. Inr ()) None demo_config = Inr (demo_group, ())"
  by code_simp

lemma group_reach_act:
  assumes "group_reach (g, cs)" "i < length cs" "call_step g (cs ! i) g' c" "cs' = cs[i := c]"
  shows "group_reach (g', cs')"
  using group_reach.step [OF assms(1) group_step.act [OF assms(2,3)]] assms(4) by simp

lemma demo_reach:
  "group_reach (demo_group\<lparr>gr_op := True\<rparr>, [Running \<lparr> op_name = ''barrier'', op_released = False \<rparr>, Selecting])"
proof -
  let ?g = "demo_group" and ?g' = "demo_group\<lparr>gr_op := True\<rparr>"
  have q: "call_step ?g Calling ?g Selecting" by (rule call_step.queue) (simp add: acquire_first_def demo_group_def)
  have s: "call_step ?g Selecting ?g' Holding"
    using call_step.select [of PickOp None ?g None ?g'] by (simp add: select_ready_def demo_group_def)
  have r: "call_step ?g' Holding ?g' (Running \<lparr> op_name = ''barrier'', op_released = False \<rparr>)"
    by (rule call_step.recheck) (simp add: admit_def acquire_third_def demo_group_def)
  have "group_reach (?g, [Calling, Calling])"
    by (rule group_reach.start [OF demo_NewGroup]) simp
  then have "group_reach (?g, [Selecting, Calling])" by (rule group_reach_act [where i = 0]) (use q in auto)
  then have "group_reach (?g, [Selecting, Selecting])" by (rule group_reach_act [where i = 1]) (use q in auto)
  then have "group_reach (?g', [Holding, Selecting])" by (rule group_reach_act [where i = 0]) (use s in auto)
  then show ?thesis by (rule group_reach_act [where i = 0]) (use r in auto)
qed

text \<open>
  C31. In every reachable state of a group and any number of concurrent calls the token is out exactly when
  one call holds it, and no two calls are inside an operation at once, however often a finished operation is
  released again.  After \<open>Close\<close> no call enters an operation any more.  A waiting call can move as soon as
  the token is free or the group is closed.
\<close>

theorem group_exclusive:
  assumes "group_reach (g, cs)"
  shows "length (filter holds cs) = of_bool (gr_op g)
    \<and> (\<forall>i < length cs. \<forall>j < length cs. running (cs ! i) \<and> running (cs ! j) \<longrightarrow> i = j)
    \<and> (\<forall>g' cs' i. gr_closed g \<and> group_step (g, cs) (g', cs') \<and> i < length cs \<and> running (cs' ! i) \<longrightarrow> running (cs ! i))
    \<and> (\<forall>i < length cs. cs ! i = Selecting \<and> (\<not> gr_op g \<or> gr_closed g) \<longrightarrow>
         (\<exists>g' c. call_step g Selecting g' c \<and> c \<noteq> Selecting))"
proof (intro conjI allI impI)
  have inv: "group_inv (g, cs)" by (rule group_reach_inv [OF assms])
  then show "length (filter holds cs) = of_bool (gr_op g)" by (simp add: group_inv_def)
  then have one: "length (filter holds cs) \<le> 1" by simp
  show "i = j" if "i < length cs" "j < length cs" "running (cs ! i) \<and> running (cs ! j)" for i j
    using unique_position [OF one that(1,2)] that(3) by (simp add: holds_def)
next
  fix g' cs' i
  assume A: "gr_closed g \<and> group_step (g, cs) (g', cs') \<and> i < length cs \<and> running (cs' ! i)"
  then have "group_step (g, cs) (g', cs')" by simp
  then show "running (cs ! i)"
  proof cases
    case (act j c)
    then show ?thesis using A closed_admits_none [OF act(3)] by (cases "i = j") auto
  qed (use A in simp)
next
  fix i
  assume "cs ! i = Selecting \<and> (\<not> gr_op g \<or> gr_closed g)"
  then consider "PickOp \<in> select_ready None g" | "PickClosed \<in> select_ready None g"
    by (auto simp: select_ready_def)
  then show "\<exists>g' c. call_step g Selecting g' c \<and> c \<noteq> Selecting"
    by cases (drule call_step.select, force, force)+
qed

theorem group_exclusive_witness:
  "length (filter holds [Running \<lparr> op_name = ''barrier'', op_released = False \<rparr>, Selecting]) =
     of_bool (gr_op (demo_group\<lparr>gr_op := True\<rparr>))"
  using group_exclusive [OF demo_reach] by blast

definition demo_direct :: direct_state where
  "demo_direct = \<lparr> ds_backend = pair_backend 0, ds_locks = [None, Some False], ds_out = (\<lambda>_. []), ds_in = (\<lambda>_. []),
     ds_net = (\<lambda>_ _. None), ds_rounds = (\<lambda>_ _ _. []), ds_calls = 0 \<rparr>"



end
