(* ===== verification/Streams.thy ===== *)
theory Streams
  imports Group
begin

text \<open>
  The stream adapters of a group, \<^verbatim>\<open>src/stream.go\<close>.  A frame is an eight-byte big-endian length and
  that many bytes; a length of zero ends the stream.  A writer and a reader each hold the group's token.

  A nil adapter behaves as a closed one.  A read returns the bytes it puts at the start of its buffer.
  The \<^verbatim>\<open>io.Reader\<close> of \<open>ReadFrom\<close> is the list of what its calls return, the
  \<^verbatim>\<open>io.Writer\<close> of \<open>WriteTo\<close> the list of the counts and errors its calls return; a call past the end of
  a list does not return, and neither does the caller: \<open>None\<close>.

  The locale \<open>p2p_link\<close> states what a stream needs of the two backends below it; the direct backend meets it.
\<close>

section \<open>Adapters\<close>

definition DefaultStreamChunkSize :: int where
  "DefaultStreamChunkSize = 1048576"

record send_writer =
  sw_op :: group_operation
  sw_dst :: int
  sw_chunk :: int
  sw_closed :: bool

record recv_reader =
  rr_op :: group_operation
  rr_src :: int
  rr_max :: int
  rr_pending :: bytes
  rr_eof :: bool
  rr_closed :: bool

definition newSendWriter ::
  "ctx_error option \<Rightarrow> pick \<Rightarrow> group option \<Rightarrow> int \<Rightarrow> int \<Rightarrow> ((jaccl_error + send_writer) \<times> group option) option" where
  "newSendWriter ce p g dst chunk =
     (case checkRank ''new send writer'' dst g of Some e \<Rightarrow> Some (Inl e, g)
      | None \<Rightarrow>
          if chunk \<le> 0 then Some (Inl (OpError (group_Rank g) ''new send writer'' (ChunkNotPositive chunk)), g)
          else (case begin_op ce p ''stream send'' g of None \<Rightarrow> None
                | Some (Inl e, g') \<Rightarrow> Some (Inl e, g')
                | Some (Inr op, g') \<Rightarrow>
                    Some (Inr \<lparr> sw_op = op, sw_dst = dst, sw_chunk = chunk, sw_closed = False \<rparr>, g')))"

definition NewSendWriter where
  "NewSendWriter ce p g dst = newSendWriter ce p g dst DefaultStreamChunkSize"

definition newRecvReader ::
  "ctx_error option \<Rightarrow> pick \<Rightarrow> group option \<Rightarrow> int \<Rightarrow> int \<Rightarrow> ((jaccl_error + recv_reader) \<times> group option) option" where
  "newRecvReader ce p g src max' =
     (case checkRank ''new recv reader'' src g of Some e \<Rightarrow> Some (Inl e, g)
      | None \<Rightarrow>
          if max' \<le> 0 then Some (Inl (OpError (group_Rank g) ''new recv reader'' (FrameSizeNotPositive max')), g)
          else (case begin_op ce p ''stream recv'' g of None \<Rightarrow> None
                | Some (Inl e, g') \<Rightarrow> Some (Inl e, g')
                | Some (Inr op, g') \<Rightarrow>
                    Some (Inr \<lparr> rr_op = op, rr_src = src, rr_max = max', rr_pending = [], rr_eof = False,
                      rr_closed = False \<rparr>, g')))"

definition NewRecvReader where
  "NewRecvReader ce p g src = newRecvReader ce p g src DefaultStreamChunkSize"

section \<open>Frames\<close>

definition frame_header :: "bytes \<Rightarrow> bytes" where
  "frame_header payload = PutUint64 (word_of_nat (length payload))"

definition sendFrame :: "'s backend \<Rightarrow> send_writer \<Rightarrow> bytes \<Rightarrow> group \<Rightarrow> 's \<Rightarrow> jaccl_error option \<times> 's" where
  "sendFrame bk w payload g s =
     op_do (sw_op w) g (\<lambda>s. case bk_send bk (sw_dst w) (frame_header payload) s of
         (Some e, s') \<Rightarrow> (Some e, s')
       | (None, s') \<Rightarrow> if payload = [] then (None, s') else bk_send bk (sw_dst w) payload s') s"

text \<open>\<open>recvFrame\<close> returns \<open>None\<close> for a nil frame; the closure sets \<^verbatim>\<open>frame\<close>, the first part of its state.\<close>

definition recv_frame_body :: "'s backend \<Rightarrow> recv_reader \<Rightarrow> bytes option \<times> 's \<Rightarrow> jaccl_error option \<times> bytes option \<times> 's" where
  "recv_frame_body bk r = (\<lambda>(frame, s).
     case bk_recv bk (rr_src r) (replicate 8 0) s of
       ((Some e, h), s') \<Rightarrow> (Some e, frame, s')
     | ((None, h), s') \<Rightarrow>
         let n = GoStrings.Uint64 h in
         if n = 0 then (None, frame, s')
         else if n > word_of_int (rr_max r) then (Some (FrameTooLong n (rr_max r)), frame, s')
         else (case bk_recv bk (rr_src r) (replicate (unat n) 0) s' of ((e, d), s'') \<Rightarrow> (e, Some d, s'')))"

definition recvFrame :: "'s backend \<Rightarrow> recv_reader \<Rightarrow> group \<Rightarrow> 's \<Rightarrow> (jaccl_error + bytes option) \<times> 's" where
  "recvFrame bk r g s =
     (case op_do (rr_op r) g (recv_frame_body bk r) (None, s) of
        (Some e, frame, s') \<Rightarrow> (Inl e, s')
      | (None, frame, s') \<Rightarrow> (Inr frame, s'))"

section \<open>Writing\<close>

text \<open>The loop of \<open>Write\<close>; \<open>newSendWriter\<close> refuses a chunk that is not positive.\<close>

function write_loop :: "'s backend \<Rightarrow> send_writer \<Rightarrow> bytes \<Rightarrow> nat \<Rightarrow> group \<Rightarrow> 's \<Rightarrow> (nat \<times> jaccl_error option) \<times> 's" where
  "write_loop bk w p written g s =
     (if length p \<le> written \<or> sw_chunk w \<le> 0 then ((written, None), s)
      else
        let n = nat (min (sw_chunk w) (int (length p - written))) in
        case sendFrame bk w (take n (drop written p)) g s of
          (Some e, s') \<Rightarrow> ((written, Some e), s')
        | (None, s') \<Rightarrow> write_loop bk w p (written + n) g s')"
  by pat_completeness auto
termination
  by (relation "measure (\<lambda>(bk, w, p, written, g, s). length p - written)") auto

declare write_loop.simps [simp del]

definition stream_Write :: "'s backend \<Rightarrow> send_writer \<Rightarrow> bytes \<Rightarrow> group \<Rightarrow> 's \<Rightarrow> (nat \<times> jaccl_error option) \<times> 's" where
  "stream_Write bk w p g s =
     (if sw_closed w then ((0, Some ErrClosed), s)
      else if p = [] then ((0, None), s)
      else write_loop bk w p 0 g s)"

primrec read_from_loop ::
  "'s backend \<Rightarrow> send_writer \<Rightarrow> (bytes \<times> jaccl_error option) list \<Rightarrow> int \<Rightarrow> group \<Rightarrow> 's \<Rightarrow>
   ((int \<times> jaccl_error option) \<times> 's) option" where
  "read_from_loop bk w [] tot g s = None"
| "read_from_loop bk w (x # xs) tot g s =
     (case x of (d, er) \<Rightarrow>
       (let ((nw, ew), s') = (if d \<noteq> [] then stream_Write bk w d g s else ((0, None), s));
            tot' = add64 tot (int nw) in
        if ew \<noteq> None then Some ((tot', ew), s')
        else if nw \<noteq> length d then Some ((tot', Some ErrShortWrite), s')
        else (case er of None \<Rightarrow> read_from_loop bk w xs tot' g s'
              | Some e \<Rightarrow> Some ((tot', if e = ErrEOF then None else Some e), s'))))"

definition ReadFrom where
  "ReadFrom bk w xs g s =
     (if sw_closed w then Some ((0, Some ErrClosed), s) else read_from_loop bk w xs 0 g s)"

definition writer_Close ::
  "'s backend \<Rightarrow> send_writer \<Rightarrow> group \<Rightarrow> 's \<Rightarrow> jaccl_error option \<times> send_writer \<times> group \<times> 's" where
  "writer_Close bk w g s =
     (if sw_closed w then (None, w, g, s)
      else
        let w' = w\<lparr>sw_closed := True\<rparr> in
        case sendFrame bk w' [] g s of (e, s') \<Rightarrow>
          (case op_release (sw_op w') g of (op, g') \<Rightarrow> (e, w'\<lparr>sw_op := op\<rparr>, g', s')))"

section \<open>Reading\<close>

definition readPending :: "nat \<Rightarrow> recv_reader \<Rightarrow> bytes \<times> recv_reader" where
  "readPending k r = (take k (rr_pending r), r\<lparr>rr_pending := drop k (rr_pending r)\<rparr>)"

text \<open>The end of a stream: \<^verbatim>\<open>r.eof = true\<close> and the release of the operation.\<close>

definition reader_eof :: "recv_reader \<Rightarrow> group \<Rightarrow> recv_reader \<times> group" where
  "reader_eof r g = (case op_release (rr_op r) g of (op, g') \<Rightarrow> (r\<lparr>rr_eof := True, rr_op := op\<rparr>, g'))"

definition stream_Read ::
  "'s backend \<Rightarrow> nat \<Rightarrow> recv_reader \<Rightarrow> group \<Rightarrow> 's \<Rightarrow> (bytes \<times> jaccl_error option) \<times> recv_reader \<times> group \<times> 's" where
  "stream_Read bk k r g s =
     (if rr_closed r then (([], Some ErrClosed), r, g, s)
      else if k = 0 then (([], None), r, g, s)
      else if rr_pending r \<noteq> [] then (case readPending k r of (d, r') \<Rightarrow> ((d, None), r', g, s))
      else if rr_eof r then (([], Some ErrEOF), r, g, s)
      else (case recvFrame bk r g s of
              (Inl e, s') \<Rightarrow> (([], Some e), r, g, s')
            | (Inr None, s') \<Rightarrow> (case reader_eof r g of (r', g') \<Rightarrow> (([], Some ErrEOF), r', g', s'))
            | (Inr (Some frame), s') \<Rightarrow>
                ((take k frame, None), if k < length frame then r\<lparr>rr_pending := drop k frame\<rparr> else r, g, s')))"

text \<open>\<open>writeAll\<close>: the total, the error, the bytes the writer took and the answers left.\<close>

fun writeAll ::
  "(nat \<times> jaccl_error option) list \<Rightarrow> bytes \<Rightarrow> int \<Rightarrow> bytes \<Rightarrow>
   ((int \<times> jaccl_error option) \<times> bytes \<times> (nat \<times> jaccl_error option) list) option" where
  "writeAll ans [] tot taken = Some ((tot, None), taken, ans)"
| "writeAll [] (b # p) tot taken = None"
| "writeAll ((n, err) # ans) (b # p) tot taken =
     (let tot' = add64 tot (int n); taken' = taken @ take n (b # p) in
      if err \<noteq> None then Some ((tot', err), taken', ans)
      else if n = 0 then Some ((tot', Some ErrShortWrite), taken', ans)
      else writeAll ans (drop n (b # p)) tot' taken')"

partial_function (option) write_to_loop ::
  "'s backend \<Rightarrow> (nat \<times> jaccl_error option) list \<Rightarrow> int \<Rightarrow> bytes \<Rightarrow> recv_reader \<Rightarrow> group \<Rightarrow> 's \<Rightarrow>
   ((int \<times> jaccl_error option) \<times> bytes \<times> recv_reader \<times> group \<times> 's) option" where
  "write_to_loop bk ans tot taken r g s =
     (if rr_eof r then Some ((tot, None), taken, r, g, s)
      else (case recvFrame bk r g s of
              (Inl e, s') \<Rightarrow> Some ((tot, Some e), taken, r, g, s')
            | (Inr None, s') \<Rightarrow> (case reader_eof r g of (r', g') \<Rightarrow> Some ((tot, None), taken, r', g', s'))
            | (Inr (Some frame), s') \<Rightarrow>
                (case writeAll ans frame 0 taken of None \<Rightarrow> None
                 | Some ((n, err), taken', ans') \<Rightarrow>
                     if err \<noteq> None then Some ((add64 tot n, err), taken', r, g, s')
                     else write_to_loop bk ans' (add64 tot n) taken' r g s')))"

definition stream_WriteTo where
  "stream_WriteTo bk ans r g s =
     (if rr_closed r then Some ((0, Some ErrClosed), [], r, g, s)
      else if rr_pending r \<noteq> [] then
        (case writeAll ans (rr_pending r) 0 [] of None \<Rightarrow> None
         | Some ((n, err), taken, ans') \<Rightarrow>
             let r' = r\<lparr>rr_pending := []\<rparr> in
             if err \<noteq> None then Some ((add64 0 n, err), taken, r', g, s)
             else write_to_loop bk ans' (add64 0 n) taken r' g s)
      else write_to_loop bk ans 0 [] r g s)"

definition reader_Close :: "recv_reader \<Rightarrow> group \<Rightarrow> recv_reader \<times> group" where
  "reader_Close r g =
     (case op_release (rr_op r) g of (op, g') \<Rightarrow> (r\<lparr>rr_closed := True, rr_pending := [], rr_op := op\<rparr>, g'))"

section \<open>What a stream needs of the backends\<close>

text \<open>The pieces \<open>Write\<close> sends of one buffer, and the messages of one frame.\<close>

function pieces :: "nat \<Rightarrow> bytes \<Rightarrow> bytes list" where
  "pieces c p = (if c = 0 \<or> p = [] then [] else take c p # pieces c (drop c p))"
  by pat_completeness auto
termination
  by (relation "measure (\<lambda>(c, p). length p)") auto

declare pieces.simps [simp del]

lemma pieces_Nil [simp]: "pieces c [] = []"
  by (simp add: pieces.simps)

lemma pieces_spec:
  "0 < c \<Longrightarrow> concat (pieces c p) = p \<and> (\<forall>f \<in> set (pieces c p). f \<noteq> [] \<and> length f \<le> c)"
proof (induction c p rule: pieces.induct)
  case (1 c p)
  then show ?case by (cases "p = []") (auto simp: pieces.simps [of c p])
qed

definition wire :: "(bytes \<Rightarrow> bytes list) \<Rightarrow> bytes \<Rightarrow> bytes list" where
  "wire pack f = pack (frame_header f) @ (if f = [] then [] else pack f)"

text \<open>A writer that writes the buffers in turn, and a reader that reads with buffers of the given lengths
until an error.\<close>

fun write_all :: "'s backend \<Rightarrow> send_writer \<Rightarrow> bytes list \<Rightarrow> group \<Rightarrow> 's \<Rightarrow> jaccl_error option \<times> 's" where
  "write_all bk w [] g s = (None, s)"
| "write_all bk w (p # ps) g s =
     (case stream_Write bk w p g s of ((n, Some e), s') \<Rightarrow> (Some e, s')
      | ((n, None), s') \<Rightarrow> write_all bk w ps g s')"

fun read_all ::
  "'s backend \<Rightarrow> nat list \<Rightarrow> recv_reader \<Rightarrow> group \<Rightarrow> 's \<Rightarrow> (bytes \<times> jaccl_error option) \<times> recv_reader \<times> group \<times> 's" where
  "read_all bk [] r g s = (([], None), r, g, s)"
| "read_all bk (k # ks) r g s =
     (case stream_Read bk k r g s of ((d, Some e), r', g', s') \<Rightarrow> ((d, Some e), r', g', s')
      | ((d, None), r', g', s') \<Rightarrow>
          (case read_all bk ks r' g' s' of ((d', e), x) \<Rightarrow> ((d @ d', e), x)))"

text \<open>The reader's view of the link: frames to come, the end of the stream, and what follows it.\<close>

definition in_stream ::
  "(bytes \<Rightarrow> bytes list) \<Rightarrow> recv_reader \<Rightarrow> bytes list \<Rightarrow> bytes list \<Rightarrow> bytes list \<Rightarrow> bool" where
  "in_stream pack r q fs rest =
     (\<not> rr_eof r \<and> \<not> rr_closed r \<and> \<not> op_released (rr_op r) \<and> 0 < rr_max r \<and> rr_max r \<le> max_int64 \<and>
      (\<forall>f \<in> set fs. f \<noteq> [] \<and> int (length f) \<le> rr_max r) \<and>
      q = concat (map (wire pack) fs) @ wire pack [] @ rest)"

locale p2p_link =
  fixes bk :: "'s backend" and bk' :: "'t backend" and dst :: int and src :: int
    and pack :: "bytes \<Rightarrow> bytes list" and out :: "'s \<Rightarrow> bytes list" and inq :: "'t \<Rightarrow> bytes list"
    and up :: "'s \<Rightarrow> bool" and up' :: "'t \<Rightarrow> bool"
  assumes send_delivers:
      "up s \<Longrightarrow> x \<noteq> [] \<Longrightarrow> \<exists>s'. bk_send bk dst x s = (None, s') \<and> up s' \<and> out s' = out s @ pack x"
    and recv_takes:
      "up' t \<Longrightarrow> x \<noteq> [] \<Longrightarrow> inq t = pack x @ rest \<Longrightarrow> length buf = length x \<Longrightarrow>
       \<exists>t'. bk_recv bk' src buf t = ((None, x), t') \<and> up' t' \<and> inq t' = rest"
begin

lemma sendFrame_delivers:
  assumes "up s" "sw_dst w = dst" "\<not> op_released (sw_op w)" "gr_b g"
  shows "\<exists>s'. sendFrame bk w p g s = (None, s') \<and> up s' \<and> out s' = out s @ wire pack p"
proof -
  have h: "frame_header p \<noteq> []" using length_PutUint(2) by (metis frame_header_def list.size(3) zero_neq_numeral)
  obtain s1 where s1: "bk_send bk dst (frame_header p) s = (None, s1)" "up s1" "out s1 = out s @ pack (frame_header p)"
    using send_delivers [OF assms(1) h] by blast
  show ?thesis
  proof (cases "p = []")
    case True
    then show ?thesis using s1 assms by (simp add: sendFrame_def op_do_def wrapError_def wire_def)
  next
    case False
    obtain s2 where "bk_send bk dst p s1 = (None, s2)" "up s2" "out s2 = out s1 @ pack p"
      using send_delivers [OF s1(2) False] by blast
    then show ?thesis using s1 assms False by (simp add: sendFrame_def op_do_def wrapError_def wire_def)
  qed
qed

lemma write_loop_delivers:
  assumes "up s" "sw_dst w = dst" "\<not> op_released (sw_op w)" "gr_b g" "0 < sw_chunk w" "written \<le> length p"
  shows "\<exists>s'. write_loop bk w p written g s = ((length p, None), s') \<and> up s' \<and>
    out s' = out s @ concat (map (wire pack) (pieces (nat (sw_chunk w)) (drop written p)))"
  using assms(1,6)
proof (induction "length p - written" arbitrary: written s rule: less_induct)
  case less
  show ?case
  proof (cases "written = length p")
    case True
    then show ?thesis using less.prems by (simp add: write_loop.simps)
  next
    case False
    let ?c = "nat (sw_chunk w)"
    let ?n = "nat (min (sw_chunk w) (int (length p - written)))" and ?f = "take ?c (drop written p)"
    have f: "take ?n (drop written p) = ?f" and n: "0 < ?n" "written + ?n \<le> length p"
      using False less.prems assms(5) by (auto simp: min_def)
    obtain s1 where s1: "sendFrame bk w ?f g s = (None, s1)" "up s1" "out s1 = out s @ wire pack ?f"
      using sendFrame_delivers [OF less.prems(1) assms(2,3,4)] by blast
    have d: "drop (written + ?n) p = drop ?c (drop written p)"
      using False less.prems assms(5) by (auto simp: min_def add.commute nat_le_iff)
    have "pieces ?c (drop written p) = ?f # pieces ?c (drop (written + ?n) p)"
      using False less.prems assms(5) unfolding d by (subst pieces.simps) auto
    moreover have "\<exists>s'. write_loop bk w p (written + ?n) g s1 = ((length p, None), s') \<and> up s' \<and>
        out s' = out s1 @ concat (map (wire pack) (pieces ?c (drop (written + ?n) p)))"
      by (rule less.hyps) (use n s1 False less.prems in auto)
    moreover have "write_loop bk w p written g s = write_loop bk w p (written + ?n) g s1"
      using False less.prems assms(5) s1(1) [folded f] by (subst write_loop.simps) (simp add: Let_def)
    ultimately show ?thesis using s1(3) by auto
  qed
qed

lemma write_all_delivers:
  assumes "up s" "sw_dst w = dst" "\<not> op_released (sw_op w)" "gr_b g" "0 < sw_chunk w" "\<not> sw_closed w"
  shows "\<exists>s'. write_all bk w ps g s = (None, s') \<and> up s' \<and>
    out s' = out s @ concat (map (wire pack) (concat (map (pieces (nat (sw_chunk w))) ps)))"
  using assms(1)
proof (induction ps arbitrary: s)
  case (Cons p ps)
  obtain s1 where s1: "stream_Write bk w p g s = ((length p, None), s1)" "up s1"
    "out s1 = out s @ concat (map (wire pack) (pieces (nat (sw_chunk w)) p))"
    using write_loop_delivers [OF Cons.prems assms(2-5), of 0 p] assms(6) Cons.prems
    by (cases "p = []") (auto simp: stream_Write_def)
  show ?case using Cons.IH [OF s1(2)] s1 by auto
qed simp

lemma recvFrame_takes:
  assumes "up' t" "rr_src r = src" "\<not> op_released (rr_op r)" "gr_b g" "inq t = wire pack f @ rest"
    "int (length f) \<le> rr_max r" "rr_max r \<le> max_int64"
  shows "\<exists>t'. recvFrame bk' r g t = (Inr (if f = [] then None else Some f), t') \<and> up' t' \<and> inq t' = rest"
proof -
  let ?h = "frame_header f" and ?n = "word_of_nat (length f) :: u64"
  have lh: "length ?h = 8" by (simp add: frame_header_def)
  then have h: "?h \<noteq> []" by auto
  have "length f < 2 ^ 64" using assms(6,7) by (simp add: max_int64_def)
  then have u: "unat ?n = length f" and n: "GoStrings.Uint64 ?h = ?n"
    by (simp_all add: frame_header_def unat_of_nat)
  have m: "uint (word_of_int (rr_max r) :: u64) = rr_max r"
    using assms(6,7) by (simp add: uint_word_of_int max_int64_def)
  have le: "\<not> ?n > word_of_int (rr_max r)"
    using assms(6) u m by (simp add: word_less_def) (metis of_nat_0_le_iff unat_eq_nat_uint nat_0_le of_nat_less_iff not_less uint_nat)
  obtain t1 where t1: "bk_recv bk' src (replicate 8 0) t = ((None, ?h), t1)" "up' t1"
    "inq t1 = (if f = [] then [] else pack f) @ rest"
    using recv_takes [OF assms(1) h, of "(if f = [] then [] else pack f) @ rest" "replicate 8 0"] assms(5) lh
    by (auto simp: wire_def)
  show ?thesis
  proof (cases "f = []")
    case True
    then show ?thesis using t1 n assms(2-4)
      by (simp add: recvFrame_def op_do_def recv_frame_body_def wrapError_def)
  next
    case False
    then have n0: "?n \<noteq> 0" using u by (metis length_0_conv unat_0)
    obtain t2 where "bk_recv bk' src (replicate (unat ?n) 0) t1 = ((None, f), t2)" "up' t2" "inq t2 = rest"
      using recv_takes [OF t1(2) False, of rest "replicate (unat ?n) 0"] t1(3) False u by auto
    then show ?thesis using t1 n n0 le False assms(2-4)
      by (simp add: recvFrame_def op_do_def recv_frame_body_def wrapError_def)
  qed
qed

end

context p2p_link
begin

lemma read_step_data:
  assumes "in_stream pack r (inq t) fs rest" "up' t" "rr_src r = src" "gr_b g" "0 < k" "rr_pending r @ concat fs \<noteq> []"
  shows "\<exists>x r' t' fs'. stream_Read bk' k r g t = ((x, None), r', g, t') \<and> x \<noteq> [] \<and> length x \<le> k \<and>
    rr_pending r @ concat fs = x @ rr_pending r' @ concat fs' \<and> in_stream pack r' (inq t') fs' rest \<and> up' t' \<and>
    rr_src r' = src"
proof (cases "rr_pending r = []")
  case False
  let ?r = "r\<lparr>rr_pending := drop k (rr_pending r)\<rparr>"
  have R: "stream_Read bk' k r g t = ((take k (rr_pending r), None), ?r, g, t)"
    using False assms(1,5) by (simp add: stream_Read_def readPending_def in_stream_def)
  moreover have "in_stream pack ?r (inq t) fs rest" using assms(1) by (simp add: in_stream_def)
  ultimately show ?thesis
    using False assms(2,3,5) by (intro exI [of _ "take k (rr_pending r)"] exI [of _ ?r] exI [of _ t] exI [of _ fs]) auto
next
  case True
  then obtain f fs' where fs: "fs = f # fs'" using assms(6) by (cases fs) auto
  have f: "f \<noteq> []" "int (length f) \<le> rr_max r" "rr_max r \<le> max_int64" "\<not> op_released (rr_op r)" "\<not> rr_eof r" "\<not> rr_closed r"
    using assms(1) fs by (auto simp: in_stream_def)
  have q: "inq t = wire pack f @ concat (map (wire pack) fs') @ wire pack [] @ rest"
    using assms(1) fs by (simp add: in_stream_def)
  obtain t' where t': "recvFrame bk' r g t = (Inr (Some f), t')" "up' t'"
    "inq t' = concat (map (wire pack) fs') @ wire pack [] @ rest"
    using recvFrame_takes [OF assms(2,3) f(4) assms(4) q f(2,3)] f(1) by auto
  let ?r = "if k < length f then r\<lparr>rr_pending := drop k f\<rparr> else r"
  have R: "stream_Read bk' k r g t = ((take k f, None), ?r, g, t')"
    using True f t'(1) assms(5) by (simp add: stream_Read_def)
  have "in_stream pack ?r (inq t') fs' rest" using assms(1) fs t'(3) by (simp add: in_stream_def)
  moreover have "rr_pending ?r = drop k f" using True by simp
  ultimately show ?thesis
    using True fs f(1) t'(2) assms(3,5) R
    by (intro exI [of _ "take k f"] exI [of _ ?r] exI [of _ t'] exI [of _ fs']) auto
qed

lemma frame_end:
  assumes "in_stream pack r (inq t) [] rest" "up' t" "rr_src r = src" "gr_b g"
  shows "\<exists>t'. recvFrame bk' r g t = (Inr None, t') \<and> up' t' \<and> inq t' = rest"
  using recvFrame_takes [OF assms(2,3) _ assms(4), of "[]" rest] assms(1)
  by (auto simp: in_stream_def)

lemma read_step_end:
  assumes "in_stream pack r (inq t) [] rest" "up' t" "rr_src r = src" "gr_b g" "0 < k" "rr_pending r = []"
  shows "\<exists>r' t'. stream_Read bk' k r g t = (([], Some ErrEOF), r', group_release g, t') \<and> rr_eof r' \<and> inq t' = rest"
  using frame_end [OF assms(1-4)] assms(1,5,6)
  by (auto simp: stream_Read_def in_stream_def reader_eof_def op_release_def)

lemma read_all_spec:
  assumes "in_stream pack r (inq t) fs rest" "up' t" "rr_src r = src" "gr_b g" "\<forall>k \<in> set ks. 0 < k"
  shows "\<exists>d e r' g' t'. read_all bk' ks r g t = ((d, e), r', g', t') \<and>
    (e = None \<and> g' = g \<and> length ks \<le> length d \<and> (\<exists>z. rr_pending r @ concat fs = d @ z) \<or>
     e = Some ErrEOF \<and> g' = group_release g \<and> d = rr_pending r @ concat fs \<and> inq t' = rest)"
  using assms(1,2,3,5)
proof (induction ks arbitrary: r t fs)
  case (Cons k ks)
  show ?case
  proof (cases "rr_pending r @ concat fs = []")
    case True
    moreover have "fs = []"
      using True Cons.prems(1) by (cases fs) (auto simp: in_stream_def)
    ultimately show ?thesis
      using read_step_end [of r t rest g k] Cons.prems assms(4) by auto
  next
    case False
    obtain x r1 t1 fs1 where R: "stream_Read bk' k r g t = ((x, None), r1, g, t1)" "x \<noteq> []"
      "rr_pending r @ concat fs = x @ rr_pending r1 @ concat fs1" "in_stream pack r1 (inq t1) fs1 rest" "up' t1" "rr_src r1 = src"
      using read_step_data [OF Cons.prems(1-3) assms(4) _ False, of k] Cons.prems(4) by auto
    obtain d e r' g' t' where I: "read_all bk' ks r1 g t1 = ((d, e), r', g', t')"
      "e = None \<and> g' = g \<and> length ks \<le> length d \<and> (\<exists>z. rr_pending r1 @ concat fs1 = d @ z) \<or>
       e = Some ErrEOF \<and> g' = group_release g \<and> d = rr_pending r1 @ concat fs1 \<and> inq t' = rest"
      using Cons.IH [OF R(4-6)] Cons.prems(4) by auto
    moreover have "1 \<le> length x" using R(2) by (cases x) auto
    ultimately show ?thesis using R(1,3) by auto
  qed
qed auto

text \<open>A writer that takes every frame at once.\<close>

lemma write_to_all:
  assumes "in_stream pack r (inq t) fs rest" "up' t" "rr_src r = src" "gr_b g" "0 \<le> tot"
    "tot + int (length (concat fs)) \<le> max_int64"
  shows "\<exists>r' t'. write_to_loop bk' (map (\<lambda>f. (length f, None)) fs) tot taken r g t =
    Some ((tot + int (length (concat fs)), None), taken @ concat fs, r', group_release g, t') \<and> inq t' = rest"
  using assms(1,2,5,6)
proof (induction fs arbitrary: t tot taken)
  case Nil
  then show ?case
    using frame_end [OF Nil(1,2) assms(3,4)]
    by (subst write_to_loop.simps) (auto simp: in_stream_def reader_eof_def op_release_def)
next
  case (Cons f fs)
  have f: "f \<noteq> []" "int (length f) \<le> rr_max r" "rr_max r \<le> max_int64" "\<not> op_released (rr_op r)" "\<not> rr_eof r"
    using Cons.prems(1) by (auto simp: in_stream_def)
  have q: "inq t = wire pack f @ concat (map (wire pack) fs) @ wire pack [] @ rest"
    using Cons.prems(1) by (simp add: in_stream_def)
  obtain t1 where t1: "recvFrame bk' r g t = (Inr (Some f), t1)" "up' t1"
    "inq t1 = concat (map (wire pack) fs) @ wire pack [] @ rest"
    using recvFrame_takes [OF Cons.prems(2) assms(3) f(4) assms(4) q f(2,3)] f(1) by auto
  have W: "writeAll ((length f, None) # ans) f 0 taken = Some ((int (length f), None), taken @ f, ans)" for ans
    using f by (cases f) (auto simp: Let_def add64_id)
  have "in_stream pack r (inq t1) fs rest" using Cons.prems(1) t1(3) by (simp add: in_stream_def)
  from Cons.IH [OF this t1(2), of "tot + int (length f)" "taken @ f"]
  show ?case using Cons.prems(3,4) f(5) t1(1) W
    by (subst write_to_loop.simps) (auto simp: add64_id add.assoc)
qed

end

section \<open>The direct backend carries streams\<close>

definition messages :: "bytes \<Rightarrow> bytes list" where
  "messages x = snd (send_loop rdmaStagingBytes (\<lambda>_. None) x 0)"

text \<open>A connection to the peer whose lock is free, and a provider that answers no error.\<close>

definition conn_up :: "int \<Rightarrow> direct_state \<Rightarrow> bool" where
  "conn_up peer s \<longleftrightarrow> (\<exists>c. be_conn (ds_backend s) peer = Inr c) \<and> nat peer < length (ds_locks s) \<and>
     ds_locks s ! nat peer = Some False \<and> (\<forall>n k. ds_net s n k = None)"

lemma p2p_locks_free:
  "i < length ls \<Longrightarrow> ls ! i = Some False \<Longrightarrow> p2p_locks i ls = Some ls"
  by (simp add: p2p_locks_def lock_conn_def unlockConns_def) (metis list_update_id)

lemma p2p_guard_up: "conn_up peer s \<Longrightarrow> p2p_guard peer x s = Some (ds_locks s)"
  by (auto simp: p2p_guard_def conn_up_def p2p_locks_free)

lemma recv_loop_append:
  "fst (recv_loop staging net ms buf d off) = None \<Longrightarrow>
   recv_loop staging net (ms @ rest) buf d off = recv_loop staging net ms buf d off"
proof (induction staging net ms buf d off rule: recv_loop.induct)
  case (1 staging net ms buf d off)
  show ?case
  proof (cases ms)
    case (Cons m ms')
    then show ?thesis
      using 1 by (simp add: recv_loop.simps [of staging net "m # ms' @ rest"] recv_loop.simps [of staging net "m # ms'"]
          Let_def split: option.splits if_splits) auto
  next
    case Nil
    then show ?thesis
      using "1.prems" by (simp add: recv_loop.simps [of staging net rest] recv_loop.simps [of staging net "[]"]
          Let_def split: option.splits if_splits) auto
  qed
qed

lemma ceil_div_step:
  fixes s m :: nat
  assumes "0 < s" "0 < m"
  shows "Suc ((m - s + s - 1) div s) = (m + s - 1) div s"
proof (cases "s \<le> m")
  case True
  have "(m - 1 + s) div s = Suc ((m - 1) div s)" using assms(1) by (simp add: div_add_self2)
  moreover have "m + s - 1 = m - 1 + s" "m - s + s - 1 = m - 1" using True assms by simp_all
  ultimately show ?thesis by simp
next
  case False
  then have "(m + s - 1) div s = 1" using assms by (intro div_nat_eqI) auto
  then show ?thesis using False assms by simp
qed

lemma send_loop_quiet:
  assumes "\<forall>k. net k = None" "0 < staging"
  shows "fst (send_loop staging net x off) = None \<and>
    length (snd (send_loop staging net x off)) = (length x - off + staging - 1) div staging"
  using assms
proof (induction staging net x off rule: send_loop.induct)
  case (1 staging net x off)
  then show ?case
    using ceil_div_step [of staging "length x - off"]
    by (subst (1 2) send_loop.simps) (auto simp: Let_def split: prod.splits)
qed

lemma send_loop_net:
  "\<forall>k. net k = None \<Longrightarrow> send_loop staging net x off = send_loop staging (\<lambda>_. None) x off"
  by (simp add: fun_eq_iff [symmetric])

lemma messages_ok:
  "\<forall>k. net k = None \<Longrightarrow> send_loop rdmaStagingBytes net x 0 = (None, messages x)"
  using send_loop_quiet [of "\<lambda>_. None" rdmaStagingBytes x 0] send_loop_net [of net rdmaStagingBytes x 0]
  by (simp add: messages_def rdmaStagingBytes_def prod_eq_iff)

lemma length_messages: "length (messages x) = message_count (length x)"
  using send_loop_quiet [of "\<lambda>_. None" rdmaStagingBytes x 0]
  by (simp add: messages_def message_count_def rdmaStagingBytes_def)

lemma recv_taken_quiet: "\<forall>k. net k = None \<Longrightarrow> recv_taken net n = message_count n"
  by (simp add: recv_taken_def takeWhile_eq_all_conv [THEN iffD2])

lemma recv_messages:
  assumes "\<forall>k. net k = None" "length buf = length x"
  shows "recv_loop rdmaStagingBytes net (messages x @ rest) stg buf 0 = (None, x)"
proof -
  have "recv_loop rdmaStagingBytes net (messages x) stg buf 0 = (None, x)"
    unfolding messages_def using assms by (intro recv_send_loop) (auto simp: rdmaStagingBytes_def)
  then show ?thesis using recv_loop_append by simp
qed

interpretation direct_link: p2p_link "direct_backend fp barr rel" "direct_backend fp' barr' rel'" dst src messages
  "\<lambda>s. ds_out s dst" "\<lambda>t. ds_in t src" "conn_up dst" "conn_up src"
  for fp barr rel fp' barr' rel' dst src
proof
  fix s x
  assume up: "conn_up dst s" and x: "(x :: bytes) \<noteq> []"
  then obtain c where c: "be_conn (ds_backend s) dst = Inr c" and q: "\<forall>k. ds_net s (ds_calls s) k = None"
    by (auto simp: conn_up_def)
  have "direct_send dst x s = (None, (called (ds_locks s) s)\<lparr>ds_out := (ds_out s)(dst := ds_out s dst @ messages x)\<rparr>)"
    using x c messages_ok [OF q] by (simp add: direct_send_def p2p_guard_up [OF up] be_send_def)
  then show "\<exists>s'. bk_send (direct_backend fp barr rel) dst x s = (None, s') \<and> conn_up dst s' \<and>
      ds_out s' dst = ds_out s dst @ messages x"
    using up by (auto simp: direct_backend_def conn_up_def called_def)
next
  fix t x rest buf
  assume up: "conn_up src t" and x: "(x :: bytes) \<noteq> []" and i: "ds_in t src = messages x @ rest"
    and l: "length (buf :: bytes) = length x"
  then obtain c where c: "be_conn (ds_backend t) src = Inr c" and q: "\<forall>k. ds_net t (ds_calls t) k = None"
    by (auto simp: conn_up_def)
  have b: "buf \<noteq> []" using l x by auto
  have "direct_recv src buf t = ((None, x), (called (ds_locks t) t)\<lparr>ds_in := (ds_in t)(src := rest)\<rparr>)"
    using b c i l recv_messages [OF q l] recv_taken_quiet [OF q]
    by (simp add: direct_recv_def p2p_guard_up [OF up] be_recv_def length_messages [symmetric])
  then show "\<exists>t'. bk_recv (direct_backend fp' barr' rel') src buf t = ((None, x), t') \<and> conn_up src t' \<and> ds_in t' src = rest"
    using up by (auto simp: direct_backend_def conn_up_def called_def)
qed

section \<open>Round trip\<close>

lemma newSendWriter_Inr:
  assumes "newSendWriter ce p (Some g) dst c = Some (Inr w, g1)"
  shows "\<exists>g'. g1 = Some g' \<and> gr_b g' \<and> gr_op g' \<and> \<not> gr_closed g' \<and> sw_dst w = dst \<and> sw_chunk w = c \<and> 0 < c \<and>
    \<not> sw_closed w \<and> \<not> op_released (sw_op w)"
  using assms
  by (cases p) (auto simp: newSendWriter_def begin_op_def acquire_def acquire_first_def acquire_third_def
      split: option.splits sum.splits if_splits prod.splits)

lemma newRecvReader_Inr:
  assumes "newRecvReader ce p (Some g) src c = Some (Inr r, g1)"
  shows "\<exists>g'. g1 = Some g' \<and> gr_b g' \<and> gr_op g' \<and> \<not> gr_closed g' \<and> rr_src r = src \<and> rr_max r = c \<and> 0 < c \<and>
    \<not> rr_closed r \<and> \<not> rr_eof r \<and> rr_pending r = [] \<and> \<not> op_released (rr_op r)"
  using assms
  by (cases p) (auto simp: newRecvReader_def begin_op_def acquire_def acquire_first_def acquire_third_def
      split: option.splits sum.splits if_splits prod.splits)


context p2p_link
begin

lemma session_delivers:
  assumes "up s" "sw_dst w = dst" "\<not> op_released (sw_op w)" "gr_b g" "0 < sw_chunk w" "\<not> sw_closed w"
  shows "\<exists>s1 w' s2. write_all bk w ws g s = (None, s1) \<and> writer_Close bk w g s1 = (None, w', group_release g, s2) \<and>
    sw_closed w' \<and> up s2 \<and>
    out s2 = out s @ concat (map (wire pack) (concat (map (pieces (nat (sw_chunk w))) ws))) @ wire pack []"
proof -
  obtain s1 where s1: "write_all bk w ws g s = (None, s1)" "up s1"
    "out s1 = out s @ concat (map (wire pack) (concat (map (pieces (nat (sw_chunk w))) ws)))"
    using write_all_delivers [OF assms] by blast
  obtain s2 where "sendFrame bk (w\<lparr>sw_closed := True\<rparr>) [] g s1 = (None, s2)" "up s2" "out s2 = out s1 @ wire pack []"
    using sendFrame_delivers [OF s1(2), of "w\<lparr>sw_closed := True\<rparr>" g "[]"] assms(2-4) by auto
  then show ?thesis using s1 assms(3,6) by (auto simp: writer_Close_def op_release_def)
qed

text \<open>Copying from a reader is writing what its calls return, one buffer after another.\<close>

lemma read_from_writes:
  assumes "up s" "sw_dst w = dst" "\<not> op_released (sw_op w)" "gr_b g" "0 < sw_chunk w" "\<not> sw_closed w"
    "0 \<le> tot" "tot + int (length (concat ds) + length d) \<le> max_int64"
  shows "read_from_loop bk w (map (\<lambda>d. (d, None)) ds @ [(d, Some ErrEOF)]) tot g s =
    Some ((tot + int (length (concat ds) + length d), None), snd (write_all bk w (ds @ [d]) g s))"
  using assms(1,7,8)
proof (induction ds arbitrary: s tot)
  case Nil
  show ?case
    using write_loop_delivers [OF Nil(1) assms(2-5), of 0 d] Nil(2,3) assms(6)
    by (cases "d = []") (auto simp: stream_Write_def add64_id)
next
  case (Cons x ds)
  obtain s1 where s1: "stream_Write bk w x g s = ((length x, None), s1)" "up s1"
    using write_loop_delivers [OF Cons.prems(1) assms(2-5), of 0 x] assms(6) Cons.prems
    by (cases "x = []") (auto simp: stream_Write_def)
  have [simp]: "(if x \<noteq> [] then stream_Write bk w x g s else ((0, None), s)) = ((length x, None), s1)"
    using s1(1) assms(6) by (cases "x = []") (auto simp: stream_Write_def)
  show ?case
    using Cons.IH [OF s1(2), of "tot + int (length x)"] Cons.prems(2,3) s1(1)
    by (auto simp: add64_id add.assoc)
qed

end

lemma chunk_frames:
  assumes "0 < c" "c \<le> c'"
  shows "concat (concat (map (pieces (nat c)) ws)) = concat ws \<and>
    (\<forall>f \<in> set (concat (map (pieces (nat c)) ws)). f \<noteq> [] \<and> int (length f) \<le> c')"
  using pieces_spec [of "nat c"] assms by (induction ws) (fastforce simp: nat_le_iff le_nat_iff)+

text \<open>
  C29. Streams round trip: whatever buffers a writer writes before it closes, and whatever the lengths of
  the reader's buffers, the reads return a prefix of the bytes written and no error, and with enough reads
  all of them and then EOF.  Close and EOF give the token of each group back, and the reader leaves the
  messages after the stream alone.  The reader's frame limit has to be at least the writer's chunk.
\<close>

theorem stream_roundtrip:
  assumes "newSendWriter ce p (Some g) dst c = Some (Inr w, Some g1)"
    and "newRecvReader ce' p' (Some h) src c' = Some (Inr r, Some h1)"
    and "c \<le> c'" "c' \<le> max_int64" "conn_up dst s" "ds_out s dst = []" "\<forall>k \<in> set ks. 0 < k"
  shows "\<exists>s1 w' s2. write_all (direct_backend fp barr rel) w ws g1 s = (None, s1) \<and>
    writer_Close (direct_backend fp barr rel) w g1 s1 = (None, w', g1\<lparr>gr_op := False\<rparr>, s2) \<and>
    (\<forall>t rest. conn_up src t \<and> ds_in t src = ds_out s2 dst @ rest \<longrightarrow>
      (\<exists>d e r' h2 t'. read_all (direct_backend fp' barr' rel') ks r h1 t = ((d, e), r', h2, t') \<and>
        (\<exists>z. concat ws = d @ z) \<and> (e = None \<and> h2 = h1 \<or> e = Some ErrEOF) \<and>
        (e = Some ErrEOF \<longrightarrow> d = concat ws \<and> h2 = h1\<lparr>gr_op := False\<rparr> \<and> ds_in t' src = rest) \<and>
        (length (concat ws) < length ks \<longrightarrow> e = Some ErrEOF)))"
proof -
  note W = newSendWriter_Inr [OF assms(1), simplified]
  note R = newRecvReader_Inr [OF assms(2), simplified]
  let ?fs = "concat (map (pieces (nat c)) ws)"
  have fs: "concat ?fs = concat ws" "\<forall>f \<in> set ?fs. f \<noteq> [] \<and> int (length f) \<le> c'"
    using chunk_frames [OF _ assms(3)] W by blast+
  obtain s1 w' s2 where S: "write_all (direct_backend fp barr rel) w ws g1 s = (None, s1)"
    "writer_Close (direct_backend fp barr rel) w g1 s1 = (None, w', group_release g1, s2)"
    "ds_out s2 dst = concat (map (wire messages) ?fs) @ wire messages []"
    using direct_link.session_delivers [where fp = fp and barr = barr and rel = rel and ws = ws, OF assms(5), of w g1]
      W assms(6) by auto
  have "\<exists>d e r' h2 t'. read_all (direct_backend fp' barr' rel') ks r h1 t = ((d, e), r', h2, t') \<and>
        (\<exists>z. concat ws = d @ z) \<and> (e = None \<and> h2 = h1 \<or> e = Some ErrEOF) \<and>
        (e = Some ErrEOF \<longrightarrow> d = concat ws \<and> h2 = h1\<lparr>gr_op := False\<rparr> \<and> ds_in t' src = rest) \<and>
        (length (concat ws) < length ks \<longrightarrow> e = Some ErrEOF)"
    if t: "conn_up src t" "ds_in t src = ds_out s2 dst @ rest" for t rest
  proof -
    have "in_stream messages r (ds_in t src) ?fs rest"
      using t(2) S(3) fs(2) R assms(4) by (simp add: in_stream_def)
    from direct_link.read_all_spec [OF this t(1), of h1 ks] R assms(7) fs(1)
    show ?thesis by (fastforce simp: group_release_def)
  qed
  then show ?thesis using S(1,2) by (auto simp: group_release_def)
qed

definition demo_writer :: send_writer where
  "demo_writer = \<lparr> sw_op = \<lparr> op_name = ''stream send'', op_released = False \<rparr>, sw_dst = 1, sw_chunk = 2, sw_closed = False \<rparr>"

definition demo_reader :: recv_reader where
  "demo_reader = \<lparr> rr_op = \<lparr> op_name = ''stream recv'', op_released = False \<rparr>, rr_src = 0, rr_max = 4, rr_pending = [],
     rr_eof = False, rr_closed = False \<rparr>"

lemma demo_conn_up: "conn_up 1 demo_direct"
  by (simp add: conn_up_def demo_direct_def be_conn_def pair_backend_def pair_conns [simplified])

definition demo_backend :: "direct_state backend" where
  "demo_backend = direct_backend fp0 (\<lambda>s. (None, s)) (\<lambda>s. (None, s))"

theorem stream_roundtrip_witness:
  "\<exists>s1 w' s2. write_all demo_backend demo_writer [[1, 2, 3], [], [4]] (demo_group\<lparr>gr_op := True\<rparr>) demo_direct = (None, s1) \<and>
    writer_Close demo_backend demo_writer (demo_group\<lparr>gr_op := True\<rparr>) s1 = (None, w', demo_group, s2) \<and>
    (\<forall>t. conn_up 0 t \<and> ds_in t 0 = ds_out s2 1 \<longrightarrow>
      fst (read_all demo_backend [1, 5, 1, 7, 7] demo_reader (demo_group\<lparr>gr_rank := 1, gr_op := True\<rparr>) t) =
        ([1, 2, 3, 4], Some ErrEOF))"
proof -
  have w: "newSendWriter None PickOp (Some demo_group) 1 2 = Some (Inr demo_writer, Some (demo_group\<lparr>gr_op := True\<rparr>))"
    and r: "newRecvReader None PickOp (Some (demo_group\<lparr>gr_rank := 1\<rparr>)) 0 4 =
      Some (Inr demo_reader, Some (demo_group\<lparr>gr_rank := 1, gr_op := True\<rparr>))"
    by code_simp+
  have g: "demo_group\<lparr>gr_op := True\<rparr>\<lparr>gr_op := False\<rparr> = demo_group" by (simp add: demo_group_def)
  from stream_roundtrip [OF w r _ _ demo_conn_up, of "[1, 5, 1, 7, 7]" fp0 "\<lambda>s. (None, s)" "\<lambda>s. (None, s)" "[[1, 2, 3], [], [4]]"
      fp0 "\<lambda>s. (None, s)" "\<lambda>s. (None, s)", folded demo_backend_def]
  obtain s1 w' s2 where S: "write_all demo_backend demo_writer [[1, 2, 3], [], [4]] (demo_group\<lparr>gr_op := True\<rparr>) demo_direct = (None, s1)"
    "writer_Close demo_backend demo_writer (demo_group\<lparr>gr_op := True\<rparr>) s1 = (None, w', demo_group, s2)"
    and T: "\<And>t. conn_up 0 t \<Longrightarrow> ds_in t 0 = ds_out s2 1 \<Longrightarrow>
      fst (read_all demo_backend [1, 5, 1, 7, 7] demo_reader (demo_group\<lparr>gr_rank := 1, gr_op := True\<rparr>) t) =
        ([1, 2, 3, 4], Some ErrEOF)"
    by (fastforce simp: max_int64_def demo_direct_def g)
  then show ?thesis by blast
qed

end
