(* ===== verification/SideChannel.thy ===== *)
theory SideChannel
  imports Transport
begin

text \<open>
  The TCP side channel, \<^verbatim>\<open>src/internal/tcpchan/frame.go\<close> and \<^verbatim>\<open>tcpchan.go\<close>: frames, the
  handshake with rank zero, and the gather on which \<^verbatim>\<open>Barrier\<close> and the exchange of queue-pair
  addresses rest.

  A connection is the bytes that can still be read from it and how they end, the bytes written to it, and
  the point past which writing fails.  A read that waits for more bytes does not return: \<open>None\<close>.
  \<^verbatim>\<open>json.Marshal\<close> is written out for the values the code encodes; \<^verbatim>\<open>json.Unmarshal\<close> is a
  parameter.
\<close>

section \<open>Connections\<close>

datatype stream_end = EndEOF | EndError string | StillOpen

record tcp_conn =
  tc_in :: bytes
  tc_end :: stream_end
  tc_out :: bytes
  tc_limit :: "(nat \<times> string) option"

definition conn_write :: "bytes \<Rightarrow> tcp_conn \<Rightarrow> string option \<times> tcp_conn" where
  "conn_write b c =
     (case tc_limit c of None \<Rightarrow> (None, c\<lparr>tc_out := tc_out c @ b\<rparr>)
      | Some (k, e) \<Rightarrow>
          if length (tc_out c) + length b \<le> k then (None, c\<lparr>tc_out := tc_out c @ b\<rparr>)
          else (Some e, c\<lparr>tc_out := take k (tc_out c @ b)\<rparr>))"

datatype read_error = ReadEOF | ReadUnexpectedEOF | ReadFailed string

text \<open>\<^verbatim>\<open>io.ReadFull\<close>\<close>

definition ReadFull :: "nat \<Rightarrow> tcp_conn \<Rightarrow> ((read_error + bytes) \<times> tcp_conn) option" where
  "ReadFull n c =
     (if n \<le> length (tc_in c) then Some (Inr (take n (tc_in c)), c\<lparr>tc_in := drop n (tc_in c)\<rparr>)
      else (case tc_end c of
              StillOpen \<Rightarrow> None
            | EndEOF \<Rightarrow> Some (Inl (if tc_in c = [] then ReadEOF else ReadUnexpectedEOF), c\<lparr>tc_in := []\<rparr>)
            | EndError e \<Rightarrow> Some (Inl (ReadFailed e), c\<lparr>tc_in := []\<rparr>)))"

section \<open>Frames\<close>

definition maxFrameSize :: nat where
  "maxFrameSize = 8192"

datatype side_error =
    SideClosed
  | SizeNotPositive int
  | SideRankOutOfRange int int
  | ListenFailed string
  | AcceptFailed string
  | ErrFrameTooLarge
  | ErrMalformedFrame read_error
  | WriteHeader string
  | WritePayload string
  | ReadHeader read_error
  | ReadPayload read_error
  | SideCtx ctx_error
  | DialFailed ctx_error
  | IncompatibleProtocol string int
  | PeerSize int int int
  | PeerRank int
  | DuplicateRank int
  | BadAck int int
  | DecodeFrame string
  | DecodeGather string
  | GatheredCount nat int

definition WriteFrame :: "bytes \<Rightarrow> tcp_conn \<Rightarrow> side_error option \<times> tcp_conn" where
  "WriteFrame payload c =
     (if length payload > maxFrameSize then (Some ErrFrameTooLarge, c)
      else (case conn_write (PutUint32 (word_of_nat (length payload))) c of
              (Some e, c') \<Rightarrow> (Some (WriteHeader e), c')
            | (None, c') \<Rightarrow>
                if payload = [] then (None, c')
                else (case conn_write payload c' of
                        (Some e, c'') \<Rightarrow> (Some (WritePayload e), c'')
                      | (None, c'') \<Rightarrow> (None, c''))))"

definition read_fail :: "(read_error \<Rightarrow> side_error) \<Rightarrow> read_error \<Rightarrow> side_error" where
  "read_fail other e = (if e = ReadUnexpectedEOF \<or> e = ReadEOF then ErrMalformedFrame e else other e)"

definition ReadFrame :: "tcp_conn \<Rightarrow> ((side_error + bytes) \<times> tcp_conn) option" where
  "ReadFrame c =
     (case ReadFull 4 c of None \<Rightarrow> None
      | Some (Inl e, c') \<Rightarrow> Some (Inl (read_fail ReadHeader e), c')
      | Some (Inr hdr, c') \<Rightarrow>
          let n = unat (GoStrings.Uint32 hdr) in
          if n > maxFrameSize then Some (Inl ErrFrameTooLarge, c')
          else if n = 0 then Some (Inr [], c')
          else (case ReadFull n c' of None \<Rightarrow> None
                | Some (Inl e, c'') \<Rightarrow> Some (Inl (read_fail ReadPayload e), c'')
                | Some (Inr payload, c'') \<Rightarrow> Some (Inr payload, c'')))"

text \<open>
  \<open>withContext\<close>: what the context says after the call, and whether its deadline has passed.  \<open>k\<close> numbers
  the frames of one operation.
\<close>

record side_env =
  se_ctx :: "nat \<Rightarrow> ctx_error option"
  se_expired :: "nat \<Rightarrow> bool"
  se_dial :: "nat \<Rightarrow> ctx_error option"

definition withContext :: "side_env \<Rightarrow> nat \<Rightarrow> side_error option \<Rightarrow> side_error option" where
  "withContext env k err =
     (case se_ctx env k of Some e \<Rightarrow> Some (SideCtx e)
      | None \<Rightarrow> if err \<noteq> None \<and> se_expired env k then Some (SideCtx DeadlineExceeded) else err)"

definition side_writeFrame :: "side_env \<Rightarrow> nat \<Rightarrow> bytes \<Rightarrow> tcp_conn \<Rightarrow> side_error option \<times> tcp_conn" where
  "side_writeFrame env k data c = (case WriteFrame data c of (e, c') \<Rightarrow> (withContext env k e, c'))"

definition side_readFrame :: "side_env \<Rightarrow> nat \<Rightarrow> tcp_conn \<Rightarrow> ((side_error + bytes) \<times> tcp_conn) option" where
  "side_readFrame env k c =
     (case ReadFrame c of None \<Rightarrow> None
      | Some (r, c') \<Rightarrow>
          (case withContext env k (case r of Inl e \<Rightarrow> Some e | Inr _ \<Rightarrow> None) of
             Some e \<Rightarrow> Some (Inl e, c')
           | None \<Rightarrow> Some (r, c')))"

section \<open>JSON\<close>

definition str_bytes :: "string \<Rightarrow> bytes" where
  "str_bytes s = map of_char s"

text \<open>Standard base 64, with padding.\<close>

definition base64_alphabet :: string where
  "base64_alphabet = ''ABCDEFGHIJKLMNOPQRSTUVWXYZabcdefghijklmnopqrstuvwxyz0123456789+/''"

definition base64_digit :: "nat \<Rightarrow> char" where
  "base64_digit d = base64_alphabet ! (d mod 64)"

fun base64 :: "bytes \<Rightarrow> string" where
  "base64 [] = []"
| "base64 [a] = (let n = unat a * 65536 in [base64_digit (n div 262144), base64_digit (n div 4096), CHR ''='', CHR ''=''])"
| "base64 [a, b] =
     (let n = unat a * 65536 + unat b * 256 in
      [base64_digit (n div 262144), base64_digit (n div 4096), base64_digit (n div 64), CHR ''=''])"
| "base64 (a # b # c # bs) =
     (let n = unat a * 65536 + unat b * 256 + unat c in
      [base64_digit (n div 262144), base64_digit (n div 4096), base64_digit (n div 64), base64_digit n] @ base64 bs)"

text \<open>A \<^verbatim>\<open>[]byte\<close> is a base 64 string, or \<^verbatim>\<open>null\<close> for the nil slice.\<close>

definition marshal_value :: "bytes option \<Rightarrow> string" where
  "marshal_value v = (case v of None \<Rightarrow> ''null'' | Some b \<Rightarrow> CHR 0x22 # base64 b @ [CHR 0x22])"

definition marshal_list :: "string list \<Rightarrow> string" where
  "marshal_list ss = ''['' @ Join '','' ss @ '']''"

definition marshal_values :: "bytes option list \<Rightarrow> bytes" where
  "marshal_values vs = str_bytes (marshal_list (map marshal_value vs))"

definition json_field :: "string \<Rightarrow> string \<Rightarrow> string" where
  "json_field name v = CHR 0x22 # name @ CHR 0x22 # CHR '':'' # v"

definition json_object :: "string list \<Rightarrow> string" where
  "json_object fs = ''{'' @ Join '','' fs @ ''}''"

section \<open>The handshake\<close>

definition helloMagic :: string where
  "helloMagic = ''gojaccl/tcpchan''"

definition helloVersion :: int where
  "helloVersion = 1"

record hello =
  he_Magic :: string
  he_Version :: int
  he_Rank :: int
  he_Size :: int

definition newHello :: "int \<Rightarrow> int \<Rightarrow> hello" where
  "newHello rank n = \<lparr> he_Magic = helloMagic, he_Version = helloVersion, he_Rank = rank, he_Size = n \<rparr>"

definition checkHello :: "hello \<Rightarrow> side_error option" where
  "checkHello msg =
     (if he_Magic msg \<noteq> helloMagic \<or> he_Version msg \<noteq> helloVersion
      then Some (IncompatibleProtocol (he_Magic msg) (he_Version msg)) else None)"

text \<open>The magic of a hello that is sent needs no escapes.\<close>

definition marshal_hello :: "hello \<Rightarrow> bytes" where
  "marshal_hello h = str_bytes (json_object
     [json_field ''magic'' (CHR 0x22 # he_Magic h @ [CHR 0x22]), json_field ''version'' (Itoa (he_Version h)),
      json_field ''rank'' (Itoa (he_Rank h)), json_field ''size'' (Itoa (he_Size h))])"

text \<open>\<^verbatim>\<open>json.Unmarshal\<close> into the three types the channel's users decode.\<close>

record json_decoder =
  js_hello :: "bytes \<Rightarrow> string + hello"
  js_values :: "bytes \<Rightarrow> string + bytes option list"

definition readJSON_hello :: "json_decoder \<Rightarrow> side_env \<Rightarrow> nat \<Rightarrow> tcp_conn \<Rightarrow> ((side_error + hello) \<times> tcp_conn) option" where
  "readJSON_hello js env k c =
     (case side_readFrame env k c of None \<Rightarrow> None
      | Some (Inl e, c') \<Rightarrow> Some (Inl e, c')
      | Some (Inr data, c') \<Rightarrow>
          (case js_hello js data of Inl e \<Rightarrow> Some (Inl (DecodeFrame e), c') | Inr v \<Rightarrow> Some (Inr v, c')))"

definition writeJSON_hello :: "side_env \<Rightarrow> nat \<Rightarrow> hello \<Rightarrow> tcp_conn \<Rightarrow> side_error option \<times> tcp_conn" where
  "writeJSON_hello env k h c = side_writeFrame env k (marshal_hello h) c"

record channel =
  ch_rank :: int
  ch_size :: int
  ch_peers :: "tcp_conn option list"

text \<open>What rank zero checks of a hello before it takes the connection.\<close>

definition accept_check :: "int \<Rightarrow> tcp_conn option list \<Rightarrow> hello \<Rightarrow> side_error option" where
  "accept_check n peers msg =
     (case checkHello msg of Some e \<Rightarrow> Some e
      | None \<Rightarrow>
          if he_Size msg \<noteq> n then Some (PeerSize (he_Rank msg) (he_Size msg) n)
          else if he_Rank msg \<le> 0 \<or> he_Rank msg \<ge> n then Some (PeerRank (he_Rank msg))
          else if peers ! nat (he_Rank msg) \<noteq> None then Some (DuplicateRank (he_Rank msg))
          else None)"

text \<open>The accept loop over what \<^verbatim>\<open>Accept\<close> returns; \<open>accepted\<close> starts at one.\<close>

fun listen_loop ::
  "json_decoder \<Rightarrow> side_env \<Rightarrow> (string + tcp_conn) list \<Rightarrow> nat \<Rightarrow> channel \<Rightarrow> (side_error option \<times> channel) option" where
  "listen_loop js env accs accepted ch =
     (if int accepted \<ge> ch_size ch then Some (None, ch)
      else case accs of [] \<Rightarrow> None
      | Inl e # accs' \<Rightarrow>
          Some (Some (case se_dial env accepted of Some ce \<Rightarrow> SideCtx ce | None \<Rightarrow> AcceptFailed e), ch)
      | Inr conn # accs' \<Rightarrow>
          (case readJSON_hello js env (2 * accepted) conn of None \<Rightarrow> None
           | Some (Inl e, conn') \<Rightarrow> Some (Some e, ch)
           | Some (Inr msg, conn') \<Rightarrow>
               (case accept_check (ch_size ch) (ch_peers ch) msg of Some e \<Rightarrow> Some (Some e, ch)
                | None \<Rightarrow>
                    (case writeJSON_hello env (2 * accepted + 1) (newHello (ch_rank ch) (ch_size ch)) conn' of
                       (Some e, conn'') \<Rightarrow> Some (Some e, ch\<lparr>ch_peers := (ch_peers ch)[nat (he_Rank msg) := Some conn'']\<rparr>)
                     | (None, conn'') \<Rightarrow>
                         listen_loop js env accs' (accepted + 1)
                           (ch\<lparr>ch_peers := (ch_peers ch)[nat (he_Rank msg) := Some conn'']\<rparr>)))))"

declare listen_loop.simps [simp del]

definition handshake :: "json_decoder \<Rightarrow> side_env \<Rightarrow> channel \<Rightarrow> tcp_conn \<Rightarrow> ((side_error + tcp_conn)) option" where
  "handshake js env ch conn =
     (case writeJSON_hello env 0 (newHello (ch_rank ch) (ch_size ch)) conn of
        (Some e, c) \<Rightarrow> Some (Inl e)
      | (None, c) \<Rightarrow>
          (case readJSON_hello js env 1 c of None \<Rightarrow> None
           | Some (Inl e, c') \<Rightarrow> Some (Inl e)
           | Some (Inr ack, c') \<Rightarrow>
               (case checkHello ack of Some e \<Rightarrow> Some (Inl e)
                | None \<Rightarrow>
                    if he_Rank ack \<noteq> 0 \<or> he_Size ack \<noteq> ch_size ch then Some (Inl (BadAck (he_Rank ack) (he_Size ack)))
                    else Some (Inr c'))))"

text \<open>The dial loop over what \<^verbatim>\<open>DialContext\<close> returns; the context is consulted before each attempt and while
waiting after a failed one.\<close>

fun dial_loop ::
  "json_decoder \<Rightarrow> side_env \<Rightarrow> (string + tcp_conn) list \<Rightarrow> nat \<Rightarrow> channel \<Rightarrow> (side_error option \<times> channel) option" where
  "dial_loop js env [] k ch =
     map_option (\<lambda>e. (Some (if 0 < k then DialFailed e else SideCtx e), ch)) (se_dial env (2 * k))"
| "dial_loop js env (d # ds) k ch =
     (case se_dial env (2 * k) of Some e \<Rightarrow> Some (Some (if 0 < k then DialFailed e else SideCtx e), ch)
      | None \<Rightarrow>
          (case d of
             Inl e \<Rightarrow>
               (case se_dial env (2 * k + 1) of Some ce \<Rightarrow> Some (Some (DialFailed ce), ch)
                | None \<Rightarrow> dial_loop js env ds (k + 1) ch)
           | Inr conn \<Rightarrow>
               (case handshake js env ch conn of None \<Rightarrow> None
                | Some (Inl e) \<Rightarrow> Some (Some e, ch)
                | Some (Inr c) \<Rightarrow> Some (None, ch\<lparr>ch_peers := (ch_peers ch)[0 := Some c]\<rparr>))))"

text \<open>\<open>New\<close>; \<open>ln\<close> is the error of \<^verbatim>\<open>net.Listen\<close>, \<open>cs\<close> what the calls of \<^verbatim>\<open>Accept\<close> or
\<^verbatim>\<open>DialContext\<close> return.\<close>

definition side_New ::
  "json_decoder \<Rightarrow> side_env \<Rightarrow> string option \<Rightarrow> (string + tcp_conn) list \<Rightarrow> int \<Rightarrow> int \<Rightarrow> (side_error + channel) option" where
  "side_New js env ln cs rank n =
     (if n < 1 then Some (Inl (SizeNotPositive n))
      else if rank < 0 \<or> rank \<ge> n then Some (Inl (SideRankOutOfRange rank n))
      else
        let ch = \<lparr> ch_rank = rank, ch_size = n, ch_peers = replicate (nat n) None \<rparr> in
        case (if rank = 0 then (case ln of Some e \<Rightarrow> Some (Some (ListenFailed e), ch) | None \<Rightarrow> listen_loop js env cs 1 ch)
              else dial_loop js env cs 0 ch) of
          None \<Rightarrow> None
        | Some (Some e, ch') \<Rightarrow> Some (Inl e)
        | Some (None, ch') \<Rightarrow> Some (Inr ch'))"

section \<open>The gather\<close>

definition peer_conn :: "channel \<Rightarrow> nat \<Rightarrow> tcp_conn" where
  "peer_conn ch r = the (ch_peers ch ! r)"

definition set_peer :: "channel \<Rightarrow> nat \<Rightarrow> tcp_conn \<Rightarrow> channel" where
  "set_peer ch r c = ch\<lparr>ch_peers := (ch_peers ch)[r := Some c]\<rparr>"

fun gather_reads ::
  "side_env \<Rightarrow> nat list \<Rightarrow> bytes option list \<Rightarrow> channel \<Rightarrow> ((side_error + bytes option list) \<times> channel) option" where
  "gather_reads env [] values ch = Some (Inr values, ch)"
| "gather_reads env (r # rs) values ch =
     (case side_readFrame env r (peer_conn ch r) of None \<Rightarrow> None
      | Some (Inl e, c) \<Rightarrow> Some (Inl e, set_peer ch r c)
      | Some (Inr payload, c) \<Rightarrow> gather_reads env rs (values[r := Some payload]) (set_peer ch r c))"

fun gather_writes :: "side_env \<Rightarrow> nat list \<Rightarrow> bytes \<Rightarrow> channel \<Rightarrow> side_error option \<times> channel" where
  "gather_writes env [] encoded ch = (None, ch)"
| "gather_writes env (r # rs) encoded ch =
     (case side_writeFrame env (nat (ch_size ch) + r) encoded (peer_conn ch r) of
        (Some e, c) \<Rightarrow> (Some e, set_peer ch r c)
      | (None, c) \<Rightarrow> gather_writes env rs encoded (set_peer ch r c))"

definition gather_root ::
  "side_env \<Rightarrow> bytes \<Rightarrow> channel \<Rightarrow> ((side_error + bytes option list) \<times> channel) option" where
  "gather_root env local ch =
     (let n = nat (ch_size ch);
          values = (replicate n None)[0 := if local = [] then None else Some local] in
      case gather_reads env [1..<n] values ch of None \<Rightarrow> None
      | Some (Inl e, ch') \<Rightarrow> Some (Inl e, ch')
      | Some (Inr values', ch') \<Rightarrow>
          (case gather_writes env [1..<n] (marshal_values values') ch' of
             (Some e, ch'') \<Rightarrow> Some (Inl e, ch'')
           | (None, ch'') \<Rightarrow> Some (Inr values', ch'')))"

definition gather_leaf ::
  "json_decoder \<Rightarrow> side_env \<Rightarrow> bytes \<Rightarrow> channel \<Rightarrow> ((side_error + bytes option list) \<times> channel) option" where
  "gather_leaf js env local ch =
     (case side_writeFrame env 0 local (peer_conn ch 0) of
        (Some e, c) \<Rightarrow> Some (Inl e, set_peer ch 0 c)
      | (None, c) \<Rightarrow>
          (case side_readFrame env 1 c of None \<Rightarrow> None
           | Some (Inl e, c') \<Rightarrow> Some (Inl e, set_peer ch 0 c')
           | Some (Inr payload, c') \<Rightarrow>
               (case js_values js payload of Inl e \<Rightarrow> Some (Inl (DecodeGather e), set_peer ch 0 c')
                | Inr values \<Rightarrow>
                    if int (length values) \<noteq> ch_size ch
                    then Some (Inl (GatheredCount (length values) (ch_size ch)), set_peer ch 0 c')
                    else Some (Inr values, set_peer ch 0 c'))))"

definition side_AllGather ::
  "json_decoder \<Rightarrow> side_env \<Rightarrow> bytes \<Rightarrow> channel option \<Rightarrow> ((side_error + bytes option list) \<times> channel option) option" where
  "side_AllGather js env local c =
     (case c of None \<Rightarrow> Some (Inl SideClosed, None)
      | Some ch \<Rightarrow>
          if length local > maxFrameSize then Some (Inl ErrFrameTooLarge, c)
          else map_option (apsnd Some) (if ch_rank ch = 0 then gather_root env local ch else gather_leaf js env local ch))"

definition side_Barrier where
  "side_Barrier js env c =
     map_option (\<lambda>(r, c'). (case r of Inl e \<Rightarrow> Some e | Inr _ \<Rightarrow> None, c')) (side_AllGather js env [] c)"

section \<open>Frames round trip\<close>

lemma unat_u8: "unat (b :: u8) < 256"
proof -
  have "unat b < 2 ^ LENGTH(8)" by (rule unsigned_less)
  then show ?thesis by simp
qed

lemma be_bytes_val: "length bs = k \<Longrightarrow> be_bytes k (be_val bs) = bs"
proof (induction bs arbitrary: k rule: rev_induct)
  case (snoc b bs)
  then obtain j where "k = Suc j" "length bs = j" by auto
  moreover have "(256 * be_val bs + unat b) div 256 = be_val bs"
    using unat_u8 [of b] by simp
  moreover have "(word_of_nat (256 * be_val bs + unat b) :: u8) = b"
    using unat_u8 [of b] by (intro word_unat_eq_iff [THEN iffD2]) (simp only: unat_word8, simp)
  ultimately show ?case using snoc.IH by simp
qed simp

lemma be_val_bound: "be_val bs < 256 ^ length bs"
proof (induction bs rule: rev_induct)
  case (snoc b bs)
  then show ?case using unat_u8 [of b] by simp
qed (simp add: be_val_def)

lemma PutUint32_Uint32: "length bs = 4 \<Longrightarrow> PutUint32 (GoStrings.Uint32 bs) = bs"
  using be_val_bound [of bs] by (simp add: PutUint32_def Uint32_def unat_of_nat be_bytes_val)

definition frame :: "bytes \<Rightarrow> bytes" where
  "frame p = PutUint32 (word_of_nat (length p)) @ p"

lemma unat_length32: "length p \<le> maxFrameSize \<Longrightarrow> unat (word_of_nat (length p) :: u32) = length p"
  by (simp add: unat_of_nat maxFrameSize_def)

lemma WriteFrame_ok:
  "tc_limit c = None \<Longrightarrow> length p \<le> maxFrameSize \<Longrightarrow> WriteFrame p c = (None, c\<lparr>tc_out := tc_out c @ frame p\<rparr>)"
  by (simp add: WriteFrame_def conn_write_def frame_def)

lemma ReadFrame_frame:
  assumes "length p \<le> maxFrameSize" "tc_in c = frame p @ rest"
  shows "ReadFrame c = Some (Inr p, c\<lparr>tc_in := rest\<rparr>)"
proof -
  have "ReadFull 4 c = Some (Inr (PutUint32 (word_of_nat (length p))), c\<lparr>tc_in := p @ rest\<rparr>)"
    using assms(2) by (simp add: ReadFull_def frame_def)
  then show ?thesis
    using assms(1) unat_length32 [OF assms(1)] by (auto simp: ReadFrame_def ReadFull_def)
qed

lemma ReadFull_only:
  "ReadFull n c = Some (Inr b, c') \<longleftrightarrow>
     n \<le> length (tc_in c) \<and> b = take n (tc_in c) \<and> c' = c\<lparr>tc_in := drop n (tc_in c)\<rparr>"
  by (auto simp: ReadFull_def split: if_splits stream_end.splits)

lemma ReadFrame_only:
  assumes "ReadFrame c = Some (Inr p, c')"
  shows "length p \<le> maxFrameSize \<and> (\<exists>rest. tc_in c = frame p @ rest \<and> c' = c\<lparr>tc_in := rest\<rparr>)"
proof -
  obtain c1 where h: "4 \<le> length (tc_in c)" and c1: "c1 = c\<lparr>tc_in := drop 4 (tc_in c)\<rparr>"
    and n: "unat (GoStrings.Uint32 (take 4 (tc_in c))) \<le> maxFrameSize"
    and P: "ReadFull (unat (GoStrings.Uint32 (take 4 (tc_in c)))) c1 = Some (Inr p, c')"
    using assms by (auto simp: ReadFrame_def Let_def ReadFull_only not_less split: option.splits sum.splits if_splits)
  let ?n = "unat (GoStrings.Uint32 (take 4 (tc_in c)))"
  have p: "length p = ?n" "p = take ?n (drop 4 (tc_in c))" "c' = c\<lparr>tc_in := drop ?n (drop 4 (tc_in c))\<rparr>"
    using P c1 by (auto simp: ReadFull_only)
  have "PutUint32 (word_of_nat ?n) = take 4 (tc_in c)"
    using h PutUint32_Uint32 [of "take 4 (tc_in c)"] by simp
  then have "tc_in c = frame p @ drop ?n (drop 4 (tc_in c))"
    using p(1,2) by (metis frame_def append_assoc append_take_drop_id)
  then show ?thesis using p n by metis
qed

text \<open>
  Frames: writing a payload within the limit to an open connection appends its frame, a larger one is
  refused and nothing is written.  A read returns a payload exactly when the input starts with the frame of
  that payload, and it takes exactly the frame.  Reading a part of a frame is an error when the connection
  has ended and otherwise waits.
\<close>

lemma frame_roundtrip:
  assumes "tc_limit c = None"
  shows "WriteFrame p c = (if length p \<le> maxFrameSize then (None, c\<lparr>tc_out := tc_out c @ frame p\<rparr>) else (Some ErrFrameTooLarge, c))
    \<and> (ReadFrame d = Some (Inr p, d') \<longleftrightarrow> length p \<le> maxFrameSize \<and> (\<exists>rest. tc_in d = frame p @ rest \<and> d' = d\<lparr>tc_in := rest\<rparr>))
    \<and> (length p \<le> maxFrameSize \<and> (\<exists>z. z \<noteq> [] \<and> frame p = tc_in d @ z) \<longrightarrow>
        (tc_end d = StillOpen \<longrightarrow> ReadFrame d = None) \<and>
        (tc_end d = EndEOF \<longrightarrow> (\<exists>e d''. ReadFrame d = Some (Inl (ErrMalformedFrame e), d''))))"
proof (intro conjI impI)
  show "WriteFrame p c = (if length p \<le> maxFrameSize then (None, c\<lparr>tc_out := tc_out c @ frame p\<rparr>) else (Some ErrFrameTooLarge, c))"
    using WriteFrame_ok [OF assms] by (simp add: WriteFrame_def)
  show "ReadFrame d = Some (Inr p, d') \<longleftrightarrow> length p \<le> maxFrameSize \<and> (\<exists>rest. tc_in d = frame p @ rest \<and> d' = d\<lparr>tc_in := rest\<rparr>)"
    using ReadFrame_only ReadFrame_frame by metis
next
  assume A: "length p \<le> maxFrameSize \<and> (\<exists>z. z \<noteq> [] \<and> frame p = tc_in d @ z)"
  then obtain z where z: "z \<noteq> []" "frame p = tc_in d @ z" and p: "length p \<le> maxFrameSize" by blast
  have l: "length (tc_in d) < 4 + length p" using z by (metis frame_def length_PutUint(1) length_append length_greater_0_conv less_add_same_cancel1)
  let ?h = "PutUint32 (word_of_nat (length p))"
  have short: "ReadFull 4 d = Some (Inr ?h, d\<lparr>tc_in := drop 4 (tc_in d)\<rparr>)" if "4 \<le> length (tc_in d)"
    using that z(2) by (simp add: ReadFull_def frame_def) (metis append_eq_conv_conj append_take_drop_id length_PutUint(1) take_append diff_is_0_eq take0 append_Nil2)
  note R = ReadFrame_def ReadFull_def [of "length p"] unat_length32 [OF p] read_fail_def
  show "ReadFrame d = None" if "tc_end d = StillOpen"
    using that short l p by (cases "4 \<le> length (tc_in d)") (auto simp: R ReadFull_def [of 4])
  show "\<exists>e d''. ReadFrame d = Some (Inl (ErrMalformedFrame e), d'')" if "tc_end d = EndEOF"
    using that short l p by (cases "4 \<le> length (tc_in d)") (auto simp: R ReadFull_def [of 4])
qed

lemma frame_roundtrip_witness:
  "ReadFrame \<lparr> tc_in = [0, 0, 0, 2, 7, 8, 9], tc_end = StillOpen, tc_out = [], tc_limit = None \<rparr> =
     Some (Inr [7, 8], \<lparr> tc_in = [9], tc_end = StillOpen, tc_out = [], tc_limit = None \<rparr>)"
proof -
  let ?d = "\<lparr> tc_in = [0, 0, 0, 2, 7, 8, 9], tc_end = StillOpen, tc_out = [], tc_limit = None \<rparr>"
  have "frame [7, 8] = [0, 0, 0, 2, 7, 8]" by code_simp
  then show ?thesis
    using frame_roundtrip [of ?d "[7, 8]" ?d "?d\<lparr>tc_in := [9]\<rparr>"] by (simp add: maxFrameSize_def)
qed

section \<open>Every rank gathers the same values\<close>

definition quiet :: "side_env \<Rightarrow> bool" where
  "quiet env \<longleftrightarrow> (\<forall>k. se_ctx env k = None \<and> \<not> se_expired env k)"

lemma side_writeFrame_ok:
  "quiet env \<Longrightarrow> tc_limit c = None \<Longrightarrow> length p \<le> maxFrameSize \<Longrightarrow>
   side_writeFrame env k p c = (None, c\<lparr>tc_out := tc_out c @ frame p\<rparr>)"
  by (simp add: side_writeFrame_def WriteFrame_ok withContext_def quiet_def)

lemma side_readFrame_ok:
  "quiet env \<Longrightarrow> length p \<le> maxFrameSize \<Longrightarrow> tc_in c = frame p @ rest \<Longrightarrow>
   side_readFrame env k c = Some (Inr p, c\<lparr>tc_in := rest\<rparr>)"
  by (simp add: side_readFrame_def ReadFrame_frame withContext_def quiet_def)

text \<open>The value of each rank; rank zero copies its own, and the copy of no bytes is nil.\<close>

definition gathered :: "nat \<Rightarrow> (nat \<Rightarrow> bytes) \<Rightarrow> bytes option list" where
  "gathered n local = map (\<lambda>r. if r = 0 \<and> local 0 = [] then None else Some (local r)) [0..<n]"

text \<open>Rank zero's end of the connections, with one frame of each rank in it.\<close>

definition frames_ready :: "channel \<Rightarrow> (nat \<Rightarrow> bytes) \<Rightarrow> (nat \<Rightarrow> bytes) \<Rightarrow> bool" where
  "frames_ready ch local rest \<longleftrightarrow>
     ch_rank ch = 0 \<and> 0 < ch_size ch \<and> length (ch_peers ch) = nat (ch_size ch) \<and>
     (\<forall>r < nat (ch_size ch). length (local r) \<le> maxFrameSize) \<and>
     (\<forall>r \<in> {1..<nat (ch_size ch)}. \<exists>c. ch_peers ch ! r = Some c \<and> tc_limit c = None \<and> tc_in c = frame (local r) @ rest r)"

definition read_peers :: "channel \<Rightarrow> (nat \<Rightarrow> bytes) \<Rightarrow> nat list \<Rightarrow> channel" where
  "read_peers ch rest rs = foldl (\<lambda>ch r. set_peer ch r ((peer_conn ch r)\<lparr>tc_in := rest r\<rparr>)) ch rs"

definition write_peers :: "channel \<Rightarrow> bytes \<Rightarrow> nat list \<Rightarrow> channel" where
  "write_peers ch b rs = foldl (\<lambda>ch r. set_peer ch r ((peer_conn ch r)\<lparr>tc_out := tc_out (peer_conn ch r) @ b\<rparr>)) ch rs"

lemma set_peer_simps [simp]:
  "ch_size (set_peer ch r c) = ch_size ch" "ch_rank (set_peer ch r c) = ch_rank ch"
  "length (ch_peers (set_peer ch r c)) = length (ch_peers ch)"
  "q < length (ch_peers ch) \<Longrightarrow> peer_conn (set_peer ch r c) q = (if q = r then c else peer_conn ch q)"
  by (auto simp: set_peer_def peer_conn_def)

lemma gather_reads_ok:
  assumes "quiet env" "distinct rs" "\<forall>r \<in> set rs. r < length (ch_peers ch) \<and> length (local r) \<le> maxFrameSize \<and>
    tc_in (peer_conn ch r) = frame (local r) @ rest r"
  shows "gather_reads env rs vals ch =
    Some (Inr (foldl (\<lambda>v r. v[r := Some (local r)]) vals rs), read_peers ch rest rs)"
  using assms(2,3)
proof (induction rs arbitrary: vals ch)
  case (Cons r rs)
  have "gather_reads env (r # rs) vals ch =
      gather_reads env rs (vals[r := Some (local r)]) (set_peer ch r ((peer_conn ch r)\<lparr>tc_in := rest r\<rparr>))"
    using Cons.prems side_readFrame_ok [OF assms(1), of "local r" "peer_conn ch r" "rest r" r] by simp
  also have "\<dots> = Some (Inr (foldl (\<lambda>v r. v[r := Some (local r)]) vals (r # rs)), read_peers ch rest (r # rs))"
    using Cons.prems by (subst Cons.IH) (auto simp: read_peers_def)
  finally show ?case .
qed (simp add: read_peers_def)

lemma gather_writes_ok:
  assumes "quiet env" "distinct rs" "length b \<le> maxFrameSize"
    "\<forall>r \<in> set rs. r < length (ch_peers ch) \<and> tc_limit (peer_conn ch r) = None"
  shows "gather_writes env rs b ch = (None, write_peers ch (frame b) rs)"
  using assms(2,4)
proof (induction rs arbitrary: ch)
  case (Cons r rs)
  have "gather_writes env (r # rs) b ch =
      gather_writes env rs b (set_peer ch r ((peer_conn ch r)\<lparr>tc_out := tc_out (peer_conn ch r) @ frame b\<rparr>))"
    using Cons.prems assms(3) by (simp add: side_writeFrame_ok [OF assms(1)])
  also have "\<dots> = (None, write_peers ch (frame b) (r # rs))"
    using Cons.prems by (subst Cons.IH) (auto simp: write_peers_def)
  finally show ?case .
qed (simp add: write_peers_def)

lemma read_peers_conn:
  assumes "distinct rs" "\<forall>r \<in> set rs. r < length (ch_peers ch)" "q < length (ch_peers ch)"
  shows "peer_conn (read_peers ch rest rs) q = (if q \<in> set rs then (peer_conn ch q)\<lparr>tc_in := rest q\<rparr> else peer_conn ch q) \<and>
    ch_size (read_peers ch rest rs) = ch_size ch \<and> length (ch_peers (read_peers ch rest rs)) = length (ch_peers ch)"
  using assms
  by (induction rs arbitrary: ch) (auto simp: read_peers_def)

lemma write_peers_conn:
  assumes "distinct rs" "\<forall>r \<in> set rs. r < length (ch_peers ch)" "q < length (ch_peers ch)"
  shows "peer_conn (write_peers ch b rs) q =
    (if q \<in> set rs then (peer_conn ch q)\<lparr>tc_out := tc_out (peer_conn ch q) @ b\<rparr> else peer_conn ch q)"
  using assms
  by (induction rs arbitrary: ch) (auto simp: write_peers_def)

lemma foldl_gathered:
  assumes "0 < n"
  shows "foldl (\<lambda>vs r. vs[r := Some (local r)]) ((replicate n None)[0 := if local 0 = [] then None else Some (local 0)]) [1..<n] =
    gathered n local"
proof -
  let ?v = "(replicate n None)[0 := if local 0 = [] then None else Some (local 0)]"
  have *: "distinct rs \<Longrightarrow> \<forall>r \<in> set rs. r < length vs \<Longrightarrow> i < length vs \<Longrightarrow>
      foldl (\<lambda>vs r. vs[r := Some (local r)]) vs rs ! i = (if i \<in> set rs then Some (local i) else vs ! i)" for rs vs i
    by (induction rs arbitrary: vs) auto
  have l: "length (foldl (\<lambda>vs r. vs[r := Some (local r)]) vs rs) = length vs" for rs vs
    by (induction rs arbitrary: vs) auto
  show ?thesis
    using assms by (intro nth_equalityI) (auto simp: l * gathered_def nth_list_update not_le)
qed

lemma gather_root_reads:
  assumes "quiet env" "frames_ready ch local rest"
  shows "gather_reads env [1..<nat (ch_size ch)]
      ((replicate (nat (ch_size ch)) None)[0 := if local 0 = [] then None else Some (local 0)]) ch =
    Some (Inr (gathered (nat (ch_size ch)) local), read_peers ch rest [1..<nat (ch_size ch)])"
proof -
  have n: "0 < nat (ch_size ch)" using assms(2) by (simp add: frames_ready_def)
  have "\<forall>r \<in> set [1..<nat (ch_size ch)]. r < length (ch_peers ch) \<and> length (local r) \<le> maxFrameSize \<and>
      tc_in (peer_conn ch r) = frame (local r) @ rest r"
    using assms(2) by (auto simp: frames_ready_def peer_conn_def)
  from gather_reads_ok [OF assms(1) _ this] foldl_gathered [OF n]
  show ?thesis by simp
qed

lemma ready_conns:
  assumes "frames_ready ch local rest" "r \<in> {1..<nat (ch_size ch)}"
  shows "peer_conn (read_peers ch rest [1..<nat (ch_size ch)]) r = (peer_conn ch r)\<lparr>tc_in := rest r\<rparr>"
    "r < length (ch_peers (read_peers ch rest [1..<nat (ch_size ch)]))"
    "tc_limit (peer_conn ch r) = None"
    "ch_size (read_peers ch rest [1..<nat (ch_size ch)]) = ch_size ch"
proof -
  obtain c where "ch_peers ch ! r = Some c" "tc_limit c = None"
    using assms unfolding frames_ready_def by blast
  then show "tc_limit (peer_conn ch r) = None" by (simp add: peer_conn_def)
qed (use assms read_peers_conn [of "[1..<nat (ch_size ch)]" ch r rest] in \<open>auto simp: frames_ready_def\<close>)

lemma gather_root_ok:
  assumes "quiet env" "frames_ready ch local rest" "length (marshal_values (gathered (nat (ch_size ch)) local)) \<le> maxFrameSize"
  shows "gather_root env (local 0) ch = Some (Inr (gathered (nat (ch_size ch)) local),
    write_peers (read_peers ch rest [1..<nat (ch_size ch)]) (frame (marshal_values (gathered (nat (ch_size ch)) local))) [1..<nat (ch_size ch)])"
proof -
  let ?n = "nat (ch_size ch)"
  have "gather_writes env [1..<?n] (marshal_values (gathered ?n local)) (read_peers ch rest [1..<?n]) =
      (None, write_peers (read_peers ch rest [1..<?n]) (frame (marshal_values (gathered ?n local))) [1..<?n])"
    using ready_conns [OF assms(2)] by (intro gather_writes_ok [OF assms(1) _ assms(3)]) auto
  then show ?thesis
    using gather_root_reads [OF assms(1,2)] by (simp add: gather_root_def Let_def)
qed

text \<open>
  C33. When every rank calls \<open>AllGather\<close> with a value of at most one frame, and the encoded list of the
  values fits one frame too, rank zero returns the list of all values in rank order and every other rank
  returns the same list, whatever frames already wait behind the ones of this call.  \<open>Barrier\<close> returns
  nil on rank zero only after a frame of every rank has arrived.  The decoder is assumed to invert the
  encoder.
\<close>

theorem gather_agrees:
  assumes "quiet env" "frames_ready ch local rest" "\<forall>vs. js_values js (marshal_values vs) = Inr vs"
    and "length (marshal_values (gathered (nat (ch_size ch)) local)) \<le> maxFrameSize"
  shows "\<exists>ch'. side_AllGather js env (local 0) (Some ch) = Some (Inr (gathered (nat (ch_size ch)) local), Some ch') \<and>
    (\<forall>r \<in> {1..<nat (ch_size ch)}. \<forall>env' leaf c rest'.
       tc_in (peer_conn ch' r) = rest r \<and>
       tc_out (peer_conn ch' r) = tc_out (peer_conn ch r) @ frame (marshal_values (gathered (nat (ch_size ch)) local)) \<and>
       (quiet env' \<and> ch_rank leaf = int r \<and> ch_size leaf = ch_size ch \<and> ch_peers leaf ! 0 = Some c \<and> tc_limit c = None \<and>
        tc_in c = frame (marshal_values (gathered (nat (ch_size ch)) local)) @ rest' \<longrightarrow>
        side_AllGather js env' (local r) (Some leaf) =
          Some (Inr (gathered (nat (ch_size ch)) local),
            Some (set_peer leaf 0 (c\<lparr>tc_in := rest', tc_out := tc_out c @ frame (local r)\<rparr>)))))"
proof -
  let ?n = "nat (ch_size ch)"
  let ?vs = "gathered ?n local"
  let ?ch = "write_peers (read_peers ch rest [1..<?n]) (frame (marshal_values ?vs)) [1..<?n]"
  have ready: "ch_rank ch = 0" "length (local 0) \<le> maxFrameSize" "0 < ch_size ch" "length ?vs = ?n"
    using assms(2) by (auto simp: frames_ready_def gathered_def)
  have "side_AllGather js env (local 0) (Some ch) = Some (Inr ?vs, Some ?ch)"
    using gather_root_ok [OF assms(1,2,4)] ready by (simp add: side_AllGather_def)
  moreover have "tc_in (peer_conn ?ch r) = rest r \<and> tc_out (peer_conn ?ch r) = tc_out (peer_conn ch r) @ frame (marshal_values ?vs)"
    if "r \<in> {1..<?n}" for r
    using ready_conns [OF assms(2) that] write_peers_conn [of "[1..<?n]" "read_peers ch rest [1..<?n]" r] that
      ready_conns(2) [OF assms(2)] by simp
  moreover have "side_AllGather js env' (local r) (Some leaf) =
      Some (Inr ?vs, Some (set_peer leaf 0 (c\<lparr>tc_in := rest', tc_out := tc_out c @ frame (local r)\<rparr>)))"
    if r: "r \<in> {1..<?n}" and L: "quiet env'" "ch_rank leaf = int r" "ch_size leaf = ch_size ch" "ch_peers leaf ! 0 = Some c"
      "tc_limit c = None" "tc_in c = frame (marshal_values ?vs) @ rest'" for r env' leaf c rest'
  proof -
    have l: "length (local r) \<le> maxFrameSize" using assms(2) r by (auto simp: frames_ready_def)
    have w: "side_writeFrame env' 0 (local r) c = (None, c\<lparr>tc_out := tc_out c @ frame (local r)\<rparr>)"
      by (rule side_writeFrame_ok [OF L(1,5) l])
    have rd: "side_readFrame env' 1 (c\<lparr>tc_out := tc_out c @ frame (local r)\<rparr>) =
        Some (Inr (marshal_values ?vs), c\<lparr>tc_in := rest', tc_out := tc_out c @ frame (local r)\<rparr>)"
      using side_readFrame_ok [OF L(1) assms(4), of "c\<lparr>tc_out := tc_out c @ frame (local r)\<rparr>" rest' 1] L(6) by simp
    show ?thesis
      using w rd L(2,3,4) l r ready(3,4) assms(3) by (simp add: side_AllGather_def gather_leaf_def peer_conn_def)
  qed
  ultimately show ?thesis by blast
qed

text \<open>A decoder of the lists the encoder writes: the assumption on \<^verbatim>\<open>json.Unmarshal\<close> can be met.\<close>

fun char_index :: "char \<Rightarrow> string \<Rightarrow> nat" where
  "char_index c [] = 0"
| "char_index c (x # xs) = (if c = x then 0 else Suc (char_index c xs))"

fun unbase64 :: "string \<Rightarrow> bytes" where
  "unbase64 (a # b # c # d # s) =
     (let v = (\<lambda>c. char_index c base64_alphabet); n = v a * 262144 + v b * 4096 in
      if c = CHR ''='' then [word_of_nat (n div 65536)]
      else let m = n + v c * 64 in
        if d = CHR ''='' then [word_of_nat (m div 65536), word_of_nat (m div 256)]
        else let k = m + v d in [word_of_nat (k div 65536), word_of_nat (k div 256), word_of_nat k] @ unbase64 s)"
| "unbase64 _ = []"

definition decode_value :: "string \<Rightarrow> bytes option" where
  "decode_value s = (if s = ''null'' then None else Some (unbase64 (butlast (tl s))))"

definition decode_values :: "bytes \<Rightarrow> string + bytes option list" where
  "decode_values b =
     (let inner = butlast (tl (map (\<lambda>x. char_of (unat x)) b)) in
      Inr (if inner = [] then [] else map decode_value (Split (CHR '','') inner)))"

lemma base64_digits:
  "\<forall>d \<in> set [0..<64]. char_index (base64_digit d) base64_alphabet = d \<and>
     base64_digit d \<noteq> CHR ''='' \<and> base64_digit d \<noteq> CHR '',''"
  by code_simp

lemma base64_digit_index [simp]:
  "char_index (base64_digit d) base64_alphabet = d mod 64" "base64_digit d \<noteq> CHR ''=''" "base64_digit d \<noteq> CHR '',''"
proof -
  have "base64_digit d = base64_digit (d mod 64)" "d mod 64 \<in> set [0..<64]" by (simp_all add: base64_digit_def)
  then show "char_index (base64_digit d) base64_alphabet = d mod 64" "base64_digit d \<noteq> CHR ''=''" "base64_digit d \<noteq> CHR '',''"
    using base64_digits by metis+
qed

lemma sextets:
  fixes n :: nat
  assumes "n < 16777216"
  shows "n div 262144 mod 64 * 262144 + n div 4096 mod 64 * 4096 + n div 64 mod 64 * 64 + n mod 64 = n"
proof -
  have "n div 64 = n div 4096 * 64 + n div 64 mod 64" "n div 4096 = n div 262144 * 64 + n div 4096 mod 64"
    using div_mult_mod_eq [of "n div 64" 64] div_mult_mod_eq [of "n div 4096" 64] by (simp_all add: div_mult2_eq [symmetric])
  moreover have "n div 262144 mod 64 = n div 262144" using assms by (intro mod_less) (simp add: less_mult_imp_div_less)
  moreover have "n = n div 64 * 64 + n mod 64" by simp
  ultimately show ?thesis by linarith
qed

lemma octets:
  fixes a b c :: u8
  defines "n \<equiv> unat a * 65536 + unat b * 256 + unat c"
  shows "n < 16777216" "word_of_nat (n div 65536) = a" "word_of_nat (n div 256) = b" "word_of_nat n = c"
proof -
  note l = unat_u8 [of a] unat_u8 [of b] unat_u8 [of c]
  show "n < 16777216" using l by (simp add: n_def)
  have d: "n div 65536 = unat a" "n div 256 = unat a * 256 + unat b" using l by (simp_all add: n_def)
  have u8: "word_of_nat k = x" if "k mod 256 = unat x" for k and x :: u8
    using that by (intro word_unat_eq_iff [THEN iffD2]) simp
  have "n = unat c + 256 * (unat a * 256 + unat b)" by (simp add: n_def)
  then have "n mod 256 = unat c" using l by (simp only: mod_mult_self2) simp
  then show "word_of_nat n = c" by (rule u8)
  have "n div 65536 mod 256 = unat a" "n div 256 mod 256 = unat b" unfolding d using l by simp_all
  then show "word_of_nat (n div 65536) = a" "word_of_nat (n div 256) = b" by (blast intro: u8)+
qed

lemma unbase64_base64: "unbase64 (base64 bs) = bs"
proof (induction bs rule: base64.induct)
  case (2 a)
  let ?n = "unat a * 65536"
  have n: "?n < 16777216" "word_of_nat (?n div 65536) = a" using octets [of a 0 0] by simp_all
  moreover have "?n div 64 mod 64 = 0" "?n mod 64 = 0"
    using div_mult_mod_eq [of ?n 64] nonzero_mult_div_cancel_left [of 64 "64 * (16 * unat a)"]
      mod_mult_self1_is_0 [of 64 "64 * (16 * unat a)"] mod_mult_self1_is_0 [of 64 "16 * unat a"]
    by (simp_all add: mult.commute)
  ultimately have "?n div 262144 mod 64 * 262144 + ?n div 4096 mod 64 * 4096 = ?n" using sextets [OF n(1)] by linarith
  then show ?case using n(2) by (simp only: base64.simps unbase64.simps Let_def base64_digit_index if_True simp_thms)
next
  case (3 a b)
  let ?n = "unat a * 65536 + unat b * 256"
  have n: "?n < 16777216" "word_of_nat (?n div 65536) = a" "word_of_nat (?n div 256) = b" using octets [of a b 0] by simp_all
  moreover have "?n = 64 * (1024 * unat a + 4 * unat b)" by simp
  then have "?n mod 64 = 0" by (simp only: mod_mult_self1_is_0)
  ultimately have "?n div 262144 mod 64 * 262144 + ?n div 4096 mod 64 * 4096 + ?n div 64 mod 64 * 64 = ?n"
    using sextets [OF n(1)] by linarith
  then show ?case using n(2,3) by (simp only: base64.simps unbase64.simps Let_def base64_digit_index if_True if_False simp_thms)
next
  case (4 a b c bs)
  note n = octets [of a b c]
  show ?case
    using 4 n(2-4)
    by (simp only: base64.simps unbase64.simps Let_def base64_digit_index append.simps if_False sextets [OF n(1)])
qed simp

lemma char_of_byte [simp]: "char_of (unat (of_char c :: u8)) = c"
proof -
  have "(of_char c :: u8) = word_of_nat (of_char c)" by (rule of_nat_of_char [symmetric])
  then have "unat (of_char c :: u8) = of_char c mod 256" by (simp only: unat_word8)
  then show ?thesis by simp
qed

lemma base64_no_comma: "CHR '','' \<notin> set (base64 bs)"
  by (induction bs rule: base64.induct) (auto simp: Let_def dest: sym)

lemma marshal_value_simps [simp]:
  "marshal_value v \<noteq> []" "CHR '','' \<notin> set (marshal_value v)" "decode_value (marshal_value v) = v"
  using base64_no_comma by (auto simp: marshal_value_def decode_value_def unbase64_base64 split: option.splits)

lemma decode_values_marshal: "decode_values (marshal_values vs) = Inr vs"
proof -
  let ?ss = "map marshal_value vs"
  have i: "butlast (tl (map (\<lambda>x. char_of (unat x)) (marshal_values vs))) = Join '','' ?ss"
    by (simp add: marshal_values_def marshal_list_def str_bytes_def comp_def butlast_append)
  show ?thesis
  proof (cases "vs = []")
    case False
    then obtain v vs' where "vs = v # vs'" by (cases vs) auto
    then have "Join '','' ?ss \<noteq> []" by (cases vs') auto
    moreover have "Split (CHR '','') (Join '','' ?ss) = ?ss" using False by (intro Split_Join) auto
    ultimately show ?thesis by (simp add: decode_values_def i comp_def)
  qed (simp add: decode_values_def marshal_values_def marshal_list_def str_bytes_def)
qed

definition demo_decoder :: json_decoder where
  "demo_decoder = \<lparr> js_hello = (\<lambda>_. Inl ''not a hello''), js_values = decode_values \<rparr>"

definition demo_env :: side_env where
  "demo_env = \<lparr> se_ctx = (\<lambda>_. None), se_expired = (\<lambda>_. False), se_dial = (\<lambda>_. None) \<rparr>"

definition demo_root :: "nat \<Rightarrow> (nat \<Rightarrow> bytes) \<Rightarrow> channel" where
  "demo_root n local = \<lparr> ch_rank = 0, ch_size = int n, ch_peers = map (\<lambda>r. if r = 0 then None else
     Some \<lparr> tc_in = frame (local r), tc_end = StillOpen, tc_out = [], tc_limit = None \<rparr>) [0..<n] \<rparr>"

lemma demo_ready:
  "0 < n \<Longrightarrow> \<forall>r < n. length (local r) \<le> maxFrameSize \<Longrightarrow> frames_ready (demo_root n local) local (\<lambda>_. [])"
  by (auto simp: frames_ready_def demo_root_def)

lemma demo_quiet: "quiet demo_env"
  by (simp add: quiet_def demo_env_def)

theorem gather_agrees_witness:
  "\<exists>ch'. side_AllGather demo_decoder demo_env [1, 2] (Some (demo_root 2 (\<lambda>r. if r = 0 then [1, 2] else [7]))) =
     Some (Inr [Some [1, 2], Some [7]], Some ch')"
proof -
  let ?l = "\<lambda>r::nat. if r = 0 then [1, 2] else [7 :: u8]"
  have v: "gathered 2 ?l = [Some [1, 2], Some [7]]" by (simp add: gathered_def upt_rec)
  have m: "length (marshal_values [Some [1, 2], Some [7]]) \<le> maxFrameSize"
    by (simp add: marshal_values_def str_bytes_def marshal_list_def marshal_value_def Let_def maxFrameSize_def)
  have R: "frames_ready (demo_root 2 ?l) ?l (\<lambda>_. [])" by (rule demo_ready) (auto simp: maxFrameSize_def)
  have J: "\<forall>vs. js_values demo_decoder (marshal_values vs) = Inr vs"
    by (simp add: demo_decoder_def decode_values_marshal)
  have n: "nat (ch_size (demo_root 2 ?l)) = 2" by (simp add: demo_root_def)
  from gather_agrees [OF demo_quiet R J, unfolded n v, OF m]
  have "\<exists>ch'. side_AllGather demo_decoder demo_env (?l 0) (Some (demo_root 2 ?l)) = Some (Inr [Some [1, 2], Some [7]], Some ch')"
    by (elim exE conjE) (rule exI)
  then show ?thesis by simp
qed

section \<open>The size of a group\<close>

text \<open>\<^verbatim>\<open>json.Marshal\<close> of the destinations \<^verbatim>\<open>rdmaBackend.open\<close> publishes.\<close>

definition marshal_destination :: "destination \<Rightarrow> string" where
  "marshal_destination d = json_object
     [json_field ''LID'' (decimal (unat (de_LID d))), json_field ''QPN'' (decimal (unat (de_QPN d))),
      json_field ''PSN'' (decimal (unat (de_PSN d))), json_field ''GIDIndex'' (Itoa (de_GIDIndex d)),
      json_field ''GID'' (marshal_list (map (\<lambda>b. decimal (unat b)) (de_GID d)))]"

definition marshal_destinations :: "destination list \<Rightarrow> bytes" where
  "marshal_destinations ds = str_bytes (marshal_list (map marshal_destination ds))"

lemma length_Join: "ss \<noteq> [] \<Longrightarrow> length (Join [sep] ss) + 1 = sum_list (map (\<lambda>s. length s + 1) ss)"
  by (induction "[sep]" ss rule: Join.induct) auto

lemma length_marshal_list:
  "ss \<noteq> [] \<Longrightarrow> length (marshal_list ss) = sum_list (map (\<lambda>s. length s + 1) ss) + 1"
  using length_Join [of ss "CHR '',''"] by (simp add: marshal_list_def)

lemma decimal_pos: "1 \<le> length (decimal n)"
  using decimal_nonempty [of n] by (cases "decimal n") auto

lemma Itoa_pos: "1 \<le> length (Itoa i)"
  using decimal_pos by (auto simp: Itoa_def)

lemma sum_list_lower:
  fixes f :: "'a \<Rightarrow> nat"
  shows "\<forall>x \<in> set xs. k \<le> f x \<Longrightarrow> k * length xs \<le> sum_list (map f xs)"
  by (induction xs) auto

lemma marshal_destination_length:
  assumes "length (de_GID d) = 16"
  shows "78 \<le> length (marshal_destination d)"
proof -
  have ne: "map (\<lambda>b. decimal (unat b)) (de_GID d) \<noteq> []" using assms by auto
  have "2 * 16 \<le> sum_list (map (\<lambda>s. length s + 1) (map (\<lambda>b. decimal (unat b)) (de_GID d)))"
    using sum_list_lower [of "map (\<lambda>b. decimal (unat b)) (de_GID d)" 2 "\<lambda>s. length s + 1"] decimal_pos assms by auto
  then have "33 \<le> length (marshal_list (map (\<lambda>b. decimal (unat b)) (de_GID d)))"
    using length_marshal_list [OF ne] by linarith
  then show ?thesis
    using decimal_pos [of "unat (de_LID d)"] decimal_pos [of "unat (de_QPN d)"] decimal_pos [of "unat (de_PSN d)"]
      Itoa_pos [of "de_GIDIndex d"]
    by (simp add: marshal_destination_def json_object_def json_field_def)
qed

lemma length_base64: "length (base64 bs) = 4 * ((length bs + 2) div 3)"
proof (induction bs rule: base64.induct)
  case (4 a b c bs)
  have "(5 + length bs) div 3 = Suc ((length bs + 2) div 3)" using div_add_self2 [of 3 "length bs + 2"] by (simp add: add.commute)
  then show ?case using 4 by (simp add: Let_def)
qed (simp_all add: Let_def)

lemma marshal_destinations_length:
  assumes "\<forall>d \<in> set ds. length (de_GID d) = 16" "9 \<le> length ds"
  shows "712 \<le> length (marshal_destinations ds)"
proof -
  have ne: "map marshal_destination ds \<noteq> []" using assms(2) by auto
  have "79 * length ds \<le> sum_list (map (\<lambda>s. length s + 1) (map marshal_destination ds))"
    using sum_list_lower [of "map marshal_destination ds" 79 "\<lambda>s. length s + 1"] marshal_destination_length assms(1) by fastforce
  then show ?thesis
    using length_marshal_list [OF ne] assms(2) by (simp add: marshal_destinations_def str_bytes_def)
qed

lemma gathered_length:
  assumes "\<forall>r < n. 712 \<le> length (local r)" "9 \<le> n"
  shows "8192 < length (marshal_values (gathered n local))"
proof -
  have z: "local 0 \<noteq> []" using assms by fastforce
  have v: "954 \<le> length (marshal_value v)" if v: "v \<in> set (gathered n local)" for v
  proof -
    obtain r where r: "r < n" "v = Some (local r)"
      using v z by (auto simp: gathered_def)
    have "238 \<le> (length (local r) + 2) div 3" using assms(1) r(1) by (simp add: le_div_geq less_eq_div_iff_mult_less_eq)
    then show ?thesis using r(2) by (simp add: marshal_value_def length_base64)
  qed
  have "955 * n \<le> sum_list (map (\<lambda>s. length s + 1) (map marshal_value (gathered n local)))"
    using sum_list_lower [of "map marshal_value (gathered n local)" 955 "\<lambda>s. length s + 1"] v by (fastforce simp: gathered_def)
  moreover have "map marshal_value (gathered n local) \<noteq> []" using assms(2) by (simp add: gathered_def)
  ultimately show ?thesis
    using length_marshal_list [of "map marshal_value (gathered n local)"] assms(2) by (simp add: marshal_values_def str_bytes_def)
qed


definition zero_destination :: destination where
  "zero_destination = \<lparr> de_LID = 0, de_QPN = 0, de_PSN = 0, de_GIDIndex = 0, de_GID = replicate 16 0 \<rparr>"


section \<open>The handshake connects every rank\<close>

lemma decimal_length: "n < 10 ^ Suc k \<Longrightarrow> length (decimal n) \<le> Suc k"
proof (induction n arbitrary: k rule: decimal.induct)
  case (1 n)
  show ?case
  proof (cases "n < 10")
    case True
    then show ?thesis by (simp add: decimal.simps)
  next
    case False
    then obtain j where k: "k = Suc j" using "1.prems" by (cases k) auto
    then have "n div 10 < 10 ^ Suc j" using "1.prems" by (simp add: less_mult_imp_div_less mult.commute)
    then show ?thesis using "1.IH" [OF False] False k by (simp add: decimal.simps [of n])
  qed
qed

lemma Itoa_length: "0 \<le> i \<Longrightarrow> i \<le> max_int64 \<Longrightarrow> length (Itoa i) \<le> 19"
  using decimal_length [of "nat i" 18] by (simp add: Itoa_def max_int64_def nat_less_iff)

lemma marshal_hello_fits:
  assumes "0 \<le> r" "r \<le> max_int64" "0 \<le> n" "n \<le> max_int64"
  shows "length (marshal_hello (newHello r n)) \<le> maxFrameSize"
  using Itoa_length [OF assms(1,2)] Itoa_length [OF assms(3,4)] Itoa_length [of 1]
  by (simp add: marshal_hello_def json_object_def json_field_def str_bytes_def newHello_def helloMagic_def helloVersion_def
      maxFrameSize_def max_int64_def)

lemma read_hello_ok:
  assumes "quiet env" "js_hello js (marshal_hello h) = Inr h" "length (marshal_hello h) \<le> maxFrameSize"
    "tc_in c = frame (marshal_hello h) @ rest"
  shows "readJSON_hello js env k c = Some (Inr h, c\<lparr>tc_in := rest\<rparr>)"
  using side_readFrame_ok [OF assms(1,3,4)] assms(2) by (simp add: readJSON_hello_def)

text \<open>The connection rank zero keeps for a rank.\<close>

definition accepted_conn :: "nat \<Rightarrow> bytes \<Rightarrow> tcp_conn \<Rightarrow> tcp_conn" where
  "accepted_conn n rest c = c\<lparr>tc_in := rest, tc_out := tc_out c @ frame (marshal_hello (newHello 0 (int n)))\<rparr>"

lemma listen_all:
  assumes "quiet env" "int n \<le> max_int64"
    "\<forall>r < n. js_hello js (marshal_hello (newHello (int r) (int n))) = Inr (newHello (int r) (int n))"
    and "distinct rs" "set rs \<subseteq> {1..<n}" "accepted + length rs = n" "0 < accepted" "length ps = n" "\<forall>r \<in> set rs. ps ! r = None"
    "\<forall>r \<in> set rs. tc_limit (c r) = None \<and> tc_in (c r) = frame (marshal_hello (newHello (int r) (int n))) @ rest r"
  shows "listen_loop js env (map (\<lambda>r. Inr (c r)) rs) accepted \<lparr> ch_rank = 0, ch_size = int n, ch_peers = ps \<rparr> =
    Some (None, \<lparr> ch_rank = 0, ch_size = int n,
      ch_peers = foldl (\<lambda>ps r. ps[r := Some (accepted_conn n (rest r) (c r))]) ps rs \<rparr>)"
  using assms(4-)
proof (induction rs arbitrary: accepted ps)
  case Nil
  then show ?case by (simp add: listen_loop.simps)
next
  case (Cons r rs)
  let ?h = "newHello (int r) (int n)"
  have r: "1 \<le> r" "r < n" using Cons.prems(2) by auto
  have fit: "length (marshal_hello (newHello (int k) (int n))) \<le> maxFrameSize" if "k < n" for k
    using that assms(2) by (intro marshal_hello_fits) auto
  have rd: "readJSON_hello js env (2 * accepted) (c r) = Some (Inr ?h, (c r)\<lparr>tc_in := rest r\<rparr>)"
    using Cons.prems(7) r assms(3) fit by (intro read_hello_ok [OF assms(1)]) auto
  have ok: "accept_check (int n) ps ?h = None"
    using r Cons.prems(6) by (simp add: accept_check_def checkHello_def newHello_def)
  have fw: "length (marshal_hello (newHello 0 (int n))) \<le> maxFrameSize" using fit [of 0] r by simp
  have w: "writeJSON_hello env (2 * accepted + 1) (newHello 0 (int n)) ((c r)\<lparr>tc_in := rest r\<rparr>) =
      (None, accepted_conn n (rest r) (c r))"
    using side_writeFrame_ok [OF assms(1) _ fw, of "(c r)\<lparr>tc_in := rest r\<rparr>" "2 * accepted + 1"] Cons.prems(7)
    by (simp add: writeJSON_hello_def accepted_conn_def)
  have step: "listen_loop js env (map (\<lambda>r. Inr (c r)) (r # rs)) accepted \<lparr> ch_rank = 0, ch_size = int n, ch_peers = ps \<rparr> =
      listen_loop js env (map (\<lambda>r. Inr (c r)) rs) (accepted + 1)
        \<lparr> ch_rank = 0, ch_size = int n, ch_peers = ps[r := Some (accepted_conn n (rest r) (c r))] \<rparr>"
    using Cons.prems(3) rd ok w by (subst listen_loop.simps) (simp add: newHello_def)
  show ?case
    unfolding step using Cons.prems by (subst Cons.IH) (auto simp: nth_list_update)
qed

lemma foldl_update_nth:
  assumes "distinct rs" "\<forall>r \<in> set rs. r < length ps" "i < length ps"
  shows "foldl (\<lambda>ps r. ps[r := f r]) ps rs ! i = (if i \<in> set rs then f i else ps ! i)"
  using assms by (induction rs arbitrary: ps) auto

lemma foldl_update_length [simp]: "length (foldl (\<lambda>ps r. ps[r := f r]) ps rs) = length ps"
  by (induction rs arbitrary: ps) auto

text \<open>
  Start of a group: in whatever order the other ranks connect, rank zero returns a channel that holds
  each rank's connection at that rank's index, with the hello read and the answer written; and a rank that
  reads this answer returns a channel to rank zero.  The decoder is assumed to invert the encoder on the
  hellos of the group.
\<close>

lemma handshake_complete:
  assumes "quiet env" "se_dial env 0 = None" "1 \<le> n" "int n \<le> max_int64" "distinct rs" "set rs = {1..<n}"
    and "\<forall>r < n. js_hello js (marshal_hello (newHello (int r) (int n))) = Inr (newHello (int r) (int n))"
    and "\<forall>r \<in> set rs. tc_limit (c r) = None \<and> tc_in (c r) = frame (marshal_hello (newHello (int r) (int n))) @ rest r"
  shows "(\<exists>ch. side_New js env None (map (\<lambda>r. Inr (c r)) rs) 0 (int n) = Some (Inr ch) \<and> ch_rank ch = 0 \<and>
      ch_size ch = int n \<and> length (ch_peers ch) = n \<and>
      (\<forall>r \<in> {1..<n}. ch_peers ch ! r =
         Some ((c r)\<lparr>tc_in := rest r, tc_out := tc_out (c r) @ frame (marshal_hello (newHello 0 (int n)))\<rparr>))) \<and>
    (\<forall>r \<in> {1..<n}. \<forall>d rest'. tc_limit d = None \<and> tc_in d = frame (marshal_hello (newHello 0 (int n))) @ rest' \<longrightarrow>
      side_New js env None [Inr d] (int r) (int n) =
        Some (Inr \<lparr> ch_rank = int r, ch_size = int n, ch_peers = (replicate n None)[0 :=
          Some (d\<lparr>tc_in := rest', tc_out := tc_out d @ frame (marshal_hello (newHello (int r) (int n)))\<rparr>)] \<rparr>))"
proof (intro conjI ballI allI impI)
  have len: "1 + length rs = n"
    using distinct_card [OF assms(5)] assms(3,6) by simp
  have "listen_loop js env (map (\<lambda>r. Inr (c r)) rs) 1 \<lparr> ch_rank = 0, ch_size = int n, ch_peers = replicate n None \<rparr> =
    Some (None, \<lparr> ch_rank = 0, ch_size = int n,
      ch_peers = foldl (\<lambda>ps r. ps[r := Some (accepted_conn n (rest r) (c r))]) (replicate n None) rs \<rparr>)"
    using assms len by (intro listen_all) auto
  moreover have "foldl (\<lambda>ps r. ps[r := Some (accepted_conn n (rest r) (c r))]) (replicate n None) rs ! r =
      Some (accepted_conn n (rest r) (c r))" if "r \<in> {1..<n}" for r
    using that assms(5,6) by (subst foldl_update_nth) auto
  ultimately show "\<exists>ch. side_New js env None (map (\<lambda>r. Inr (c r)) rs) 0 (int n) = Some (Inr ch) \<and> ch_rank ch = 0 \<and>
      ch_size ch = int n \<and> length (ch_peers ch) = n \<and> (\<forall>r \<in> {1..<n}. ch_peers ch ! r =
         Some ((c r)\<lparr>tc_in := rest r, tc_out := tc_out (c r) @ frame (marshal_hello (newHello 0 (int n)))\<rparr>))"
    using assms(3) by (simp add: side_New_def accepted_conn_def)
next
  fix r rest' and d :: tcp_conn
  assume r: "r \<in> {1..<n}" and d: "tc_limit d = None \<and> tc_in d = frame (marshal_hello (newHello 0 (int n))) @ rest'"
  have fit: "length (marshal_hello (newHello (int k) (int n))) \<le> maxFrameSize" if "k < n" for k
    using that assms(4) by (intro marshal_hello_fits) auto
  let ?d = "d\<lparr>tc_out := tc_out d @ frame (marshal_hello (newHello (int r) (int n)))\<rparr>"
  have w: "writeJSON_hello env 0 (newHello (int r) (int n)) d = (None, ?d)"
    using side_writeFrame_ok [OF assms(1)] d fit [of r] r by (simp add: writeJSON_hello_def)
  have "js_hello js (marshal_hello (newHello 0 (int n))) = Inr (newHello 0 (int n))"
    using assms(7) [rule_format, of 0] assms(3) by simp
  then have "readJSON_hello js env 1 ?d = Some (Inr (newHello 0 (int n)), ?d\<lparr>tc_in := rest'\<rparr>)"
    using d fit [of 0] r by (intro read_hello_ok [OF assms(1)]) auto
  then have "handshake js env \<lparr> ch_rank = int r, ch_size = int n, ch_peers = replicate n None \<rparr> d = Some (Inr (?d\<lparr>tc_in := rest'\<rparr>))"
    using w by (simp add: handshake_def checkHello_def newHello_def)
  then show "side_New js env None [Inr d] (int r) (int n) =
        Some (Inr \<lparr> ch_rank = int r, ch_size = int n, ch_peers = (replicate n None)[0 :=
          Some (d\<lparr>tc_in := rest', tc_out := tc_out d @ frame (marshal_hello (newHello (int r) (int n)))\<rparr>)] \<rparr>)"
    using r assms(2) by (cases d) (simp add: side_New_def)
qed

definition hello_conn :: "int \<Rightarrow> tcp_conn" where
  "hello_conn r = \<lparr> tc_in = frame (marshal_hello (newHello r 2)), tc_end = StillOpen, tc_out = [], tc_limit = None \<rparr>"

definition pair_decoder :: json_decoder where
  "pair_decoder = \<lparr> js_hello = (\<lambda>b. if b = marshal_hello (newHello 0 2) then Inr (newHello 0 2)
     else if b = marshal_hello (newHello 1 2) then Inr (newHello 1 2) else Inl ''not a hello''), js_values = decode_values \<rparr>"

lemma handshake_complete_witness:
  "\<exists>ch. side_New pair_decoder demo_env None [Inr (hello_conn 1)] 0 2 = Some (Inr ch) \<and> ch_peers ch ! 1 \<noteq> None"
proof -
  have neq: "marshal_hello (newHello 1 2) \<noteq> marshal_hello (newHello 0 2)"
    by (simp add: marshal_hello_def newHello_def str_bytes_def json_object_def json_field_def Itoa_def decimal.simps digit_def
        char_of_def of_char_def)
  have J: "js_hello pair_decoder (marshal_hello (newHello (int r) (int 2))) = Inr (newHello (int r) (int 2))" if r: "r < 2" for r
  proof -
    consider "r = 0" | "r = 1" using r by linarith
    then show ?thesis using neq by cases (simp_all add: pair_decoder_def)
  qed
  have "se_dial demo_env 0 = None" "set [1] = {1..<2::nat}" by (auto simp: demo_env_def)
  from handshake_complete [OF demo_quiet this(1), of 2 "[1]" pair_decoder "\<lambda>r. hello_conn (int r)" "\<lambda>_. []"] J this(2)
  show ?thesis by (auto simp: max_int64_def hello_conn_def)
qed

end
