(* ===== verification/Hardware.thy ===== *)
theory Hardware
  imports SlotLedger Transport
begin

text \<open>
  Provider objects and who releases them: the daemon's hardware, \<^verbatim>\<open>src/cmd/jaccld/main.go\<close>
  (\<^verbatim>\<open>openHardware\<close>, \<^verbatim>\<open>hardware.Close\<close>), its connections,
  \<^verbatim>\<open>src/cmd/jaccld/transport.go\<close> (\<^verbatim>\<open>openDaemonConn\<close>, \<^verbatim>\<open>daemonConn.close\<close>), and the
  connections of the direct backend, \<^verbatim>\<open>src/backend.go\<close>.

  The provider (\<^verbatim>\<open>internal/rdma\<close>) is a world of live objects; whether a call succeeds is the world's
  answer.  Each object's \<^verbatim>\<open>Close\<close> runs once (\<^verbatim>\<open>sync.Once\<close>): when the provider refuses, the object
  stays, and a second \<^verbatim>\<open>Close\<close> returns nil.
\<close>

section \<open>The provider\<close>

datatype prov_kind = KDevice | KSlot slot_kind

record prov_world =
  wo_answer :: "nat \<Rightarrow> string option"
  wo_destroy :: "nat \<Rightarrow> string option"
  wo_dest :: "nat \<Rightarrow> destination"
  wo_calls :: nat
  wo_next :: nat
  wo_live :: "(nat \<times> prov_kind) list"
  wo_once :: "nat set"
  wo_ledger :: "ledger option"
  wo_disk :: disk
  wo_os :: "nat \<Rightarrow> ledger_os"
  wo_marks :: nat
  wo_reported :: slot_stats

datatype hw_error = ProviderError string | SlotError ledger_error | NilHardware | PeerError nat hw_error | ExchangeError string

definition prov_call :: "prov_world \<Rightarrow> hw_error option \<times> prov_world" where
  "prov_call w = (map_option ProviderError (wo_answer w (wo_calls w)), w\<lparr>wo_calls := wo_calls w + 1\<rparr>)"

definition prov_new :: "prov_kind \<Rightarrow> prov_world \<Rightarrow> (hw_error + nat) \<times> prov_world" where
  "prov_new k w =
     (case prov_call w of (Some e, w') \<Rightarrow> (Inl e, w')
      | (None, w') \<Rightarrow> (Inr (wo_next w), w'\<lparr>wo_next := wo_next w + 1, wo_live := (wo_next w, k) # wo_live w\<rparr>))"

definition prov_close :: "nat \<Rightarrow> prov_world \<Rightarrow> hw_error option \<times> prov_world" where
  "prov_close i w =
     (if i \<in> wo_once w then (None, w)
      else
        let w' = w\<lparr>wo_once := insert i (wo_once w)\<rparr> in
        case wo_destroy w i of Some e \<Rightarrow> (Some (ProviderError e), w')
        | None \<Rightarrow> (None, w'\<lparr>wo_live := filter (\<lambda>(j, k). j \<noteq> i) (wo_live w)\<rparr>))"

section \<open>Slots\<close>

text \<open>\<open>recordSlotOpened\<close>, \<open>recordSlotClosed\<close> and \<open>recordSlotFailed\<close>: without a ledger they do nothing, and the
store shows the counters even when the file cannot be written.\<close>

definition record_slot :: "mark \<Rightarrow> slot_kind \<Rightarrow> prov_world \<Rightarrow> hw_error option \<times> prov_world" where
  "record_slot m kind w =
     (case wo_ledger w of None \<Rightarrow> (None, w)
      | Some l \<Rightarrow>
          (case mark_with m (wo_os w (wo_marks w)) kind (Some l) (wo_disk w) of
             ((stats, e), lo, d) \<Rightarrow>
               (map_option SlotError e,
                w\<lparr>wo_ledger := lo, wo_disk := d, wo_marks := wo_marks w + 1, wo_reported := stats\<rparr>)))"

definition recordSlotOpened where "recordSlotOpened = record_slot Opened"
definition recordSlotClosed where "recordSlotClosed = record_slot Closed"

definition recordSlotFailed :: "slot_kind \<Rightarrow> prov_world \<Rightarrow> prov_world" where
  "recordSlotFailed kind w = snd (record_slot mark.Failed kind w)"

text \<open>One step of a \<open>Close\<close>: the object's own \<^verbatim>\<open>Close\<close>, then the slot, then the field is set to nil.\<close>

definition close_slot ::
  "slot_kind \<Rightarrow> nat option \<Rightarrow> hw_error option \<Rightarrow> prov_world \<Rightarrow> hw_error option \<times> nat option \<times> prov_world" where
  "close_slot kind h first w =
     (case h of None \<Rightarrow> (first, None, w)
      | Some i \<Rightarrow>
          (case prov_close i w of
             (Some e, w') \<Rightarrow> (first_error first (Some e), Some i, w')
           | (None, w') \<Rightarrow> (case recordSlotClosed kind w' of (e, w'') \<Rightarrow> (first_error first e, None, w''))))"

section \<open>Hardware\<close>

record hardware =
  hw_dev :: "nat option"
  hw_pd :: "nat option"
  hw_mr :: "nat option"

definition hardware_Close :: "hardware \<Rightarrow> prov_world \<Rightarrow> hw_error option \<times> hardware \<times> prov_world" where
  "hardware_Close h w =
     (case close_slot SlotMemoryRegion (hw_mr h) None w of (first, mr, w1) \<Rightarrow>
      case close_slot SlotProtectionDomain (hw_pd h) first w1 of (first', pd, w2) \<Rightarrow>
      case hw_dev h of None \<Rightarrow> (first', h\<lparr>hw_mr := mr, hw_pd := pd\<rparr>, w2)
      | Some d \<Rightarrow>
          (case prov_close d w2 of (e, w3) \<Rightarrow> (first_error first' e, h\<lparr>hw_mr := mr, hw_pd := pd\<rparr>, w3)))"

definition openHardware :: "prov_world \<Rightarrow> (hw_error + hardware) \<times> prov_world" where
  "openHardware w =
     (case prov_new KDevice w of (Inl e, w1) \<Rightarrow> (Inl e, w1)
      | (Inr dev, w1) \<Rightarrow>
          let fail = (\<lambda>e h w. (Inl e, snd (snd (hardware_Close h w)))); h = \<lparr> hw_dev = Some dev, hw_pd = None, hw_mr = None \<rparr> in
          case prov_new (KSlot SlotProtectionDomain) w1 of
            (Inl e, w2) \<Rightarrow> fail e h (recordSlotFailed SlotProtectionDomain w2)
          | (Inr pd, w2) \<Rightarrow>
              let h = h\<lparr>hw_pd := Some pd\<rparr> in
              case recordSlotOpened SlotProtectionDomain w2 of (Some e, w3) \<Rightarrow> fail e h w3
              | (None, w3) \<Rightarrow>
                  (case prov_new (KSlot SlotMemoryRegion) w3 of
                     (Inl e, w4) \<Rightarrow> fail e h (recordSlotFailed SlotMemoryRegion w4)
                   | (Inr mr, w4) \<Rightarrow>
                       let h = h\<lparr>hw_mr := Some mr\<rparr> in
                       case recordSlotOpened SlotMemoryRegion w4 of (Some e, w5) \<Rightarrow> fail e h w5
                       | (None, w5) \<Rightarrow> (Inr h, w5)))"

section \<open>Daemon connections\<close>

record slot_conn =
  sc_cq :: "nat option"
  sc_qp :: "nat option"

definition slot_conn_close :: "slot_conn \<Rightarrow> prov_world \<Rightarrow> hw_error option \<times> slot_conn \<times> prov_world" where
  "slot_conn_close c w =
     (case close_slot SlotQueuePair (sc_qp c) None w of (first, qp, w1) \<Rightarrow>
      case close_slot SlotCompletionQueue (sc_cq c) first w1 of (first', cq, w2) \<Rightarrow>
        (first', \<lparr> sc_cq = cq, sc_qp = qp \<rparr>, w2))"

definition openDaemonConn :: "prov_world \<Rightarrow> (hw_error + slot_conn \<times> destination) \<times> prov_world" where
  "openDaemonConn w =
     (case prov_new (KSlot SlotCompletionQueue) w of
        (Inl e, w1) \<Rightarrow> (Inl e, recordSlotFailed SlotCompletionQueue w1)
      | (Inr cq, w1) \<Rightarrow>
          (case recordSlotOpened SlotCompletionQueue w1 of (Some e, w2) \<Rightarrow> (Inl e, snd (prov_close cq w2))
           | (None, w2) \<Rightarrow>
               let fail = (\<lambda>e c w. (Inl e, snd (snd (slot_conn_close c w)))); c = \<lparr> sc_cq = Some cq, sc_qp = None \<rparr> in
               case prov_new (KSlot SlotQueuePair) w2 of
                 (Inl e, w3) \<Rightarrow> fail e c (recordSlotFailed SlotQueuePair w3)
               | (Inr qp, w3) \<Rightarrow>
                   (case recordSlotOpened SlotQueuePair w3 of
                      (Some e, w4) \<Rightarrow> fail e c (snd (prov_close qp w4))
                    | (None, w4) \<Rightarrow>
                        let c = c\<lparr>sc_qp := Some qp\<rparr> in
                        (case prov_call w4 of (Some e, w5) \<Rightarrow> fail e c w5
                         | (None, w5) \<Rightarrow>
                             (case prov_call w5 of (Some e, w6) \<Rightarrow> fail e c w6
                              | (None, w6) \<Rightarrow> (Inr (c, wo_dest w6 qp), w6))))))"

text \<open>The connections of a transport: \<open>open\<close> stops at the first failure, \<open>Close\<close> closes them all.\<close>

fun open_conns_loop ::
  "nat \<Rightarrow> nat list \<Rightarrow> prov_world \<Rightarrow> hw_error option \<times> (nat \<times> slot_conn \<times> destination) list \<times> prov_world" where
  "open_conns_loop rank [] w = (None, [], w)"
| "open_conns_loop rank (p # ps) w =
     (if p = rank then open_conns_loop rank ps w
      else case openDaemonConn w of (Inl e, w') \<Rightarrow> (Some (PeerError p e), [], w')
      | (Inr c, w') \<Rightarrow> (case open_conns_loop rank ps w' of (e, cs, w'') \<Rightarrow> (e, (p, c) # cs, w'')))"

fun close_conns_loop :: "slot_conn list \<Rightarrow> prov_world \<Rightarrow> hw_error option \<times> prov_world" where
  "close_conns_loop [] w = (None, w)"
| "close_conns_loop (c # cs) w =
     (case slot_conn_close c w of (e, c', w') \<Rightarrow>
      case close_conns_loop cs w' of (e', w'') \<Rightarrow> (first_error e e', w''))"

text \<open>\<open>openDaemonTransport\<close>: \<open>pre\<close> is the error of what precedes the connections, the checks for nil and
\<open>localHeartbeatLease\<close>; \<open>finish\<close> is the outcome of the exchange of the destinations and of bringing the queue
pairs up.\<close>

definition open_transport ::
  "nat \<Rightarrow> nat \<Rightarrow> hw_error option \<Rightarrow> ((nat \<times> destination) list \<Rightarrow> hw_error option) \<Rightarrow> hardware option \<Rightarrow> prov_world \<Rightarrow>
   (hw_error + slot_conn list) \<times> prov_world" where
  "open_transport rank n pre finish hw w =
     (if hw = None \<or> hw_dev (the hw) = None \<or> hw_pd (the hw) = None \<or> hw_mr (the hw) = None then (Inl NilHardware, w)
      else case pre of Some e \<Rightarrow> (Inl e, w)
      | None \<Rightarrow> case open_conns_loop rank [0..<n] w of (e, cs, w') \<Rightarrow>
        let conns = map (fst \<circ> snd) cs in
        case (case e of Some _ \<Rightarrow> e | None \<Rightarrow> finish (map (\<lambda>(p, c, d). (p, d)) cs)) of
          Some e \<Rightarrow> (Inl e, snd (close_conns_loop conns w'))
        | None \<Rightarrow> (Inr conns, w'))"

text \<open>What \<open>run\<close> opens and the deferred calls that release it; \<open>tracker\<close> is the error of making the heartbeat
tracker.\<close>

definition run_hardware ::
  "nat \<Rightarrow> nat \<Rightarrow> hw_error option \<Rightarrow> hw_error option \<Rightarrow> ((nat \<times> destination) list \<Rightarrow> hw_error option) \<Rightarrow> prov_world \<Rightarrow>
   hw_error option \<times> prov_world" where
  "run_hardware rank n tracker pre finish w =
     (case openHardware w of (Inl e, w1) \<Rightarrow> (Some e, w1)
      | (Inr hw, w1) \<Rightarrow>
          (case (case tracker of Some e \<Rightarrow> (Inl e, w1) | None \<Rightarrow> open_transport rank n pre finish (Some hw) w1) of
             (Inl e, w2) \<Rightarrow> (Some e, snd (snd (hardware_Close hw w2)))
           | (Inr conns, w2) \<Rightarrow> (None, snd (snd (hardware_Close hw (snd (close_conns_loop conns w2)))))))"

section \<open>Connections of the direct backend\<close>

text \<open>
  \<open>openRDMAConn\<close> makes a device, a protection domain, a completion queue, a queue pair and two memory
  regions, in this order, and then asks for the initial state and the address of the queue pair.
  \<open>rdmaConn.close\<close> closes the memory regions in the order they were made and the rest in the reverse order.
\<close>

definition direct_kinds :: "prov_kind list" where
  "direct_kinds = [KDevice, KSlot SlotProtectionDomain, KSlot SlotCompletionQueue, KSlot SlotQueuePair,
     KSlot SlotMemoryRegion, KSlot SlotMemoryRegion]"

fun open_objs :: "prov_kind list \<Rightarrow> prov_world \<Rightarrow> hw_error option \<times> nat list \<times> prov_world" where
  "open_objs [] w = (None, [], w)"
| "open_objs (k # ks) w =
     (case prov_new k w of (Inl e, w') \<Rightarrow> (Some e, [], w')
      | (Inr i, w') \<Rightarrow> (case open_objs ks w' of (e, js, w'') \<Rightarrow> (e, i # js, w'')))"

fun close_objs :: "nat list \<Rightarrow> prov_world \<Rightarrow> hw_error option \<times> prov_world" where
  "close_objs [] w = (None, w)"
| "close_objs (i # js) w =
     (case prov_close i w of (e, w') \<Rightarrow> (case close_objs js w' of (e', w'') \<Rightarrow> (first_error e e', w'')))"

definition direct_conn_close :: "nat list \<Rightarrow> prov_world \<Rightarrow> hw_error option \<times> prov_world" where
  "direct_conn_close js w = close_objs (drop 4 js @ rev (take 4 js)) w"

definition openRDMAConn :: "prov_world \<Rightarrow> (hw_error + nat list \<times> destination) \<times> prov_world" where
  "openRDMAConn w =
     (case open_objs direct_kinds w of (Some e, js, w1) \<Rightarrow> (Inl e, snd (direct_conn_close js w1))
      | (None, js, w1) \<Rightarrow>
          (case prov_call w1 of (Some e, w2) \<Rightarrow> (Inl e, snd (direct_conn_close js w2))
           | (None, w2) \<Rightarrow>
               (case prov_call w2 of (Some e, w3) \<Rightarrow> (Inl e, snd (direct_conn_close js w3))
                | (None, w3) \<Rightarrow> (Inr (js, wo_dest w3 (js ! 3)), w3))))"

fun direct_open_loop ::
  "(nat \<Rightarrow> string) \<Rightarrow> nat \<Rightarrow> nat list \<Rightarrow> prov_world \<Rightarrow> hw_error option \<times> (nat \<times> nat list \<times> destination) list \<times> prov_world" where
  "direct_open_loop device rank [] w = (None, [], w)"
| "direct_open_loop device rank (p # ps) w =
     (if p = rank \<or> device p = '''' then direct_open_loop device rank ps w
      else case openRDMAConn w of (Inl e, w') \<Rightarrow> (Some (PeerError p e), [], w')
      | (Inr c, w') \<Rightarrow> (case direct_open_loop device rank ps w' of (e, cs, w'') \<Rightarrow> (e, (p, c) # cs, w'')))"

fun direct_close_loop :: "nat list list \<Rightarrow> prov_world \<Rightarrow> hw_error option \<times> prov_world" where
  "direct_close_loop [] w = (None, w)"
| "direct_close_loop (c # cs) w =
     (case direct_conn_close c w of (e, w') \<Rightarrow>
      case direct_close_loop cs w' of (e', w'') \<Rightarrow> (first_error e e', w''))"

text \<open>\<open>newRDMABackend\<close> past the choice of the topology; \<open>side\<close> is the error of the side channel, \<open>finish\<close> that of
the exchange and of bringing the queue pairs up.\<close>

definition direct_open ::
  "hw_error option \<Rightarrow> (nat \<Rightarrow> string) \<Rightarrow> nat \<Rightarrow> nat \<Rightarrow> ((nat \<times> destination) list \<Rightarrow> hw_error option) \<Rightarrow> prov_world \<Rightarrow>
   (hw_error + nat list list) \<times> prov_world" where
  "direct_open side device rank n finish w =
     (case side of Some e \<Rightarrow> (Inl e, w)
      | None \<Rightarrow>
          case direct_open_loop device rank [0..<n] w of (e, cs, w') \<Rightarrow>
            let conns = map (fst \<circ> snd) cs in
            case (case e of Some _ \<Rightarrow> e | None \<Rightarrow> finish (map (\<lambda>(p, c, d). (p, d)) cs)) of
              Some e \<Rightarrow> (Inl e, snd (direct_close_loop conns w'))
            | None \<Rightarrow> (Inr conns, w'))"

section \<open>What is live and what the ledger counts\<close>

definition world_ok :: "prov_world \<Rightarrow> bool" where
  "world_ok w \<longleftrightarrow> distinct (map fst (wo_live w)) \<and> (\<forall>i k. (i, k) \<in> set (wo_live w) \<longrightarrow> i < wo_next w) \<and> (\<forall>i \<in> wo_once w. i < wo_next w)"

definition live_count :: "slot_kind \<Rightarrow> prov_world \<Rightarrow> nat" where
  "live_count k w = length (filter (\<lambda>x. snd x = KSlot k) (wo_live w))"

text \<open>Opened minus closed minus live: zero when the ledger is exact.\<close>

definition slot_balance :: "slot_kind \<Rightarrow> prov_world \<Rightarrow> u64" where
  "slot_balance k w =
     (case wo_ledger w of None \<Rightarrow> 0
      | Some l \<Rightarrow>
          (case counterLocked k l of Inl _ \<Rightarrow> 0
           | Inr (c, v) \<Rightarrow> fc_Opened c - fc_Closed c - word_of_nat (live_count k w)))"

text \<open>An object that exists and whose \<open>Close\<close> has not run.\<close>

definition owned :: "prov_world \<Rightarrow> nat \<Rightarrow> prov_kind \<Rightarrow> bool" where
  "owned w i k \<longleftrightarrow> (i, k) \<in> set (wo_live w) \<and> i \<notin> wo_once w"

definition known :: "slot_kind \<Rightarrow> bool" where
  "known k \<longleftrightarrow> \<not> unknown_kind k"

lemma known_kinds [simp]: "known SlotProtectionDomain" "known SlotMemoryRegion" "known SlotQueuePair" "known SlotCompletionQueue"
  by (simp_all add: known_def)

text \<open>The two environments of the theorems: destroying never fails; writing the ledger never fails.\<close>

definition destroys :: "prov_world \<Rightarrow> bool" where
  "destroys w \<longleftrightarrow> (\<forall>i. wo_destroy w i = None)"

definition saves :: "prov_world \<Rightarrow> bool" where
  "saves w \<longleftrightarrow> (\<forall>n. lo_WriteFile (wo_os w n) = None \<and> lo_Rename (wo_os w n) = None)"

text \<open>The parts of the world no operation changes.\<close>

definition same_env :: "prov_world \<Rightarrow> prov_world \<Rightarrow> bool" where
  "same_env w w' \<longleftrightarrow> wo_destroy w' = wo_destroy w \<and> wo_os w' = wo_os w \<and> (wo_ledger w' = None) = (wo_ledger w = None)"

lemma same_env_refl [simp]: "same_env w w"
  by (simp add: same_env_def)

lemma same_env_trans: "same_env a b \<Longrightarrow> same_env b c \<Longrightarrow> same_env a c"
  by (simp add: same_env_def)

lemma destroys_env: "same_env w w' \<Longrightarrow> destroys w' = destroys w"
  by (simp add: same_env_def destroys_def)

lemma saves_env: "same_env w w' \<Longrightarrow> saves w' = saves w"
  by (simp add: same_env_def saves_def)

lemma ok_cong:
  "wo_live w' = wo_live w \<Longrightarrow> wo_once w' = wo_once w \<Longrightarrow> wo_next w' = wo_next w \<Longrightarrow> world_ok w' = world_ok w"
  by (simp add: world_ok_def)

lemma balance_cong:
  "wo_live w' = wo_live w \<Longrightarrow> wo_ledger w' = wo_ledger w \<Longrightarrow> slot_balance k w' = slot_balance k w"
proof -
  assume "wo_live w' = wo_live w" "wo_ledger w' = wo_ledger w"
  moreover from this have "live_count k w' = live_count k w" by (simp add: live_count_def)
  ultimately show "slot_balance k w' = slot_balance k w"
    by (auto simp: slot_balance_def split: option.splits sum.splits)
qed

lemma prov_call_props:
  assumes "prov_call w = (e, w')"
  shows "wo_live w' = wo_live w" "wo_once w' = wo_once w" "wo_next w' = wo_next w" "wo_ledger w' = wo_ledger w" "same_env w w'"
  using assms by (auto simp: prov_call_def same_env_def)

lemma prov_new_Inl:
  assumes "prov_new k w = (Inl e, w')"
  shows "wo_live w' = wo_live w" "wo_once w' = wo_once w" "wo_next w' = wo_next w" "wo_ledger w' = wo_ledger w" "same_env w w'"
  using assms
  by (auto simp: prov_new_def prov_call_def same_env_def split: prod.splits option.splits)

lemma prov_new_Inr:
  assumes "prov_new k w = (Inr i, w')" "world_ok w"
  shows "world_ok w'" "wo_live w' = (i, k) # wo_live w" "wo_once w' = wo_once w" "i = wo_next w" "wo_next w' = Suc i"
    "owned w' i k" "same_env w w'" "wo_ledger w' = wo_ledger w"
  using assms
  by (auto simp: prov_new_def prov_call_def world_ok_def owned_def same_env_def less_Suc_eq split: prod.splits option.splits)
    (metis less_irrefl)+

lemma prov_new_balance:
  assumes "prov_new k w = (Inr i, w')" "world_ok w" "wo_ledger w = Some l" "counterLocked j l = Inr c"
  shows "slot_balance j w' = slot_balance j w - of_bool (k = KSlot j)"
proof -
  have "live_count j w' = of_bool (k = KSlot j) + live_count j w"
    using prov_new_Inr(2) [OF assms(1,2)] by (simp add: live_count_def)
  then show ?thesis
    using prov_new_Inr(8) [OF assms(1,2)] assms(3,4) by (cases c) (auto simp: slot_balance_def)
qed

lemma record_slot_props:
  assumes "record_slot m k w = (e, w')"
  shows "wo_live w' = wo_live w" "wo_once w' = wo_once w" "wo_next w' = wo_next w"
    "same_env w w'" "saves w \<and> known k \<Longrightarrow> e = None"
proof -
  show "wo_live w' = wo_live w" "wo_once w' = wo_once w" "wo_next w' = wo_next w" "same_env w w'"
    using assms
    by (auto simp: record_slot_def same_env_def mark_with_update slot_update_def split: option.splits prod.splits sum.splits)
  have quiet: "fst (saveLocked (wo_os w n) l d) = None" if "saves w" for n l d
    using that by (simp add: saves_def saveLocked_def Let_def)
  show "e = None" if sk: "saves w \<and> known k"
  proof (cases "wo_ledger w")
    case (Some l)
    obtain c v where "counterLocked k l = Inr (c, v)" using counter_known [of k l] sk by (auto simp: known_def)
    then show ?thesis
      using assms Some quiet [of "wo_marks w" "refreshStatsLocked (set_counter k (mark_fn m (c, v)) l)" "wo_disk w"] sk
      by (auto simp: record_slot_def mark_with_update slot_update_def split: prod.splits)
  qed (use assms in \<open>auto simp: record_slot_def\<close>)
qed

lemma record_slot_balance:
  assumes "record_slot m k w = (e, w')" "wo_ledger w = Some l" "known k"
  shows "slot_balance j w' = slot_balance j w +
    (if j = k then (case m of Opened \<Rightarrow> 1 | Closed \<Rightarrow> - 1 | mark.Failed \<Rightarrow> 0) else 0)"
proof -
  obtain c where c: "counterLocked k l = Inr c" using counter_known [of k l] assms(3) by (auto simp: known_def)
  obtain st e' lo d where U: "slot_update (wo_os w (wo_marks w)) k (mark_fn m) (Some l) (wo_disk w) = ((st, e'), lo, d)"
    by (metis surj_pair)
  from slot_update_known [OF c U] obtain l' where l': "lo = Some l'"
    "\<And>j. counterLocked j l' = (if j = k then Inr (mark_fn m c) else counterLocked j l)" by auto
  have w': "wo_ledger w' = Some l'" "wo_live w' = wo_live w"
    using assms(1,2) U l'(1) by (auto simp: record_slot_def mark_with_update)
  have "live_count j w' = live_count j w" using w'(2) by (simp add: live_count_def)
  then show ?thesis
    using w'(1) assms(2) l'(2) c
    by (cases c; cases m) (auto simp: slot_balance_def split: sum.splits)
qed

lemma prov_close_props:
  assumes "prov_close i w = (e, w')" "world_ok w" "owned w i k"
  shows "world_ok w'" "wo_next w' = wo_next w" "same_env w w'" "wo_ledger w' = wo_ledger w" "wo_once w' = insert i (wo_once w)"
    "e = None \<Longrightarrow> wo_live w' = filter (\<lambda>x. fst x \<noteq> i) (wo_live w)" "e \<noteq> None \<Longrightarrow> wo_live w' = wo_live w"
    "destroys w \<Longrightarrow> e = None"
  using assms
  by (auto simp: prov_close_def Let_def owned_def world_ok_def same_env_def destroys_def case_prod_unfold distinct_map_filter
      split: option.splits if_splits) blast+

lemma filter_one:
  assumes "distinct (map fst xs)" "(i, k) \<in> set xs"
  shows "length (filter P (filter (\<lambda>x. fst x \<noteq> i) xs)) + of_bool (P (i, k)) = length (filter P xs)"
  using assms
proof (induction xs)
  case (Cons x xs)
  show ?case
  proof (cases "x = (i, k)")
    case True
    then have "filter (\<lambda>x. fst x \<noteq> i) xs = xs" using Cons.prems(1) by (intro filter_True) force
    then show ?thesis using True by simp
  next
    case False
    then have "(i, k) \<in> set xs" "fst x \<noteq> i" using Cons.prems by (auto simp: rev_image_eqI)
    then show ?thesis using Cons by simp
  qed
qed simp

lemma prov_close_balance:
  assumes "prov_close i w = (None, w')" "world_ok w" "owned w i k" "wo_ledger w = Some l" "counterLocked j l = Inr c"
  shows "slot_balance j w' = slot_balance j w + of_bool (k = KSlot j)"
proof -
  have "live_count j w' + of_bool (k = KSlot j) = live_count j w"
    using prov_close_props(6) [OF assms(1-3)] filter_one [of "wo_live w" i k "\<lambda>x. snd x = KSlot j"] assms(2,3)
    by (simp add: live_count_def world_ok_def owned_def)
  then have "(word_of_nat (live_count j w) :: u64) = word_of_nat (live_count j w') + of_bool (k = KSlot j)"
    by (metis of_nat_add of_nat_of_bool)
  then show ?thesis
    using prov_close_props(4) [OF assms(1-3)] assms(4,5) by (cases c) (auto simp: slot_balance_def)
qed

section \<open>Ownership\<close>

text \<open>
  Relative to a starting world: the objects of the start are untouched, the objects made since then that are
  live are \<open>own\<close>, none of them closed, and the balance of a kind has moved by \<open>d\<close>.
\<close>

definition holding :: "prov_world \<Rightarrow> prov_world \<Rightarrow> (nat \<times> prov_kind) set \<Rightarrow> (slot_kind \<Rightarrow> u64) \<Rightarrow> bool" where
  "holding w0 w own d \<longleftrightarrow> world_ok w0 \<and> world_ok w \<and> same_env w0 w \<and> wo_next w0 \<le> wo_next w \<and>
     filter (\<lambda>x. fst x < wo_next w0) (wo_live w) = wo_live w0 \<and> {x \<in> set (wo_live w). wo_next w0 \<le> fst x} = own \<and>
     (\<forall>x \<in> own. fst x \<notin> wo_once w) \<and>
     (wo_ledger w0 \<noteq> None \<longrightarrow> (\<forall>j. known j \<longrightarrow> slot_balance j w = slot_balance j w0 + d j))"

lemma holding_start: "world_ok w \<Longrightarrow> holding w w {} (\<lambda>_. 0)"
  by (auto simp: holding_def world_ok_def intro!: filter_True)

lemma holding_end:
  assumes "holding w0 w {} d"
  shows "wo_live w = wo_live w0" "wo_ledger w0 \<noteq> None \<Longrightarrow> known j \<Longrightarrow> slot_balance j w = slot_balance j w0 + d j"
proof -
  have "filter (\<lambda>x. fst x < wo_next w0) (wo_live w) = wo_live w"
    using assms by (intro filter_True) (auto simp: holding_def not_le)
  then show "wo_live w = wo_live w0" using assms by (simp add: holding_def)
  show "wo_ledger w0 \<noteq> None \<Longrightarrow> known j \<Longrightarrow> slot_balance j w = slot_balance j w0 + d j"
    using assms by (simp add: holding_def)
qed

lemma holding_owned: "holding w0 w own d \<Longrightarrow> (i, k) \<in> own \<Longrightarrow> owned w i k"
  unfolding holding_def owned_def by (metis (no_types, lifting) fst_conv mem_Collect_eq)

lemma holding_ledger:
  assumes "holding w0 w own d" "wo_ledger w0 \<noteq> None" "known j"
  obtains l c where "wo_ledger w = Some l" "counterLocked j l = Inr c"
  using assms counter_known [of j "the (wo_ledger w)"] by (auto simp: holding_def same_env_def known_def)

lemma holding_quiet:
  assumes "holding w0 w own d" "wo_live w' = wo_live w" "wo_once w' = wo_once w" "wo_next w' = wo_next w" "same_env w w'"
    "\<And>j. wo_ledger w0 \<noteq> None \<Longrightarrow> known j \<Longrightarrow> slot_balance j w' = slot_balance j w + (d' j - d j)"
  shows "holding w0 w' own d'"
  using assms ok_cong [OF assms(2-4)] same_env_trans [OF _ assms(5)] by (auto simp: holding_def)

lemma holding_call: "holding w0 w own d \<Longrightarrow> prov_call w = (e, w') \<Longrightarrow> holding w0 w' own d"
  by (rule holding_quiet) (auto simp: prov_call_props balance_cong [OF prov_call_props(1,4)])

lemma holding_new_fails: "holding w0 w own d \<Longrightarrow> prov_new k w = (Inl e, w') \<Longrightarrow> holding w0 w' own d"
  by (rule holding_quiet) (auto simp: prov_new_Inl balance_cong [OF prov_new_Inl(1,4)])

lemma holding_record:
  assumes "holding w0 w own d" "record_slot m k w = (e, w')" "known k"
  shows "holding w0 w' own (\<lambda>j. d j + (if j = k then (case m of Opened \<Rightarrow> 1 | Closed \<Rightarrow> - 1 | mark.Failed \<Rightarrow> 0) else 0))"
proof (rule holding_quiet [OF assms(1)])
  fix j assume "wo_ledger w0 \<noteq> None" "known j"
  then obtain l c where "wo_ledger w = Some l" by (rule holding_ledger [OF assms(1)])
  then show "slot_balance j w' = slot_balance j w +
      (d j + (if j = k then (case m of Opened \<Rightarrow> 1 | Closed \<Rightarrow> - 1 | mark.Failed \<Rightarrow> 0) else 0) - d j)"
    using record_slot_balance [OF assms(2) _ assms(3)] by simp
qed (use record_slot_props [OF assms(2)] in auto)

lemma holding_new:
  assumes "holding w0 w own d" "prov_new k w = (Inr i, w')"
  shows "holding w0 w' (insert (i, k) own) (\<lambda>j. d j - of_bool (k = KSlot j))" "i = wo_next w" "wo_next w0 \<le> i" "(i, k) \<notin> own"
proof -
  have ok: "world_ok w" using assms(1) by (simp add: holding_def)
  note N = prov_new_Inr [OF assms(2) ok]
  show i: "i = wo_next w" "wo_next w0 \<le> i" using N(4) assms(1) by (auto simp: holding_def)
  have below: "\<forall>x \<in> own. fst x < i" using assms(1) i(1) by (auto simp: holding_def world_ok_def)
  then show "(i, k) \<notin> own" by auto
  have bal: "slot_balance j w' = slot_balance j w0 + (d j - of_bool (k = KSlot j))" if j: "wo_ledger w0 \<noteq> None" "known j" for j
  proof -
    obtain l c where "wo_ledger w = Some l" "counterLocked j l = Inr c" by (rule holding_ledger [OF assms(1) j])
    then show ?thesis using prov_new_balance [OF assms(2) ok] assms(1) j by (simp add: holding_def)
  qed
  have "same_env w0 w'" using assms(1) N(7) same_env_trans by (auto simp: holding_def)
  moreover have "filter (\<lambda>x. fst x < wo_next w0) (wo_live w') = wo_live w0"
    using assms(1) N(2) i(2) by (simp add: holding_def)
  moreover have "{x \<in> set (wo_live w'). wo_next w0 \<le> fst x} = insert (i, k) own"
    using assms(1) N(2) i(2) by (auto simp: holding_def)
  moreover have "\<forall>x \<in> insert (i, k) own. fst x \<notin> wo_once w'"
    using assms(1) N(3,6) by (auto simp: holding_def owned_def)
  ultimately show "holding w0 w' (insert (i, k) own) (\<lambda>j. d j - of_bool (k = KSlot j))"
    using N(1,5) i assms(1) bal by (auto simp: holding_def)
qed

lemma holding_close:
  assumes "holding w0 w own d" "prov_close i w = (e, w')" "(i, k) \<in> own" "destroys w0"
  shows "holding w0 w' (own - {(i, k)}) (\<lambda>j. d j + of_bool (k = KSlot j)) \<and> e = None"
proof -
  have ok: "world_ok w" and se: "same_env w0 w" using assms(1) by (auto simp: holding_def)
  note P = prov_close_props [OF assms(2) ok holding_owned [OF assms(1,3)]]
  have e: "e = None" using P(8) destroys_env [OF se] assms(4) by simp
  note L = P(6) [OF e]
  have ge: "wo_next w0 \<le> i" using assms(1,3) by (auto simp: holding_def)
  have uniq: "x = (i, k)" if "x \<in> set (wo_live w)" "fst x = i" for x
    using ok that holding_owned [OF assms(1,3)] by (cases x) (auto simp: world_ok_def owned_def dest: eq_key_imp_eq_value)
  have bal: "slot_balance j w' = slot_balance j w0 + (d j + of_bool (k = KSlot j))" if j: "wo_ledger w0 \<noteq> None" "known j" for j
  proof -
    obtain l c where "wo_ledger w = Some l" "counterLocked j l = Inr c" by (rule holding_ledger [OF assms(1) j])
    then show ?thesis
      using prov_close_balance [OF assms(2) [unfolded e] ok holding_owned [OF assms(1,3)]] assms(1) j by (simp add: holding_def)
  qed
  have "filter (\<lambda>x. fst x < wo_next w0) (wo_live w') = wo_live w0"
  proof -
    have "filter (\<lambda>x. fst x < wo_next w0) (wo_live w') = filter (\<lambda>x. fst x < wo_next w0) (wo_live w)"
      unfolding L filter_filter using ge by (intro filter_cong) auto
    then show ?thesis using assms(1) by (simp add: holding_def)
  qed
  moreover have "x \<in> set (wo_live w') \<longleftrightarrow> x \<in> set (wo_live w) \<and> x \<noteq> (i, k)" for x
    unfolding L using uniq [of x] by (cases x) auto
  then have "{x \<in> set (wo_live w'). wo_next w0 \<le> fst x} = own - {(i, k)}"
    using assms(1) by (auto simp: holding_def)
  moreover have "fst x \<notin> wo_once w'" if x: "x \<in> own - {(i, k)}" for x
  proof -
    have "x \<in> set (wo_live w)" "fst x \<notin> wo_once w" using assms(1) x unfolding holding_def by blast+
    then show ?thesis using P(5) uniq [of x] x by blast
  qed
  ultimately show ?thesis
    using P(1-3) e assms(1) bal same_env_trans [OF se P(3)] by (auto simp: holding_def)
qed

section \<open>Every object is released\<close>

lemma close_slot_holds:
  assumes "holding w0 w own d" "destroys w0" "known k" "close_slot k h first w = (f, h', w')"
    and "\<And>i. h = Some i \<Longrightarrow> (i, KSlot k) \<in> own"
  shows "holding w0 w' (own - (case h of None \<Rightarrow> {} | Some i \<Rightarrow> {(i, KSlot k)})) d"
proof (cases h)
  case None
  then show ?thesis using assms(1,4) by (simp add: close_slot_def)
next
  case (Some i)
  obtain e1 w1 where c: "prov_close i w = (e1, w1)" by fastforce
  have C: "holding w0 w1 (own - {(i, KSlot k)}) (\<lambda>j. d j + of_bool (KSlot k = KSlot j))" "e1 = None"
    using holding_close [OF assms(1) c assms(5) [OF Some] assms(2)] by auto
  obtain e2 where r: "record_slot Closed k w1 = (e2, w')"
    using assms(4) Some c C(2) by (auto simp: close_slot_def recordSlotClosed_def split: prod.splits)
  have "(\<lambda>j. d j + of_bool (KSlot k = KSlot j) + (if j = k then (case Closed of Opened \<Rightarrow> 1 | Closed \<Rightarrow> - 1 | mark.Failed \<Rightarrow> 0) else 0)) = d"
    by (auto simp: fun_eq_iff)
  then show ?thesis using holding_record [OF C(1) r assms(3)] Some by simp
qed

lemma holding_opened:
  assumes "holding w0 w own d" "prov_new (KSlot k) w = (Inr i, w1)" "recordSlotOpened k w1 = (e, w2)" "known k"
  shows "holding w0 w2 (insert (i, KSlot k) own) d" "(i, KSlot k) \<notin> own"
proof -
  have "(\<lambda>j. d j - of_bool (KSlot k = KSlot j) + (if j = k then (case Opened of Opened \<Rightarrow> 1 | Closed \<Rightarrow> - 1 | mark.Failed \<Rightarrow> 0) else 0)) = d"
    by (auto simp: fun_eq_iff)
  then show "holding w0 w2 (insert (i, KSlot k) own) d"
    using holding_record [OF holding_new(1) [OF assms(1,2)] assms(3) [unfolded recordSlotOpened_def] assms(4)] by simp
  show "(i, KSlot k) \<notin> own" by (rule holding_new(4) [OF assms(1,2)])
qed

lemma holding_failed:
  assumes "holding w0 w own d" "known k"
  shows "holding w0 (recordSlotFailed k w) own d"
proof -
  obtain e w' where r: "record_slot mark.Failed k w = (e, w')" by fastforce
  show ?thesis using holding_record [OF assms(1) r assms(2)] r by (simp add: recordSlotFailed_def cong: if_cong)
qed

definition hw_own :: "hardware \<Rightarrow> (nat \<times> prov_kind) set" where
  "hw_own h = (case hw_dev h of None \<Rightarrow> {} | Some i \<Rightarrow> {(i, KDevice)}) \<union>
     (case hw_pd h of None \<Rightarrow> {} | Some i \<Rightarrow> {(i, KSlot SlotProtectionDomain)}) \<union>
     (case hw_mr h of None \<Rightarrow> {} | Some i \<Rightarrow> {(i, KSlot SlotMemoryRegion)})"

lemma hardware_Close_holds:
  assumes "holding w0 w own d" "destroys w0" "hw_own h \<subseteq> own"
  shows "holding w0 (snd (snd (hardware_Close h w))) (own - hw_own h) d"
proof -
  obtain f1 mr w1 where c1: "close_slot SlotMemoryRegion (hw_mr h) None w = (f1, mr, w1)" by (metis surj_pair)
  have H1: "holding w0 w1 (own - (case hw_mr h of None \<Rightarrow> {} | Some i \<Rightarrow> {(i, KSlot SlotMemoryRegion)})) d"
    using assms(3) by (intro close_slot_holds [OF assms(1,2) _ c1]) (auto simp: hw_own_def)
  obtain f2 pd w2 where c2: "close_slot SlotProtectionDomain (hw_pd h) f1 w1 = (f2, pd, w2)" by (metis surj_pair)
  have H2: "holding w0 w2 (own - (case hw_mr h of None \<Rightarrow> {} | Some i \<Rightarrow> {(i, KSlot SlotMemoryRegion)}) -
      (case hw_pd h of None \<Rightarrow> {} | Some i \<Rightarrow> {(i, KSlot SlotProtectionDomain)})) d"
    using assms(3) by (intro close_slot_holds [OF H1 assms(2) _ c2]) (auto simp: hw_own_def split: option.splits)
  show ?thesis
  proof (cases "hw_dev h")
    case None
    have "own - hw_own h = own - (case hw_mr h of None \<Rightarrow> {} | Some i \<Rightarrow> {(i, KSlot SlotMemoryRegion)}) -
      (case hw_pd h of None \<Rightarrow> {} | Some i \<Rightarrow> {(i, KSlot SlotProtectionDomain)})"
      using None by (auto simp: hw_own_def split: option.splits)
    then show ?thesis using H2 c1 c2 None by (simp add: hardware_Close_def)
  next
    case (Some i)
    obtain e w3 where c3: "prov_close i w2 = (e, w3)" by fastforce
    have "(i, KDevice) \<in> own - (case hw_mr h of None \<Rightarrow> {} | Some i \<Rightarrow> {(i, KSlot SlotMemoryRegion)}) -
      (case hw_pd h of None \<Rightarrow> {} | Some i \<Rightarrow> {(i, KSlot SlotProtectionDomain)})"
      using assms(3) Some by (auto simp: hw_own_def split: option.splits)
    from holding_close [OF H2 c3 this assms(2)]
    have "holding w0 w3 (own - (case hw_mr h of None \<Rightarrow> {} | Some i \<Rightarrow> {(i, KSlot SlotMemoryRegion)}) -
      (case hw_pd h of None \<Rightarrow> {} | Some i \<Rightarrow> {(i, KSlot SlotProtectionDomain)}) - {(i, KDevice)}) d" by simp
    moreover have "own - hw_own h = own - (case hw_mr h of None \<Rightarrow> {} | Some i \<Rightarrow> {(i, KSlot SlotMemoryRegion)}) -
      (case hw_pd h of None \<Rightarrow> {} | Some i \<Rightarrow> {(i, KSlot SlotProtectionDomain)}) - {(i, KDevice)}"
      using Some by (auto simp: hw_own_def split: option.splits)
    ultimately show ?thesis using c1 c2 c3 Some by (simp add: hardware_Close_def)
  qed
qed

lemma hw_fail:
  "holding w0 w (hw_own h \<union> own) d \<Longrightarrow> destroys w0 \<Longrightarrow> hw_own h \<inter> own = {} \<Longrightarrow>
   holding w0 (snd (snd (hardware_Close h w))) own d"
  using hardware_Close_holds [of w0 w "hw_own h \<union> own" d h] by (simp add: Un_Diff Diff_triv Int_commute)

lemma openHardware_holds:
  assumes "holding w0 w own d" "destroys w0" "openHardware w = (r, w')"
  shows "case r of Inl e \<Rightarrow> holding w0 w' own d
    | Inr h \<Rightarrow> holding w0 w' (hw_own h \<union> own) d \<and> hw_own h \<inter> own = {} \<and> hw_dev h \<noteq> None \<and> hw_pd h \<noteq> None \<and> hw_mr h \<noteq> None"
proof -
  obtain r1 w1 where n1: "prov_new KDevice w = (r1, w1)" by fastforce
  show ?thesis
  proof (cases r1)
    case (Inl e)
    then show ?thesis using holding_new_fails [OF assms(1)] n1 assms(3) by (auto simp: openHardware_def)
  next
    case r1: (Inr dev)
    let ?h1 = "\<lparr> hw_dev = Some dev, hw_pd = None, hw_mr = None \<rparr>"
    have "(\<lambda>j. d j - of_bool (KDevice = KSlot j)) = d" by simp
    then have H1: "holding w0 w1 (hw_own ?h1 \<union> own) d" and D1: "(dev, KDevice) \<notin> own"
      using holding_new [OF assms(1) n1 [unfolded r1]] by (simp_all add: hw_own_def)
    obtain r2 w2 where n2: "prov_new (KSlot SlotProtectionDomain) w1 = (r2, w2)" by fastforce
    show ?thesis
    proof (cases r2)
      case (Inl e)
      then have "holding w0 (recordSlotFailed SlotProtectionDomain w2) (hw_own ?h1 \<union> own) d"
        using holding_failed [OF holding_new_fails [OF H1]] n2 by simp
      then show ?thesis using hw_fail [OF _ assms(2)] D1 Inl n1 n2 r1 assms(3) by (auto simp: openHardware_def hw_own_def)
    next
      case r2: (Inr pd)
      let ?h2 = "\<lparr> hw_dev = Some dev, hw_pd = Some pd, hw_mr = None \<rparr>"
      obtain e3 w3 where m3: "recordSlotOpened SlotProtectionDomain w2 = (e3, w3)" by fastforce
      have H2: "holding w0 w3 (hw_own ?h2 \<union> own) d" and D2: "hw_own ?h2 \<inter> own = {}"
        using holding_opened [OF H1 n2 [unfolded r2] m3] D1 by (simp_all add: hw_own_def insert_commute)
      show ?thesis
      proof (cases e3)
        case (Some e)
        then show ?thesis using hw_fail [OF H2 assms(2) D2] n1 n2 r1 r2 m3 assms(3) by (auto simp: openHardware_def)
      next
        case e3: None
        obtain r4 w4 where n4: "prov_new (KSlot SlotMemoryRegion) w3 = (r4, w4)" by fastforce
        show ?thesis
        proof (cases r4)
          case (Inl e)
          then have "holding w0 (recordSlotFailed SlotMemoryRegion w4) (hw_own ?h2 \<union> own) d"
            using holding_failed [OF holding_new_fails [OF H2]] n4 by simp
          then show ?thesis using hw_fail [OF _ assms(2) D2] Inl n1 n2 n4 r1 r2 m3 e3 assms(3) by (auto simp: openHardware_def)
        next
          case r4: (Inr mr)
          let ?h3 = "\<lparr> hw_dev = Some dev, hw_pd = Some pd, hw_mr = Some mr \<rparr>"
          obtain e5 w5 where m5: "recordSlotOpened SlotMemoryRegion w4 = (e5, w5)" by fastforce
          have H3: "holding w0 w5 (hw_own ?h3 \<union> own) d" and D3: "hw_own ?h3 \<inter> own = {}"
            using holding_opened [OF H2 n4 [unfolded r4] m5] D2 by (simp_all add: hw_own_def insert_commute)
          show ?thesis
          proof (cases e5)
            case (Some e)
            then show ?thesis using hw_fail [OF H3 assms(2) D3] n1 n2 n4 r1 r2 r4 m3 m5 e3 assms(3) by (auto simp: openHardware_def)
          next
            case None
            then show ?thesis using H3 D3 n1 n2 n4 r1 r2 r4 m3 m5 e3 assms(3) by (auto simp: openHardware_def)
          qed
        qed
      qed
    qed
  qed
qed

definition conn_own :: "slot_conn \<Rightarrow> (nat \<times> prov_kind) set" where
  "conn_own c = (case sc_qp c of None \<Rightarrow> {} | Some i \<Rightarrow> {(i, KSlot SlotQueuePair)}) \<union>
     (case sc_cq c of None \<Rightarrow> {} | Some i \<Rightarrow> {(i, KSlot SlotCompletionQueue)})"

lemma slot_conn_close_holds:
  assumes "holding w0 w (conn_own c \<union> own) d" "destroys w0" "conn_own c \<inter> own = {}"
  shows "holding w0 (snd (snd (slot_conn_close c w))) own d"
proof -
  let ?q = "case sc_qp c of None \<Rightarrow> {} | Some i \<Rightarrow> {(i, KSlot SlotQueuePair)}"
  let ?c = "case sc_cq c of None \<Rightarrow> {} | Some i \<Rightarrow> {(i, KSlot SlotCompletionQueue)}"
  obtain f1 qp w1 where c1: "close_slot SlotQueuePair (sc_qp c) None w = (f1, qp, w1)" by (metis surj_pair)
  have H1: "holding w0 w1 (conn_own c \<union> own - ?q) d"
    by (intro close_slot_holds [OF assms(1,2) _ c1]) (auto simp: conn_own_def)
  obtain f2 cq w2 where c2: "close_slot SlotCompletionQueue (sc_cq c) f1 w1 = (f2, cq, w2)" by (metis surj_pair)
  have "holding w0 w2 (conn_own c \<union> own - ?q - ?c) d"
    by (intro close_slot_holds [OF H1 assms(2) _ c2]) (auto simp: conn_own_def split: option.splits)
  moreover have "conn_own c \<union> own - ?q - ?c = own" using assms(3) by (auto simp: conn_own_def)
  ultimately show ?thesis using c1 c2 by (simp add: slot_conn_close_def)
qed

lemma recordSlotOpened_saves:
  "recordSlotOpened k w = (Some e, w') \<Longrightarrow> known k \<Longrightarrow> \<not> saves w"
  using record_slot_props(5) [of Opened k w "Some e" w'] by (auto simp: recordSlotOpened_def)

lemma holding_saves: "holding w0 w own d \<Longrightarrow> saves w = saves w0"
  using saves_env by (auto simp: holding_def)

text \<open>
  A failed connection releases what it made.  When the ledger cannot be written, the slot that was counted
  as opened is not counted as closed.
\<close>

lemma openDaemonConn_holds:
  assumes "holding w0 w own d" "destroys w0" "openDaemonConn w = (r, w')"
  shows "\<exists>d'. (saves w0 \<longrightarrow> d' = d) \<and> (case r of Inl e \<Rightarrow> holding w0 w' own d'
    | Inr (c, dst) \<Rightarrow> holding w0 w' (conn_own c \<union> own) d' \<and> conn_own c \<inter> own = {})"
proof -
  obtain r1 w1 where n1: "prov_new (KSlot SlotCompletionQueue) w = (r1, w1)" by fastforce
  show ?thesis
  proof (cases r1)
    case (Inl e)
    then show ?thesis using holding_failed [OF holding_new_fails [OF assms(1)]] n1 assms(3) by (auto simp: openDaemonConn_def)
  next
    case r1: (Inr cq)
    let ?c1 = "\<lparr> sc_cq = Some cq, sc_qp = None \<rparr>"
    obtain e2 w2 where m2: "recordSlotOpened SlotCompletionQueue w1 = (e2, w2)" by fastforce
    have H1: "holding w0 w2 (conn_own ?c1 \<union> own) d" and D1: "conn_own ?c1 \<inter> own = {}"
      using holding_opened [OF assms(1) n1 [unfolded r1] m2] by (simp_all add: conn_own_def)
    have S1: "saves w1 = saves w0"
      using holding_saves [OF holding_new(1) [OF assms(1) n1 [unfolded r1]]] .
    show ?thesis
    proof (cases e2)
      case (Some e)
      obtain x w3 where c3: "prov_close cq w2 = (x, w3)" by fastforce
      have "holding w0 w3 own (\<lambda>j. d j + of_bool (KSlot SlotCompletionQueue = KSlot j))"
        using holding_close [OF H1 c3 _ assms(2), where k = "KSlot SlotCompletionQueue"] D1 by (auto simp: conn_own_def)
      then show ?thesis
        using recordSlotOpened_saves [OF m2 [unfolded Some]] S1 Some c3 n1 r1 m2 assms(3)
        by (intro exI [of _ "\<lambda>j. d j + of_bool (KSlot SlotCompletionQueue = KSlot j)"]) (auto simp: openDaemonConn_def)
    next
      case e2: None
      obtain r3 w3 where n3: "prov_new (KSlot SlotQueuePair) w2 = (r3, w3)" by fastforce
      show ?thesis
      proof (cases r3)
        case (Inl e)
        then have "holding w0 (recordSlotFailed SlotQueuePair w3) (conn_own ?c1 \<union> own) d"
          using holding_failed [OF holding_new_fails [OF H1]] n3 by simp
        then show ?thesis
          using slot_conn_close_holds [OF _ assms(2) D1] Inl n1 n3 r1 m2 e2 assms(3) by (auto simp: openDaemonConn_def)
      next
        case r3: (Inr qp)
        let ?c2 = "\<lparr> sc_cq = Some cq, sc_qp = Some qp \<rparr>"
        obtain e4 w4 where m4: "recordSlotOpened SlotQueuePair w3 = (e4, w4)" by fastforce
        have H2: "holding w0 w4 (conn_own ?c2 \<union> own) d" and D2: "conn_own ?c2 \<inter> own = {}"
          and N2: "(qp, KSlot SlotQueuePair) \<notin> conn_own ?c1 \<union> own"
          using holding_opened [OF H1 n3 [unfolded r3] m4] D1 by (simp_all add: conn_own_def insert_commute)
        have S3: "saves w3 = saves w0"
          using holding_saves [OF holding_new(1) [OF H1 n3 [unfolded r3]]] .
        show ?thesis
        proof (cases e4)
          case (Some e)
          obtain x w5 where c5: "prov_close qp w4 = (x, w5)" by fastforce
          have "conn_own ?c2 \<union> own - {(qp, KSlot SlotQueuePair)} = conn_own ?c1 \<union> own"
            using N2 by (auto simp: conn_own_def)
          then have "holding w0 w5 (conn_own ?c1 \<union> own) (\<lambda>j. d j + of_bool (KSlot SlotQueuePair = KSlot j))"
            using holding_close [OF H2 c5 _ assms(2), where k = "KSlot SlotQueuePair"] by (simp add: conn_own_def)
          then have "holding w0 (snd (snd (slot_conn_close ?c1 w5))) own (\<lambda>j. d j + of_bool (KSlot SlotQueuePair = KSlot j))"
            by (rule slot_conn_close_holds [OF _ assms(2) D1])
          then show ?thesis
            using recordSlotOpened_saves [OF m4 [unfolded Some]] S3 Some c5 n1 n3 r1 r3 m2 m4 e2 assms(3)
            by (intro exI [of _ "\<lambda>j. d j + of_bool (KSlot SlotQueuePair = KSlot j)"]) (auto simp: openDaemonConn_def)
        next
          case e4: None
          obtain e5 w5 where c5: "prov_call w4 = (e5, w5)" by fastforce
          obtain e6 w6 where c6: "prov_call w5 = (e6, w6)" by fastforce
          have H5: "holding w0 w5 (conn_own ?c2 \<union> own) d" by (rule holding_call [OF H2 c5])
          have H6: "holding w0 w6 (conn_own ?c2 \<union> own) d" by (rule holding_call [OF H5 c6])
          show ?thesis
            using slot_conn_close_holds [OF H5 assms(2) D2] slot_conn_close_holds [OF H6 assms(2) D2] H6 D2
              n1 n3 r1 r3 m2 m4 e2 e4 c5 c6 assms(3)
            by (intro exI [of _ d]) (cases e5; cases e6; auto simp: openDaemonConn_def)
        qed
      qed
    qed
  qed
qed

fun disjoint_conns :: "slot_conn list \<Rightarrow> bool" where
  "disjoint_conns [] = True"
| "disjoint_conns (c # cs) = (conn_own c \<inter> \<Union> (conn_own ` set cs) = {} \<and> disjoint_conns cs)"

lemma open_conns_holds:
  assumes "holding w0 w own d" "destroys w0" "open_conns_loop rank ps w = (e, cs, w')"
  shows "\<exists>d'. (saves w0 \<longrightarrow> d' = d) \<and> holding w0 w' (\<Union> (conn_own ` set (map (fst \<circ> snd) cs)) \<union> own) d' \<and>
    \<Union> (conn_own ` set (map (fst \<circ> snd) cs)) \<inter> own = {} \<and> disjoint_conns (map (fst \<circ> snd) cs)"
  using assms(1,3)
proof (induction ps arbitrary: w own d e cs w')
  case (Cons p ps)
  show ?case
  proof (cases "p = rank")
    case True
    then show ?thesis using Cons.IH [OF Cons.prems(1)] Cons.prems(2) by simp
  next
    case False
    obtain r w1 where o: "openDaemonConn w = (r, w1)" by fastforce
    obtain d1 where d1: "saves w0 \<longrightarrow> d1 = d" and R: "case r of Inl e \<Rightarrow> holding w0 w1 own d1
      | Inr (c, dst) \<Rightarrow> holding w0 w1 (conn_own c \<union> own) d1 \<and> conn_own c \<inter> own = {}"
      using openDaemonConn_holds [OF Cons.prems(1) assms(2) o] by blast
    show ?thesis
    proof (cases r)
      case (Inl e1)
      then show ?thesis using False o R d1 Cons.prems(2) by auto
    next
      case (Inr x)
      obtain c dst where x: "x = (c, dst)" by fastforce
      obtain cs' where L: "open_conns_loop rank ps w1 = (e, cs', w')" "cs = (p, c, dst) # cs'"
        using False o Inr x Cons.prems(2) by (auto split: prod.splits)
      have "holding w0 w1 (conn_own c \<union> own) d1" "conn_own c \<inter> own = {}" using R Inr x by auto
      from Cons.IH [OF this(1) L(1)] this(2) show ?thesis
        using L(2) d1 by (auto simp: Un_assoc Un_left_commute Int_commute)
    qed
  qed
qed (use assms in auto)

lemma close_conns_holds:
  assumes "holding w0 w (\<Union> (conn_own ` set cs) \<union> own) d" "destroys w0" "\<Union> (conn_own ` set cs) \<inter> own = {}" "disjoint_conns cs"
  shows "holding w0 (snd (close_conns_loop cs w)) own d"
  using assms(1,3,4)
proof (induction cs arbitrary: w)
  case (Cons c cs)
  have "holding w0 (snd (snd (slot_conn_close c w))) (\<Union> (conn_own ` set cs) \<union> own) d"
    using Cons.prems by (intro slot_conn_close_holds [OF _ assms(2)]) (auto simp: Un_assoc)
  then have "holding w0 (snd (close_conns_loop cs (snd (snd (slot_conn_close c w))))) own d"
    using Cons.prems by (intro Cons.IH) auto
  then show ?case by (simp add: case_prod_unfold)
qed simp

text \<open>
  C32. Whatever fails while the daemon opens its device, its protection domain, its memory region and one
  queue pair and completion queue per peer, or in the exchange that follows, and also when nothing fails and
  the daemon ends, the objects that are live afterwards are exactly those that were live before, provided the
  provider destroys what it is told to.  If also every write of the ledger succeeds, then for every kind of
  slot opened minus closed minus live is what it was before.
\<close>

theorem run_hardware_releases:
  assumes "world_ok w" "destroys w" "run_hardware rank n tracker pre finish w = (e, w')"
  shows "wo_live w' = wo_live w \<and> (saves w \<and> wo_ledger w \<noteq> None \<and> known k \<longrightarrow> slot_balance k w' = slot_balance k w)"
proof -
  obtain r1 w1 where o: "openHardware w = (r1, w1)" by fastforce
  note O = openHardware_holds [OF holding_start [OF assms(1)] assms(2) o]
  have "\<exists>d. (saves w \<longrightarrow> d = (\<lambda>_. 0)) \<and> holding w w' {} d"
  proof (cases r1)
    case (Inl e1)
    then show ?thesis using O o assms(3) by (auto simp: run_hardware_def)
  next
    case (Inr hw)
    then have H: "holding w w1 (hw_own hw) (\<lambda>_. 0)" and ne: "hw_dev hw \<noteq> None" "hw_pd hw \<noteq> None" "hw_mr hw \<noteq> None"
      using O by auto
    show ?thesis
    proof (cases "tracker = None \<and> pre = None")
      case False
      then have "w' = snd (snd (hardware_Close hw w1))"
        using o Inr ne assms(3) by (auto simp: run_hardware_def open_transport_def split: option.splits)
      then show ?thesis using hw_fail [of w w1 hw "{}" "\<lambda>_. 0"] H assms(2) by auto
    next
      case True
      obtain e2 cs w2 where l: "open_conns_loop rank [0..<n] w1 = (e2, cs, w2)" by (metis surj_pair)
      let ?cs = "map (fst \<circ> snd) cs"
      obtain d where d: "saves w \<longrightarrow> d = (\<lambda>_. 0)" and L: "holding w w2 (\<Union> (conn_own ` set ?cs) \<union> hw_own hw) d"
        "\<Union> (conn_own ` set ?cs) \<inter> hw_own hw = {}" "disjoint_conns ?cs"
        using open_conns_holds [OF H assms(2) l] by blast
      have "holding w (snd (close_conns_loop ?cs w2)) (hw_own hw) d"
        by (rule close_conns_holds [OF L(1) assms(2) L(2,3)])
      then have "holding w (snd (snd (hardware_Close hw (snd (close_conns_loop ?cs w2))))) {} d"
        using hw_fail [of w _ hw "{}" d] assms(2) by simp
      moreover have "w' = snd (snd (hardware_Close hw (snd (close_conns_loop ?cs w2))))"
        using o Inr l ne True assms(3) by (auto simp: run_hardware_def open_transport_def Let_def split: option.splits)
      ultimately show ?thesis using d by blast
    qed
  qed
  then obtain d where d: "saves w \<longrightarrow> d = (\<lambda>_. 0)" and h: "holding w w' {} d" by blast
  show ?thesis using holding_end(1) [OF h] holding_end(2) [OF h, of k] d by auto
qed

definition demo_world :: "(nat \<Rightarrow> string option) \<Rightarrow> (nat \<Rightarrow> ledger_os) \<Rightarrow> prov_world" where
  "demo_world ans os = \<lparr> wo_answer = ans, wo_destroy = (\<lambda>_. None),
     wo_dest = (\<lambda>_. \<lparr> de_LID = 0, de_QPN = 0, de_PSN = 7, de_GIDIndex = 0, de_GID = replicate 16 0 \<rparr>),
     wo_calls = 0, wo_next = 0, wo_live = [], wo_once = {}, wo_ledger = Some ledger_a, wo_disk = [], wo_os = os, wo_marks = 0,
     wo_reported = zero_slots \<rparr>"

theorem run_hardware_releases_witness:
  "wo_live (snd (run_hardware 0 2 None None (\<lambda>_. None) (demo_world (\<lambda>n. if n = 4 then Some ''no queue pair'' else None) (\<lambda>_. disk_fine)))) = []"
proof -
  let ?w = "demo_world (\<lambda>n. if n = 4 then Some ''no queue pair'' else None) (\<lambda>_. disk_fine)"
  have "world_ok ?w" "destroys ?w" by (simp_all add: demo_world_def world_ok_def destroys_def)
  from run_hardware_releases [OF this surjective_pairing] show ?thesis by (simp add: demo_world_def)
qed

text \<open>
  C40. When the ledger cannot be written while a completion queue is opened, \<open>openDaemonConn\<close> destroys the queue
  and fails, but the ledger keeps it as opened: opened minus closed minus live is one more than before, so
  the ledger shows an outstanding slot that no object holds.
\<close>

theorem slot_counted_for_ever:
  assumes "world_ok w" "destroys w" "wo_ledger w = Some l"
    and "wo_answer w (wo_calls w) = None" "lo_WriteFile (wo_os w (wo_marks w)) = Some (err, left)"
  shows "\<exists>e w'. openDaemonConn w = (Inl (SlotError e), w') \<and> wo_live w' = wo_live w \<and>
    slot_balance SlotCompletionQueue w' = slot_balance SlotCompletionQueue w + 1"
proof -
  obtain i w1 where n: "prov_new (KSlot SlotCompletionQueue) w = (Inr i, w1)"
    using assms(4) by (auto simp: prov_new_def prov_call_def)
  note N = prov_new_Inr [OF n assms(1)]
  have w1: "wo_os w1 (wo_marks w1) = wo_os w (wo_marks w)" "wo_ledger w1 = Some l"
    using n assms(3) by (auto simp: prov_new_def prov_call_def split: option.splits)
  obtain e w2 where r: "recordSlotOpened SlotCompletionQueue w1 = (Some (SlotError e), w2)"
    using w1 assms(5)
    by (auto simp: recordSlotOpened_def record_slot_def MarkOpened_def slot_update_def saveLocked_def Let_def split: prod.splits)
  have H: "holding w w2 {(i, KSlot SlotCompletionQueue)} (\<lambda>_. 0)"
    using holding_opened(1) [OF holding_start [OF assms(1)] n r] by simp
  obtain x w3 where c: "prov_close i w2 = (x, w3)" by fastforce
  have "holding w w3 {} (\<lambda>j. of_bool (KSlot SlotCompletionQueue = KSlot j))"
    using holding_close [OF H c _ assms(2), where k = "KSlot SlotCompletionQueue"] by simp
  from holding_end [OF this] show ?thesis using n r c assms(3) by (simp add: openDaemonConn_def)
qed

theorem slot_counted_for_ever_witness:
  "slot_balance SlotCompletionQueue (snd (openDaemonConn (demo_world (\<lambda>_. None) (\<lambda>_. disk_full)))) =
   slot_balance SlotCompletionQueue (demo_world (\<lambda>_. None) (\<lambda>_. disk_full)) + 1"
proof -
  let ?w = "demo_world (\<lambda>_. None) (\<lambda>_. disk_full)"
  have "world_ok ?w" "destroys ?w" by (simp_all add: demo_world_def world_ok_def destroys_def)
  moreover obtain err left where "lo_WriteFile (wo_os ?w (wo_marks ?w)) = Some (err, left)"
    by (simp add: demo_world_def disk_full_def)
  ultimately show ?thesis
    using slot_counted_for_ever [of ?w ledger_a err left] by (auto simp: demo_world_def)
qed

section \<open>The direct backend releases its objects\<close>

lemma close_objs_holds:
  assumes "holding w0 w own d" "destroys w0" "distinct js" "\<forall>i \<in> set js. \<exists>k. (i, k) \<in> own"
  shows "\<exists>d'. holding w0 (snd (close_objs js w)) {x \<in> own. fst x \<notin> set js} d'"
  using assms(1,3,4)
proof (induction js arbitrary: w own d)
  case (Cons i js)
  obtain k where k: "(i, k) \<in> own" using Cons.prems(3) by auto
  obtain e w1 where c: "prov_close i w = (e, w1)" by fastforce
  have H: "holding w0 w1 (own - {(i, k)}) (\<lambda>j. d j + of_bool (k = KSlot j))"
    using holding_close [OF Cons.prems(1) c k assms(2)] by simp
  have u: "x = (i, k)" if "x \<in> own" "fst x = i" for x
  proof -
    have "x \<in> set (wo_live w)" "(i, k) \<in> set (wo_live w)" "distinct (map fst (wo_live w))"
      using Cons.prems(1) that(1) k unfolding holding_def world_ok_def by blast+
    then show ?thesis using that(2) by (metis eq_key_imp_eq_value prod.collapse)
  qed
  obtain d' where "holding w0 (snd (close_objs js w1)) {x \<in> own - {(i, k)}. fst x \<notin> set js} d'"
    using Cons.IH [OF H] Cons.prems(2,3) by auto
  moreover have "{x \<in> own - {(i, k)}. fst x \<notin> set js} = {x \<in> own. fst x \<notin> set (i # js)}"
    using u k by (intro set_eqI) (metis (no_types, lifting) DiffD1 DiffD2 DiffI fst_conv insertCI list.set_intros(1) mem_Collect_eq set_ConsD singletonD list.set_intros(2))
  ultimately show ?case using c by (auto simp: case_prod_unfold)
qed auto

lemma direct_conn_close_holds:
  assumes "holding w0 w own d" "destroys w0" "distinct js" "\<forall>i \<in> set js. \<exists>k. (i, k) \<in> own"
  shows "\<exists>d'. holding w0 (snd (direct_conn_close js w)) {x \<in> own. fst x \<notin> set js} d'"
proof -
  have s: "set (drop 4 js @ rev (take 4 js)) = set js"
    by (metis append_take_drop_id set_append set_rev sup_commute)
  have "distinct (take 4 js @ drop 4 js)" using assms(3) by simp
  then have "distinct (drop 4 js @ rev (take 4 js))" by (simp only: distinct_append distinct_rev set_rev) blast
  then show ?thesis
    using close_objs_holds [OF assms(1,2), of "drop 4 js @ rev (take 4 js)", unfolded s] assms(4) by (simp only: direct_conn_close_def)
qed

lemma open_objs_holds:
  assumes "holding w0 w own d" "open_objs ks w = (e, js, w')"
  shows "\<exists>own' d'. holding w0 w' (own' \<union> own) d' \<and> fst ` own' = set js \<and> distinct js \<and> (\<forall>i \<in> set js. wo_next w \<le> i)"
  using assms
proof (induction ks arbitrary: w own d e js w')
  case Nil
  then show ?case by (intro exI [of _ "{}"]) auto
next
  case (Cons k ks)
  obtain r w1 where n: "prov_new k w = (r, w1)" by fastforce
  show ?case
  proof (cases r)
    case (Inl x)
    then show ?thesis using holding_new_fails [OF Cons.prems(1)] n Cons.prems(2) by (intro exI [of _ "{}"]) auto
  next
    case (Inr i)
    note H = holding_new [OF Cons.prems(1) n [unfolded Inr]]
    have nx: "wo_next w1 = Suc i" using prov_new_Inr(5) [OF n [unfolded Inr]] Cons.prems(1) by (simp add: holding_def)
    obtain e' js1 where o: "open_objs ks w1 = (e', js1, w')" "js = i # js1"
      using Cons.prems(2) n Inr by (auto split: prod.splits)
    obtain own' d' where I: "holding w0 w' (own' \<union> insert (i, k) own) d'" "fst ` own' = set js1" "distinct js1" "\<forall>j \<in> set js1. Suc i \<le> j"
      using Cons.IH [OF H(1) o(1)] nx by auto
    have "i \<notin> set js1" using I(4) by auto
    then show ?thesis
      using I o(2) H(2) by (intro exI [of _ "insert (i, k) own'"] exI [of _ d']) (auto simp: Suc_le_eq)
  qed
qed

lemma openRDMAConn_holds:
  assumes "holding w0 w own d" "destroys w0" "openRDMAConn w = (r, w')"
  shows "case r of Inl e \<Rightarrow> \<exists>d'. holding w0 w' own d'
    | Inr (js, dst) \<Rightarrow> \<exists>own' d'. holding w0 w' (own' \<union> own) d' \<and> fst ` own' = set js \<and> distinct js \<and> set js \<inter> fst ` own = {}"
proof -
  obtain e js w1 where o: "open_objs direct_kinds w = (e, js, w1)" by (metis surj_pair)
  obtain own' d1 where O: "holding w0 w1 (own' \<union> own) d1" "fst ` own' = set js" "distinct js" "\<forall>i \<in> set js. wo_next w \<le> i"
    using open_objs_holds [OF assms(1) o] by blast
  have old: "\<forall>x \<in> own. fst x < wo_next w" using assms(1) by (auto simp: holding_def world_ok_def)
  then have disj: "set js \<inter> fst ` own = {}" using O(4) by (auto simp: not_le [symmetric])
  have undone: "\<exists>d'. holding w0 (snd (direct_conn_close js v)) own d'" if h: "holding w0 v (own' \<union> own) dv" for v dv
  proof -
    have "{x \<in> own' \<union> own. fst x \<notin> set js} = own" using O(2) disj by auto
    moreover have "\<forall>i \<in> set js. \<exists>k. (i, k) \<in> own' \<union> own" unfolding O(2) [symmetric] by auto
    ultimately show ?thesis using direct_conn_close_holds [OF h assms(2) O(3)] by simp
  qed
  obtain e2 w2 where c2: "prov_call w1 = (e2, w2)" by fastforce
  obtain e3 w3 where c3: "prov_call w2 = (e3, w3)" by fastforce
  have H2: "holding w0 w2 (own' \<union> own) d1" by (rule holding_call [OF O(1) c2])
  have H3: "holding w0 w3 (own' \<union> own) d1" by (rule holding_call [OF H2 c3])
  show ?thesis
  proof (cases "e = None \<and> e2 = None \<and> e3 = None")
    case True
    then have "r = Inr (js, wo_dest w3 (js ! 3))" "w' = w3" using assms(3) o c2 c3 by (auto simp: openRDMAConn_def)
    then show ?thesis using H3 O(2,3) disj by auto
  next
    case False
    then have "\<exists>x. r = Inl x" and "w' \<in> {snd (direct_conn_close js w1), snd (direct_conn_close js w2), snd (direct_conn_close js w3)}"
      using assms(3) o c2 c3 by (auto simp: openRDMAConn_def split: option.splits)
    then show ?thesis using undone [OF O(1)] undone [OF H2] undone [OF H3] by auto
  qed
qed

lemma direct_open_loop_holds:
  assumes "holding w0 w own d" "destroys w0" "direct_open_loop device rank ps w = (e, cs, w')"
  shows "\<exists>own' d'. holding w0 w' (own' \<union> own) d' \<and> fst ` own' = set (concat (map (fst \<circ> snd) cs)) \<and>
    distinct (concat (map (fst \<circ> snd) cs)) \<and> set (concat (map (fst \<circ> snd) cs)) \<inter> fst ` own = {}"
  using assms(1,3)
proof (induction ps arbitrary: w own d e cs w')
  case Nil
  then show ?case by (intro exI [of _ "{}"]) auto
next
  case (Cons p ps)
  show ?case
  proof (cases "p = rank \<or> device p = ''''")
    case True
    then show ?thesis using Cons.IH [OF Cons.prems(1)] Cons.prems(2) by simp
  next
    case False
    obtain r w1 where o: "openRDMAConn w = (r, w1)" by fastforce
    note R = openRDMAConn_holds [OF Cons.prems(1) assms(2) o]
    show ?thesis
    proof (cases r)
      case (Inl x)
      then show ?thesis using R False o Cons.prems(2) by (intro exI [of _ "{}"]) auto
    next
      case (Inr x)
      obtain js dst where x: "x = (js, dst)" by fastforce
      obtain own1 d1 where O: "holding w0 w1 (own1 \<union> own) d1" "fst ` own1 = set js" "distinct js" "set js \<inter> fst ` own = {}"
        using R Inr x by auto
      obtain cs' where L: "direct_open_loop device rank ps w1 = (e, cs', w')" "cs = (p, js, dst) # cs'"
        using False o Inr x Cons.prems(2) by (auto split: prod.splits)
      obtain own2 d2 where I: "holding w0 w' (own2 \<union> (own1 \<union> own)) d2" "fst ` own2 = set (concat (map (fst \<circ> snd) cs'))"
        "distinct (concat (map (fst \<circ> snd) cs'))" "set (concat (map (fst \<circ> snd) cs')) \<inter> fst ` (own1 \<union> own) = {}"
        using Cons.IH [OF O(1) L(1)] by blast
      have "holding w0 w' ((own2 \<union> own1) \<union> own) d2" using I(1) by (simp add: Un_assoc)
      moreover have "fst ` (own2 \<union> own1) = set (concat (map (fst \<circ> snd) cs))" using I(2) O(2) L(2) by auto
      moreover have "distinct (concat (map (fst \<circ> snd) cs))" using I(3,4) O(2,3) L(2) by (auto simp: image_Un)
      moreover have "set (concat (map (fst \<circ> snd) cs)) \<inter> fst ` own = {}" using I(4) O(4) L(2) by (auto simp: image_Un)
      ultimately show ?thesis by blast
    qed
  qed
qed

lemma direct_close_loop_holds:
  assumes "holding w0 w own d" "destroys w0" "distinct (concat cs)" "\<forall>i \<in> set (concat cs). \<exists>k. (i, k) \<in> own"
  shows "\<exists>d'. holding w0 (snd (direct_close_loop cs w)) {x \<in> own. fst x \<notin> set (concat cs)} d'"
  using assms(1,3,4)
proof (induction cs arbitrary: w own d)
  case (Cons c cs)
  have c: "distinct c" "distinct (concat cs)" "set c \<inter> set (concat cs) = {}" using Cons.prems(2) by auto
  obtain d1 where H: "holding w0 (snd (direct_conn_close c w)) {x \<in> own. fst x \<notin> set c} d1"
    using direct_conn_close_holds [OF Cons.prems(1) assms(2) c(1)] Cons.prems(3) by auto
  have "\<forall>i \<in> set (concat cs). \<exists>k. (i, k) \<in> {x \<in> own. fst x \<notin> set c}"
    using Cons.prems(3) c(3) by auto
  from Cons.IH [OF H c(2) this] obtain d2 where
    "holding w0 (snd (direct_close_loop cs (snd (direct_conn_close c w)))) {x \<in> {x \<in> own. fst x \<notin> set c}. fst x \<notin> set (concat cs)} d2"
    by blast
  moreover have "{x \<in> {x \<in> own. fst x \<notin> set c}. fst x \<notin> set (concat cs)} = {x \<in> own. fst x \<notin> set (concat (c # cs))}" by auto
  ultimately show ?case by (auto simp: case_prod_unfold)
qed auto

text \<open>
  The direct backend: when opening it fails, in whatever call and for whatever peer, no provider object
  it made stays live; when it succeeds, closing it releases exactly the objects it made.
\<close>

lemma direct_open_releases:
  assumes "world_ok w" "destroys w" "direct_open side device rank n finish w = (r, w')"
  shows "case r of Inl e \<Rightarrow> wo_live w' = wo_live w | Inr conns \<Rightarrow> wo_live (snd (direct_close_loop conns w')) = wo_live w"
proof (cases side)
  case (Some e)
  then show ?thesis using assms(3) by (auto simp: direct_open_def)
next
  case None
  obtain e cs w1 where l: "direct_open_loop device rank [0..<n] w = (e, cs, w1)" by (metis surj_pair)
  let ?cs = "map (fst \<circ> snd) cs"
  obtain own d where O: "holding w w1 own d" "fst ` own = set (concat ?cs)" "distinct (concat ?cs)"
    using direct_open_loop_holds [OF holding_start [OF assms(1)] assms(2) l] by auto
  have k: "\<forall>i \<in> set (concat ?cs). \<exists>k. (i, k) \<in> own" unfolding O(2) [symmetric] by auto
  have none: "{x \<in> own. fst x \<notin> set (concat ?cs)} = {}" using O(2) by blast
  obtain d' where "holding w (snd (direct_close_loop ?cs w1)) {} d'"
    using direct_close_loop_holds [OF O(1) assms(2) O(3) k] unfolding none by blast
  then have "wo_live (snd (direct_close_loop ?cs w1)) = wo_live w" by (rule holding_end)
  moreover have "(\<exists>x. r = Inl x) \<and> w' = snd (direct_close_loop ?cs w1) \<or> r = Inr ?cs \<and> w' = w1"
    using assms(3) None l by (auto simp: direct_open_def Let_def split: option.splits)
  ultimately show ?thesis by auto
qed

lemma direct_open_releases_witness:
  "wo_live (snd (direct_open None (\<lambda>_. ''rdma_en1'') 0 2 (\<lambda>_. None)
     (demo_world (\<lambda>n. if n = 4 then Some ''no memory region'' else None) (\<lambda>_. disk_fine)))) = []"
proof -
  let ?w = "demo_world (\<lambda>n. if n = 4 then Some ''no memory region'' else None) (\<lambda>_. disk_fine)"
  have ok: "world_ok ?w" "destroys ?w" by (simp_all add: demo_world_def world_ok_def destroys_def)
  have "\<exists>e. fst (direct_open None (\<lambda>_. ''rdma_en1'') 0 2 (\<lambda>_. None) ?w) = Inl e"
    by (simp add: direct_open_def upt_rec openRDMAConn_def direct_kinds_def prov_new_def prov_call_def demo_world_def
        split: prod.splits)
  then obtain e w' where d: "direct_open None (\<lambda>_. ''rdma_en1'') 0 2 (\<lambda>_. None) ?w = (Inl e, w')"
    by (metis prod.collapse)
  from direct_open_releases [OF ok d] show ?thesis by (simp add: d, simp add: demo_world_def)
qed

end
