(* ===== verification/Wiring.thy ===== *)
theory Wiring
  imports Hardware SideChannel Keepalive
begin

text \<open>
  How the ranks wire their queue pairs, the second half of \<^verbatim>\<open>open\<close> in \<^verbatim>\<open>src/backend.go\<close> and
  \<^verbatim>\<open>src/cmd/jaccld/transport.go\<close>: every rank publishes, through the side channel, the address it made for each
  peer, decodes what all ranks published, brings each queue pair up against the address its peer made for it,
  and waits at the ready barrier.

  \<open>mar\<close> and \<open>unm\<close> are \<^verbatim>\<open>json.Marshal\<close> and \<^verbatim>\<open>json.Unmarshal\<close> on a list of destinations; a nil payload is \<open>None\<close>.
  Handles of queue pairs are those of theory \<open>Hardware\<close>; each call of the provider takes the next answer of its
  world.  An operation of the side channel that never returns makes the result \<open>None\<close>.
\<close>

section \<open>Exchange\<close>

datatype wire_error =
    ExchangeDestinations side_error
  | DecodeDestinations nat string
  | DestinationCount nat nat nat
  | WirePeer nat hw_error
  | PeerHeartbeat nat transport_error
  | AddRoute beat_error
  | ReadyBarrier side_error

text \<open>The addresses of one rank, by peer; a peer without a connection has the zero address.\<close>

definition local_list :: "'d \<Rightarrow> nat \<Rightarrow> (nat \<times> nat \<times> 'd) list \<Rightarrow> 'd list" where
  "local_list zero n conns = map (\<lambda>p. case map_of conns p of None \<Rightarrow> zero | Some (qp, d) \<Rightarrow> d) [0..<n]"

fun decode_all :: "(bytes option \<Rightarrow> string + 'd list) \<Rightarrow> nat \<Rightarrow> nat \<Rightarrow> bytes option list \<Rightarrow> wire_error + 'd list list" where
  "decode_all unm n rank [] = Inr []"
| "decode_all unm n rank (data # rest) =
     (case unm data of Inl e \<Rightarrow> Inl (DecodeDestinations rank e)
      | Inr ds \<Rightarrow>
          if length ds \<noteq> n then Inl (DestinationCount rank (length ds) n)
          else map_sum id (\<lambda>all. ds # all) (decode_all unm n (rank + 1) rest))"

text \<open>What \<open>ReadyToReceive\<close> was told of a queue pair.\<close>

record wiring =
  wi_peer :: nat
  wi_qp :: nat
  wi_local :: destination
  wi_remote :: destination

text \<open>The loop over the connections; \<open>add\<close> is what follows for a peer that is up.\<close>

fun wire_loop ::
  "nat \<Rightarrow> ('d \<Rightarrow> destination) \<Rightarrow> (nat \<Rightarrow> 'd \<Rightarrow> 't \<Rightarrow> wire_error option \<times> 't) \<Rightarrow> 'd list list \<Rightarrow> (nat \<times> nat \<times> 'd) list \<Rightarrow>
   't \<Rightarrow> prov_world \<Rightarrow> wire_error option \<times> wiring list \<times> 't \<times> prov_world" where
  "wire_loop rank qp_of add all [] t w = (None, [], t, w)"
| "wire_loop rank qp_of add all ((p, qp, loc) # cs) t w =
     (let remote = all ! p ! rank; x = \<lparr> wi_peer = p, wi_qp = qp, wi_local = qp_of loc, wi_remote = qp_of remote \<rparr> in
      case prov_call w of (Some e, w1) \<Rightarrow> (Some (WirePeer p e), [], t, w1)
      | (None, w1) \<Rightarrow>
          (case prov_call w1 of (Some e, w2) \<Rightarrow> (Some (WirePeer p e), [x], t, w2)
           | (None, w2) \<Rightarrow>
               (case add p remote t of (Some e, t') \<Rightarrow> (Some e, [x], t', w2)
                | (None, t') \<Rightarrow> apsnd (apfst (\<lambda>ws. x # ws)) (wire_loop rank qp_of add all cs t' w2))))"

text \<open>Both forms of \<^verbatim>\<open>open\<close> after their connections are made; \<open>env\<close> and \<open>env'\<close> are the contexts of the exchange and of
the barrier.\<close>

definition wire_up ::
  "('d list \<Rightarrow> bytes) \<Rightarrow> (bytes option \<Rightarrow> string + 'd list) \<Rightarrow> 'd \<Rightarrow> ('d \<Rightarrow> destination) \<Rightarrow>
   (nat \<Rightarrow> 'd \<Rightarrow> 't \<Rightarrow> wire_error option \<times> 't) \<Rightarrow> json_decoder \<Rightarrow> side_env \<Rightarrow> side_env \<Rightarrow> nat \<Rightarrow> nat \<Rightarrow>
   (nat \<times> nat \<times> 'd) list \<Rightarrow> channel option \<Rightarrow> 't \<Rightarrow> prov_world \<Rightarrow>
   (wire_error option \<times> wiring list \<times> 't \<times> channel option \<times> prov_world) option" where
  "wire_up mar unm zero qp_of add js env env' rank n conns ch t w =
     (case side_AllGather js env (mar (local_list zero n conns)) ch of None \<Rightarrow> None
      | Some (Inl e, ch1) \<Rightarrow> Some (Some (ExchangeDestinations e), [], t, ch1, w)
      | Some (Inr payloads, ch1) \<Rightarrow>
          (case decode_all unm n 0 payloads of Inl e \<Rightarrow> Some (Some e, [], t, ch1, w)
           | Inr all \<Rightarrow>
               (case wire_loop rank qp_of add all conns t w of
                  (Some e, ws, t', w') \<Rightarrow> Some (Some e, ws, t', ch1, w')
                | (None, ws, t', w') \<Rightarrow>
                    (case side_Barrier js env' ch1 of None \<Rightarrow> None
                     | Some (e, ch2) \<Rightarrow> Some (map_option ReadyBarrier e, ws, t', ch2, w')))))"

text \<open>The direct backend publishes plain addresses and does nothing more for a peer.\<close>

definition direct_wire where
  "direct_wire mar unm = wire_up mar unm zero_destination id (\<lambda>p d (t :: unit). (None, t))"

text \<open>
  The daemon adds its heartbeat memory to each address when it has a tracker, and then takes the peer's, checks
  it, keeps it with the connection and adds the peer's route to the tracker; \<open>clock\<close> gives the readings of the clock
  for the check and for the route.
\<close>

record hb_state =
  hs_tracker :: "tracker option"
  hs_remote :: "(nat \<times> hb_lease) list"

definition daemon_address :: "tracker option \<Rightarrow> hb_lease \<Rightarrow> duration \<Rightarrow> destination \<Rightarrow> daemon_destination" where
  "daemon_address tk hb ttl d =
     (if tk = None then \<lparr> dd_QP = d, dd_HeartbeatMR = zero_heartbeat, dd_HeartbeatTTL = 0 \<rparr>
      else \<lparr> dd_QP = d, dd_HeartbeatMR = hl_MR hb, dd_HeartbeatTTL = ttl \<rparr>)"

definition add_peer :: "(nat \<Rightarrow> instant \<times> instant) \<Rightarrow> nat \<Rightarrow> daemon_destination \<Rightarrow> hb_state \<Rightarrow> wire_error option \<times> hb_state" where
  "add_peer clock p remote h =
     (case hs_tracker h of None \<Rightarrow> (None, h)
      | Some tk \<Rightarrow>
          (case validateRemoteHeartbeatDestination remote (fst (clock p)) 0 of
             Inl e \<Rightarrow> (Some (PeerHeartbeat p e), h)
           | Inr l \<Rightarrow>
               let h' = h\<lparr>hs_remote := AList.update p l (hs_remote h)\<rparr> in
               case Add (snd (clock p)) (routeID (int p)) (Some (routeID (int p))) tk of
                 (Some e, tk') \<Rightarrow> (Some (AddRoute e), h'\<lparr>hs_tracker := Some tk'\<rparr>)
               | (None, tk') \<Rightarrow> (None, h'\<lparr>hs_tracker := Some tk'\<rparr>)))"

definition daemon_wire where
  "daemon_wire mar unm clock hb ttl js env env' rank n conns ch h w =
     wire_up mar unm \<lparr> dd_QP = zero_destination, dd_HeartbeatMR = zero_heartbeat, dd_HeartbeatTTL = 0 \<rparr> dd_QP (add_peer clock)
       js env env' rank n (map (\<lambda>(p, qp, d). (p, qp, daemon_address (hs_tracker h) hb ttl d)) conns) ch h w"

section \<open>Queue pairs meet in pairs\<close>

lemma decode_all_ok:
  "(\<And>r. r < length ps \<Longrightarrow> unm (ps ! r) = Inr (f r) \<and> length (f r) = n) \<Longrightarrow> decode_all unm n k ps = Inr (map f [0..<length ps])"
proof (induction ps arbitrary: f k)
  case (Cons p ps)
  have "decode_all unm n (k + 1) ps = Inr (map (f \<circ> Suc) [0..<length ps])"
    using Cons.prems [of "Suc r" for r] by (intro Cons.IH) simp
  moreover have "map f [0..<length (p # ps)] = f 0 # map (f \<circ> Suc) [0..<length ps]"
    by (simp add: upt_conv_Cons map_Suc_upt [symmetric] del: upt_Suc)
  ultimately show ?case using Cons.prems [of 0] by simp
qed simp

lemma wire_loop_exact:
  assumes "wire_loop rank qp_of add all cs t w = (None, ws, t', w')"
  shows "ws = map (\<lambda>(p, qp, d). \<lparr> wi_peer = p, wi_qp = qp, wi_local = qp_of d, wi_remote = qp_of (all ! p ! rank) \<rparr>) cs"
  using assms
proof (induction cs arbitrary: t w ws t' w')
  case (Cons c cs)
  obtain p qp d where c: "c = (p, qp, d)" by (cases c)
  with Cons.prems obtain t1 w1 ws1 where "wire_loop rank qp_of add all cs t1 w1 = (None, ws1, t', w')"
    "ws = \<lparr> wi_peer = p, wi_qp = qp, wi_local = qp_of d, wi_remote = qp_of (all ! p ! rank) \<rparr> # ws1"
    by (auto simp: Let_def apsnd_def apfst_def map_prod_def split: prod.splits option.splits)
  with Cons.IH c show ?case by simp
qed simp

text \<open>Every rank decodes the same lists from the same payloads.\<close>

lemma decode_gathered:
  assumes "\<forall>r < n. unm (Some (mar (L r))) = Inr (L r) \<and> mar (L r) \<noteq> []" "\<forall>r < n. length (L r) = n"
  shows "decode_all unm n 0 (gathered n (\<lambda>r. mar (L r))) = Inr (map L [0..<n])"
proof -
  have "length (gathered n (\<lambda>r. mar (L r))) = n" by (simp add: gathered_def)
  with decode_all_ok [of "gathered n (\<lambda>r. mar (L r))" unm L n 0] assms show ?thesis
    by (simp add: gathered_def)
qed

lemma wire_up_exact:
  assumes u: "wire_up mar unm zero qp_of add js env env' rank n conns ch t w = Some (None, ws, t', ch', w')"
    and g: "side_AllGather js env (mar (local_list zero n conns)) ch = Some (Inr (gathered n (\<lambda>r. mar (L r))), ch1)"
    and m: "\<forall>r < n. unm (Some (mar (L r))) = Inr (L r) \<and> mar (L r) \<noteq> []" "\<forall>r < n. length (L r) = n"
  shows "ws = map (\<lambda>(p, qp, d). \<lparr> wi_peer = p, wi_qp = qp, wi_local = qp_of d, wi_remote = qp_of (map L [0..<n] ! p ! rank) \<rparr>) conns"
  using u g decode_gathered [OF m]
  by (auto simp: wire_up_def split: prod.splits option.splits dest!: wire_loop_exact)

text \<open>C30.  Queue pairs meet in pairs.  When two ranks that have a connection to each other both come out of the
exchange without an error, and the side channel gave each the list of what all ranks published, the queue pair
rank \<open>a\<close> made for rank \<open>b\<close> is brought up against the address of the one rank \<open>b\<close> made for rank \<open>a\<close>, and the
other way round.  The decoder is assumed to invert the encoder on what is published.\<close>

theorem wired_in_pairs:
  fixes mar :: "'d list \<Rightarrow> bytes" and conns :: "nat \<Rightarrow> (nat \<times> nat \<times> 'd) list" and zero :: 'd and n :: nat
  defines "L \<equiv> \<lambda>r. local_list zero n (conns r)"
  assumes ranks: "a < n" "b < n"
    and c: "map_of (conns a) b = Some (qa, da)" "map_of (conns b) a = Some (qb, db)"
    and codec: "\<forall>r < n. unm (Some (mar (L r))) = Inr (L r) \<and> mar (L r) \<noteq> []"
    and gather: "\<forall>r \<in> {a, b}. \<exists>ch1. side_AllGather (js r) (env r) (mar (L r)) (ch r) = Some (Inr (gathered n (\<lambda>r. mar (L r))), ch1)"
    and up: "\<forall>r \<in> {a, b}. wire_up mar unm zero qp_of add (js r) (env r) (env' r) r n (conns r) (ch r) (t r) (w r) =
      Some (None, ws r, t' r, ch' r, w' r)"
  shows "\<lparr> wi_peer = b, wi_qp = qa, wi_local = qp_of da, wi_remote = qp_of db \<rparr> \<in> set (ws a) \<and>
    \<lparr> wi_peer = a, wi_qp = qb, wi_local = qp_of db, wi_remote = qp_of da \<rparr> \<in> set (ws b)"
proof -
  have W: "ws r = map (\<lambda>(p, qp, d). \<lparr> wi_peer = p, wi_qp = qp, wi_local = qp_of d, wi_remote = qp_of (map L [0..<n] ! p ! r) \<rparr>) (conns r)"
    if r: "r \<in> {a, b}" for r
  proof -
    obtain ch1 where "side_AllGather (js r) (env r) (mar (local_list zero n (conns r))) (ch r) = Some (Inr (gathered n (\<lambda>r. mar (L r))), ch1)"
      using gather r by (auto simp: L_def)
    moreover have "wire_up mar unm zero qp_of add (js r) (env r) (env' r) r n (conns r) (ch r) (t r) (w r) =
        Some (None, ws r, t' r, ch' r, w' r)" using up r by blast
    moreover have "\<forall>r < n. length (L r) = n" by (simp add: L_def local_list_def)
    ultimately show ?thesis using codec by (intro wire_up_exact)
  qed
  have "map L [0..<n] ! b ! a = db" "map L [0..<n] ! a ! b = da"
    using ranks c by (simp_all add: L_def local_list_def)
  with W [of a] W [of b] map_of_SomeD [OF c(1)] map_of_SomeD [OF c(2)] show ?thesis
    by (force simp: image_iff)
qed

section \<open>Two ranks\<close>

text \<open>The side channel of a group of two, at rank zero and at rank one.\<close>

definition root_channel :: "bytes \<Rightarrow> bytes \<Rightarrow> channel" where
  "root_channel inb outb = \<lparr> ch_rank = 0, ch_size = 2,
     ch_peers = [None, Some \<lparr> tc_in = inb, tc_end = StillOpen, tc_out = outb, tc_limit = None \<rparr>] \<rparr>"

definition leaf_channel :: "bytes \<Rightarrow> bytes \<Rightarrow> channel" where
  "leaf_channel inb outb = \<lparr> ch_rank = 1, ch_size = 2,
     ch_peers = [Some \<lparr> tc_in = inb, tc_end = StillOpen, tc_out = outb, tc_limit = None \<rparr>, None] \<rparr>"

lemma root_gather:
  assumes "length l0 \<le> maxFrameSize" "length p \<le> maxFrameSize"
    and "length (marshal_values [if l0 = [] then None else Some l0, Some p]) \<le> maxFrameSize"
  shows "side_AllGather js demo_env l0 (Some (root_channel (frame p @ rest) out)) =
    Some (Inr [if l0 = [] then None else Some l0, Some p],
      Some (root_channel rest (out @ frame (marshal_values [if l0 = [] then None else Some l0, Some p]))))"
proof -
  let ?c = "\<lparr> tc_in = frame p @ rest, tc_end = StillOpen, tc_out = out, tc_limit = None \<rparr>"
  have r: "side_readFrame demo_env 1 ?c = Some (Inr p, ?c\<lparr>tc_in := rest\<rparr>)"
    by (rule side_readFrame_ok [OF demo_quiet assms(2)]) simp
  let ?m = "marshal_values [if l0 = [] then None else Some l0, Some p]"
  have w: "side_writeFrame demo_env 3 ?m (?c\<lparr>tc_in := rest\<rparr>) = (None, (?c\<lparr>tc_in := rest\<rparr>)\<lparr>tc_out := out @ frame ?m\<rparr>)"
    using side_writeFrame_ok [OF demo_quiet _ assms(3), of "?c\<lparr>tc_in := rest\<rparr>" 3] by simp
  have "[1..<nat 2] = [1]" "nat 2 = 2" by (simp_all add: upt_rec)
  with r w assms(1) show ?thesis
    by (simp add: side_AllGather_def gather_root_def root_channel_def peer_conn_def set_peer_def numeral_2_eq_2 numeral_3_eq_3)
qed

lemma leaf_gather:
  assumes "length l1 \<le> maxFrameSize" "length (marshal_values [u, v]) \<le> maxFrameSize"
  shows "side_AllGather demo_decoder demo_env l1 (Some (leaf_channel (frame (marshal_values [u, v]) @ rest) out)) =
    Some (Inr [u, v], Some (leaf_channel rest (out @ frame l1)))"
proof -
  let ?c = "\<lparr> tc_in = frame (marshal_values [u, v]) @ rest, tc_end = StillOpen, tc_out = out, tc_limit = None \<rparr>"
  have w: "side_writeFrame demo_env 0 l1 ?c = (None, ?c\<lparr>tc_out := out @ frame l1\<rparr>)"
    using side_writeFrame_ok [OF demo_quiet _ assms(1), of ?c 0] by simp
  have "side_readFrame demo_env 1 (?c\<lparr>tc_out := out @ frame l1\<rparr>) =
      Some (Inr (marshal_values [u, v]), ?c\<lparr>tc_out := out @ frame l1\<rparr>\<lparr>tc_in := rest\<rparr>)"
    by (rule side_readFrame_ok [OF demo_quiet assms(2)]) simp
  with w assms(1) show ?thesis
    by (simp add: side_AllGather_def gather_leaf_def leaf_channel_def peer_conn_def set_peer_def demo_decoder_def decode_values_marshal)
qed

definition pair_dest :: "u32 \<Rightarrow> destination" where
  "pair_dest q = zero_destination\<lparr>de_QPN := q\<rparr>"

definition pair_conns :: "nat \<Rightarrow> (nat \<times> nat \<times> destination) list" where
  "pair_conns r = (if r = 0 then [(1, 3, pair_dest 7)] else [(0, 9, pair_dest 8)])"

definition pair_local :: "nat \<Rightarrow> destination list" where
  "pair_local r = (if r = 0 then [pair_dest 0, pair_dest 7] else [pair_dest 8, pair_dest 0])"

definition pair_unm :: "bytes option \<Rightarrow> string + destination list" where
  "pair_unm p = (if p = Some (marshal_destinations (pair_local 0)) then Inr (pair_local 0)
     else if p = Some (marshal_destinations (pair_local 1)) then Inr (pair_local 1) else Inl ''unexpected end of JSON input'')"

definition pair_values :: "bytes option list" where
  "pair_values = [Some (marshal_destinations (pair_local 0)), Some (marshal_destinations (pair_local 1))]"

definition pair_channel :: "nat \<Rightarrow> channel option" where
  "pair_channel r = Some (if r = 0 then root_channel (frame (marshal_destinations (pair_local 1)) @ frame [] @ []) []
     else leaf_channel (frame (marshal_values pair_values) @ frame (marshal_values [None, Some []]) @ []) [])"

lemma pair_lengths:
  "length (marshal_destinations (pair_local r)) = 159" "length (marshal_values pair_values) = 431"
  "marshal_destinations (pair_local r) \<noteq> []" "length (marshal_values [None, Some []]) = 9"
proof -
  have d: "length (decimal k) = 1" if "k < 10" for k using that by (simp add: decimal.simps)
  have "length (marshal_list (map (\<lambda>b. decimal (unat b)) (replicate 16 (0 :: u8)))) = 33"
    using length_marshal_list [of "map (\<lambda>b. decimal (unat b)) (replicate 16 (0 :: u8))"] d [of 0] by (simp add: sum_list_replicate)
  then have "length (marshal_destination (pair_dest q)) = 78" if "unat q < 10" for q
    using d [of 0] d [OF that] by (simp add: marshal_destination_def json_object_def json_field_def zero_destination_def pair_dest_def Itoa_def)
  then show l: "length (marshal_destinations (pair_local r)) = 159" for r
    using length_marshal_list [of "map marshal_destination (pair_local r)"]
    by (auto simp: marshal_destinations_def str_bytes_def pair_local_def)
  then show "marshal_destinations (pair_local r) \<noteq> []" by (metis list.size(3) zero_neq_numeral)
  show "length (marshal_values pair_values) = 431"
    using length_marshal_list [of "map marshal_value pair_values"] l
    by (simp add: marshal_values_def str_bytes_def pair_values_def marshal_value_def length_base64)
  show "length (marshal_values [None, Some []]) = 9"
    by (simp add: marshal_values_def str_bytes_def marshal_list_def marshal_value_def)
qed

lemma pair_distinct: "marshal_destinations (pair_local (Suc 0)) \<noteq> marshal_destinations (pair_local 0)"
proof -
  have "decimal 0 = ''0''" "decimal 8 = ''8''" by code_simp+
  then show ?thesis
    by (simp add: marshal_destinations_def str_bytes_def marshal_list_def marshal_destination_def json_object_def json_field_def
        pair_local_def pair_dest_def zero_destination_def)
qed

lemma pair_local_list: "local_list zero_destination 2 (pair_conns r) = pair_local r"
  by (simp add: local_list_def pair_conns_def pair_local_def upt_rec pair_dest_def zero_destination_def)

lemma pair_gathered: "gathered 2 (\<lambda>r. marshal_destinations (pair_local r)) = pair_values"
  using pair_lengths(3) [of 0] by (simp add: gathered_def upt_rec pair_values_def)

lemma pair_gather:
  "\<exists>ch1. side_AllGather demo_decoder demo_env (marshal_destinations (pair_local r)) (pair_channel r) = Some (Inr pair_values, ch1) \<and>
     (\<exists>ch2. side_Barrier demo_decoder demo_env ch1 = Some (None, ch2))"
proof (cases "r = 0")
  case True
  have g: "side_AllGather demo_decoder demo_env (marshal_destinations (pair_local 0))
      (Some (root_channel (frame (marshal_destinations (pair_local 1)) @ frame [] @ []) [])) =
      Some (Inr pair_values, Some (root_channel (frame [] @ []) (frame (marshal_values pair_values))))"
    using root_gather [of "marshal_destinations (pair_local 0)" "marshal_destinations (pair_local 1)" demo_decoder "frame [] @ []" "[]"]
      pair_lengths by (simp add: pair_values_def maxFrameSize_def)
  have "side_AllGather demo_decoder demo_env [] (Some (root_channel (frame [] @ []) (frame (marshal_values pair_values)))) =
      Some (Inr [None, Some []], Some (root_channel [] (frame (marshal_values pair_values) @ frame (marshal_values [None, Some []]))))"
    using root_gather [of "[]" "[]" demo_decoder "[]"] pair_lengths(4) by (simp add: maxFrameSize_def)
  with g True show ?thesis by (simp add: pair_channel_def side_Barrier_def)
next
  case False
  have l: "pair_local r = pair_local 1" using False by (simp add: pair_local_def)
  have "side_AllGather demo_decoder demo_env (marshal_destinations (pair_local 1))
      (Some (leaf_channel (frame (marshal_values pair_values) @ frame (marshal_values [None, Some []]) @ []) [])) =
      Some (Inr pair_values, Some (leaf_channel (frame (marshal_values [None, Some []]) @ []) (frame (marshal_destinations (pair_local 1)))))"
    using leaf_gather [of "marshal_destinations (pair_local 1)" "pair_values ! 0" "pair_values ! 1" _ "[]"] pair_lengths
    by (simp add: pair_values_def maxFrameSize_def)
  moreover have "side_AllGather demo_decoder demo_env [] (Some (leaf_channel (frame (marshal_values [None, Some []]) @ []) out)) =
      Some (Inr [None, Some []], Some (leaf_channel [] (out @ frame [])))" for out
    using leaf_gather [of "[]" None "Some []" "[]"] pair_lengths(4) by (simp add: maxFrameSize_def)
  ultimately show ?thesis using False l by (simp add: pair_channel_def side_Barrier_def)
qed

theorem wired_in_pairs_witness:
  "\<exists>ws. (\<forall>r \<in> {0, 1}. \<exists>ch' w'. direct_wire marshal_destinations pair_unm demo_decoder demo_env demo_env r 2 (pair_conns r) (pair_channel r) ()
       (demo_world (\<lambda>_. None) (\<lambda>_. disk_fine)) = Some (None, ws r, (), ch', w')) \<and>
     \<lparr> wi_peer = 1, wi_qp = 3, wi_local = pair_dest 7, wi_remote = pair_dest 8 \<rparr> \<in> set (ws 0) \<and>
     \<lparr> wi_peer = 0, wi_qp = 9, wi_local = pair_dest 8, wi_remote = pair_dest 7 \<rparr> \<in> set (ws 1)"
proof -
  let ?u = "\<lambda>r. wire_up marshal_destinations pair_unm zero_destination id (\<lambda>p d (t :: unit). (None, t)) demo_decoder demo_env demo_env r 2
      (pair_conns r) (pair_channel r) () (demo_world (\<lambda>_. None) (\<lambda>_. disk_fine))"
  have codec: "\<forall>r < 2. pair_unm (Some (marshal_destinations (pair_local r))) = Inr (pair_local r)"
    using pair_distinct by (auto simp: pair_unm_def less_2_cases_iff)
  have dec: "decode_all pair_unm 2 0 pair_values = Inr (map pair_local [0..<2])"
    using decode_gathered [of 2 pair_unm marshal_destinations pair_local] codec pair_lengths(3) pair_gathered
    by (simp add: pair_local_def)
  have "\<exists>ws ch' w'. ?u r = Some (None, ws, (), ch', w')" for r
  proof -
    have "\<exists>ws w'. wire_loop r id (\<lambda>p d (t :: unit). (None, t)) (map pair_local [0..<2]) (pair_conns r) ()
        (demo_world (\<lambda>_. None) (\<lambda>_. disk_fine)) = (None, ws, (), w')"
      by (simp add: pair_conns_def prov_call_def demo_world_def Let_def)
    then obtain ws w' where "wire_loop r id (\<lambda>p d (t :: unit). (None, t)) (map pair_local [0..<2]) (pair_conns r) ()
        (demo_world (\<lambda>_. None) (\<lambda>_. disk_fine)) = (None, ws, (), w')" by blast
    moreover obtain ch1 ch2 where
      "side_AllGather demo_decoder demo_env (marshal_destinations (pair_local r)) (pair_channel r) = Some (Inr pair_values, ch1)"
      "side_Barrier demo_decoder demo_env ch1 = Some (None, ch2)"
      using pair_gather [of r] by blast
    ultimately show ?thesis using dec by (simp add: wire_up_def pair_local_list)
  qed
  then obtain ws ch' w' where up: "\<And>r. ?u r = Some (None, ws r, (), ch' r, w' r)" by metis
  have c: "map_of (pair_conns 0) 1 = Some (3, pair_dest 7)" "map_of (pair_conns 1) 0 = Some (9, pair_dest 8)"
    by (simp_all add: pair_conns_def)
  have gather: "\<exists>ch1. side_AllGather demo_decoder demo_env (marshal_destinations (pair_local r)) (pair_channel r) =
      Some (Inr (gathered 2 (\<lambda>r. marshal_destinations (pair_local r))), ch1)" for r
    using pair_gather [of r] pair_gathered by auto
  have "\<lparr> wi_peer = 1, wi_qp = 3, wi_local = id (pair_dest 7), wi_remote = id (pair_dest 8) \<rparr> \<in> set (ws 0) \<and>
     \<lparr> wi_peer = 0, wi_qp = 9, wi_local = id (pair_dest 8), wi_remote = id (pair_dest 7) \<rparr> \<in> set (ws 1)"
    by (rule wired_in_pairs [where zero = zero_destination and conns = pair_conns and n = 2 and unm = pair_unm and mar = marshal_destinations
          and js = "\<lambda>_. demo_decoder" and env = "\<lambda>_. demo_env" and env' = "\<lambda>_. demo_env" and ch = pair_channel and t = "\<lambda>_. ()"
          and w = "\<lambda>_. demo_world (\<lambda>_. None) (\<lambda>_. disk_fine)" and t' = "\<lambda>_. ()" and ch' = ch' and w' = w' and ws = ws
          and add = "\<lambda>p d t. (None, t)" and qp_of = id])
       (use codec gather up pair_lengths(3) c in \<open>simp_all add: pair_local_list\<close>)
  with up show ?thesis by (intro exI [of _ ws]) (auto simp: direct_wire_def)
qed

end
