(* ===== verification/DaemonStart.thy ===== *)
theory DaemonStart
  imports Maintenance Connections SlotLedger SideChannel
begin

text \<open>
  The start of the daemon, \<^verbatim>\<open>src/cmd/jaccld/main.go\<close>: the checks of its flags, the session store it builds over
  the slab, and \<open>run\<close> up to the hardware: side channel, slab, store, slot ledger and the maintenance lease.
  The hardware itself is in theory \<open>Hardware\<close>.

  The maintenance lease is taken from the slab the clients allocate from.  The last section shows that no client
  can free it or be given its bytes while the daemon serves.
\<close>

section \<open>Addresses\<close>

text \<open>\<^verbatim>\<open>net.SplitHostPort\<close>; \<open>None\<close> is an error.\<close>

definition has :: "char \<Rightarrow> string \<Rightarrow> bool" where
  "has c s \<longleftrightarrow> c \<in> set s"

definition last_index :: "char \<Rightarrow> string \<Rightarrow> nat" where
  "last_index c s = length s - 1 - length (takeWhile (\<lambda>x. x \<noteq> c) (rev s))"

definition first_index :: "char \<Rightarrow> string \<Rightarrow> nat" where
  "first_index c s = length (takeWhile (\<lambda>x. x \<noteq> c) s)"

definition SplitHostPort :: "string \<Rightarrow> (string \<times> string) option" where
  "SplitHostPort hp =
     (if \<not> has CHR '':'' hp then None
      else
        let i = last_index CHR '':'' hp in
        case (if hd hp = CHR ''['' then
                (if \<not> has CHR '']'' hp then None
                 else let e = first_index CHR '']'' hp in if e + 1 = i then Some (take (e - 1) (drop 1 hp), 1, e + 1) else None)
              else if has CHR '':'' (take i hp) then None else Some (take i hp, 0, 0)) of
          None \<Rightarrow> None
        | Some (host, j, k) \<Rightarrow>
            if has CHR ''['' (drop j hp) \<or> has CHR '']'' (drop k hp) then None else Some (host, drop (i + 1) hp))"

text \<open>\<^verbatim>\<open>net.ParseIP\<close>, as 16 bytes: an IPv4 address is in its mapped form.  A zone is refused.\<close>

fun ipv4_fields :: "nat \<Rightarrow> nat \<Rightarrow> nat list \<Rightarrow> string \<Rightarrow> nat list option" where
  "ipv4_fields val digits fs [] = (if length fs < 3 \<or> digits = 0 then None else Some (fs @ [val]))"
| "ipv4_fields val digits fs (c # s) =
     (if is_digit c then
        (if digits = 1 \<and> val = 0 then None
         else let v = val * 10 + digit_val c in if v > 255 then None else ipv4_fields v (digits + 1) fs s)
      else if c = CHR ''.'' then
        (if digits = 0 \<or> s = [] \<or> length fs = 3 then None else ipv4_fields 0 0 (fs @ [val]) s)
      else None)"

definition hex_val :: "char \<Rightarrow> nat option" where
  "hex_val c =
     (let n = of_char c :: nat in
      if 48 \<le> n \<and> n \<le> 57 then Some (n - 48) else if 97 \<le> n \<and> n \<le> 102 then Some (n - 87)
      else if 65 \<le> n \<and> n \<le> 70 then Some (n - 55) else None)"

definition hex_run :: "string \<Rightarrow> string" where
  "hex_run s = takeWhile (\<lambda>c. hex_val c \<noteq> None) s"

definition hex_number :: "string \<Rightarrow> nat" where
  "hex_number s = foldl (\<lambda>n c. 16 * n + the (hex_val c)) 0 s"

text \<open>The loop of the IPv6 parser: \<open>ip\<close> are the bytes so far, \<open>dots\<close> the place of the double colon.\<close>

fun ipv6_loop :: "nat \<Rightarrow> nat option \<Rightarrow> nat list \<Rightarrow> string \<Rightarrow> (nat option \<times> nat list) option" where
  "ipv6_loop 0 dots ip s = (if s = [] then Some (dots, ip) else None)"
| "ipv6_loop (Suc fuel) dots ip s =
     (let run = hex_run s; rest = drop (length run) s in
      if run = [] \<or> length run > 4 then None
      else if rest \<noteq> [] \<and> hd rest = CHR ''.'' then
        (if dots = None \<and> length ip \<noteq> 12 \<or> length ip + 4 > 16 then None
         else map_option (\<lambda>fs. (dots, ip @ fs)) (ipv4_fields 0 0 [] s))
      else
        let ip' = ip @ [hex_number run div 256, hex_number run mod 256] in
        if rest = [] then Some (dots, ip')
        else if hd rest \<noteq> CHR '':'' \<or> tl rest = [] then None
        else if hd (tl rest) = CHR '':'' then
          (if dots \<noteq> None then None
           else if tl (tl rest) = [] then Some (Some (length ip'), ip')
           else ipv6_loop fuel (Some (length ip')) ip' (tl (tl rest)))
        else ipv6_loop fuel dots ip' (tl rest))"

definition parse_ipv6 :: "string \<Rightarrow> nat list option" where
  "parse_ipv6 s =
     (if s = ''::'' then Some (replicate 16 0)
      else
        let lead = (take 2 s = ''::'') in
        case ipv6_loop 8 (if lead then Some 0 else None) [] (if lead then drop 2 s else s) of
          None \<Rightarrow> None
        | Some (dots, ip) \<Rightarrow>
            if length ip < 16
            then map_option (\<lambda>d. take d ip @ replicate (16 - length ip) 0 @ drop d ip) dots
            else if dots = None then Some ip else None)"

definition ParseIP :: "string \<Rightarrow> nat list option" where
  "ParseIP s =
     (if has CHR ''%'' s then None
      else case dropWhile (\<lambda>c. c \<noteq> CHR ''.'' \<and> c \<noteq> CHR '':'') s of
        [] \<Rightarrow> None
      | c # _ \<Rightarrow>
          if c = CHR ''.'' then map_option (\<lambda>fs. replicate 10 0 @ [255, 255] @ fs) (ipv4_fields 0 0 [] s)
          else parse_ipv6 s)"

text \<open>\<^verbatim>\<open>IP.IsLoopback\<close>.\<close>

definition IsLoopback :: "nat list \<Rightarrow> bool" where
  "IsLoopback ip \<longleftrightarrow>
     (if take 12 ip = replicate 10 0 @ [255, 255] then ip ! 12 = 127 else ip = replicate 15 0 @ [1])"

definition loopbackCoordinator :: "string \<Rightarrow> bool" where
  "loopbackCoordinator addr =
     (case SplitHostPort (TrimSpace addr) of None \<Rightarrow> False
      | Some (host, port) \<Rightarrow> (case ParseIP host of None \<Rightarrow> False | Some ip \<Rightarrow> IsLoopback ip))"

section \<open>Configuration and session store\<close>

record daemon_config =
  dc_socket :: string
  dc_device :: string
  dc_rank :: int
  dc_size :: int
  dc_coordinator :: string
  dc_slabSize :: int
  dc_maxSessions :: int
  dc_slotStateDir :: string
  dc_heartbeat :: duration
  dc_heartbeatTimeout :: duration
  dc_heartbeatLeaseTTL :: duration
  dc_controlPlaneLiveness :: duration
  dc_experimentalRDMAHeartbeat :: bool
  dc_allowRemoteTCPChan :: bool
  dc_noRDMA :: bool

datatype start_error =
    LivenessNegative duration
  | RankRange int
  | SizeNotPositive int
  | RankTooLarge int int
  | CoordinatorEmpty
  | CoordinatorNotLoopback string
  | HeartbeatInterval duration
  | HeartbeatTimeout duration
  | HeartbeatLeaseTTL duration
  | MaxSessions int
  | StartSide side_error
  | StartSlab slab_error
  | StartPool pool_error
  | StartStore store_error
  | StartState res_error
  | StartLedger ledger_error
  | ReserveHeartbeat slab_error

definition validateRDMA :: "daemon_config \<Rightarrow> start_error option" where
  "validateRDMA cfg =
     (if dc_rank cfg < 0 then Some (RankRange (dc_rank cfg))
      else if dc_size cfg \<le> 0 then Some (SizeNotPositive (dc_size cfg))
      else if dc_rank cfg \<ge> dc_size cfg then Some (RankTooLarge (dc_rank cfg) (dc_size cfg))
      else if TrimSpace (dc_coordinator cfg) = '''' then Some CoordinatorEmpty
      else if \<not> dc_allowRemoteTCPChan cfg \<and> \<not> loopbackCoordinator (dc_coordinator cfg)
      then Some (CoordinatorNotLoopback (dc_coordinator cfg))
      else if dc_experimentalRDMAHeartbeat cfg \<and> dc_heartbeat cfg \<le> 0 then Some (HeartbeatInterval (dc_heartbeat cfg))
      else if dc_experimentalRDMAHeartbeat cfg \<and> dc_heartbeatTimeout cfg \<le> 0
      then Some (HeartbeatTimeout (dc_heartbeatTimeout cfg))
      else if dc_experimentalRDMAHeartbeat cfg \<and> dc_heartbeatLeaseTTL cfg \<le> 0
      then Some (HeartbeatLeaseTTL (dc_heartbeatLeaseTTL cfg))
      else None)"

text \<open>\<open>SetState\<close> takes the byte of \<open>StateReady\<close>, 2.\<close>

definition session_handles :: "string \<Rightarrow> int \<Rightarrow> string list" where
  "session_handles pre n = map (\<lambda>i. pre @ Itoa (int i)) [0..<nat n]"

definition newResourceStore :: "slab option \<Rightarrow> int \<Rightarrow> start_error + daemon_store" where
  "newResourceStore slab maxSessions =
     (if maxSessions \<le> 0 then Inl (MaxSessions maxSessions)
      else case NewSlabMRPool slab of Inl e \<Rightarrow> Inl (StartPool e)
      | Inr mr \<Rightarrow>
          (case NewStaticQueuePairPool (session_handles ''qp-'' maxSessions) of Inl e \<Rightarrow> Inl (StartPool e)
           | Inr qp \<Rightarrow>
               (case NewStaticCompletionQueuePool (session_handles ''cq-'' maxSessions) of Inl e \<Rightarrow> Inl (StartPool e)
                | Inr cq \<Rightarrow>
                    (case NewStore (Some mr) (Some qp) (Some cq) of Inl e \<Rightarrow> Inl (StartStore e)
                     | Inr store \<Rightarrow>
                         (case SetState 2 store of (Some e, _) \<Rightarrow> Inl (StartState e) | (None, store') \<Rightarrow> Inr store')))))"

section \<open>Starting\<close>

text \<open>
  \<open>run\<close> up to the hardware.  \<open>sos\<close> and \<open>los\<close> are the outcomes of the system calls, \<open>boot\<close> the boot identifier,
  \<open>side\<close> the result of \<^verbatim>\<open>tcpchan.New\<close>.  The lease is the zero lease without RDMA.  When a later stage fails,
  the deferred calls close the slab and the side channel; nothing of them is left to return.
\<close>

record started =
  sd_side :: "channel option"
  sd_slab :: slab
  sd_resources :: daemon_store
  sd_slots :: ledger
  sd_heartbeat :: lease

definition no_lease :: lease where
  "no_lease = \<lparr> lease_ID = 0, lease_Offset = 0, lease_Length = 0 \<rparr>"

definition run_setup ::
  "slab_os \<Rightarrow> ledger_os \<Rightarrow> string + string \<Rightarrow> side_error + channel \<Rightarrow> daemon_config \<Rightarrow> disk \<Rightarrow>
   (start_error + started) \<times> disk" where
  "run_setup sos los boot side cfg d =
     (if dc_controlPlaneLiveness cfg < 0 then (Inl (LivenessNegative (dc_controlPlaneLiveness cfg)), d)
      else case (if dc_noRDMA cfg then None else validateRDMA cfg) of Some e \<Rightarrow> (Inl e, d)
      | None \<Rightarrow>
      case (if dc_noRDMA cfg then Inr None else map_sum id Some side) of Inl e \<Rightarrow> (Inl (StartSide e), d)
      | Inr ch \<Rightarrow>
      case NewSlab sos (dc_slabSize cfg) of Inl e \<Rightarrow> (Inl (StartSlab e), d)
      | Inr slab \<Rightarrow>
      case newResourceStore (Some slab) (dc_maxSessions cfg) of Inl e \<Rightarrow> (Inl e, d)
      | Inr store \<Rightarrow>
      case newSlotLedger los boot (dc_slotStateDir cfg) d of (Inl e, d') \<Rightarrow> (Inl (StartLedger e), d')
      | (Inr slots, d') \<Rightarrow>
          let store = SetSlotStats (ledger_Stats slots) store;
              finish = (\<lambda>slab l. (Inr \<lparr> sd_side = ch, sd_slab = slab, sd_resources = store, sd_slots = slots, sd_heartbeat = l \<rparr>, d')) in
          if dc_noRDMA cfg then finish slab no_lease
          else case Alloc (maintenanceBytes (dc_size cfg)) slab of
            (Inl e, _) \<Rightarrow> (Inl (ReserveHeartbeat e), d')
          | (Inr l, slab2) \<Rightarrow> finish slab2 l)"

text \<open>\<open>run\<close> hands the slab, the transport and the store to the server.\<close>

definition run_server :: "transport option \<Rightarrow> started \<Rightarrow> server option" where
  "run_server t sd = NewServerWithResources (Some (sd_slab sd)) t (Some (sd_resources sd))"

section \<open>The store is ready\<close>

lemma session_handles_ok:
  assumes "0 < n" "pre \<noteq> []"
  shows "session_handles pre n \<noteq> []" "distinct (session_handles pre n)" "length (session_handles pre n) = nat n"
    "'''' \<notin> set (session_handles pre n)"
  using assms by (auto simp: session_handles_def distinct_map inj_on_def Itoa_def decimal_inj)

lemma newResourceStore_Some:
  assumes "0 < n"
  shows "newResourceStore (Some s) n = Inr \<lparr> st_state = StateReady, st_next = 0, st_mr = s,
     st_qp = \<lparr> qp_available = session_handles ''qp-'' n, qp_inUse = [] \<rparr>,
     st_cq = \<lparr> cq_available = session_handles ''cq-'' n, cq_inUse = [] \<rparr>, st_slots = zero_slots, st_leases = [] \<rparr>"
proof -
  have "check_handles [] (session_handles pre n) = None" "session_handles pre n \<noteq> []" if "pre \<noteq> []" for pre
    using session_handles_ok [OF assms that] by (simp_all add: check_handles_None)
  then show ?thesis
    using assms by (simp add: newResourceStore_def NewSlabMRPool_def NewStaticQueuePairPool_def
        NewStaticCompletionQueuePool_def NewStore_def SetState_def state_of_byte_def less_state_def)
qed

text \<open>The server of a started daemon meets the invariant of the server, with the maintenance lease outside the store.\<close>

lemma run_server_inv:
  assumes s: "run_setup sos los boot side cfg d = (Inr sd, d')" and sv: "run_server t sd = Some sv"
  defines "Q \<equiv> set (session_handles ''qp-'' (dc_maxSessions cfg))" and "C \<equiv> set (session_handles ''cq-'' (dc_maxSessions cfg))"
  shows "server_inv Q C sv" "server_counters 1 sv"
    "\<not> dc_noRDMA cfg \<Longrightarrow> outside sv (lease_ID (sd_heartbeat sd)) (lease_span (sd_heartbeat sd)) \<and>
       lease_Length (sd_heartbeat sd) = maintenanceBytes (dc_size cfg)"
proof -
  obtain ch slab store slots d1 where R: "NewSlab sos (dc_slabSize cfg) = Inr slab"
      "newResourceStore (Some slab) (dc_maxSessions cfg) = Inr store" "newSlotLedger los boot (dc_slotStateDir cfg) d = (Inr slots, d1)"
      "sd_resources sd = SetSlotStats (ledger_Stats slots) store"
      "if dc_noRDMA cfg then sd_slab sd = slab
       else Alloc (maintenanceBytes (dc_size cfg)) slab = (Inr (sd_heartbeat sd), sd_slab sd)"
    using s by (auto simp: run_setup_def Let_def split: if_splits option.splits sum.splits prod.splits)
  have pos: "0 < dc_maxSessions cfg" using R(2) by (auto simp: newResourceStore_def split: if_splits)
  let ?sv = "sv\<lparr>sv_slab := slab\<rparr>"
  have S: "sv_slab sv = sd_slab sd" "sv_resources sv = Some (sd_resources sd)"
    using sv by (auto simp: run_server_def NewServerWithResources_def)
  note N = NewSlab_ok [OF R(1)] and H = session_handles_ok [OF pos, of "''qp-''"] session_handles_ok [OF pos, of "''cq-''"]
  have "daemon_inv Q C (full_store ?sv (sd_resources sd))"
    using N H R(2,4) newResourceStore_Some [OF pos, of slab]
    unfolding full_store_slab
    by (auto simp: Q_def C_def SetSlotStats_def store_wf_def resource_lists mr_inv_def qp_inv_def cq_inv_def qp_used_def cq_used_def)
  then have I: "server_inv Q C ?sv" "server_counters 0 ?sv"
    using N S R(2,4) newResourceStore_Some [OF pos, of slab]
    by (auto simp: server_inv_def mr_inv_def server_counters_def store_next_def SetSlotStats_def)
  have same: "sv\<lparr>sv_slab := sd_slab sd\<rparr> = sv" using S(1) by simp
  have "server_inv Q C sv \<and> server_counters 1 sv \<and> (\<not> dc_noRDMA cfg \<longrightarrow>
      outside sv (lease_ID (sd_heartbeat sd)) (lease_span (sd_heartbeat sd)) \<and>
      lease_Length (sd_heartbeat sd) = maintenanceBytes (dc_size cfg))"
  proof (cases "dc_noRDMA cfg")
    case True
    with R(5) same I show ?thesis by (auto simp: server_counters_def)
  next
    case False
    with R(5) have a: "Alloc (maintenanceBytes (dc_size cfg)) (sv_slab ?sv) = (Inr (sd_heartbeat sd), sd_slab sd)" by simp
    have "evolves Q C {} ?sv (?sv\<lparr>sv_slab := sd_slab sd\<rparr>)" "server_counters (Suc 0) (?sv\<lparr>sv_slab := sd_slab sd\<rparr>)"
      "outside (?sv\<lparr>sv_slab := sd_slab sd\<rparr>) (lease_ID (sd_heartbeat sd)) (lease_span (sd_heartbeat sd))"
      by (rule alloc_evolves [OF I _ a], simp)+
    with same have E: "evolves Q C {} ?sv sv" "server_counters 1 sv"
      "outside sv (lease_ID (sd_heartbeat sd)) (lease_span (sd_heartbeat sd))" by simp_all
    have "lease_Length (sd_heartbeat sd) = maintenanceBytes (dc_size cfg)"
      using a by (auto elim: Alloc_cases)
    with E show ?thesis by (simp add: evolves_def)
  qed
  then show "server_inv Q C sv" "server_counters 1 sv"
    "\<not> dc_noRDMA cfg \<Longrightarrow> outside sv (lease_ID (sd_heartbeat sd)) (lease_span (sd_heartbeat sd)) \<and>
       lease_Length (sd_heartbeat sd) = maintenanceBytes (dc_size cfg)"
    by blast+
qed

section \<open>The maintenance lease is reserved\<close>

text \<open>A lease of the slab that neither a session nor a connection has.\<close>

definition reserved :: "u64 \<Rightarrow> span \<Rightarrow> world \<Rightarrow> bool" where
  "reserved i r w \<longleftrightarrow> outside (wd_server w) i r \<and> (\<forall>n c. map_of (wd_conns w) n = Some c \<longrightarrow> i \<notin> lease_ids c)"

lemma reserved_move:
  assumes res: "reserved i r w" and c: "map_of (wd_conns w) n = Some c" and mv: "conn_move Q C (wd_server w) c sv' c'"
    and w': "wd_server w' = sv'" "map_of (wd_conns w') = (map_of (wd_conns w))(n \<mapsto> c')"
  shows "reserved i r w'"
proof -
  have o: "outside (wd_server w) i r" "i \<notin> lease_ids c" using res c by (auto simp: reserved_def)
  then have "i \<notin> lease_ids c'" using mv by (auto simp: conn_move_def outside_def)
  moreover have "outside sv' i r" using o mv by (auto simp: conn_move_def evolves_def)
  ultimately show ?thesis using res w' by (auto simp: reserved_def)
qed

lemma ipc_step_reserved:
  assumes "ipc_step w w'" "reserved i r w" and inv: "world_inv Q C w" "server_counters k (wd_server w)" "Suc k < 2 ^ 64"
  shows "reserved i r w'"
  using assms(1)
proof cases
  case (accept n)
  then show ?thesis using assms(2) by (auto simp: reserved_def map_of_update lease_ids_def new_conn_def)
next
  case (input n c en inp r' sv' c')
  note M = serve_input_move [OF world_invD(1,2) [OF inv(1) input(2)] inv(2,3) input(4)]
  show ?thesis
    by (rule reserved_move [OF assms(2) input(2) conjunct1 [OF M]]) (simp_all add: input(1) map_of_update)
next
  case (work_end n c j wk e)
  have "lease_ids (c\<lparr>cn_work := x\<rparr>) = lease_ids c" for x by (simp add: lease_ids_def)
  then show ?thesis using work_end assms(2) by (auto simp: reserved_def map_of_update)
next
  case (cleanup_free n c j l)
  show ?thesis
    by (rule reserved_move [OF assms(2) cleanup_free(2) free_move(1) [OF world_invD(1,2) [OF inv(1) cleanup_free(2)]
          cleanup_free(5)]]) (simp_all add: cleanup_free(1) map_of_update)
next
  case (cleanup_close n c j b st r' sv')
  note M = store_move [OF world_invD(1,2) [OF inv(1) cleanup_close(2)] inv(2,3) cleanup_close(7,8),
      of "OpCloseLease (Some Background) j"]
  have "conn_move Q C (wd_server w) c sv' (c\<lparr>cn_sessions := AList.delete j (cn_sessions c)\<rparr>)"
    by (rule conn_move_drop_session [OF M(1)]) simp
  from reserved_move [OF assms(2) cleanup_close(2) this, of w'] show ?thesis
    using cleanup_close(1) by (simp add: map_of_update)
next
  case (daemon_loop st op r' sv')
  have "server_inv Q C (wd_server w)" using inv(1) by (simp add: world_inv_def)
  note S = store_evolves(1) [OF this inv(2,3) daemon_loop(2,4), of op "{}"]
  then show ?thesis using daemon_loop(1) assms(2) by (simp add: reserved_def evolves_def)
qed (use assms(2) in \<open>auto simp: reserved_def map_of_delete split: if_splits\<close>)

lemma ipc_reach_reserved:
  assumes "ipc_reach sv k w" "outside sv i r" "server_inv Q C sv" "server_counters m sv" "m + k < 2 ^ 64"
  shows "reserved i r w \<and> world_inv Q C w \<and> server_counters (m + k) (wd_server w)"
  using assms
proof (induction rule: ipc_reach.induct)
  case (step k w w')
  then have I: "reserved i r w" "world_inv Q C w" "server_counters (m + k) (wd_server w)" by simp_all
  have "Suc (m + k) < 2 ^ 64" using step.prems(4) by simp
  with I show ?case
    using ipc_step_reserved [OF step.hyps(2) I] ipc_step_inv [OF step.hyps(2) I(2,3)] by simp
qed (simp add: reserved_def world_inv_def)

text \<open>C28.  A daemon started with RDMA keeps the bytes of its heartbeats and maintenance to itself.  Whatever its
clients and its own loops do, in any order, the maintenance lease stays allocated with its
\<open>maintenanceBytes\<close>, no connection holds it, so that no request can free it, and the bytes of every lease a
client is given are disjoint from it.\<close>

theorem maintenance_lease_reserved:
  assumes s: "run_setup sos los boot side cfg d = (Inr sd, d')" "\<not> dc_noRDMA cfg"
    and sv: "run_server t sd = Some sv" and w: "ipc_reach sv k w" "Suc k < 2 ^ 64"
  shows "held (sv_slab (wd_server w)) (lease_ID (sd_heartbeat sd)) = Some (lease_span (sd_heartbeat sd)) \<and>
    lease_Length (sd_heartbeat sd) = maintenanceBytes (dc_size cfg) \<and>
    (\<forall>n c. map_of (wd_conns w) n = Some c \<longrightarrow> map_of (cn_leases c) (lease_ID (sd_heartbeat sd)) = None \<and>
       (\<forall>i l. map_of (cn_leases c) i = Some l \<longrightarrow>
          span_set (lease_span l) \<inter> span_set (lease_span (sd_heartbeat sd)) = {}))"
proof -
  let ?i = "lease_ID (sd_heartbeat sd)" and ?r = "lease_span (sd_heartbeat sd)"
  note I = run_server_inv [OF s(1) sv]
  from I(3) s(2) have o: "outside sv ?i ?r" "lease_Length (sd_heartbeat sd) = maintenanceBytes (dc_size cfg)" by auto
  from ipc_reach_reserved [OF w(1) o(1) I(1,2)] w(2)
  have R: "reserved ?i ?r w" "world_inv (set (session_handles ''qp-'' (dc_maxSessions cfg)))
      (set (session_handles ''cq-'' (dc_maxSessions cfg))) w" by auto
  have h: "held (sv_slab (wd_server w)) ?i = Some ?r" using R(1) by (simp add: reserved_def outside_def)
  have n: "map_of (cn_leases c) ?i = None" if "map_of (wd_conns w) n = Some c" for n c
    using R(1) that by (auto simp: reserved_def lease_ids_def map_of_eq_None_iff)
  have "span_set (lease_span l) \<inter> span_set ?r = {}"
    if c: "map_of (wd_conns w) n = Some c" "map_of (cn_leases c) i = Some l" for n c i l
    using conn_lease_facts(1,2) [OF R(2) c] h n [OF c(1)] c(2) slab_leases_disjoint by (metis option.distinct(1))
  with h n o(2) show ?thesis by blast
qed

definition pair_config :: daemon_config where
  "pair_config = \<lparr> dc_socket = '''', dc_device = '''', dc_rank = 0, dc_size = 2, dc_coordinator = ''127.0.0.1:9000'', dc_slabSize = 16,
     dc_maxSessions = 2, dc_slotStateDir = ''d'', dc_heartbeat = 0, dc_heartbeatTimeout = 0, dc_heartbeatLeaseTTL = 0,
     dc_controlPlaneLiveness = 0, dc_experimentalRDMAHeartbeat = False, dc_allowRemoteTCPChan = False, dc_noRDMA = False \<rparr>"

lemma pair_validates: "validateRDMA pair_config = None"
  by code_simp

definition pair_started :: started where
  "pair_started = \<lparr> sd_side = Some (demo_root 2 (\<lambda>_. [])),
     sd_slab = slab16' 1 [(1, \<lparr> sp_off = 0, sp_n = 4 \<rparr>)] [\<lparr> sp_off = 4, sp_n = 12 \<rparr>],
     sd_resources = SetSlotStats (ledger_Stats ledger_a) (case newResourceStore (Some slab16) 2 of Inr st \<Rightarrow> st),
     sd_slots = ledger_a, sd_heartbeat = lease_at0 1 \<rparr>"

lemma pair_setup:
  "\<exists>d. run_setup os_fine disk_fine (Inr ''a'') (Inr (demo_root 2 (\<lambda>_. []))) pair_config [] = (Inr pair_started, d)"
proof -
  have f: "dc_controlPlaneLiveness pair_config = 0" "\<not> dc_noRDMA pair_config" "dc_slabSize pair_config = 16"
    "dc_maxSessions pair_config = 2" "dc_slotStateDir pair_config = ''d''" "dc_size pair_config = 2"
    by (simp_all add: pair_config_def)
  have "Alloc (maintenanceBytes 2) slab16 = (Inr (lease_at0 1), slab16' 1 [(1, \<lparr> sp_off = 0, sp_n = 4 \<rparr>)] [\<lparr> sp_off = 4, sp_n = 12 \<rparr>])"
    by (simp add: Alloc_def slab_next_def slab16_def slab16'_def lease_at0_def maintenanceBytes_def mul64_def max_int64_def add64_def sub64_def
        wrap64_def)
  then show ?thesis
    using open_a by (auto simp: run_setup_def f pair_validates NewSlab_slab16 newResourceStore_Some newSlotLedger_def pair_started_def)
qed

definition pair_server :: "slab \<Rightarrow> server" where
  "pair_server s = \<lparr> sv_slab = s, sv_transport = disabledTransport, sv_resources = Some (sd_resources pair_started) \<rparr>"

definition pair_slab :: slab where
  "pair_slab = slab16' 2 [(1, \<lparr> sp_off = 0, sp_n = 4 \<rparr>), (2, \<lparr> sp_off = 4, sp_n = 4 \<rparr>)] [\<lparr> sp_off = 8, sp_n = 8 \<rparr>]"

theorem maintenance_lease_reserved_witness:
  "span_set (lease_span \<lparr> lease_ID = 2, lease_Offset = 4, lease_Length = 4 \<rparr>) \<inter> span_set (lease_span (lease_at0 1)) = {} \<and>
   held pair_slab 1 = Some (lease_span (lease_at0 1))"
proof -
  let ?l = "\<lparr> lease_ID = 2 :: u64, lease_Offset = 4, lease_Length = 4 \<rparr>"
  let ?w = "\<lambda>s cs. \<lparr> wd_server = pair_server s, wd_conns = cs, wd_closing = [] \<rparr>" and ?s = "sd_slab pair_started"
  obtain d where set_up: "run_setup os_fine disk_fine (Inr ''a'') (Inr (demo_root 2 (\<lambda>_. []))) pair_config [] = (Inr pair_started, d)"
    using pair_setup by blast
  have srv: "run_server None pair_started = Some (pair_server ?s)"
    by (simp add: run_server_def NewServerWithResources_def pair_server_def)
  have "serve_input env5 (ReadRequest alloc4) (pair_server ?s, new_conn) =
      (ok_response\<lparr>rp_lease := Some ?l\<rparr>, pair_server pair_slab, new_conn\<lparr>cn_leases := [(2, ?l)]\<rparr>)"
    by (simp add: serve_input_def serve_request_def handle_alloc_def alloc4_simps pair_server_def pair_started_def pair_slab_def
        slab16'_def slab16_def Alloc_def slab_next_def add64_def sub64_def wrap64_def Let_def new_conn_def)
  note s2 = ipc_step_input [OF this, where n = 0 and w = "?w ?s [(0, new_conn)]"]
  have s1: "ipc_step (?w ?s []) (?w ?s [(0, new_conn)])" using ipc_step.accept [of "?w ?s []" 0] by simp
  have "ipc_reach (pair_server ?s) (Suc (Suc 0)) (?w pair_slab [(0, new_conn\<lparr>cn_leases := [(2, ?l)]\<rparr>)])"
    by (rule ipc_reach.step [OF ipc_reach.step [OF ipc_reach.start s1] s2]) simp_all
  from maintenance_lease_reserved [OF set_up _ srv this]
  show ?thesis by (auto simp: pair_config_def pair_server_def pair_started_def lease_at0_def split: if_splits)
qed

end
