(* ===== verification/DaemonBackend.thy ===== *)
theory DaemonBackend
  imports Group
begin

text \<open>
  The daemon backend, \<^verbatim>\<open>src/daemon_backend.go\<close>: every transfer leases memory of the daemon's slab, copies
  through the shared mapping, and frees the lease in a deferred call under a context of its own.

  The locale \<open>lease_api\<close> states what the backend needs of allocation and release; the client joined to the
  daemon meets it.  A call that never returns is \<open>None\<close>.
\<close>

section \<open>Operations\<close>

text \<open>\<^verbatim>\<open>lease, err := Alloc(n)\<close> and \<^verbatim>\<open>defer b.free(&err, lease.ID)\<close> around the rest of the function.\<close>

definition scoped ::
  "(int \<Rightarrow> 'l \<Rightarrow> ('e + lease) \<times> 'l) \<Rightarrow> (u64 \<Rightarrow> 'l \<Rightarrow> 'e option \<times> 'l) \<Rightarrow> int \<Rightarrow> 'r \<Rightarrow>
   (lease \<Rightarrow> 'l \<Rightarrow> (('e option \<times> 'r) \<times> 'l) option) \<Rightarrow> 'l \<Rightarrow> (('e option \<times> 'r) \<times> 'l) option" where
  "scoped alloc free n r0 body l =
     (case alloc n l of (Inl e, l1) \<Rightarrow> Some ((Some e, r0), l1)
      | (Inr x, l1) \<Rightarrow>
          (case body x l1 of None \<Rightarrow> None
           | Some ((e, r), l2) \<Rightarrow> (case free (lease_ID x) l2 of (fe, l3) \<Rightarrow> Some ((first_error e fe, r), l3))))"

definition with_lease ::
  "int \<Rightarrow> 'r \<Rightarrow> (lease \<Rightarrow> link \<Rightarrow> ((client_error option \<times> 'r) \<times> link) option) \<Rightarrow> link \<Rightarrow>
   ((client_error option \<times> 'r) \<times> link) option" where
  "with_lease n r0 body lk = scoped client_Alloc (client_Free True) n r0 body lk"

text \<open>The slice of the mapping a lease names: its start and its length.\<close>

definition db_bytes :: "lease \<Rightarrow> link \<Rightarrow> client_error + nat \<times> nat" where
  "db_bytes l lk =
     (if lk_mapped lk = None then Inl MappingClosed
      else if lease_Offset l < 0 \<or> lease_Length l < 0
      then Inl (LeaseInvalid (lease_ID l) (lease_Offset l) (add64 (lease_Offset l) (lease_Length l)))
      else
        let fin = add64 (lease_Offset l) (lease_Length l) in
        if fin < lease_Offset l \<or> fin > int (length (lk_mem lk))
        then Inl (LeaseOutside (lease_ID l) (lease_Offset l) fin (length (lk_mem lk)))
        else Inr (nat (lease_Offset l), nat (lease_Length l)))"

definition copy_in :: "nat \<times> nat \<Rightarrow> bytes \<Rightarrow> link \<Rightarrow> link" where
  "copy_in b src lk = (case b of (off, n) \<Rightarrow> lk\<lparr>lk_mem := copy_at (lk_mem lk) off (take n src)\<rparr>)"

definition copy_out :: "nat \<times> nat \<Rightarrow> bytes \<Rightarrow> link \<Rightarrow> bytes" where
  "copy_out b dst lk = (case b of (off, n) \<Rightarrow> copy_at dst 0 (take (length dst) (take n (drop off (lk_mem lk)))))"

definition db_send :: "int \<Rightarrow> bytes \<Rightarrow> link \<Rightarrow> ((client_error option \<times> unit) \<times> link) option" where
  "db_send dst src lk =
     (if src = [] then Some ((None, ()), lk)
      else with_lease (int (length src)) () (\<lambda>l lk.
        case db_bytes l lk of Inl e \<Rightarrow> Some ((Some e, ()), lk)
        | Inr b \<Rightarrow> (case client_Send dst l (copy_in b src lk) of (e, lk') \<Rightarrow> Some ((e, ()), lk'))) lk)"

definition db_recv :: "int \<Rightarrow> bytes \<Rightarrow> link \<Rightarrow> ((client_error option \<times> bytes) \<times> link) option" where
  "db_recv src dst lk =
     (if dst = [] then Some ((None, dst), lk)
      else with_lease (int (length dst)) dst (\<lambda>l lk.
        case client_Recv src l lk of (Some e, lk') \<Rightarrow> Some ((Some e, dst), lk')
        | (None, lk') \<Rightarrow>
            (case db_bytes l lk' of Inl e \<Rightarrow> Some ((Some e, dst), lk')
             | Inr b \<Rightarrow> Some ((None, copy_out b dst lk'), lk'))) lk)"

text \<open>The two collectives differ in the request they submit.\<close>

definition db_collective ::
  "(lease \<Rightarrow> lease \<Rightarrow> link \<Rightarrow> (client_error + u64) \<times> link) \<Rightarrow> bytes \<Rightarrow> bytes \<Rightarrow> link \<Rightarrow>
   ((client_error option \<times> bytes) \<times> link) option" where
  "db_collective submit dst src lk =
     (if src = [] then Some ((None, dst), lk)
      else with_lease (int (length src)) dst (\<lambda>sl. with_lease (int (length dst)) dst (\<lambda>dl lk.
        case db_bytes sl lk of Inl e \<Rightarrow> Some ((Some e, dst), lk)
        | Inr sb \<Rightarrow>
            (case submit dl sl (copy_in sb src lk) of (Inl e, lk1) \<Rightarrow> Some ((Some e, dst), lk1)
             | (Inr work, lk1) \<Rightarrow>
                 (case WaitWork work lk1 of None \<Rightarrow> None
                  | Some (Some e, lk2) \<Rightarrow> Some ((Some e, dst), lk2)
                  | Some (None, lk2) \<Rightarrow>
                      (case db_bytes dl lk2 of Inl e \<Rightarrow> Some ((Some e, dst), lk2)
                       | Inr b \<Rightarrow> Some ((None, copy_out b dst lk2), lk2)))))) lk)"

definition db_allReduce :: "int \<Rightarrow> int \<Rightarrow> bytes \<Rightarrow> bytes \<Rightarrow> link \<Rightarrow> ((client_error option \<times> bytes) \<times> link) option" where
  "db_allReduce rop dt = db_collective (SubmitReduce rop dt)"

definition db_allGather :: "int \<Rightarrow> bytes \<Rightarrow> bytes \<Rightarrow> link \<Rightarrow> ((client_error option \<times> bytes) \<times> link) option" where
  "db_allGather elemSize = db_collective (SubmitGather elemSize)"

definition db_close ::
  "client_error option \<Rightarrow> client_error option \<Rightarrow> client_error option \<Rightarrow> link \<Rightarrow> client_error option \<times> link" where
  "db_close mu cl hu lk =
     (case mapping_Close mu cl lk of (e1, lk1) \<Rightarrow> (case client_Close hu lk1 of (e2, lk2) \<Rightarrow> (first_error e1 e2, lk2)))"

text \<open>\<open>newDaemonBackend\<close> after a successful \<open>Dial\<close>.\<close>

definition newDaemonBackend :: "string + bytes \<Rightarrow> client_error option \<Rightarrow> link \<Rightarrow> client_error option \<times> link" where
  "newDaemonBackend mm hu lk =
     (case client_Map mm lk of (Inl e, lk') \<Rightarrow> (Some e, snd (client_Close hu lk')) | (Inr fd, lk') \<Rightarrow> (None, lk'))"

section \<open>Behind the group's interface\<close>

definition reduction_code :: "reduction_op \<Rightarrow> int" where
  "reduction_code rop = (case rop of reductionSum \<Rightarrow> 0 | reductionMax \<Rightarrow> 1 | reductionMin \<Rightarrow> 2 | OtherReduction i \<Rightarrow> i)"

definition returned :: "'r \<Rightarrow> ((client_error option \<times> 'r) \<times> link) option \<Rightarrow> link \<Rightarrow> (jaccl_error option \<times> 'r) \<times> link" where
  "returned r0 x lk =
     (case x of None \<Rightarrow> ((Some (BackendError Blocked), r0), lk)
      | Some ((e, r), lk') \<Rightarrow> ((map_option DaemonError e, r), lk'))"

definition daemon_backend ::
  "(dtype \<Rightarrow> int) \<Rightarrow> client_error option \<Rightarrow> client_error option \<Rightarrow> client_error option \<Rightarrow> link backend" where
  "daemon_backend dt_code mu cl hu =
     \<lparr> bk_barrier = (\<lambda>lk. apfst (map_option DaemonError) (client_Barrier lk)),
       bk_send = (\<lambda>dst src lk. case returned () (db_send dst src lk) lk of ((e, _), lk') \<Rightarrow> (e, lk')),
       bk_recv = (\<lambda>src dst lk. returned dst (db_recv src dst lk) lk),
       bk_allReduce = (\<lambda>rop dt dst src lk. returned dst (db_allReduce (reduction_code rop) (dt_code dt) dst src lk) lk),
       bk_allGather = (\<lambda>k dst src lk. returned dst (db_allGather (int k) dst src lk) lk),
       bk_close = (\<lambda>lk. apfst (map_option DaemonError) (db_close mu cl hu lk)) \<rparr>"

section \<open>Leases come back\<close>

text \<open>
  What the backend needs of allocation and release: \<open>owned\<close> says what is known of an identifier, \<open>mine x\<close> is that
  lease \<open>x\<close> is ours, \<open>none\<close> that nobody holds it, and \<open>ready k\<close> that \<open>k\<close> more allocations can be asked for.
\<close>

locale lease_api =
  fixes alloc :: "int \<Rightarrow> 'l \<Rightarrow> ('e + lease) \<times> 'l" and free :: "u64 \<Rightarrow> 'l \<Rightarrow> 'e option \<times> 'l"
    and owned :: "'l \<Rightarrow> u64 \<Rightarrow> 'o" and mine :: "lease \<Rightarrow> 'o" and none :: 'o and ready :: "nat \<Rightarrow> 'l \<Rightarrow> bool"
  assumes alloc_adds: "ready (Suc k) l \<Longrightarrow> alloc n l = (Inr x, l') \<Longrightarrow>
      ready k l' \<and> owned l (lease_ID x) = none \<and> owned l' = (owned l)(lease_ID x := mine x)"
    and alloc_keeps: "ready (Suc k) l \<Longrightarrow> alloc n l = (Inl e, l') \<Longrightarrow> ready k l' \<and> owned l' = owned l"
    and free_removes: "ready k l \<Longrightarrow> owned l (lease_ID x) = mine x \<Longrightarrow> free (lease_ID x) l = (fe, l') \<Longrightarrow>
      fe = None \<and> ready k l' \<and> owned l' = (owned l)(lease_ID x := none)"
    and ready_mono: "ready k l \<Longrightarrow> j \<le> k \<Longrightarrow> ready j l"
begin

text \<open>A body is good when it returns and leaves what is owned as it was.\<close>

definition restores :: "nat \<Rightarrow> ('l \<Rightarrow> ('r \<times> 'l) option) \<Rightarrow> 'l \<Rightarrow> bool" where
  "restores k f l \<longleftrightarrow> (\<exists>r l'. f l = Some (r, l') \<and> owned l' = owned l \<and> ready k l')"

lemma restoresI: "f l = Some (r, l') \<Longrightarrow> owned l' = owned l \<Longrightarrow> ready k l' \<Longrightarrow> restores k f l"
  by (auto simp: restores_def)

lemma scoped_restores:
  assumes r: "ready (Suc k) l" and j: "j \<le> k" and body: "\<And>x l1. ready k l1 \<Longrightarrow> restores j (body x) l1"
  shows "restores j (scoped alloc free n r0 body) l"
proof -
  obtain a l1 where a: "alloc n l = (a, l1)" by fastforce
  show ?thesis
  proof (cases a)
    case (Inl e)
    with alloc_keeps [OF r] a show ?thesis using ready_mono [OF _ j] by (auto simp: restores_def scoped_def)
  next
    case (Inr x)
    with alloc_adds [OF r] a have A: "ready k l1" "owned l (lease_ID x) = none"
      "owned l1 = (owned l)(lease_ID x := mine x)" by auto
    from body [OF A(1), of x] obtain e v l2 where b: "body x l1 = Some ((e, v), l2)" "owned l2 = owned l1" "ready j l2"
      by (auto simp: restores_def)
    obtain fe l3 where f: "free (lease_ID x) l2 = (fe, l3)" by fastforce
    from free_removes [OF b(3) _ f] A b have "ready j l3" "owned l3 = owned l"
      by (auto simp: fun_eq_iff)
    with a Inr b f show ?thesis by (auto simp: restores_def scoped_def)
  qed
qed

end

text \<open>The client joined to the daemon: what the connection and the slab say of an identifier.\<close>

definition link_owned :: "link \<Rightarrow> u64 \<Rightarrow> lease option \<times> span option" where
  "link_owned lk i = (map_of (cn_leases (lk_conn lk)) i, held (sv_slab (lk_server lk)) i)"

definition link_mine :: "lease \<Rightarrow> lease option \<times> span option" where
  "link_mine x = (Some x, Some (lease_span x))"

definition link_ready :: "nat \<Rightarrow> link \<Rightarrow> bool" where
  "link_ready k lk \<longleftrightarrow> link_live lk \<and> work_ends lk \<and> slab_inv (sv_slab (lk_server lk)) \<and> \<not> sl_closed (sv_slab (lk_server lk)) \<and>
     unat (sl_nextID (sv_slab (lk_server lk))) + k < 2 ^ 64 \<and>
     (\<forall>i. map_of (cn_leases (lk_conn lk)) i \<noteq> None \<longrightarrow> held (sv_slab (lk_server lk)) i \<noteq> None)"

lemma link_ready_same:
  assumes "link_ready k lk" "link_live lk'" "lk_env lk' = lk_env lk" "lk_server lk' = lk_server lk"
    "cn_leases (lk_conn lk') = cn_leases (lk_conn lk)"
  shows "link_ready k lk'" "link_owned lk' = link_owned lk"
  using assms by (auto simp: link_ready_def link_owned_def work_ends_def)

lemma link_ready_mono: "link_ready k lk \<Longrightarrow> j \<le> k \<Longrightarrow> link_ready j lk"
  by (simp add: link_ready_def)

text \<open>One allocation and one release, as the caller sees them.\<close>

lemma client_Alloc_cases:
  assumes live: "link_live lk" and c: "client_Alloc n lk = (r, lk')"
  shows "link_live lk'" "lk_env lk' = lk_env lk"
    "(\<exists>e. r = Inl e \<and> lk_server lk' = lk_server lk \<and> cn_leases (lk_conn lk') = cn_leases (lk_conn lk)) \<or>
     (\<exists>x. r = Inr x \<and> Alloc n (sv_slab (lk_server lk)) = (Inr x, sv_slab (lk_server lk')) \<and>
        cn_leases (lk_conn lk') = AList.update (lease_ID x) x (cn_leases (lk_conn lk)))"
proof -
  let ?req = "empty_request\<lparr>rq_op := ''alloc'', rq_size := n\<rparr>" and ?s = "sv_slab (lk_server lk)"
  obtain y where y: "client_call False ?req lk = (y, lk')" "r = map_sum id lease_of y"
    using c by (auto simp: client_Alloc_def call_result_def split: prod.splits sum.splits)
  show "link_live lk'" "lk_env lk' = lk_env lk" using client_call_live(1) [OF live y(1)] by auto
  let ?c = "finish_work (ce_works (this_env lk)) (lk_conn lk)"
  have "served ?req lk = (case Alloc n ?s of (Inl e, s') \<Rightarrow> (error_response (SlabError e), (lk_server lk)\<lparr>sv_slab := s'\<rparr>, ?c)
      | (Inr l, s') \<Rightarrow> (ok_response\<lparr>rp_lease := Some l\<rparr>, (lk_server lk)\<lparr>sv_slab := s'\<rparr>,
          ?c\<lparr>cn_leases := AList.update (lease_ID l) l (cn_leases ?c)\<rparr>))"
    by (simp add: served_def serve_request_def handle_alloc_def Let_def)
  then show "(\<exists>e. r = Inl e \<and> lk_server lk' = lk_server lk \<and> cn_leases (lk_conn lk') = cn_leases (lk_conn lk)) \<or>
     (\<exists>x. r = Inr x \<and> Alloc n ?s = (Inr x, sv_slab (lk_server lk')) \<and>
        cn_leases (lk_conn lk') = AList.update (lease_ID x) x (cn_leases (lk_conn lk)))"
    using client_call_live(2) [OF live y(1)] y(2) Alloc_error [of n ?s]
    by (cases "Alloc n ?s")
       (auto simp: response_err_def error_response_def ok_response_def lease_of_def
         split: sum.splits option.splits)
qed

lemma client_Free_held:
  assumes live: "link_live lk" and c: "client_Free True i lk = (fe, lk')" and open_slab: "\<not> sl_closed (sv_slab (lk_server lk))"
    and m: "map_of (cn_leases (lk_conn lk)) i = Some x" "held (sv_slab (lk_server lk)) i = Some s"
  shows "fe = None" "link_live lk'" "lk_env lk' = lk_env lk"
    "sv_slab (lk_server lk') = snd (Free i (sv_slab (lk_server lk)))"
    "cn_leases (lk_conn lk') = AList.delete i (cn_leases (lk_conn lk))"
proof -
  let ?req = "empty_request\<lparr>rq_op := ''free'', rq_lease_id := i\<rparr>" and ?s = "sv_slab (lk_server lk)"
  obtain y where y: "client_call True ?req lk = (y, lk')" "fe = (case y of Inl e \<Rightarrow> Some e | Inr r \<Rightarrow> None)"
    using c by (auto simp: client_Free_def call_error_def split: prod.splits sum.splits)
  show "link_live lk'" "lk_env lk' = lk_env lk" using client_call_live(1) [OF live y(1)] by auto
  have F: "Free i ?s = (None, snd (Free i ?s))" using held_Free(2) [OF open_slab m(2)] by (metis prod.collapse)
  let ?c = "finish_work (ce_works (this_env lk)) (lk_conn lk)"
  have "served ?req lk = (ok_response, (lk_server lk)\<lparr>sv_slab := snd (Free i ?s)\<rparr>,
      ?c\<lparr>cn_leases := AList.delete i (cn_leases ?c)\<rparr>)"
    by (subst F, simp add: served_def serve_request_def handle_free_def Let_def m(1), subst F, simp)
  then show "fe = None" "sv_slab (lk_server lk') = snd (Free i ?s)"
    "cn_leases (lk_conn lk') = AList.delete i (cn_leases (lk_conn lk))"
    using client_call_live(2) [OF live y(1)] y(2) by (simp_all add: response_err_def ok_response_def)
qed

interpretation link_api: lease_api client_Alloc "client_Free True" link_owned link_mine "(None, None)" link_ready
proof
  fix k n lk x lk'
  assume r: "link_ready (Suc k) lk" and a: "client_Alloc n lk = (Inr x, lk')"
  let ?s = "sv_slab (lk_server lk)" and ?s' = "sv_slab (lk_server lk')"
  from r have I: "link_live lk" "slab_inv ?s" "id_room ?s" "\<not> sl_closed ?s" by (auto simp: link_ready_def id_room_def)
  note C = client_Alloc_cases [OF I(1) a]
  from C(3) have A: "Alloc n ?s = (Inr x, ?s')" "cn_leases (lk_conn lk') = AList.update (lease_ID x) x (cn_leases (lk_conn lk))"
    by auto
  note H = Alloc_held [OF I(2,3) A(1)]
  have "unat (sl_nextID ?s') = Suc (unat (sl_nextID ?s))"
    using A(1) id_room_next(1) [OF I(3)] by (auto elim!: Alloc_cases)
  then have "link_ready k lk'"
    using r C(1,2) A(2) H Alloc_inv [OF I(2,3) A(1)] by (auto simp: link_ready_def work_ends_def map_of_update)
  moreover have "map_of (cn_leases (lk_conn lk)) (lease_ID x) = None" using r H(1) by (auto simp: link_ready_def)
  ultimately show "link_ready k lk' \<and> link_owned lk (lease_ID x) = (None, None) \<and>
      link_owned lk' = (link_owned lk)(lease_ID x := link_mine x)"
    using H(1,2) A(2) by (auto simp: link_owned_def link_mine_def map_of_update)
next
  fix k n lk e lk'
  assume r: "link_ready (Suc k) lk" and a: "client_Alloc n lk = (Inl e, lk')"
  have "link_live lk" using r by (simp add: link_ready_def)
  note C = client_Alloc_cases [OF this a]
  from C(3) have "lk_server lk' = lk_server lk" "cn_leases (lk_conn lk') = cn_leases (lk_conn lk)" by auto
  from link_ready_same [OF link_ready_mono [OF r, of k] C(1,2) this]
  show "link_ready k lk' \<and> link_owned lk' = link_owned lk" by auto
next
  fix k lk x fe lk'
  assume r: "link_ready k lk" and o: "link_owned lk (lease_ID x) = link_mine x" and f: "client_Free True (lease_ID x) lk = (fe, lk')"
  let ?s = "sv_slab (lk_server lk)"
  from r o have I: "link_live lk" "slab_inv ?s" "\<not> sl_closed ?s" "map_of (cn_leases (lk_conn lk)) (lease_ID x) = Some x"
    "held ?s (lease_ID x) = Some (lease_span x)" by (auto simp: link_ready_def link_owned_def link_mine_def)
  note F = client_Free_held [OF I(1) f I(3,4,5)] and H = held_Free [OF I(3,5)]
  have "link_ready k lk'"
    using r F H Free_inv [OF I(2), of "lease_ID x"] by (auto simp: link_ready_def work_ends_def map_of_delete)
  then show "fe = None \<and> link_ready k lk' \<and> link_owned lk' = (link_owned lk)(lease_ID x := (None, None))"
    using F H(1) by (auto simp: link_owned_def map_of_delete fun_eq_iff)
qed (rule link_ready_mono)

text \<open>The calls between allocation and release keep what is owned.\<close>

lemma quiet_call_ready:
  assumes r: "link_ready k lk" and c: "client_call bg req lk = (x, lk')" and q: "rq_op req \<in> set quiet_ops"
  shows "link_ready k lk'" "link_owned lk' = link_owned lk"
proof -
  have live: "link_live lk" using r by (simp add: link_ready_def)
  note L = client_call_live(1) [OF live c] and Q = client_call_quiet [OF live c q]
  from L Q show "link_ready k lk'" "link_owned lk' = link_owned lk"
    using link_ready_same [OF r, of lk'] by blast+
qed

lemma link_ready_mem [simp]:
  "link_ready k (lk\<lparr>lk_mem := m\<rparr>) = link_ready k lk" "link_owned (lk\<lparr>lk_mem := m\<rparr>) = link_owned lk"
  by (auto simp: link_ready_def link_owned_def link_live_def work_ends_def)

lemma copy_in_ready [simp]:
  "link_ready k (copy_in b src lk) = link_ready k lk" "link_owned (copy_in b src lk) = link_owned lk"
  by (simp_all add: copy_in_def split: prod.splits)

lemma transfer_ready:
  assumes "link_ready k lk"
  shows "client_Send dst l lk = (e, lk') \<Longrightarrow> link_ready k lk' \<and> link_owned lk' = link_owned lk"
    and "client_Recv src l lk = (e, lk') \<Longrightarrow> link_ready k lk' \<and> link_owned lk' = link_owned lk"
    and "SubmitReduce rop dt d s lk = (x, lk') \<Longrightarrow> link_ready k lk' \<and> link_owned lk' = link_owned lk"
    and "SubmitGather es d s lk = (x, lk') \<Longrightarrow> link_ready k lk' \<and> link_owned lk' = link_owned lk"
  using quiet_call_ready [OF assms]
  by (auto simp: client_Send_def client_Recv_def SubmitReduce_def SubmitGather_def call_error_def call_result_def
      range_request_def submit_request_def quiet_ops_def split: prod.splits sum.splits)

lemma WaitWork_ready:
  assumes r: "link_ready k lk"
  obtains e lk' where "WaitWork i lk = Some (e, lk')" "link_ready k lk'" "link_owned lk' = link_owned lk"
proof -
  have live: "link_live lk" using r by (simp add: link_ready_def)
  obtain n where "lk_calls lk \<le> n" "ce_works (lk_env lk n) i \<noteq> None"
    using r unfolding link_ready_def work_ends_def by blast
  from WaitWork_returns [OF live this] obtain e lk' where "WaitWork i lk = Some (e, lk')" "link_live lk'"
    "lk_env lk' = lk_env lk" "lk_server lk' = lk_server lk" "cn_leases (lk_conn lk') = cn_leases (lk_conn lk)" by blast
  with link_ready_same [OF r] show thesis using that by blast
qed

lemma with_lease_restores:
  assumes "link_ready (Suc k) lk" "\<And>x l1. link_ready k l1 \<Longrightarrow> link_api.restores j (body x) l1" "j \<le> k"
  shows "link_api.restores j (with_lease n r0 body) lk"
  using link_api.scoped_restores [OF assms(1,3), of body n r0] assms(2) by (simp add: link_api.restores_def with_lease_def)

lemma db_send_restores:
  assumes "link_ready (Suc k) lk"
  shows "link_api.restores k (db_send dst src) lk"
proof -
  let ?body = "\<lambda>l lk. case db_bytes l lk of Inl e \<Rightarrow> Some ((Some e, ()), lk)
        | Inr b \<Rightarrow> (case client_Send dst l (copy_in b src lk) of (e, lk') \<Rightarrow> Some ((e, ()), lk'))"
  have "link_api.restores k (?body l) lk1" if r1: "link_ready k lk1" for l lk1
  proof (cases "db_bytes l lk1")
    case (Inr b)
    obtain e lk2 where s: "client_Send dst l (copy_in b src lk1) = (e, lk2)" by fastforce
    from transfer_ready(1) [OF _ s] r1 Inr s show ?thesis by (simp add: link_api.restores_def)
  qed (simp add: r1 link_api.restores_def)
  from with_lease_restores [OF assms this order.refl, of "int (length src)" "()"] show ?thesis
    using link_ready_mono [OF assms, of k] by (cases "src = []") (simp_all add: link_api.restores_def db_send_def)
qed

lemma db_recv_restores:
  assumes "link_ready (Suc k) lk"
  shows "link_api.restores k (db_recv src dst) lk"
proof -
  let ?body = "\<lambda>l lk. case client_Recv src l lk of (Some e, lk') \<Rightarrow> Some ((Some e, dst), lk')
        | (None, lk') \<Rightarrow>
            (case db_bytes l lk' of Inl e \<Rightarrow> Some ((Some e, dst), lk')
             | Inr b \<Rightarrow> Some ((None, copy_out b dst lk'), lk'))"
  have "link_api.restores k (?body l) lk1" if "link_ready k lk1" for l lk1
    using that transfer_ready(2) [of k lk1 src l]
    by (auto simp: link_api.restores_def split: sum.splits prod.splits option.splits)
  from with_lease_restores [OF assms this order.refl, of "int (length dst)" dst] show ?thesis
    using link_ready_mono [OF assms, of k] by (cases "dst = []") (simp_all add: link_api.restores_def db_recv_def)
qed

lemma db_collective_restores:
  assumes r: "link_ready (Suc (Suc k)) lk"
    and submit: "\<And>d s lk1 x lk2. link_ready k lk1 \<Longrightarrow> submit d s lk1 = (x, lk2) \<Longrightarrow>
      link_ready k lk2 \<and> link_owned lk2 = link_owned lk1"
  shows "link_api.restores k (db_collective submit dst src) lk"
proof -
  let ?body = "\<lambda>sl dl lk. case db_bytes sl lk of Inl e \<Rightarrow> Some ((Some e, dst), lk)
        | Inr sb \<Rightarrow>
            (case submit dl sl (copy_in sb src lk) of (Inl e, lk1) \<Rightarrow> Some ((Some e, dst), lk1)
             | (Inr work, lk1) \<Rightarrow>
                 (case WaitWork work lk1 of None \<Rightarrow> None
                  | Some (Some e, lk2) \<Rightarrow> Some ((Some e, dst), lk2)
                  | Some (None, lk2) \<Rightarrow>
                      (case db_bytes dl lk2 of Inl e \<Rightarrow> Some ((Some e, dst), lk2)
                       | Inr b \<Rightarrow> Some ((None, copy_out b dst lk2), lk2))))"
  have B: "link_api.restores k (?body sl dl) lk1" if r1: "link_ready k lk1" for sl dl lk1
  proof (cases "db_bytes sl lk1")
    case (Inl e)
    with r1 show ?thesis by (simp add: link_api.restores_def)
  next
    case (Inr sb)
    obtain x lk2 where s: "submit dl sl (copy_in sb src lk1) = (x, lk2)" by fastforce
    from submit [OF _ s] r1 have k2: "link_ready k lk2" "link_owned lk2 = link_owned lk1" by auto
    show ?thesis
    proof (cases x)
      case (Inl e)
      with Inr s k2 show ?thesis by (simp add: link_api.restores_def)
    next
      case (Inr w)
      from WaitWork_ready [OF k2(1)] obtain e lk3 where
        "WaitWork w lk2 = Some (e, lk3)" "link_ready k lk3" "link_owned lk3 = link_owned lk2" by blast
      with \<open>db_bytes sl lk1 = Inr sb\<close> s Inr k2 show ?thesis
        by (auto simp: link_api.restores_def split: option.splits sum.splits)
    qed
  qed
  have I: "link_api.restores k (with_lease (int (length dst)) dst (?body sl)) lk1" if "link_ready (Suc k) lk1" for sl lk1
    by (rule with_lease_restores [OF that B order.refl])
  show ?thesis
    using with_lease_restores [OF r I, of "int (length src)" dst] link_ready_mono [OF r, of k]
    by (cases "src = []") (simp_all add: link_api.restores_def db_collective_def)
qed

section \<open>The calls of the backend\<close>

text \<open>A call that returned, with the leases of the connection and of the slab as they were and no answer unread.\<close>

definition lease_neutral :: "((client_error option \<times> 'r) \<times> link) option \<Rightarrow> link \<Rightarrow> bool" where
  "lease_neutral x lk \<longleftrightarrow> (\<exists>e r lk'. x = Some ((e, r), lk') \<and>
     map_of (cn_leases (lk_conn lk')) = map_of (cn_leases (lk_conn lk)) \<and>
     held (sv_slab (lk_server lk')) = held (sv_slab (lk_server lk)) \<and> lk_pending lk' = [])"

lemma restores_neutral:
  assumes "link_api.restores k f lk"
  shows "lease_neutral (f lk) lk"
proof -
  obtain e r lk' where f: "f lk = Some ((e, r), lk')" "link_owned lk' = link_owned lk" "link_ready k lk'"
    using assms by (auto simp: link_api.restores_def)
  then have "map_of (cn_leases (lk_conn lk')) = map_of (cn_leases (lk_conn lk))"
    "held (sv_slab (lk_server lk')) = held (sv_slab (lk_server lk))"
    by (auto simp: link_owned_def fun_eq_iff)
  with f show ?thesis by (auto simp: lease_neutral_def link_ready_def link_live_def)
qed

text \<open>C27.  Over a working connection to a daemon whose work ends, every transfer returns, whatever the daemon's
transport and the caller's context answer on the way, and gives back what it leased: the connection and the
slab hold exactly the leases they held before.\<close>

theorem daemon_calls_release:
  assumes "link_ready 2 lk"
  shows "lease_neutral (db_send peer src lk) lk \<and> lease_neutral (db_recv peer dst lk) lk \<and>
    lease_neutral (db_allReduce rop dt dst src lk) lk \<and> lease_neutral (db_allGather es dst src lk) lk"
proof (intro conjI)
  have r: "link_ready (Suc (Suc 0)) lk" "link_ready (Suc 0) lk"
    using assms link_ready_mono [OF assms, of "Suc 0"] by (simp_all add: numeral_eq_Suc)
  show "lease_neutral (db_send peer src lk) lk" by (rule restores_neutral [OF db_send_restores [OF r(2)]])
  show "lease_neutral (db_recv peer dst lk) lk" by (rule restores_neutral [OF db_recv_restores [OF r(2)]])
  show "lease_neutral (db_allReduce rop dt dst src lk) lk"
    unfolding db_allReduce_def
    by (rule restores_neutral [OF db_collective_restores [OF r(1)]]) (erule (1) transfer_ready(3))
  show "lease_neutral (db_allGather es dst src lk) lk"
    unfolding db_allGather_def
    by (rule restores_neutral [OF db_collective_restores [OF r(1)]]) (erule (1) transfer_ready(4))
qed

definition demo_call :: client_env where
  "demo_call = \<lparr> ce_ctx = None, ce_write = None, ce_read = Reads 1, ce_srv = env5, ce_works = (\<lambda>_. Some None),
     ce_mem = (\<lambda>_. None) \<rparr>"

definition demo_link :: "(nat \<Rightarrow> client_env) \<Rightarrow> link" where
  "demo_link f = \<lparr> lk_env = f, lk_calls = 0, lk_nil = False, lk_shut = False, lk_server = hot_server slab16,
     lk_conn = new_conn, lk_pending = [], lk_fds = [7], lk_mem = replicate 16 0, lk_mapped = Some 7 \<rparr>"

lemma slab16_nextID [simp]: "sl_nextID slab16 = 0"
  by (simp add: slab16_def)

lemma demo_link_ready:
  assumes "\<And>n. ce_write (f n) = None \<and> ce_read (f n) = Reads 1" "\<And>n i. ce_works (f n) i \<noteq> None"
  shows "link_ready 2 (demo_link f)"
  using assms by (auto simp: link_ready_def link_live_def work_ends_def demo_link_def hot_server_def new_conn_def)

theorem daemon_calls_release_witness:
  "\<exists>e r lk'. db_allGather 1 [0, 0] [1, 2] (demo_link (\<lambda>_. demo_call)) = Some ((e, r), lk') \<and>
     held (sv_slab (lk_server lk')) = Map.empty"
proof -
  have "link_ready 2 (demo_link (\<lambda>_. demo_call))" by (rule demo_link_ready) (simp_all add: demo_call_def)
  from daemon_calls_release [OF this, of 0 "[1, 2]" "[0, 0]" 0 0 1] show ?thesis
    by (auto simp: lease_neutral_def demo_link_def hot_server_def)
qed

section \<open>What a receive delivers\<close>

text \<open>A lease just allocated names bytes inside the slab.\<close>

lemma Alloc_bounds:
  assumes "slab_inv s" "id_room s" "Alloc n s = (Inr x, s')"
  shows "0 \<le> lease_Offset x" "0 < lease_Length x" "lease_Offset x + lease_Length x \<le> sl_size s" "span_ok (lease_span x)"
    "add64 (lease_Offset x) (lease_Length x) = lease_Offset x + lease_Length x" "lease_Length x = n"
proof -
  note H = Alloc_held [OF assms]
  have i: "slab_inv s'" and h: "held s' (lease_ID x) = Some (lease_span x)" and z: "sl_size s' = sl_size s"
    using Alloc_inv [OF assms] H(2) assms(3) by (auto elim: Alloc_cases)
  note B = slab_lease_range [OF i h]
  from B z show "0 \<le> lease_Offset x" "lease_Offset x + lease_Length x \<le> sl_size s" "span_ok (lease_span x)"
    by (simp_all add: lease_span_def)
  show "lease_Length x = n" "0 < lease_Length x" using H by simp_all
  show "add64 (lease_Offset x) (lease_Length x) = lease_Offset x + lease_Length x"
    using span_ok_add64 [OF B(3)] by (simp add: lease_span_def)
qed

lemma served_alloc:
  assumes "Alloc n (sv_slab (lk_server lk)) = (Inr x, s')"
  shows "served (empty_request\<lparr>rq_op := ''alloc'', rq_size := n\<rparr>) lk =
    (ok_response\<lparr>rp_lease := Some x\<rparr>, (lk_server lk)\<lparr>sv_slab := s'\<rparr>,
     (finish_work (ce_works (this_env lk)) (lk_conn lk))\<lparr>cn_leases := AList.update (lease_ID x) x (cn_leases (lk_conn lk))\<rparr>)"
  using assms by (simp add: served_def serve_request_def handle_alloc_def Let_def)

lemma served_recv:
  assumes "map_of (cn_leases (lk_conn lk)) (lease_ID x) = Some x" "span_ok (lease_span x)" "0 \<le> p"
    and "tr_Recv (sv_transport (lk_server lk)) (en_now (ce_srv (this_env lk))) p (lease_Offset x) (lease_Length x) = None"
  shows "served (range_request ''recv'' p x) lk = (ok_response, lk_server lk, finish_work (ce_works (this_env lk)) (lk_conn lk))"
proof -
  have "int64_ok (lease_Offset x)" "int64_ok (lease_Length x)" "0 \<le> lease_Length x"
    using assms(2) by (auto simp: span_ok_def lease_span_def int64_ok_def min_int64_def)
  with assms(1-3) have "range_check (cn_leases (lk_conn lk)) p (lease_ID x) (lease_Offset x) (lease_Length x) = None"
    by (subst range_check_None) auto
  with assms(4) show ?thesis
    by (simp add: served_def serve_request_def handle_recv_def checkRange_def range_request_def Let_def transport_reply_def)
qed

lemma copy_out_exact:
  assumes "length dst = n" "off + n \<le> length (lk_mem lk)" "\<And>i. i < n \<Longrightarrow> lk_mem lk ! (off + i) = msg ! i" "length msg = n"
  shows "copy_out (off, n) dst lk = msg"
  using assms by (auto simp: copy_out_def copy_at_def list_eq_iff_nth_eq)

text \<open>C35.  A receive through the daemon hands over the message.  When the slab has room, the caller's context is
live for the two calls, and the daemon's \<open>Recv\<close> for exactly the range of the lease succeeds and writes the
message there, then \<open>recv\<close> returns nil with the message in the caller's buffer, and the lease is gone.\<close>

theorem daemon_recv_delivers:
  assumes r: "link_ready 1 lk" and mapped: "lk_mapped lk \<noteq> None" "int (length (lk_mem lk)) = sl_size (sv_slab (lk_server lk))"
    and dst: "length dst = length msg" and room: "Alloc (int (length msg)) (sv_slab (lk_server lk)) = (Inr x, s')"
    and ctx: "ce_ctx (lk_env lk (lk_calls lk)) = None" "ce_ctx (lk_env lk (Suc (lk_calls lk))) = None"
    and recv: "0 \<le> peer" "tr_Recv (sv_transport (lk_server lk)) (en_now (ce_srv (lk_env lk (Suc (lk_calls lk))))) peer
      (lease_Offset x) (lease_Length x) = None"
    and wrote: "\<forall>i < length msg. ce_mem (lk_env lk (Suc (lk_calls lk))) (nat (lease_Offset x) + i) = Some (msg ! i)"
  shows "\<exists>lk'. db_recv peer dst lk = Some ((None, msg), lk') \<and>
    map_of (cn_leases (lk_conn lk')) = map_of (cn_leases (lk_conn lk)) \<and>
    held (sv_slab (lk_server lk')) = held (sv_slab (lk_server lk))"
proof -
  let ?n = "length msg" and ?s = "sv_slab (lk_server lk)"
  from r have I: "link_live lk" "slab_inv ?s" "id_room ?s" by (auto simp: link_ready_def id_room_def)
  note B = Alloc_bounds [OF I(2,3) room]
  obtain lk1 where A: "client_call False (empty_request\<lparr>rq_op := ''alloc'', rq_size := int ?n\<rparr>) lk = (Inr (ok_response\<lparr>rp_lease := Some x\<rparr>), lk1)"
    "link_live lk1" "lk_env lk1 = lk_env lk" "lk_calls lk1 = Suc (lk_calls lk)" "lk_server lk1 = (lk_server lk)\<lparr>sv_slab := s'\<rparr>"
    "cn_leases (lk_conn lk1) = AList.update (lease_ID x) x (cn_leases (lk_conn lk))" "length (lk_mem lk1) = length (lk_mem lk)"
    "lk_mapped lk1 = lk_mapped lk"
    using ctx(1) by (rule_tac client_call_served [OF I(1) _ served_alloc [OF room], of False])
      (auto simp: this_env_def response_err_def ok_response_def daemon_writes_def)
  have env1: "this_env lk1 = lk_env lk (Suc (lk_calls lk))" using A by (simp add: this_env_def)
  obtain lk2 where R: "client_call False (range_request ''recv'' peer x) lk1 = (Inr ok_response, lk2)"
    "lk_mem lk2 = daemon_writes (ce_mem (this_env lk1)) (lk_mem lk1)" "lk_mapped lk2 = lk_mapped lk"
    using ctx(2) recv A B(4) env1
    by (rule_tac client_call_served [OF A(2) _ served_recv [of lk1 x peer], of False])
      (auto simp: map_of_update response_err_def ok_response_def)
  have a: "client_Alloc (int ?n) lk = (Inr x, lk1)" by (simp add: client_Alloc_def A(1) call_result_def lease_of_def ok_response_def)
  have v: "client_Recv peer x lk1 = (None, lk2)" by (simp add: client_Recv_def R(1) call_error_def)
  have off: "nat (lease_Offset x) + ?n \<le> length (lk_mem lk2)"
    using B mapped(2) A(7) R(2) by (auto simp: daemon_writes_def)
  have b: "db_bytes x lk2 = Inr (nat (lease_Offset x), ?n)"
    using B mapped A(7) R(2,3) by (auto simp: db_bytes_def Let_def daemon_writes_def)
  have m: "copy_out (nat (lease_Offset x), ?n) dst lk2 = msg"
    using off wrote dst R(2) env1 by (intro copy_out_exact) (auto simp: daemon_writes_def)
  have "dst \<noteq> []" using B(2,6) dst by auto
  then obtain fe lk3 where d: "db_recv peer dst lk = Some ((fe, msg), lk3)" "client_Free True (lease_ID x) lk2 = (fe, lk3)"
    using a v b m dst by (cases "client_Free True (lease_ID x) lk2") (simp add: db_recv_def with_lease_def scoped_def first_error_def)
  have "link_ready 0 lk2 \<and> link_owned lk2 (lease_ID x) = link_mine x"
    using link_api.alloc_adds [of 0 lk "int ?n" x lk1] r a transfer_ready(2) [OF _ v, of 0] by simp
  with link_api.free_removes [OF _ _ d(2)] have "fe = None" by blast
  with d(1) restores_neutral [OF db_recv_restores [of 0 lk peer dst]] r show ?thesis
    by (auto simp: lease_neutral_def)
qed

definition recv_link :: link where
  "recv_link = (demo_link (\<lambda>n. demo_call\<lparr>ce_mem := (\<lambda>i. if n = 1 \<and> i < 2 then Some (of_nat i + 5) else None)\<rparr>))
     \<lparr>lk_server := (hot_server slab16)\<lparr>sv_transport := disabledTransport\<lparr>tr_Recv := (\<lambda>_ _ _ _. None)\<rparr>\<rparr>\<rparr>"

theorem daemon_recv_delivers_witness:
  "\<exists>lk'. db_recv 1 [0, 0] recv_link = Some ((None, [5, 6]), lk') \<and> held (sv_slab (lk_server lk')) = Map.empty"
proof -
  have a: "Alloc (int (length [5, 6 :: u8])) slab16 = (Inr \<lparr> lease_ID = 1, lease_Offset = 0, lease_Length = 2 \<rparr>,
      slab16\<lparr>sl_nextID := 1, sl_leases := [(1, \<lparr> sp_off = 0, sp_n = 2 \<rparr>)], sl_free := [\<lparr> sp_off = 2, sp_n = 14 \<rparr>]\<rparr>)"
    by (simp add: Alloc_def slab_next_def slab16_def add64_def sub64_def wrap64_def)
  have r: "link_ready 1 recv_link"
    by (auto simp: recv_link_def link_ready_def link_live_def work_ends_def demo_link_def demo_call_def hot_server_def
        new_conn_def)
  have m: "nth [5, 6 :: u8] i = of_nat i + 5" if "i < 2" for i
    using that by (cases i) auto
  have f: "sv_slab (lk_server recv_link) = slab16" "lk_calls recv_link = 0" "lk_mapped recv_link = Some 7" "length (lk_mem recv_link) = 16"
    "tr_Recv (sv_transport (lk_server recv_link)) = (\<lambda>_ _ _ _. None)" "ce_ctx (lk_env recv_link n) = None"
    "ce_mem (lk_env recv_link 1) = (\<lambda>i. if i < 2 then Some (of_nat i + 5) else None)" "sl_size slab16 = 16" for n
    by (simp_all add: recv_link_def demo_link_def demo_call_def hot_server_def slab16_def)
  have "\<exists>lk'. db_recv 1 [0, 0] recv_link = Some ((None, [5, 6]), lk') \<and>
      map_of (cn_leases (lk_conn lk')) = map_of (cn_leases (lk_conn recv_link)) \<and>
      held (sv_slab (lk_server lk')) = held (sv_slab (lk_server recv_link))"
    by (rule daemon_recv_delivers [OF r _ _ _ a [folded f(1)]]) (use m in \<open>simp_all add: f f(7) [simplified]\<close>)
  then show ?thesis by (auto simp: f)
qed

section \<open>What goes wrong\<close>

definition gather_cancelled :: link where
  "gather_cancelled = demo_link (\<lambda>n. demo_call\<lparr>ce_ctx := if n = 3 then Some Canceled else None, ce_works := (\<lambda>_. None)\<rparr>)"

definition after_cancel :: "((client_error option \<times> bytes) \<times> link) \<Rightarrow>
    client_error option \<times> (u64 \<times> int \<times> int \<times> bool) list \<times> (u64 \<times> lease) list \<times> (slab_error + lease)" where
  "after_cancel = (\<lambda>((e, r), lk). (e, map (\<lambda>(i, w). (i, rq_dst_offset (wk_req w), rq_dst_length (wk_req w), wk_done w = None)) (cn_work (lk_conn lk)),
     cn_leases (lk_conn lk), fst (Alloc 8 (sv_slab (lk_server lk)))))"


text \<open>C37.  A read that times out shifts the answers.  The request was written and is answered; the answer stays
in the socket, and the next call on the connection takes it for its own.  So every later call reports the
outcome of the call before it.\<close>

theorem answers_shift:
  assumes "\<not> lk_nil lk" "\<not> lk_shut lk" "lk_pending lk = []"
    and "ce_ctx (lk_env lk (lk_calls lk)) = None" "ce_write (lk_env lk (lk_calls lk)) = None"
      "ce_read (lk_env lk (lk_calls lk)) = ReadTimeout e"
    and "ce_ctx (lk_env lk (Suc (lk_calls lk))) = None" "ce_write (lk_env lk (Suc (lk_calls lk))) = None"
      "ce_read (lk_env lk (Suc (lk_calls lk))) = Reads 1"
  shows "\<exists>lk1 lk2. client_call False req1 lk = (Inl (ReadResponse e), lk1) \<and>
    client_call False req2 lk1 =
      (case response_err (fst (served req1 lk)) of Some e \<Rightarrow> Inl (Remote e) | None \<Rightarrow> Inr (fst (served req1 lk)), lk2) \<and>
    lk_pending lk2 = [fst (served req2 lk1)]"
proof -
  obtain resp1 sv1 c1 where s1: "served req1 lk = (resp1, sv1, c1)" using prod_cases3 by blast
  define lk1 where "lk1 = snd (client_call False req1 lk)"
  note D = client_call_def client_do_def readResponse_def closeFDs_def Let_def served_def [symmetric]
  have "ce_ctx (this_env lk) = None" "ce_write (this_env lk) = None" "ce_read (this_env lk) = ReadTimeout e"
    using assms by (simp_all add: this_env_def)
  then have c: "client_call False req1 lk = (Inl (ReadResponse e), lk1)"
    and k: "lk_pending lk1 = [resp1]" "\<not> lk_nil lk1" "\<not> lk_shut lk1" "lk_env lk1 = lk_env lk" "lk_calls lk1 = Suc (lk_calls lk)"
    using assms s1 by (simp_all add: D lk1_def)
  then have "ce_ctx (this_env lk1) = None" "ce_write (this_env lk1) = None" "ce_read (this_env lk1) = Reads 1"
    using assms by (simp_all add: this_env_def)
  moreover obtain resp2 sv2 c2 where s2: "served req2 lk1 = (resp2, sv2, c2)" using prod_cases3 by blast
  ultimately have "fst (client_call False req2 lk1) = (case response_err resp1 of Some e \<Rightarrow> Inl (Remote e) | None \<Rightarrow> Inr resp1)"
    "lk_pending (snd (client_call False req2 lk1)) = [resp2]"
    using k by (auto simp: D split: option.splits)
  with c s1 s2 show ?thesis by (metis fst_conv prod.collapse)
qed

text \<open>A barrier that timed out, then a send of two bytes: the allocation takes the barrier's answer for its own.\<close>

definition late_link :: link where
  "late_link = (demo_link (\<lambda>n. demo_call\<lparr>ce_read := if n = 0 then ReadTimeout ''i/o timeout'' else Reads 1\<rparr>))
     \<lparr>lk_server := (hot_server slab16)\<lparr>sv_transport := disabledTransport\<lparr>tr_Barrier := (\<lambda>_. None)\<rparr>\<rparr>\<rparr>"

theorem answers_shift_witness:
  "\<exists>lk1 lk2. client_Barrier late_link = (Some (ReadResponse ''i/o timeout''), lk1) \<and>
     client_Alloc 2 lk1 = (Inr zero_lease, lk2) \<and> length (lk_pending lk2) = 1"
proof -
  let ?b = "empty_request\<lparr>rq_op := ''barrier''\<rparr>" and ?a = "empty_request\<lparr>rq_op := ''alloc'', rq_size := 2\<rparr>"
  have "fst (served ?b late_link) = ok_response"
    by (simp add: served_def serve_request_def handle_barrier_def Let_def late_link_def transport_reply_def)
  with answers_shift [of late_link "''i/o timeout''" ?b ?a] show ?thesis
    by (auto simp: client_Barrier_def client_Alloc_def call_error_def call_result_def response_err_def ok_response_def
        lease_of_def late_link_def demo_link_def demo_call_def)
qed

end
