(* ===== verification/Paths.thy ===== *)
theory Paths
  imports GoStrings
begin

text \<open>
  Slash-separated paths: \<^verbatim>\<open>filepath.Clean\<close>, \<^verbatim>\<open>filepath.Dir\<close> and \<^verbatim>\<open>filepath.Join\<close>, as far as the
  control server and the operator commands use them.
\<close>

text \<open>One element of a path; the elements kept so far are held last first.\<close>

fun clean_push :: "bool \<Rightarrow> string list \<Rightarrow> string \<Rightarrow> string list" where
  "clean_push rooted out c =
     (if c = '''' \<or> c = ''.'' then out
      else if c = ''..'' then
        (case out of [] \<Rightarrow> if rooted then [] else [c]
         | t # ts \<Rightarrow> if t = ''..'' then c # out else ts)
      else c # out)"

declare clean_push.simps [simp del]

definition clean_elems :: "bool \<Rightarrow> string list \<Rightarrow> string list" where
  "clean_elems rooted cs = rev (foldl (clean_push rooted) [] cs)"

definition is_rooted :: "string \<Rightarrow> bool" where
  "is_rooted p \<longleftrightarrow> p \<noteq> '''' \<and> hd p = CHR ''/''"

definition path_Clean :: "string \<Rightarrow> string" where
  "path_Clean p =
     (let s = Join ''/'' (clean_elems (is_rooted p) (Split (CHR ''/'') p)) in
      if is_rooted p then CHR ''/'' # s else if s = '''' then ''.'' else s)"

definition path_Dir :: "string \<Rightarrow> string" where
  "path_Dir p = path_Clean (rev (dropWhile (\<lambda>c. c \<noteq> CHR ''/'') (rev p)))"

definition path_Join :: "string \<Rightarrow> string \<Rightarrow> string" where
  "path_Join a b =
     (if a = '''' \<and> b = '''' then '''' else if a = '''' then path_Clean b else path_Clean (a @ ''/'' @ b))"

lemma path_Clean_nonempty [simp]: "path_Clean p \<noteq> ''''"
  by (simp add: path_Clean_def Let_def)

lemma path_Dir_nonempty [simp]: "path_Dir p \<noteq> ''''"
  by (simp add: path_Dir_def)

text \<open>What is kept: real names, after leading parents when the path is relative; cleaning such a list again changes nothing.\<close>

definition clean_name :: "string \<Rightarrow> bool" where
  "clean_name c \<longleftrightarrow> c \<noteq> '''' \<and> c \<noteq> ''.'' \<and> c \<noteq> ''..''"

definition clean_stack :: "bool \<Rightarrow> string list \<Rightarrow> bool" where
  "clean_stack rooted out \<longleftrightarrow>
     (\<exists>ns n. out = ns @ replicate n ''..'' \<and> (\<forall>c \<in> set ns. clean_name c) \<and> (rooted \<longrightarrow> n = 0))"

lemma clean_push_stack:
  assumes "clean_stack rooted out"
  shows "clean_stack rooted (clean_push rooted out c)"
proof -
  obtain ns n where o: "out = ns @ replicate n ''..''" "\<forall>c \<in> set ns. clean_name c" "rooted \<longrightarrow> n = 0"
    using assms by (auto simp: clean_stack_def)
  consider "c = '''' \<or> c = ''.''" | "c = ''..''" "ns = []" | m ms where "c = ''..''" "ns = m # ms" | "clean_name c"
    by (cases ns) (auto simp: clean_name_def)
  then show ?thesis
  proof cases
    case 1
    then show ?thesis using assms by (auto simp: clean_push.simps)
  next
    case 2
    then have "clean_push rooted out c = (if rooted then [] else replicate (Suc n) ''..'')"
      using o by (cases n) (auto simp: clean_push.simps)
    then show ?thesis by (auto simp: clean_stack_def intro: exI [of _ "[]"] simp del: replicate_Suc)
  next
    case (3 m ms)
    then have "clean_push rooted out c = ms @ replicate n ''..''"
      using o by (auto simp: clean_push.simps clean_name_def)
    then show ?thesis using 3 o by (auto simp: clean_stack_def)
  next
    case 4
    then have "clean_push rooted out c = (c # ns) @ replicate n ''..''"
      using o(1) by (auto simp: clean_push.simps clean_name_def)
    then show ?thesis using 4 o unfolding clean_stack_def by (metis set_ConsD)
  qed
qed

lemma clean_fold_stack: "clean_stack rooted out \<Longrightarrow> clean_stack rooted (foldl (clean_push rooted) out cs)"
  by (induction cs arbitrary: out) (simp_all add: clean_push_stack)

lemma clean_push_keeps:
  "clean_stack rooted (c # out) \<Longrightarrow> clean_push rooted out c = c # out"
proof -
  assume "clean_stack rooted (c # out)"
  then obtain ns n where o: "c # out = ns @ replicate n ''..''" "\<forall>c \<in> set ns. clean_name c" "rooted \<longrightarrow> n = 0"
    by (auto simp: clean_stack_def)
  show ?thesis
  proof (cases ns)
    case Nil
    then obtain k where "n = Suc k" "c = ''..''" "out = replicate k ''..''" using o(1) by (cases n) auto
    then show ?thesis using o(3) by (cases k) (auto simp: clean_push.simps)
  next
    case (Cons m ms)
    then show ?thesis using o by (auto simp: clean_push.simps clean_name_def)
  qed
qed

lemma clean_stack_tl: "clean_stack rooted (c # out) \<Longrightarrow> clean_stack rooted out"
  unfolding clean_stack_def
proof (elim exE conjE)
  fix ns n assume o: "c # out = ns @ replicate n ''..''" "\<forall>c \<in> set ns. clean_name c" "rooted \<longrightarrow> n = 0"
  show "\<exists>ns n. out = ns @ replicate n ''..'' \<and> (\<forall>c \<in> set ns. clean_name c) \<and> (rooted \<longrightarrow> n = 0)"
  proof (cases ns)
    case Nil
    then show ?thesis using o by (intro exI [of _ "[]"] exI [of _ "n - 1"]) (cases n; auto)
  next
    case (Cons m ms)
    then show ?thesis using o by auto
  qed
qed

lemma clean_fold_keeps: "clean_stack rooted out \<Longrightarrow> foldl (clean_push rooted) [] (rev out) = out"
  by (induction out) (auto simp: clean_stack_tl clean_push_keeps)

lemma clean_elems_idem: "clean_elems rooted (clean_elems rooted cs) = clean_elems rooted cs"
proof -
  have "clean_stack rooted []" by (auto simp: clean_stack_def)
  then show ?thesis using clean_fold_keeps [OF clean_fold_stack] by (simp add: clean_elems_def)
qed

lemma clean_elems_parents:
  assumes "''..'' \<in> set (clean_elems rooted cs)"
  shows "\<not> rooted"
proof -
  have "clean_stack rooted (foldl (clean_push rooted) [] cs)" by (rule clean_fold_stack) (auto simp: clean_stack_def)
  then obtain ns n where o: "foldl (clean_push rooted) [] cs = ns @ replicate n ''..''" "\<forall>c \<in> set ns. clean_name c" "rooted \<longrightarrow> n = 0"
    unfolding clean_stack_def by blast
  have "''..'' \<notin> set ns" using o(2) unfolding clean_name_def by blast
  then have "n \<noteq> 0" using assms o(1) unfolding clean_elems_def by (cases n) simp_all
  then show ?thesis using o(3) by blast
qed

lemma Split_elem_no_sep: "c \<in> set (Split sep s) \<Longrightarrow> sep \<notin> set c"
  by (induction s arbitrary: c) (auto split: if_splits list.splits)

lemma clean_push_subset: "set (clean_push rooted out c) \<subseteq> insert c (set out)"
  by (auto simp: clean_push.simps split: list.splits if_splits)

lemma clean_fold_subset: "set (foldl (clean_push rooted) out cs) \<subseteq> set out \<union> set cs"
proof (induction cs arbitrary: out)
  case (Cons c cs)
  then show ?case using clean_push_subset [of rooted out c] by fastforce
qed simp

lemma clean_elems_subset: "set (clean_elems rooted cs) \<subseteq> set cs"
  using clean_fold_subset [of rooted "[]" cs] by (simp add: clean_elems_def)

lemma clean_elems_nonempty:
  assumes "c \<in> set (clean_elems rooted cs)"
  shows "c \<noteq> ''''"
proof -
  have "clean_stack rooted (foldl (clean_push rooted) [] cs)" by (rule clean_fold_stack) (auto simp: clean_stack_def)
  then obtain ns n where o: "foldl (clean_push rooted) [] cs = ns @ replicate n ''..''" "\<forall>c \<in> set ns. clean_name c"
    unfolding clean_stack_def by blast
  have "c \<in> set ns \<or> c = ''..''" using assms o(1) unfolding clean_elems_def by (auto split: if_splits)
  then show ?thesis using o(2) by (auto simp: clean_name_def)
qed

lemma clean_elems_skip: "clean_elems rooted ('''' # cs) = clean_elems rooted cs"
  by (simp add: clean_elems_def clean_push.simps)

lemma Join_hd: "e \<noteq> [] \<Longrightarrow> hd (Join sep (e # es)) = hd e \<and> Join sep (e # es) \<noteq> []"
  by (cases es) auto

text \<open>Cleaning a path twice is cleaning it once.\<close>

lemma path_Clean_idem: "path_Clean (path_Clean p) = path_Clean p"
proof -
  let ?r = "is_rooted p" and ?es = "clean_elems (is_rooted p) (Split (CHR ''/'') p)"
  have ne: "\<forall>e \<in> set ?es. e \<noteq> '''' \<and> CHR ''/'' \<notin> set e"
    using clean_elems_nonempty Split_elem_no_sep clean_elems_subset by blast
  show ?thesis
  proof (cases ?es)
    case Nil
    then have "path_Clean p = (if ?r then ''/'' else ''.'')" by (simp add: path_Clean_def)
    then show ?thesis by (simp add: path_Clean_def is_rooted_def clean_elems_def clean_push.simps)
  next
    case (Cons e es)
    let ?s = "Join ''/'' ?es"
    have S: "Split (CHR ''/'') ?s = ?es" using Cons ne by (intro Split_Join) auto
    have J: "hd ?s = hd e" "?s \<noteq> ''''" using Cons ne Join_hd [of e "''/''" es] by auto
    have P: "path_Clean p = (if ?r then CHR ''/'' # ?s else ?s)" using J(2) by (cases ?r) (simp_all add: path_Clean_def Let_def)
    have "hd e \<noteq> CHR ''/''" using Cons ne by (metis hd_in_set list.set_intros(1))
    then have R: "is_rooted (path_Clean p) = ?r" using P J by (simp add: is_rooted_def)
    have E: "clean_elems ?r (Split (CHR ''/'') (path_Clean p)) = ?es"
      using P S clean_elems_skip [of ?r ?es] clean_elems_idem [of ?r "Split (CHR ''/'') p"] by (cases ?r) auto
    have "path_Clean (path_Clean p) = (if ?r then CHR ''/'' # ?s else if ?s = '''' then ''.'' else ?s)"
      unfolding path_Clean_def [of "path_Clean p"] Let_def R E ..
    then show ?thesis using P J(2) by (cases ?r) simp_all
  qed
qed

end
