(* ===== verification/Listener.thy ===== *)
theory Listener
  imports Paths Ipc
begin

text \<open>
  The listening socket of the control server, \<^verbatim>\<open>src/internal/ipc/server.go\<close> (\<^verbatim>\<open>prepareSocketPath\<close>,
  \<^verbatim>\<open>Server.ListenAndServe\<close>).  The answers of the operating system are arguments; what the code asks of it
  is a trace.  The connections it accepts are served as in \<open>Connections\<close>.
\<close>

datatype listen_error =
    CreateDirectory string string
  | StatDirectory string string
  | NotDirectory string
  | NotOwnerOnly string nat
  | RemoveStale string
  | ListenUnix string string
  | ChmodSocket string string
  | AcceptIpc string

datatype os_call =
    MkdirAll string nat
  | StatPath string
  | RemovePath string
  | BindSocket string
  | ChmodPath string nat
  | CloseListener
  | ServeConn nat

datatype remove_answer = Removed | NoSuchFile | RemoveError string

text \<open>\<open>so_Stat\<close> answers whether the path is a directory, and its permission bits.\<close>

record socket_os =
  so_MkdirAll :: "string \<Rightarrow> string option"
  so_Stat :: "string \<Rightarrow> string + bool \<times> nat"
  so_Remove :: remove_answer
  so_Listen :: "string option"
  so_Chmod :: "string option"

definition DefaultSocket :: string where
  "DefaultSocket = ''/tmp/jaccld/jaccld.sock''"

definition prepareSocketPath :: "socket_os \<Rightarrow> string \<Rightarrow> listen_error option \<times> os_call list" where
  "prepareSocketPath os path =
     (let dir = path_Dir path in
      if dir = ''.'' \<or> dir = '''' then (None, [])
      else case so_MkdirAll os dir of Some e \<Rightarrow> (Some (CreateDirectory dir e), [MkdirAll dir 448])
      | None \<Rightarrow>
          (case so_Stat os dir of
             Inl e \<Rightarrow> (Some (StatDirectory dir e), [MkdirAll dir 448, StatPath dir])
           | Inr (isDir, perm) \<Rightarrow>
               (if \<not> isDir then Some (NotDirectory dir)
                else if and perm 63 \<noteq> 0 then Some (NotOwnerOnly dir perm) else None,
                [MkdirAll dir 448, StatPath dir])))"

text \<open>
  The accept loop over what \<^verbatim>\<open>AcceptUnix\<close> returns: a connection, or an error together with whether the
  context has ended or the listener is closed.  The list ends where the process has got to: the loop is then
  still waiting.
\<close>

datatype accepted = AcceptedConn nat | AcceptError string bool

fun accept_loop :: "accepted list \<Rightarrow> listen_error option option \<times> os_call list" where
  "accept_loop [] = (None, [])"
| "accept_loop (AcceptedConn c # as) = (case accept_loop as of (r, tr) \<Rightarrow> (r, ServeConn c # tr))"
| "accept_loop (AcceptError e over # as) = (Some (if over then None else Some (AcceptIpc e)), [])"

text \<open>The result is \<open>None\<close> while the server is running; the deferred calls run when it returns.\<close>

definition ListenAndServe :: "socket_os \<Rightarrow> accepted list \<Rightarrow> string \<Rightarrow> listen_error option option \<times> os_call list" where
  "ListenAndServe os as path0 =
     (let path = (if path0 = '''' then DefaultSocket else path0) in
      case prepareSocketPath os path of (Some e, tr) \<Rightarrow> (Some (Some e), tr)
      | (None, tr) \<Rightarrow>
          (case so_Remove os of
             RemoveError e \<Rightarrow> (Some (Some (RemoveStale e)), tr @ [RemovePath path])
           | _ \<Rightarrow>
               (case so_Listen os of
                  Some e \<Rightarrow> (Some (Some (ListenUnix path e)), tr @ [RemovePath path, BindSocket path])
                | None \<Rightarrow>
                    (case so_Chmod os of
                       Some e \<Rightarrow> (Some (Some (ChmodSocket path e)),
                                  tr @ [RemovePath path, BindSocket path, ChmodPath path 384, CloseListener])
                     | None \<Rightarrow>
                         (case accept_loop as of (r, served) \<Rightarrow>
                            (r, tr @ [RemovePath path, BindSocket path, ChmodPath path 384] @ served @
                                (if r = None then [] else [CloseListener, RemovePath path])))))))"

section \<open>Only the owner reaches the socket\<close>

definition owner_only :: "socket_os \<Rightarrow> string \<Rightarrow> bool" where
  "owner_only os dir \<longleftrightarrow> (case so_Stat os dir of Inl _ \<Rightarrow> False | Inr (isDir, perm) \<Rightarrow> isDir \<and> and perm 63 = 0)"

lemma prepareSocketPath_ok:
  "fst (prepareSocketPath os path) = None \<longleftrightarrow>
     path_Dir path = ''.'' \<or> so_MkdirAll os (path_Dir path) = None \<and> owner_only os (path_Dir path)"
  by (auto simp: prepareSocketPath_def Let_def owner_only_def split: option.splits sum.splits prod.splits)

lemma prepareSocketPath_trace:
  "set (snd (prepareSocketPath os path)) \<subseteq> {MkdirAll (path_Dir path) 448, StatPath (path_Dir path)}"
  by (auto simp: prepareSocketPath_def Let_def split: option.splits sum.splits prod.splits)

lemma accept_loop_served:
  "accept_loop as = (r, tr) \<Longrightarrow>
     tr = map ServeConn (List.map_filter (\<lambda>a. case a of AcceptedConn c \<Rightarrow> Some c | AcceptError _ _ \<Rightarrow> None)
            (takeWhile (\<lambda>a. case a of AcceptedConn _ \<Rightarrow> True | AcceptError _ _ \<Rightarrow> False) as)) \<and>
     (r = None \<longleftrightarrow> (\<forall>e over. AcceptError e over \<notin> set as))"
proof (induction as arbitrary: r tr rule: accept_loop.induct)
  case (2 c as)
  then show ?case by (auto simp: List.map_filter_def split: prod.splits)
qed (auto simp: List.map_filter_def)

text \<open>
  A connection is served only on a socket in a directory that exists and that only its owner may enter, unless
  the path names the current directory; before the first connection the socket itself was made private.
\<close>

lemma served_only_private:
  assumes "ListenAndServe os as p = (r, tr)" "ServeConn c \<in> set tr" and path: "path = (if p = '''' then DefaultSocket else p)"
  shows "path_Dir path = ''.'' \<or> so_MkdirAll os (path_Dir path) = None \<and> owner_only os (path_Dir path)"
    and "\<exists>pre post. tr = pre @ [BindSocket path, ChmodPath path 384] @ post \<and> (\<forall>d. ServeConn d \<notin> set pre)"
proof -
  obtain e0 tr0 where P: "prepareSocketPath os path = (e0, tr0)" by fastforce
  have no: "ServeConn d \<notin> set tr0" for d using prepareSocketPath_trace [of os path] P by auto
  obtain r1 served where A: "accept_loop as = (r1, served)" by fastforce
  note L = assms(1) [unfolded ListenAndServe_def Let_def path [symmetric] P, simplified]
  have ok: "e0 = None" "tr = tr0 @ [RemovePath path, BindSocket path, ChmodPath path 384] @ served @
      (if r1 = None then [] else [CloseListener, RemovePath path])"
    using L assms(2) no by (auto simp: A split: option.splits remove_answer.splits)
  show "path_Dir path = ''.'' \<or> so_MkdirAll os (path_Dir path) = None \<and> owner_only os (path_Dir path)"
    using prepareSocketPath_ok [of os path] P ok(1) by simp
  show "\<exists>pre post. tr = pre @ [BindSocket path, ChmodPath path 384] @ post \<and> (\<forall>d. ServeConn d \<notin> set pre)"
    unfolding ok(2) by (rule exI [of _ "tr0 @ [RemovePath path]"]) (use no in auto)
qed

text \<open>
  A server that returns has closed every listener it opened; when its end was asked for it returns nil, after it
  has served the connections accepted until then, in their order, and it removes its socket.
\<close>

lemma ListenAndServe_closes:
  assumes "ListenAndServe os as p = (Some err, tr)" "so_Listen os = None"
  shows "count_list tr CloseListener = count_list tr (BindSocket (if p = '''' then DefaultSocket else p))"
proof -
  define path where "path = (if p = '''' then DefaultSocket else p)"
  obtain e0 tr0 where P: "prepareSocketPath os path = (e0, tr0)" by fastforce
  have sub: "set tr0 \<subseteq> {MkdirAll (path_Dir path) 448, StatPath (path_Dir path)}"
    using prepareSocketPath_trace [of os path] P by simp
  have no: "count_list tr0 CloseListener = 0" "count_list tr0 (BindSocket path) = 0"
    using sub by (auto intro!: count_notin)
  obtain r1 served where A: "accept_loop as = (r1, served)" by fastforce
  have serve: "count_list served CloseListener = 0" "count_list served (BindSocket path) = 0"
    using accept_loop_served [OF A] by (auto intro!: count_notin)
  note L = assms(1) [unfolded ListenAndServe_def Let_def path_def [symmetric] P, simplified]
  show ?thesis
    unfolding path_def [symmetric] using L assms(2) no serve
    by (auto simp: A split: option.splits remove_answer.splits if_splits)
qed

lemma ListenAndServe_cancelled:
  assumes "fst (prepareSocketPath os p) = None" "p \<noteq> ''''" "\<forall>x. so_Remove os \<noteq> RemoveError x"
    "so_Listen os = None" "so_Chmod os = None"
  shows "\<exists>tr. ListenAndServe os (map AcceptedConn cs @ AcceptError e True # as) p =
    (Some None, tr @ map ServeConn cs @ [CloseListener, RemovePath p])"
proof -
  have "accept_loop (map AcceptedConn cs @ AcceptError e True # as) = (Some None, map ServeConn cs)" for cs
    by (induction cs) simp_all
  then show ?thesis
    using assms by (cases "prepareSocketPath os p") (auto simp: ListenAndServe_def Let_def split: remove_answer.splits)
qed

text \<open>
  A path with no directory part is listened on without a look at the directory, whatever its permissions are.
\<close>

lemma bare_path_unchecked:
  assumes "CHR ''/'' \<notin> set p" "p \<noteq> ''''" "\<forall>x. so_Remove os \<noteq> RemoveError x" "so_Listen os = None" "so_Chmod os = None"
  shows "ListenAndServe os (map AcceptedConn cs) p =
    (None, [RemovePath p, BindSocket p, ChmodPath p 384] @ map ServeConn cs)"
proof -
  have no_slash: "rev (dropWhile (\<lambda>c. c \<noteq> CHR ''/'') (rev p)) = []" using assms(1) by auto
  have "path_Dir p = ''.''"
    unfolding path_Dir_def no_slash by (simp add: path_Clean_def is_rooted_def clean_elems_def clean_push.simps)
  moreover have "accept_loop (map AcceptedConn cs) = (None, map ServeConn cs)" for cs by (induction cs) simp_all
  ultimately show ?thesis
    using assms(2-5) by (auto simp: ListenAndServe_def prepareSocketPath_def Let_def split: remove_answer.splits)
qed

end
