(* ===== verification/Diagnostics.thy ===== *)
theory Diagnostics
  imports Hardware SideChannel Paths
begin

text \<open>
  The operator diagnostics of \<^verbatim>\<open>src/cmd/jacclctl/main.go\<close>: the commands that make provider objects and
  close them again (\<^verbatim>\<open>rdma-alloc\<close>, \<^verbatim>\<open>rdma-init\<close>, \<^verbatim>\<open>rdma-metadata\<close>, \<^verbatim>\<open>rdma-rtr-diagnostic\<close>)
  and the two ends of \<^verbatim>\<open>tcp-diagnostic\<close>.

  The provider is the world of \<open>Hardware\<close>, a connection that of \<open>SideChannel\<close>.  The values of the flags are
  arguments.  A JSON file is the record it encodes; the text of an address is a pair of functions, with the
  round trip of \<^verbatim>\<open>net/netip\<close> as a hypothesis where a theorem needs it.  The error text in a report is the
  error itself.
\<close>

section \<open>Commands that make provider objects\<close>

datatype ctl_error =
    UnexpectedArguments
  | DeviceRequired
  | ArtifactRequired
  | PeerRequired
  | FlagNotPositive string int
  | GateClosed
  | CtlFile string
  | CtlCtx ctx_error
  | CtlProvider hw_error
  | CloseFailed string hw_error
  | QPNZero
  | ParseGID string
  | DecodePeer string

text \<open>The deferred loop over \<open>cleanups\<close>, which the caller passes last first: every function runs, and the first
error is kept when the command has none.\<close>

fun run_cleanups :: "(string \<times> nat) list \<Rightarrow> ctl_error option \<Rightarrow> prov_world \<Rightarrow> ctl_error option \<times> prov_world" where
  "run_cleanups [] err w = (err, w)"
| "run_cleanups ((name, i) # cs) err w =
     (case prov_close i w of (e, w') \<Rightarrow>
        run_cleanups cs (if err = None then map_option (CloseFailed name) e else err) w')"

definition resource_plan :: "(string \<times> prov_kind) list" where
  "resource_plan = [(''device'', KDevice), (''protection domain'', KSlot SlotProtectionDomain),
     (''completion queue'', KSlot SlotCompletionQueue), (''queue pair'', KSlot SlotQueuePair),
     (''memory region'', KSlot SlotMemoryRegion)]"

text \<open>\<open>cleanups\<close> after the objects that could be made.\<close>

definition cleanups :: "(string \<times> prov_kind) list \<Rightarrow> nat list \<Rightarrow> (string \<times> nat) list" where
  "cleanups plan js = zip (map fst plan) js"

record resource_flags =
  rf_device :: string
  rf_cqCapacity :: int
  rf_mrBytes :: int
  rf_narg :: nat

definition resource_check :: "resource_flags \<Rightarrow> ctx_error option \<Rightarrow> ctl_error option" where
  "resource_check f ctx =
     (if rf_narg f \<noteq> 0 then Some UnexpectedArguments
      else if rf_device f = '''' then Some DeviceRequired
      else if rf_cqCapacity f \<le> 0 then Some (FlagNotPositive ''cq-capacity'' (rf_cqCapacity f))
      else if rf_mrBytes f \<le> 0 then Some (FlagNotPositive ''mr-bytes'' (rf_mrBytes f))
      else map_option CtlCtx ctx)"

text \<open>The second component is the queue pair and the memory region whose attributes are printed.\<close>

definition runRDMAResourceCommand ::
  "bool \<Rightarrow> resource_flags \<Rightarrow> ctx_error option \<Rightarrow> prov_world \<Rightarrow> ctl_error option \<times> (nat \<times> nat) option \<times> prov_world" where
  "runRDMAResourceCommand initQP f ctx w =
     (case resource_check f ctx of Some e \<Rightarrow> (Some e, None, w)
      | None \<Rightarrow>
          (case open_objs (map snd resource_plan) w of (e, js, w1) \<Rightarrow>
           (case (if e = None \<and> initQP then prov_call w1 else (e, w1)) of (e', w2) \<Rightarrow>
            (case run_cleanups (rev (cleanups resource_plan js)) (map_option CtlProvider e') w2 of (err, w3) \<Rightarrow>
               (err, if e' = None then Some (js ! 3, js ! 4) else None, w3)))))"

definition runRDMAAllocCommand where "runRDMAAllocCommand = runRDMAResourceCommand False"
definition runRDMAInitCommand where "runRDMAInitCommand = runRDMAResourceCommand True"

text \<open>\<open>rdma-metadata\<close>: one device, one query, and the device is closed without looking at the error.  \<open>info\<close> is what
the query reports of the device.\<close>

definition runRDMAMetadataCommand ::
  "string \<Rightarrow> int \<Rightarrow> nat \<Rightarrow> ctx_error option \<Rightarrow> (nat \<Rightarrow> int \<Rightarrow> 'i) \<Rightarrow> prov_world \<Rightarrow> (ctl_error + 'i) \<times> prov_world" where
  "runRDMAMetadataCommand device maxGIDs narg ctx info w =
     (if narg \<noteq> 0 then (Inl UnexpectedArguments, w)
      else if device = '''' then (Inl DeviceRequired, w)
      else if maxGIDs \<le> 0 then (Inl (FlagNotPositive ''max-gids'' maxGIDs), w)
      else case ctx of Some e \<Rightarrow> (Inl (CtlCtx e), w)
      | None \<Rightarrow>
          (case prov_new KDevice w of (Inl e, w1) \<Rightarrow> (Inl (CtlProvider e), w1)
           | (Inr dev, w1) \<Rightarrow>
               (case prov_call w1 of (e, w2) \<Rightarrow>
                  (case e of Some x \<Rightarrow> Inl (CtlProvider x) | None \<Rightarrow> Inr (info dev maxGIDs), snd (prov_close dev w2)))))"

section \<open>Destination files\<close>

record rtr_record =
  rr_Device :: string
  rr_RouteInterface :: string
  rr_LID :: u16
  rr_QPN :: u32
  rr_PSN :: u32
  rr_GIDIndex :: int
  rr_GID :: string
  rr_GeneratedAt :: instant

text \<open>\<^verbatim>\<open>netip.AddrFrom16(...).String\<close> and \<^verbatim>\<open>netip.ParseAddr(...).As16\<close>.\<close>

record addr_text =
  at_String :: "bytes \<Rightarrow> string"
  at_Parse :: "string \<Rightarrow> string + bytes"

definition newRTRDestinationRecord :: "addr_text \<Rightarrow> string \<Rightarrow> string \<Rightarrow> instant \<Rightarrow> destination \<Rightarrow> rtr_record" where
  "newRTRDestinationRecord at device iface now dst =
     \<lparr> rr_Device = device, rr_RouteInterface = iface, rr_LID = de_LID dst, rr_QPN = de_QPN dst, rr_PSN = de_PSN dst,
       rr_GIDIndex = de_GIDIndex dst, rr_GID = at_String at (de_GID dst), rr_GeneratedAt = now \<rparr>"

definition record_destination :: "addr_text \<Rightarrow> rtr_record \<Rightarrow> ctl_error + destination" where
  "record_destination at r =
     (if rr_QPN r = 0 then Inl QPNZero
      else case at_Parse at (rr_GID r) of Inl e \<Rightarrow> Inl (ParseGID e)
      | Inr gid \<Rightarrow> Inr \<lparr> de_LID = rr_LID r, de_QPN = rr_QPN r, de_PSN = rr_PSN r, de_GIDIndex = rr_GIDIndex r, de_GID = gid \<rparr>)"

text \<open>What a path holds at the moment it is opened.\<close>

datatype peer_file = NotExist | OpenFailed string | NotJSON string | HoldsRecord rtr_record

datatype read_rtr = Missing | ReadRefused ctl_error | ReadRecord rtr_record destination

definition readRTRDestination :: "addr_text \<Rightarrow> peer_file \<Rightarrow> read_rtr" where
  "readRTRDestination at f =
     (case f of NotExist \<Rightarrow> Missing
      | OpenFailed e \<Rightarrow> ReadRefused (CtlFile e)
      | NotJSON e \<Rightarrow> ReadRefused (DecodePeer e)
      | HoldsRecord r \<Rightarrow> (case record_destination at r of Inl e \<Rightarrow> ReadRefused e | Inr d \<Rightarrow> ReadRecord r d))"

text \<open>
  \<open>waitRTRDestination\<close>: \<open>found k\<close> is what attempt \<open>k\<close> finds, \<open>done k\<close> the error of the context when the select after
  that attempt takes its case.  A loop that never ends is \<open>None\<close>.
\<close>

partial_function (option) waitRTRDestination ::
  "addr_text \<Rightarrow> (nat \<Rightarrow> peer_file) \<Rightarrow> (nat \<Rightarrow> ctx_error option) \<Rightarrow> nat \<Rightarrow> (ctl_error + rtr_record \<times> destination) option" where
  "waitRTRDestination at found stop k =
     (case readRTRDestination at (found k) of
        ReadRecord r d \<Rightarrow> Some (Inr (r, d))
      | ReadRefused e \<Rightarrow> Some (Inl e)
      | Missing \<Rightarrow> (case stop k of Some e \<Rightarrow> Some (Inl (CtlCtx e)) | None \<Rightarrow> waitRTRDestination at found stop (Suc k)))"

section \<open>The ready-to-receive diagnostic\<close>

text \<open>The four system calls of \<open>writeJSONFile\<close>; the file is closed after a failed encoding too.\<close>

record json_os =
  jo_MkdirAll :: "string option"
  jo_Create :: "string option"
  jo_Encode :: "string option"
  jo_Close :: "string option"

definition writeJSONFile :: "json_os \<Rightarrow> ctl_error option" where
  "writeJSONFile os =
     map_option CtlFile (first_error (jo_MkdirAll os) (first_error (jo_Create os) (first_error (jo_Encode os) (jo_Close os))))"

text \<open>The digits of \<^verbatim>\<open>%x\<close>.\<close>

fun hex :: "nat \<Rightarrow> string" where
  "hex n = (if n < 16 then [''0123456789abcdef'' ! n] else hex (n div 16) @ [''0123456789abcdef'' ! (n mod 16)])"

declare hex.simps [simp del]

record rtr_transition =
  rt_From :: string
  rt_To :: string
  rt_Mask :: nat
  rt_MaskHex :: string
  rt_MaskNames :: "string list"

definition rtrTransition :: "nat \<Rightarrow> rtr_transition" where
  "rtrTransition qp_mask =
     \<lparr> rt_From = ''INIT'', rt_To = ''RTR'', rt_Mask = qp_mask, rt_MaskHex = ''0x'' @ hex qp_mask,
       rt_MaskNames = [''IBV_QP_STATE'', ''IBV_QP_AV'', ''IBV_QP_PATH_MTU'', ''IBV_QP_DEST_QPN'', ''IBV_QP_RQ_PSN''] \<rparr>"

text \<open>A destination that has not been filled in, the zero record of the source, is \<open>None\<close>.\<close>

record rtr_report =
  rp_Command :: string
  rp_Device :: string
  rp_RouteInterface :: string
  rp_PeerRouteInterface :: string
  rp_CQCapacity :: int
  rp_AllowRTR :: bool
  rp_Gate :: string
  rp_GeneratedAt :: instant
  rp_Local :: "rtr_record option"
  rp_Remote :: "rtr_record option"
  rp_Transition :: rtr_transition
  rp_State :: string
  rp_Error :: "ctl_error option"
  rp_WorkRequests :: bool
  rp_ReadyToSend :: bool
  rp_DatapathClaim :: bool
  rp_IndexZeroRoute :: bool
  rp_IPv4MappedRoute :: bool
  rp_LocalDestinationFile :: string
  rp_PeerDestinationFile :: string

record rtr_flags =
  tf_device :: string
  tf_artifact :: string
  tf_localDestination :: string
  tf_peerDestination :: string
  tf_routeInterface :: string
  tf_peerRouteInterface :: string
  tf_cqCapacity :: int
  tf_waitPeer :: int
  tf_allowRTR :: bool
  tf_narg :: nat

text \<open>The process around the command: the variable of the gate, the file system, the clock and the context.\<close>

record rtr_env =
  te_gate :: string
  te_mkdir :: "string option"
  te_ctx :: "ctx_error option"
  te_now :: "nat \<Rightarrow> instant"
  te_mask :: nat
  te_writeLocal :: json_os
  te_file :: "nat \<Rightarrow> peer_file"
  te_stop :: "nat \<Rightarrow> ctx_error option"
  te_writeReport :: json_os

definition rtr_check :: "rtr_flags \<Rightarrow> rtr_env \<Rightarrow> ctl_error option" where
  "rtr_check f env =
     (if tf_narg f \<noteq> 0 then Some UnexpectedArguments
      else if tf_device f = '''' then Some DeviceRequired
      else if tf_artifact f = '''' then Some ArtifactRequired
      else if tf_cqCapacity f \<le> 0 then Some (FlagNotPositive ''cq-capacity'' (tf_cqCapacity f))
      else if tf_waitPeer f \<le> 0 then Some (FlagNotPositive ''wait-peer'' (tf_waitPeer f))
      else if tf_peerDestination f = '''' then Some PeerRequired
      else if \<not> tf_allowRTR f \<or> te_gate env \<noteq> ''one-shot-rtr'' then Some GateClosed
      else case te_mkdir env of Some e \<Rightarrow> Some (CtlFile e)
      | None \<Rightarrow> map_option CtlCtx (te_ctx env))"

definition rtrDiagnosticGate :: string where
  "rtrDiagnosticGate = ''JACCLCTL_RDMA_RTR_DIAGNOSTIC_ONE_SHOT''"

definition local_path :: "rtr_flags \<Rightarrow> string" where
  "local_path f =
     (if tf_localDestination f = '''' then path_Join (tf_artifact f) ''local-destination.json'' else tf_localDestination f)"

definition first_report :: "rtr_flags \<Rightarrow> rtr_env \<Rightarrow> rtr_report" where
  "first_report f env =
     \<lparr> rp_Command = ''rdma-rtr-diagnostic'', rp_Device = tf_device f, rp_RouteInterface = tf_routeInterface f, rp_PeerRouteInterface = tf_peerRouteInterface f,
       rp_CQCapacity = tf_cqCapacity f, rp_AllowRTR = True, rp_Gate = rtrDiagnosticGate, rp_GeneratedAt = te_now env 0, rp_Local = None, rp_Remote = None,
       rp_Transition = rtrTransition (te_mask env), rp_State = ''started'', rp_Error = None, rp_WorkRequests = False,
       rp_ReadyToSend = False, rp_DatapathClaim = False, rp_IndexZeroRoute = False,
       rp_IPv4MappedRoute = False, rp_LocalDestinationFile = local_path f, rp_PeerDestinationFile = tf_peerDestination f \<rparr>"

definition rtr_plan :: "(string \<times> prov_kind) list" where
  "rtr_plan = take 4 resource_plan"

definition plan_states :: "string list" where
  "plan_states = [''open_failed'', ''pd_failed'', ''cq_failed'', ''qp_failed'']"

definition fail_report :: "string \<Rightarrow> ctl_error \<Rightarrow> rtr_report \<Rightarrow> rtr_report" where
  "fail_report state e rep = rep\<lparr>rp_State := state, rp_Error := Some e\<rparr>"

definition Is4In6 :: "bytes \<Rightarrow> bool" where
  "Is4In6 gid \<longleftrightarrow> take 12 gid = replicate 10 0 @ [0xFF, 0xFF]"

definition local_report :: "addr_text \<Rightarrow> rtr_flags \<Rightarrow> rtr_env \<Rightarrow> destination \<Rightarrow> rtr_report \<Rightarrow> rtr_report" where
  "local_report at f env d rep =
     rep\<lparr>rp_Local := Some (newRTRDestinationRecord at (tf_device f) (tf_routeInterface f) (te_now env 1) d),
         rp_IndexZeroRoute := (de_GIDIndex d = 0 \<and> de_GID d \<noteq> replicate 16 0),
         rp_IPv4MappedRoute := Is4In6 (de_GID d)\<rparr>"

definition remote_record :: "rtr_flags \<Rightarrow> rtr_record \<Rightarrow> rtr_record" where
  "remote_record f r = (if rr_RouteInterface r = '''' then r\<lparr>rr_RouteInterface := tf_peerRouteInterface f\<rparr> else r)"

text \<open>What one run does: its error, its report, the addresses of the transition it asked for, the report it printed,
the objects it made and the world.\<close>

record rtr_outcome =
  ou_err :: "ctl_error option"
  ou_report :: rtr_report
  ou_asked :: "(destination \<times> destination) option"
  ou_printed :: "rtr_report option"
  ou_objs :: "nat list"
  ou_world :: prov_world

definition rtr_stop :: "string \<Rightarrow> ctl_error \<Rightarrow> rtr_report \<Rightarrow> nat list \<Rightarrow> prov_world \<Rightarrow> rtr_outcome" where
  "rtr_stop state e rep js w =
     \<lparr> ou_err = Some e, ou_report = fail_report state e rep, ou_asked = None, ou_printed = None, ou_objs = js, ou_world = w \<rparr>"

definition rtr_ask :: "destination \<Rightarrow> destination \<Rightarrow> rtr_report \<Rightarrow> nat list \<Rightarrow> prov_world \<Rightarrow> rtr_outcome" where
  "rtr_ask local remote rep js w =
     (case prov_call w of (e, w') \<Rightarrow>
        let rep' = (case e of Some x \<Rightarrow> fail_report ''rtr_failed'' (CtlProvider x) rep | None \<Rightarrow> rep\<lparr>rp_State := ''rtr_ready''\<rparr>) in
        \<lparr> ou_err = map_option CtlProvider e, ou_report = rep', ou_asked = Some (local, remote), ou_printed = Some rep',
          ou_objs = js, ou_world = w' \<rparr>)"

text \<open>From the local address to the transition.\<close>

definition rtr_exchange ::
  "addr_text \<Rightarrow> rtr_flags \<Rightarrow> rtr_env \<Rightarrow> destination \<Rightarrow> rtr_report \<Rightarrow> nat list \<Rightarrow> prov_world \<Rightarrow> rtr_outcome option" where
  "rtr_exchange at f env local rep js w =
     (let rep1 = local_report at f env local rep in
      case writeJSONFile (te_writeLocal env) of Some e \<Rightarrow> Some (rtr_stop ''write_local_destination_failed'' e rep1 js w)
      | None \<Rightarrow>
          (case waitRTRDestination at (te_file env) (te_stop env) 0 of None \<Rightarrow> None
           | Some (Inl e) \<Rightarrow> Some (rtr_stop ''peer_destination_failed'' e rep1 js w)
           | Some (Inr (r, remote)) \<Rightarrow> Some (rtr_ask local remote (rep1\<lparr>rp_Remote := Some (remote_record f r)\<rparr>) js w)))"

definition rtr_body :: "addr_text \<Rightarrow> rtr_flags \<Rightarrow> rtr_env \<Rightarrow> rtr_report \<Rightarrow> prov_world \<Rightarrow> rtr_outcome option" where
  "rtr_body at f env rep w =
     (case open_objs (map snd rtr_plan) w of
        (Some e, js, w1) \<Rightarrow> Some (rtr_stop (plan_states ! length js) (CtlProvider e) rep js w1)
      | (None, js, w1) \<Rightarrow>
          (case prov_call w1 of (Some e, w2) \<Rightarrow> Some (rtr_stop ''init_failed'' (CtlProvider e) rep js w2)
           | (None, w2) \<Rightarrow>
               (case prov_call w2 of (Some e, w3) \<Rightarrow> Some (rtr_stop ''local_destination_failed'' (CtlProvider e) rep js w3)
                | (None, w3) \<Rightarrow> rtr_exchange at f env (wo_dest w3 (js ! 3)) rep js w3)))"

text \<open>The two deferred functions: the objects are closed first, then the report is written.  The report is \<open>None\<close>
when the command stopped before it had one.\<close>

definition runRDMARTRDiagnosticCommand ::
  "addr_text \<Rightarrow> rtr_flags \<Rightarrow> rtr_env \<Rightarrow> prov_world \<Rightarrow> (ctl_error option \<times> rtr_outcome option \<times> prov_world) option" where
  "runRDMARTRDiagnosticCommand at f env w =
     (case rtr_check f env of Some e \<Rightarrow> Some (Some e, None, w)
      | None \<Rightarrow>
          (case rtr_body at f env (first_report f env) w of None \<Rightarrow> None
           | Some ou \<Rightarrow>
               (case run_cleanups (rev (cleanups rtr_plan (ou_objs ou))) (ou_err ou) (ou_world ou) of (err, w') \<Rightarrow>
                  Some (first_error err (writeJSONFile (te_writeReport env)),
                        Some (ou\<lparr>ou_report := (ou_report ou)\<lparr>rp_GeneratedAt := te_now env 2\<rparr>\<rparr>), w'))))"

section \<open>The TCP diagnostic\<close>

datatype tcp_error =
    TcpArguments
  | TcpExactlyOne
  | TcpTimeout int
  | TcpListen string
  | TcpDial string
  | TcpCtx ctx_error
  | TcpAccept string
  | TcpRead side_error
  | TcpPayloadMismatch
  | TcpWriteAck side_error
  | TcpWrite side_error
  | TcpReadAck side_error
  | TcpAckMismatch

definition tcpDiagnosticAck :: bytes where
  "tcpDiagnosticAck = str_bytes ''gojaccl tcp diagnostic ack''"

text \<open>After \<open>Accept\<close>; the result is \<open>None\<close> while a read waits.\<close>

definition serve_accepted :: "bytes \<Rightarrow> tcp_conn \<Rightarrow> (tcp_error option \<times> tcp_conn) option" where
  "serve_accepted payload c =
     (case ReadFrame c of None \<Rightarrow> None
      | Some (Inl e, c') \<Rightarrow> Some (Some (TcpRead e), c')
      | Some (Inr got, c') \<Rightarrow>
          if got \<noteq> payload then Some (Some TcpPayloadMismatch, c')
          else (case WriteFrame tcpDiagnosticAck c' of (e, c'') \<Rightarrow> Some (map_option TcpWriteAck e, c'')))"

text \<open>\<open>Accept\<close> fails with its error and what the context says then, or gives a connection.\<close>

definition serveTCPDiagnostic ::
  "(string \<times> ctx_error option) + tcp_conn \<Rightarrow> bytes \<Rightarrow> (tcp_error option \<times> tcp_conn option) option" where
  "serveTCPDiagnostic accept payload =
     (case accept of
        Inl (e, Some x) \<Rightarrow> Some (Some (TcpCtx x), None)
      | Inl (e, None) \<Rightarrow> Some (Some (TcpAccept e), None)
      | Inr c \<Rightarrow> map_option (\<lambda>(e, c'). (e, Some c')) (serve_accepted payload c))"

definition tcpDiagnosticListen ::
  "string + (string \<times> ctx_error option) + tcp_conn \<Rightarrow> bytes \<Rightarrow> (tcp_error option \<times> tcp_conn option) option" where
  "tcpDiagnosticListen ln payload =
     (case ln of Inl e \<Rightarrow> Some (Some (TcpListen e), None) | Inr accept \<Rightarrow> serveTCPDiagnostic accept payload)"

definition tcpDiagnosticDial :: "string + tcp_conn \<Rightarrow> bytes \<Rightarrow> (tcp_error option \<times> tcp_conn option) option" where
  "tcpDiagnosticDial dialled payload =
     (case dialled of Inl e \<Rightarrow> Some (Some (TcpDial e), None)
      | Inr c \<Rightarrow>
          (case WriteFrame payload c of (Some e, c') \<Rightarrow> Some (Some (TcpWrite e), Some c')
           | (None, c') \<Rightarrow>
               (case ReadFrame c' of None \<Rightarrow> None
                | Some (Inl e, c'') \<Rightarrow> Some (Some (TcpReadAck e), Some c'')
                | Some (Inr ack, c'') \<Rightarrow>
                    Some (if ack \<noteq> tcpDiagnosticAck then Some TcpAckMismatch else None, Some c''))))"

definition runTCPDiagnosticCommand ::
  "string \<Rightarrow> string \<Rightarrow> int \<Rightarrow> nat \<Rightarrow> (string + (string \<times> ctx_error option) + tcp_conn) \<Rightarrow> string + tcp_conn \<Rightarrow> bytes \<Rightarrow>
   (tcp_error option \<times> tcp_conn option) option" where
  "runTCPDiagnosticCommand listen dial timeout narg ln dialled payload =
     (if narg \<noteq> 0 then Some (Some TcpArguments, None)
      else if (listen = '''') = (dial = '''') then Some (Some TcpExactlyOne, None)
      else if timeout \<le> 0 then Some (Some (TcpTimeout timeout), None)
      else if listen \<noteq> '''' then tcpDiagnosticListen ln payload
      else tcpDiagnosticDial dialled payload)"

section \<open>Every object is closed\<close>

lemma run_cleanups_world: "snd (run_cleanups cs err w) = snd (close_objs (map snd cs) w)"
  by (induction cs arbitrary: err w) (auto split: prod.splits)

lemma run_cleanups_err:
  "fst (run_cleanups cs err w) = None \<longleftrightarrow> err = None \<and> fst (close_objs (map snd cs) w) = None"
  by (induction cs arbitrary: err w) (auto split: prod.splits if_splits)

lemma open_objs_length: "open_objs ks w = (e, js, w') \<Longrightarrow> length js \<le> length ks \<and> (e = None \<longrightarrow> length js = length ks)"
  by (induction ks arbitrary: w e js w') (fastforce split: prod.splits sum.splits)+

lemma cleanups_objs: "length js \<le> length plan \<Longrightarrow> map snd (rev (cleanups plan js)) = rev js"
  by (simp add: cleanups_def rev_map [symmetric] map_snd_zip_take)

text \<open>Objects made from nothing and closed in the reverse order are gone, whatever calls came between.\<close>

lemma opened_closed:
  assumes "world_ok w" "destroys w" "open_objs ks w = (e, js, w1)"
    and calls: "\<And>own d. holding w w1 own d \<Longrightarrow> holding w w2 own d"
  shows "wo_live (snd (close_objs (rev js) w2)) = wo_live w" "world_ok (snd (close_objs (rev js) w2))"
proof -
  obtain own d where O: "holding w w1 (own \<union> {}) d" "fst ` own = set js" "distinct js"
    using open_objs_holds [OF holding_start [OF assms(1)] assms(3)] by blast
  have H: "holding w w2 own d" using calls O(1) by simp
  have "\<forall>i \<in> set (rev js). \<exists>k. (i, k) \<in> own" unfolding set_rev O(2) [symmetric] by auto
  then obtain d' where "holding w (snd (close_objs (rev js) w2)) {x \<in> own. fst x \<notin> set (rev js)} d'"
    using close_objs_holds [OF H assms(2), of "rev js"] O(3) by auto
  moreover have "{x \<in> own. fst x \<notin> set (rev js)} = {}" unfolding set_rev O(2) [symmetric] by auto
  ultimately have E: "holding w (snd (close_objs (rev js) w2)) {} d'" by (simp only:)
  then show "wo_live (snd (close_objs (rev js) w2)) = wo_live w" by (rule holding_end)
  show "world_ok (snd (close_objs (rev js) w2))" using E by (simp add: holding_def)
qed

text \<open>
  \<open>rdma-alloc\<close> and \<open>rdma-init\<close>: whatever flag, context or provider call fails, the objects that are live afterwards
  are exactly those that were live before.
\<close>

lemma resource_command_releases:
  assumes "world_ok w" "destroys w" "runRDMAResourceCommand initQP f ctx w = (err, shown, w')"
  shows "wo_live w' = wo_live w"
proof (cases "resource_check f ctx")
  case (Some e)
  then show ?thesis using assms(3) by (simp add: runRDMAResourceCommand_def)
next
  case None
  obtain e js w1 where o: "open_objs (map snd resource_plan) w = (e, js, w1)" by (metis surj_pair)
  obtain e' w2 where c: "(if e = None \<and> initQP then prov_call w1 else (e, w1)) = (e', w2)" by fastforce
  have H: "holding w w2 own d" if "holding w w1 own d" for own d
    using c holding_call [OF that] that by (auto split: if_splits)
  have "length js \<le> length resource_plan" using open_objs_length [OF o] by simp
  note objs = cleanups_objs [OF this]
  obtain err3 w3 where r: "run_cleanups (rev (cleanups resource_plan js)) (map_option CtlProvider e') w2 = (err3, w3)" by fastforce
  have "w' = w3" using assms(3) None o c r by (simp add: runRDMAResourceCommand_def)
  then have "w' = snd (close_objs (rev js) w2)" using run_cleanups_world [of _ _ w2] r objs by (metis snd_conv)
  then show ?thesis using opened_closed(1) [OF assms(1,2) o H] by simp
qed

text \<open>A command that succeeds has shown its objects, and one refused by its flags or its context asks nothing of the
provider.\<close>

lemma resource_command_result:
  assumes "runRDMAResourceCommand initQP f ctx w = (err, shown, w')"
  shows "err = None \<Longrightarrow> shown \<noteq> None" "resource_check f ctx = Some e \<Longrightarrow> err = Some e \<and> shown = None \<and> w' = w"
proof -
  assume "err = None"
  moreover obtain x js w1 where o: "open_objs (map snd resource_plan) w = (x, js, w1)" by (metis surj_pair)
  moreover obtain x' w2 where c: "(if x = None \<and> initQP then prov_call w1 else (x, w1)) = (x', w2)" by fastforce
  ultimately have n: "resource_check f ctx = None" and
    r: "fst (run_cleanups (rev (cleanups resource_plan js)) (map_option CtlProvider x') w2) = None" "shown = (if x' = None then Some (js ! 3, js ! 4) else None)"
    using assms by (auto simp: runRDMAResourceCommand_def split: option.splits prod.splits)
  then show "shown \<noteq> None" using run_cleanups_err by force
next
  show "resource_check f ctx = Some e \<Longrightarrow> err = Some e \<and> shown = None \<and> w' = w"
    using assms by (simp add: runRDMAResourceCommand_def)
qed

section \<open>Waiting for the peer\<close>

lemma readRTRDestination_Missing: "readRTRDestination at f = Missing \<longleftrightarrow> f = NotExist"
  by (auto simp: readRTRDestination_def split: peer_file.splits sum.splits)

lemma wait_skip:
  "(\<And>j. i \<le> j \<Longrightarrow> j < k \<Longrightarrow> found j = NotExist \<and> stop j = None) \<Longrightarrow> i \<le> k \<Longrightarrow>
   waitRTRDestination at found stop i = waitRTRDestination at found stop k"
proof (induction "k - i" arbitrary: i)
  case (Suc n)
  then have "found i = NotExist" "stop i = None" by auto
  then have "waitRTRDestination at found stop i = waitRTRDestination at found stop (Suc i)"
    by (simp add: waitRTRDestination.simps [of at found stop i] readRTRDestination_def)
  also have "\<dots> = waitRTRDestination at found stop k" using Suc by (intro Suc.hyps(1)) auto
  finally show ?case .
qed simp

lemma wait_ends: "waitRTRDestination at found stop k = Some r \<Longrightarrow> \<exists>j \<ge> k. found j \<noteq> NotExist \<or> stop j \<noteq> None"
proof (rule waitRTRDestination.raw_induct [of "\<lambda>at found stop k r. \<exists>j \<ge> k. found j \<noteq> NotExist \<or> stop j \<noteq> None"])
  fix wait at found stop k r
  assume IH: "\<And>at found stop k r. wait at found stop k = Some r \<Longrightarrow> \<exists>j \<ge> k. found j \<noteq> NotExist \<or> stop j \<noteq> None"
    and W: "(case readRTRDestination at (found k) of ReadRecord r d \<Rightarrow> Some (Inr (r, d)) | ReadRefused e \<Rightarrow> Some (Inl e)
      | Missing \<Rightarrow> (case stop k of Some e \<Rightarrow> Some (Inl (CtlCtx e)) | None \<Rightarrow> wait at found stop (Suc k))) = Some r"
  show "\<exists>j \<ge> k. found j \<noteq> NotExist \<or> stop j \<noteq> None"
  proof (cases "found k \<noteq> NotExist \<or> stop k \<noteq> None")
    case False
    then have "wait at found stop (Suc k) = Some r" using W by (simp add: readRTRDestination_def)
    then show ?thesis using IH Suc_leD by blast
  qed blast
qed

lemma wait_at:
  assumes "\<forall>j < k. found j = NotExist \<and> stop j = None" "found k \<noteq> NotExist \<or> stop k \<noteq> None"
  shows "waitRTRDestination at found stop 0 =
     Some (case readRTRDestination at (found k) of ReadRecord r d \<Rightarrow> Inr (r, d) | ReadRefused e \<Rightarrow> Inl e
       | Missing \<Rightarrow> Inl (CtlCtx (the (stop k))))"
proof -
  have "waitRTRDestination at found stop 0 = waitRTRDestination at found stop k" using assms(1) by (intro wait_skip) auto
  also have "\<dots> = Some (case readRTRDestination at (found k) of ReadRecord r d \<Rightarrow> Inr (r, d) | ReadRefused e \<Rightarrow> Inl e
       | Missing \<Rightarrow> Inl (CtlCtx (the (stop k))))"
    using assms(2) by (subst waitRTRDestination.simps) (cases "found k = NotExist"; auto simp: readRTRDestination_def split: peer_file.splits sum.splits)
  finally show ?thesis .
qed

lemma wait_first:
  assumes "found k \<noteq> NotExist \<or> stop k \<noteq> None"
  obtains m where "waitRTRDestination at found stop 0 =
     Some (case readRTRDestination at (found m) of ReadRecord r d \<Rightarrow> Inr (r, d) | ReadRefused e \<Rightarrow> Inl e
       | Missing \<Rightarrow> Inl (CtlCtx (the (stop m))))"
proof -
  let ?m = "LEAST k. found k \<noteq> NotExist \<or> stop k \<noteq> None"
  have "\<forall>j < ?m. found j = NotExist \<and> stop j = None" using not_less_Least by blast
  then show thesis using that wait_at [of ?m] LeastI [of "\<lambda>k. found k \<noteq> NotExist \<or> stop k \<noteq> None", OF assms] by blast
qed

text \<open>
  The wait ends exactly when the file appears or the context ends, which a time limit guarantees, and a record it
  returns was in the file.
\<close>

lemma wait_exact:
  "(\<exists>r. waitRTRDestination at found stop 0 = Some r) \<longleftrightarrow> (\<exists>k. found k \<noteq> NotExist \<or> stop k \<noteq> None)"
proof
  show "\<exists>k. found k \<noteq> NotExist \<or> stop k \<noteq> None" if "\<exists>r. waitRTRDestination at found stop 0 = Some r"
    using that wait_ends by metis
  assume "\<exists>k. found k \<noteq> NotExist \<or> stop k \<noteq> None"
  then obtain k where "found k \<noteq> NotExist \<or> stop k \<noteq> None" ..
  then show "\<exists>r. waitRTRDestination at found stop 0 = Some r" by (rule wait_first) blast
qed

lemma wait_found:
  assumes "waitRTRDestination at found stop 0 = Some (Inr (rec, d))"
  shows "\<exists>k. found k = HoldsRecord rec \<and> record_destination at rec = Inr d"
proof -
  obtain k where "found k \<noteq> NotExist \<or> stop k \<noteq> None" using wait_ends [OF assms] by blast
  then obtain m where "Inr (rec, d) = (case readRTRDestination at (found m) of ReadRecord r d \<Rightarrow> Inr (r, d) | ReadRefused e \<Rightarrow> Inl e
       | Missing \<Rightarrow> Inl (CtlCtx (the (stop m))))"
    using assms by (metis wait_first option.inject)
  then have "readRTRDestination at (found m) = ReadRecord rec d" by (auto split: read_rtr.splits)
  then have "found m = HoldsRecord rec \<and> record_destination at rec = Inr d"
    by (auto simp: readRTRDestination_def split: peer_file.splits sum.splits)
  then show ?thesis ..
qed

section \<open>The ready-to-receive diagnostic asks once, behind its gate, and releases\<close>

lemma rtr_exchange_props:
  assumes "rtr_exchange at f env local rep js w = Some ou"
  shows "ou_objs ou = js" "holding w0 w own d \<Longrightarrow> holding w0 (ou_world ou) own d"
    "ou_err ou = None \<longleftrightarrow> rp_State (ou_report ou) = ''rtr_ready''"
    "ou_asked ou = Some (l, r) \<Longrightarrow>
       l = local \<and> rp_Local (ou_report ou) = Some (newRTRDestinationRecord at (tf_device f) (tf_routeInterface f) (te_now env 1) local) \<and>
       (\<exists>rec. waitRTRDestination at (te_file env) (te_stop env) 0 = Some (Inr (rec, r)))"
proof -
  consider e where "ou = rtr_stop ''write_local_destination_failed'' e (local_report at f env local rep) js w"
    | e where "ou = rtr_stop ''peer_destination_failed'' e (local_report at f env local rep) js w"
    | rec remote where "waitRTRDestination at (te_file env) (te_stop env) 0 = Some (Inr (rec, remote))"
        "ou = rtr_ask local remote ((local_report at f env local rep)\<lparr>rp_Remote := Some (remote_record f rec)\<rparr>) js w"
    using assms by (auto simp: rtr_exchange_def Let_def split: option.splits sum.splits prod.splits)
  then have "ou_objs ou = js \<and> (holding w0 w own d \<longrightarrow> holding w0 (ou_world ou) own d) \<and>
    (ou_err ou = None \<longleftrightarrow> rp_State (ou_report ou) = ''rtr_ready'') \<and>
    (ou_asked ou = Some (l, r) \<longrightarrow>
       l = local \<and> rp_Local (ou_report ou) = Some (newRTRDestinationRecord at (tf_device f) (tf_routeInterface f) (te_now env 1) local) \<and>
       (\<exists>rec. waitRTRDestination at (te_file env) (te_stop env) 0 = Some (Inr (rec, r))))"
  proof cases
    case (3 rec remote)
    obtain e w' where c: "prov_call w = (e, w')" by fastforce
    then show ?thesis using 3 holding_call [of w0 w own d e w']
      by (auto simp: rtr_ask_def Let_def fail_report_def local_report_def split: option.splits)
  qed (simp_all add: rtr_stop_def fail_report_def)
  then show "ou_objs ou = js" "holding w0 w own d \<Longrightarrow> holding w0 (ou_world ou) own d"
    "ou_err ou = None \<longleftrightarrow> rp_State (ou_report ou) = ''rtr_ready''"
    "ou_asked ou = Some (l, r) \<Longrightarrow>
       l = local \<and> rp_Local (ou_report ou) = Some (newRTRDestinationRecord at (tf_device f) (tf_routeInterface f) (te_now env 1) local) \<and>
       (\<exists>rec. waitRTRDestination at (te_file env) (te_stop env) 0 = Some (Inr (rec, r)))"
    by blast+
qed

lemma plan_states_not_ready: "n < 4 \<Longrightarrow> plan_states ! n \<noteq> ''rtr_ready''"
  by (auto simp: plan_states_def less_Suc_eq numeral_eq_Suc)

lemma open_objs_failed: "open_objs ks w = (Some e, js, w') \<Longrightarrow> length js < length ks"
  by (induction ks arbitrary: w js w') (fastforce split: prod.splits sum.splits)+

lemma rtr_body_props:
  assumes "rtr_body at f env rep w = Some ou"
  obtains e w1 where "open_objs (map snd rtr_plan) w = (e, ou_objs ou, w1)"
    "\<forall>own d. holding w w1 own d \<longrightarrow> holding w (ou_world ou) own d"
    "ou_err ou = None \<longleftrightarrow> rp_State (ou_report ou) = ''rtr_ready''"
    "\<forall>l r. ou_asked ou = Some (l, r) \<longrightarrow>
       rp_Local (ou_report ou) = Some (newRTRDestinationRecord at (tf_device f) (tf_routeInterface f) (te_now env 1) l) \<and>
       (\<exists>rec. waitRTRDestination at (te_file env) (te_stop env) 0 = Some (Inr (rec, r)))"
proof -
  obtain e js w1 where o: "open_objs (map snd rtr_plan) w = (e, js, w1)" by (metis surj_pair)
  obtain e2 w2 where c2: "prov_call w1 = (e2, w2)" by fastforce
  obtain e3 w3 where c3: "prov_call w2 = (e3, w3)" by fastforce
  show thesis
  proof (cases "e = None \<and> e2 = None \<and> e3 = None")
    case True
    then have X: "rtr_exchange at f env (wo_dest w3 (js ! 3)) rep js w3 = Some ou"
      using assms o c2 c3 by (simp add: rtr_body_def)
    show thesis
    proof (rule that [of e w1])
      show "\<forall>own d. holding w w1 own d \<longrightarrow> holding w (ou_world ou) own d"
        using rtr_exchange_props(2) [OF X holding_call [OF holding_call [OF _ c2] c3]] by blast
    qed (use rtr_exchange_props [OF X] o in blast)+
  next
    case False
    then obtain s x v where S: "ou = rtr_stop s x rep js v" "v \<in> {w1, w2, w3}" "s \<noteq> ''rtr_ready''"
      using assms o c2 c3 open_objs_failed [of "map snd rtr_plan" w _ js w1] plan_states_not_ready [of "length js"]
      by (auto simp: rtr_body_def rtr_plan_def resource_plan_def split: option.splits)
    have H: "holding w v own d" if "holding w w1 own d" for own d
      using S(2) that holding_call [OF that c2] holding_call [OF holding_call [OF that c2] c3] by auto
    show thesis
      using that [of e w1] o S(1,3) H by (simp add: rtr_stop_def fail_report_def)
  qed
qed

text \<open>
  The diagnostic: without the flag and the variable of the gate nothing is asked of the provider; whatever fails
  and whatever the peer does, a run that returns leaves exactly the objects that were live before; the report says
  \<open>rtr_ready\<close> exactly when nothing failed before the objects were closed; and a run with a time limit returns.
\<close>

lemma rtr_diagnostic_safe:
  assumes "world_ok w" "destroys w"
  shows "\<not> tf_allowRTR f \<or> te_gate env \<noteq> ''one-shot-rtr'' \<Longrightarrow>
      \<exists>e. runRDMARTRDiagnosticCommand at f env w = Some (Some e, None, w)"
    and "runRDMARTRDiagnosticCommand at f env w = Some (err, out, w') \<Longrightarrow> wo_live w' = wo_live w"
    and "runRDMARTRDiagnosticCommand at f env w = Some (err, Some ou, w') \<Longrightarrow>
      (ou_err ou = None \<longleftrightarrow> rp_State (ou_report ou) = ''rtr_ready'')"
    and "te_stop env k \<noteq> None \<Longrightarrow> runRDMARTRDiagnosticCommand at f env w \<noteq> None"
proof -
  show "\<exists>e. runRDMARTRDiagnosticCommand at f env w = Some (Some e, None, w)"
    if "\<not> tf_allowRTR f \<or> te_gate env \<noteq> ''one-shot-rtr''"
  proof -
    have "\<exists>e. rtr_check f env = Some e" using that by (auto simp: rtr_check_def)
    then show ?thesis by (auto simp: runRDMARTRDiagnosticCommand_def)
  qed
  have ran: "wo_live w' = wo_live w \<and> (ou_err ou = None \<longleftrightarrow> rp_State (ou_report ou) = ''rtr_ready'')"
    if R: "runRDMARTRDiagnosticCommand at f env w = Some (err, Some ou, w')" for ou
  proof -
    obtain ou0 where b: "rtr_body at f env (first_report f env) w = Some ou0" "ou_err ou = ou_err ou0"
      "rp_State (ou_report ou) = rp_State (ou_report ou0)"
      and r: "w' = snd (run_cleanups (rev (cleanups rtr_plan (ou_objs ou0))) (ou_err ou0) (ou_world ou0))"
      using R by (auto simp: runRDMARTRDiagnosticCommand_def split: option.splits prod.splits)
    obtain e w1 where o: "open_objs (map snd rtr_plan) w = (e, ou_objs ou0, w1)"
      and H: "\<forall>own d. holding w w1 own d \<longrightarrow> holding w (ou_world ou0) own d"
      and s: "ou_err ou0 = None \<longleftrightarrow> rp_State (ou_report ou0) = ''rtr_ready''"
      by (rule rtr_body_props [OF b(1)])
    have "length (ou_objs ou0) \<le> length rtr_plan" using open_objs_length [OF o] by simp
    then have "w' = snd (close_objs (rev (ou_objs ou0)) (ou_world ou0))"
      unfolding r run_cleanups_world by (simp only: cleanups_objs)
    then show ?thesis using opened_closed(1) [OF assms o H [rule_format]] b s by simp
  qed
  show "wo_live w' = wo_live w" if R: "runRDMARTRDiagnosticCommand at f env w = Some (err, out, w')"
  proof (cases out)
    case None
    then show ?thesis using R by (auto simp: runRDMARTRDiagnosticCommand_def split: option.splits prod.splits)
  qed (use ran R in blast)
  show "ou_err ou = None \<longleftrightarrow> rp_State (ou_report ou) = ''rtr_ready''"
    if "runRDMARTRDiagnosticCommand at f env w = Some (err, Some ou, w')" using ran [OF that] by blast
  show "runRDMARTRDiagnosticCommand at f env w \<noteq> None" if "te_stop env k \<noteq> None"
  proof -
    obtain r where "waitRTRDestination at (te_file env) (te_stop env) 0 = Some r"
      using wait_exact [of at "te_file env" "te_stop env"] \<open>te_stop env k \<noteq> None\<close> by blast
    then show ?thesis
      by (auto simp: runRDMARTRDiagnosticCommand_def rtr_body_def rtr_exchange_def Let_def split: option.splits sum.splits prod.splits)
  qed
qed

text \<open>
  Two machines that run the diagnostic against each other's file: each asks for the transition with the address the
  other reported as its own, every field of it, when printing an address and parsing it back gives the address.
\<close>

lemma rtr_record_roundtrip:
  assumes "at_Parse at (at_String at (de_GID d)) = Inr (de_GID d)"
  shows "record_destination at (newRTRDestinationRecord at device iface now d) = (if de_QPN d = 0 then Inl QPNZero else Inr d)"
  using assms by (simp add: record_destination_def newRTRDestinationRecord_def)

lemma rtr_run_asked:
  assumes "runRDMARTRDiagnosticCommand at f env w = Some (err, Some ou, w')" "ou_asked ou = Some (l, r)"
  shows "rp_Local (ou_report ou) = Some (newRTRDestinationRecord at (tf_device f) (tf_routeInterface f) (te_now env 1) l)"
    and "\<exists>k rec. te_file env k = HoldsRecord rec \<and> record_destination at rec = Inr r"
proof -
  obtain ou0 where b: "rtr_body at f env (first_report f env) w = Some ou0" "ou_asked ou0 = Some (l, r)"
    "rp_Local (ou_report ou) = rp_Local (ou_report ou0)"
    using assms by (auto simp: runRDMARTRDiagnosticCommand_def split: option.splits prod.splits)
  have B: "rp_Local (ou_report ou0) = Some (newRTRDestinationRecord at (tf_device f) (tf_routeInterface f) (te_now env 1) l) \<and>
    (\<exists>rec. waitRTRDestination at (te_file env) (te_stop env) 0 = Some (Inr (rec, r)))"
    by (rule rtr_body_props [OF b(1)]) (use b(2) in blast)
  then show "rp_Local (ou_report ou) = Some (newRTRDestinationRecord at (tf_device f) (tf_routeInterface f) (te_now env 1) l)"
    using b(3) by simp
  show "\<exists>k rec. te_file env k = HoldsRecord rec \<and> record_destination at rec = Inr r" using B wait_found by blast
qed

lemma rtr_pair_agrees:
  assumes net: "\<And>gid. length gid = 16 \<Longrightarrow> at_Parse at (at_String at gid) = Inr gid"
    and gids: "length (de_GID lA) = 16" "length (de_GID lB) = 16"
    and A: "runRDMARTRDiagnosticCommand at fA envA wA = Some (errA, Some ouA, wA')" "ou_asked ouA = Some (lA, rA)"
    and B: "runRDMARTRDiagnosticCommand at fB envB wB = Some (errB, Some ouB, wB')" "ou_asked ouB = Some (lB, rB)"
    and files: "\<And>k. te_file envA k \<in> {NotExist, HoldsRecord (the (rp_Local (ou_report ouB)))}"
      "\<And>k. te_file envB k \<in> {NotExist, HoldsRecord (the (rp_Local (ou_report ouA)))}"
  shows "rA = lB \<and> rB = lA \<and> de_QPN lA \<noteq> 0 \<and> de_QPN lB \<noteq> 0"
proof -
  note a = rtr_run_asked [OF A] and b = rtr_run_asked [OF B]
  obtain k rec where ka: "te_file envA k = HoldsRecord rec" "record_destination at rec = Inr rA" using a(2) by blast
  obtain m rec' where kb: "te_file envB m = HoldsRecord rec'" "record_destination at rec' = Inr rB" using b(2) by blast
  have "rec = newRTRDestinationRecord at (tf_device fB) (tf_routeInterface fB) (te_now envB 1) lB"
    using files(1) [of k] ka(1) b(1) by simp
  moreover have "rec' = newRTRDestinationRecord at (tf_device fA) (tf_routeInterface fA) (te_now envA 1) lA"
    using files(2) [of m] kb(1) a(1) by simp
  ultimately show ?thesis using ka(2) kb(2) by (simp add: rtr_record_roundtrip [OF net [OF gids(1)]] rtr_record_roundtrip [OF net [OF gids(2)]] split: if_splits)
qed

section \<open>Both ends of the TCP diagnostic agree\<close>

definition fresh_conn :: "bytes \<Rightarrow> tcp_conn" where
  "fresh_conn b = \<lparr> tc_in = b, tc_end = EndEOF, tc_out = [], tc_limit = None \<rparr>"

definition sent_by :: "(tcp_error option \<times> tcp_conn option) option \<Rightarrow> bytes" where
  "sent_by r = (case r of Some (_, Some c) \<Rightarrow> tc_out c | _ \<Rightarrow> [])"

definition diagnosed :: "(tcp_error option \<times> tcp_conn option) option \<Rightarrow> bool" where
  "diagnosed r \<longleftrightarrow> (case r of Some (None, _) \<Rightarrow> True | _ \<Rightarrow> False)"

lemma ack_fits: "length tcpDiagnosticAck \<le> maxFrameSize"
  by (simp add: tcpDiagnosticAck_def str_bytes_def maxFrameSize_def)

lemma ReadFrame_closed: "ReadFrame (fresh_conn []) = Some (Inl (ErrMalformedFrame ReadEOF), fresh_conn [])"
  by (simp add: ReadFrame_def ReadFull_def fresh_conn_def read_fail_def)

lemma serve_frame:
  assumes "length p \<le> maxFrameSize"
  shows "serveTCPDiagnostic (Inr (fresh_conn (frame p))) q =
    Some (if p = q then None else Some TcpPayloadMismatch,
          Some ((fresh_conn [])\<lparr>tc_out := if p = q then frame tcpDiagnosticAck else []\<rparr>))"
proof -
  have "ReadFrame (fresh_conn (frame p)) = Some (Inr p, fresh_conn [])"
    using ReadFrame_frame [OF assms, of "fresh_conn (frame p)" "[]"] by (simp add: fresh_conn_def)
  moreover have "WriteFrame tcpDiagnosticAck (fresh_conn []) = (None, (fresh_conn [])\<lparr>tc_out := frame tcpDiagnosticAck\<rparr>)"
    using WriteFrame_ok [OF _ ack_fits, of "fresh_conn []"] by (simp add: fresh_conn_def)
  ultimately show ?thesis by (simp add: serveTCPDiagnostic_def serve_accepted_def) (simp add: fresh_conn_def)
qed

text \<open>
  A dialer with payload \<open>p\<close> and a listener that expects \<open>q\<close>, each reading what the other wrote until it closed: both
  succeed when \<open>p = q\<close> and the payload fits a frame, and otherwise both return an error.
\<close>

lemma tcp_diagnostic_agrees:
  assumes "dialer = tcpDiagnosticDial (Inr (fresh_conn (sent_by listener))) p"
    "listener = serveTCPDiagnostic (Inr (fresh_conn (sent_by dialer))) q"
  shows "dialer \<noteq> None \<and> listener \<noteq> None \<and> (diagnosed dialer \<longleftrightarrow> diagnosed listener) \<and>
    (diagnosed dialer \<longleftrightarrow> p = q \<and> length p \<le> maxFrameSize)"
proof (cases "length p \<le> maxFrameSize")
  case True
  let ?c = "fresh_conn (sent_by listener)"
  have w: "WriteFrame p ?c = (None, ?c\<lparr>tc_out := frame p\<rparr>)"
    using WriteFrame_ok [OF _ True, of ?c] by (simp add: fresh_conn_def)
  have ends: "\<exists>r c'. ReadFrame (?c\<lparr>tc_out := frame p\<rparr>) = Some (r, c') \<and> tc_out c' = frame p"
    by (auto simp: ReadFrame_def ReadFull_def fresh_conn_def Let_def split: option.splits sum.splits if_splits)
  then obtain r c' where r: "ReadFrame (?c\<lparr>tc_out := frame p\<rparr>) = Some (r, c')" "tc_out c' = frame p" by blast
  then have sent: "sent_by dialer = frame p"
    unfolding assms(1) tcpDiagnosticDial_def sum.case w prod.case option.case r(1) by (cases r) (simp_all add: sent_by_def)
  have L: "listener = Some (if p = q then None else Some TcpPayloadMismatch,
          Some ((fresh_conn [])\<lparr>tc_out := if p = q then frame tcpDiagnosticAck else []\<rparr>))"
    using assms(2) serve_frame [OF True] sent by simp
  show ?thesis
  proof (cases "p = q")
    case True
    then have "?c = fresh_conn (frame tcpDiagnosticAck)" using L by (simp add: sent_by_def)
    then have "ReadFrame (?c\<lparr>tc_out := frame p\<rparr>) = Some (Inr tcpDiagnosticAck, (fresh_conn [])\<lparr>tc_out := frame p\<rparr>)"
      using ReadFrame_frame [OF ack_fits, of "?c\<lparr>tc_out := frame p\<rparr>" "[]"] by (simp add: fresh_conn_def)
    then show ?thesis
      using w True \<open>length p \<le> maxFrameSize\<close> L unfolding assms(1) tcpDiagnosticDial_def by (simp add: diagnosed_def)
  next
    case False
    then have "?c = fresh_conn []" using L by (simp add: sent_by_def fresh_conn_def)
    then have "ReadFrame (?c\<lparr>tc_out := frame p\<rparr>) = Some (Inl (ErrMalformedFrame ReadEOF), ?c\<lparr>tc_out := frame p\<rparr>)"
      by (simp add: ReadFrame_def ReadFull_def fresh_conn_def read_fail_def)
    then show ?thesis
      using w False L unfolding assms(1) tcpDiagnosticDial_def by (simp add: diagnosed_def)
  qed
next
  case False
  then have D: "dialer = Some (Some (TcpWrite ErrFrameTooLarge), Some (fresh_conn (sent_by listener)))"
    using assms(1) by (simp add: tcpDiagnosticDial_def WriteFrame_def)
  then have "sent_by dialer = []" by (simp add: sent_by_def fresh_conn_def)
  then have "listener = Some (Some (TcpRead (ErrMalformedFrame ReadEOF)), Some (fresh_conn []))"
    using assms(2) ReadFrame_closed by (simp add: serveTCPDiagnostic_def serve_accepted_def)
  then show ?thesis using D False by (simp add: diagnosed_def)
qed

end
