(* ===== verification/Spec2Isabelle.thy ===== *)
theory Spec2Isabelle
  imports Connections Admission SlotLedger Devices Collectives Maintenance Config Client Group Streams SideChannel
    Hardware Wiring DaemonStart DaemonBackend Listener Diagnostics
begin

text \<open>
  Verification of gojaccl: collective communication over RDMA, and the daemon \<^verbatim>\<open>jaccld\<close> that owns the
  hardware resources of a host.

  \<^bold>\<open>The program.\<close>  A group of ranks (\<^verbatim>\<open>group.go\<close>, \<^verbatim>\<open>collective.go\<close>, \<^verbatim>\<open>p2p.go\<close>, \<^verbatim>\<open>stream.go\<close>, configured by
  \<^verbatim>\<open>config.go\<close>) communicates over links that a matrix of device names describes
  (\<^verbatim>\<open>internal/topology\<close>; \<^verbatim>\<open>cmd/jacclproof/devices.go\<close> generates such matrices).  A rank either opens
  the devices itself (\<^verbatim>\<open>backend.go\<close>) or goes through the daemon (\<^verbatim>\<open>daemon_backend.go\<close>); ranks find each other
  over TCP (\<^verbatim>\<open>internal/tcpchan\<close>).  The daemon (\<^verbatim>\<open>cmd/jaccld/main.go\<close>) keeps a slab of registered
  memory (\<^verbatim>\<open>internal/allocator\<close>), pools of queue pairs, completion queues and memory windows and a store
  of sessions made of them (\<^verbatim>\<open>internal/jaccld/resource\<close>), serves clients over a socket
  (\<^verbatim>\<open>internal/ipc\<close>), moves data for them over its own connections (\<^verbatim>\<open>cmd/jaccld/transport.go\<close>), keeps
  these alive (\<^verbatim>\<open>internal/keepalive\<close>), shuts data operations out while it maintains them
  (\<^verbatim>\<open>cmd/jaccld/admission.go\<close>) and counts hardware slots across restarts
  (\<^verbatim>\<open>cmd/jaccld/slot_ledger.go\<close>).  Reductions work on bytes (\<^verbatim>\<open>internal/reduce\<close>).

  \<^bold>\<open>Theories\<close>, in the order of their imports.

  \<^item> \<open>Prelude\<close>: 64-bit integers with wrap-around, maps, contexts, instants; shared lemmas.
  \<^item> \<open>GoStrings\<close>: what the code uses of \<^verbatim>\<open>strings\<close>, \<^verbatim>\<open>strconv\<close> and \<^verbatim>\<open>encoding/binary\<close>.
  \<^item> \<open>Paths\<close>: what it uses of \<^verbatim>\<open>path/filepath\<close>; cleaning a path is idempotent.
  \<^item> \<open>Slab\<close>: \<^verbatim>\<open>internal/allocator/slab.go\<close>.  The free list and the leases partition the slab (C1);
    \<open>Alloc\<close> and \<open>Free\<close> are exact, complete and inverse (C2--C4).  The locale \<open>byte_allocator\<close> is the contract
    the pools, the server and the transport rely on.
  \<^item> \<open>Resource\<close>, \<open>Pools\<close>, \<open>Store\<close>, \<open>Sessions\<close>: \<^verbatim>\<open>internal/jaccld/resource\<close>.  The store is polymorphic in
    its pools; locales state the laws of a pool and of the three pools together, lemmas about the store are
    proved in them, and \<open>Sessions\<close> interprets them on the daemon's pools.  Sessions are isolated and nothing
    leaks (C5, C6), a failed open is atomic (C7), a cancelled close loses handles (C8); further lemmas show each
    operation exact on every branch, that states only advance and that expiry is final.
  \<^item> \<open>Ipc\<close>, \<open>Connections\<close>: \<^verbatim>\<open>internal/ipc/server.go\<close> and \<^verbatim>\<open>protocol.go\<close>.  Every operation of the
    request loop is a function on the server and the connection; \<open>ipc_step\<close> interleaves any number of
    connections, their clean-ups and the store's own loops.  Connections are isolated (C16), the range checks
    are exact in 64-bit arithmetic (C17, C18), the clean-up returns exactly what a connection holds (C19).
  \<^item> \<open>Listener\<close>: the listening socket of the server.  Connections are served only on a private socket in a directory
    of the owner, unless the path has no directory part, and a listener that was opened is closed.
  \<^item> \<open>Client\<close>, \<open>DaemonBackend\<close>: \<^verbatim>\<open>internal/ipc/client.go\<close> and \<^verbatim>\<open>daemon_backend.go\<close>, joined to the request loop.
    The locale \<open>lease_api\<close> is what the backend needs of allocation and release; the client meets it.  Every
    transfer returns and gives back what it leased (C27), a receive hands over the message (C35); a cancelled
    collective frees memory the daemon still works on (C36), and a timed-out read shifts all later answers (C37).
  \<^item> \<open>Config\<close>: accepted configurations are well-formed (C34).
  \<^item> \<open>Group\<close>: the token of a group as a step relation on any number of calls; at most one runs (C31), and a
    cancelled context may still be admitted (C38).  Both backends are records of functions behind one interface.
  \<^item> \<open>Streams\<close>: the writer and reader adapters; the locale \<open>p2p_link\<close> is what they need of sends and receives, and
    it is interpreted on the direct backend: what is written is read (C29).
  \<^item> \<open>Admission\<close>: the gate as a step relation on any number of tasks; exclusion and no lost wake-up (C20, C21).
    A maintenance window opens the gate again exactly once, however often it is finished.
  \<^item> \<open>SlotLedger\<close>: counters and their file (C22).
  \<^item> \<open>Keepalive\<close>: heartbeat rounds; a failed route stays failed (C23).
  \<^item> \<open>Topology\<close>, \<open>Devices\<close>: validation and choice of a topology (C9), its summary, generated matrices.
  \<^item> \<open>Reduce\<close>: element-wise reductions (C10); the locale \<open>reduction\<close> makes results independent of order.
  \<^item> \<open>Backend\<close>: \<^verbatim>\<open>backend.go\<close>.  Staged transfers round-trip (C11), all ranks agree on a reduction (C12)
    and a gather is complete on every accepted topology (C13); C14 and C15 show a dropped peer and locks
    that are never released.
  \<^item> \<open>Transport\<close>: memory ranges, heartbeat leases, polling (C24), sends, receives and heartbeats of the
    daemon's transport.
  \<^item> \<open>Mesh\<close>, \<open>Collectives\<close>: the daemon's exchange, reduction and gather.  The source passes the exchange to
    the other two as a function; the locale \<open>mesh_exchange\<close> is what they need of it, and it is interpreted on
    the daemon's exchange.  C25.
  \<^item> \<open>Maintenance\<close>: maintenance runs between barriers fail closed (C26).
  \<^item> \<open>SideChannel\<close>: \<^verbatim>\<open>internal/tcpchan\<close>: frames, handshake, gather and barrier.  All ranks gather the same list
    (C33), but the addresses of nine or more ranks do not fit a frame (C39).
  \<^item> \<open>Hardware\<close>: provider objects of the daemon and of the direct backend.  What is opened is released on every
    path (C32); a slot whose opening cannot be written stays counted (C40).
  \<^item> \<open>Wiring\<close>: the exchange of queue-pair addresses at start; queue pairs meet in pairs (C30).
  \<^item> \<open>DaemonStart\<close>: the flags, the session store and \<open>run\<close> up to the hardware; the maintenance lease is out of
    reach of every client (C28).
  \<^item> \<open>Diagnostics\<close>: the commands of \<^verbatim>\<open>cmd/jacclctl/main.go\<close> that make provider objects or a TCP connection.  They
    leave no object behind, the transition to ready-to-receive is asked for only behind its gate, two machines ask
    for it with each other's address, and both ends of the TCP diagnostic agree on its outcome.

  \<^bold>\<open>State and effects.\<close>  Structs are records, operations take and return them; a method that may be called
  on nil takes an option.  Errors are values: a datatype per component, with a constructor per message.  A
  mutex-protected method is one step.  System calls, the clock, the provider's answers, the fate of each read and
  write of a socket, the decoding of JSON and the addition of floats are parameters.  What the polls of a
  connection return is a list, and a function that has used it up is still polling, a result of its own.

  \<^bold>\<open>Bounds and fuel.\<close>  Loops over data recurse on it; loops over offsets and the topology search have
  termination proofs with measures.  Loops that wait (\<open>Run\<close>, \<open>RunControlPlaneLiveness\<close>, the request loop,
  polling, accepting and dialling) recurse on the events they receive, and the statements that they return say
  which events suffice.  \<open>WaitWork\<close>, the copy loop of a stream and the wait for the file of a peer may run for ever
  and are partial functions into option; C27 proves that the first returns once the work ends, \<open>wait_exact\<close> when
  the last does.  One definition has fuel: the parser of IPv6
  addresses takes at most eight rounds, the bound of the loop it models.

  \<^bold>\<open>Not modelled.\<close>  The bindings in \<^verbatim>\<open>internal/rdma\<close> and the platform's boot identifier, which are parameters;
  flag parsing, signals and the JSON text of the control protocol; the lines the commands print; the commands that
  measure and report (\<^verbatim>\<open>jacclproof\<close> but for its matrix generator, the tray): they call the modelled components and
  the bindings and format what these return.
\<close>

end
